(* ===== verification/PM_Prelude.thy ===== *)
theory PM_Prelude
  imports Main "HOL-Library.Word" "HOL-Library.Char_ord" "HOL-Library.List_Lexorder"
    "HOL-Library.Monad_Syntax" "HOL-Library.Multiset"
begin

unbundle bit_operations_syntax

text \<open>
  The vocabulary the component theories share.

  \<^item> Names for the machine types of the C++ sources: bytes and unsigned words keep their
    width, durations and time points (\<open>std::int64_t\<close> counts of nanoseconds) are
    \<^typ>\<open>int\<close> with the range predicates \<open>in_int32\<close> and \<open>in_int64\<close>, sizes and counters that
    are only compared and incremented are \<^typ>\<open>nat\<close>.
  \<^item> \<open>std_to_string\<close>, the decimal rendering the error messages use.
  \<^item> Ordered maps: \<open>std::map\<close> is an association list with strictly increasing keys, so that
    iteration order is the one the code sees. The interface its clients rely on is the locale
    \<open>ordered_map\<close>; the association lists interpret it.
  \<^item> Little-endian byte strings and the interface \<open>prefix_codec\<close> of the field encodings
    (an encoding that a decoder reads back from the front of any input), with the facts about
    sequences of fields proved once in the locale.
  \<^item> Transition systems: the locale \<open>transition_system\<close> lifts an inductive invariant to all
    reachable states; the state machines of the runtime, the scheduler and the shared-memory
    ring interpret it.
\<close>

named_theorems status_simps \<open>values of the status constructors\<close>
named_theorems map_simps \<open>laws of ordered maps\<close>
named_theorems codec_simps \<open>decoding what was encoded\<close>

section \<open>Machine types\<close>

type_synonym byte = "8 word"
type_synonym bytes = "byte list"
type_synonym u32 = "32 word"
type_synonym u64 = "64 word"
type_synonym nanoseconds = int
type_synonym time_point = int

definition int64_max :: int where
  "int64_max = 2 ^ 63 - 1"

definition in_int32 :: "int \<Rightarrow> bool" where
  "in_int32 x \<longleftrightarrow> - (2 ^ 31) \<le> x \<and> x < 2 ^ 31"

definition in_int64 :: "int \<Rightarrow> bool" where
  "in_int64 x \<longleftrightarrow> - (2 ^ 63) \<le> x \<and> x < 2 ^ 63"

section \<open>Decimal rendering\<close>

text \<open>\<open>std::to_string\<close> on an unsigned value, and on a signed one.\<close>

definition digit_char :: "nat \<Rightarrow> char" where
  "digit_char d = char_of (48 + d :: nat)"

function decimal :: "nat \<Rightarrow> string" where
  "decimal n = (if n < 10 then [digit_char n] else decimal (n div 10) @ [digit_char (n mod 10)])"
  by pat_completeness auto
termination
  by (relation "measure id") auto

declare decimal.simps [simp del]

definition std_to_string :: "nat \<Rightarrow> string" where
  "std_to_string n = decimal n"

definition std_to_string_int :: "int \<Rightarrow> string" where
  "std_to_string_int i = (if i < 0 then ''-'' @ decimal (nat (- i)) else decimal (nat i))"

lemma decimal_nonempty [simp]: "decimal n \<noteq> []"
  by (subst decimal.simps) simp

section \<open>Lists\<close>

lemma find_SomeD: "find P xs = Some x \<Longrightarrow> P x \<and> x \<in> set xs"
  by (auto simp: find_Some_iff)

lemma set_butlast_tl [simp]: "x \<in> set (tl xs) \<Longrightarrow> x \<in> set xs"
  by (cases xs) auto

section \<open>Ordered maps\<close>

text \<open>
  \<open>std::map\<close> with a strict order on its keys. \<open>omap_emplace\<close> leaves an existing entry alone,
  as \<open>emplace\<close> does, \<open>omap_assign\<close> replaces it, as \<open>operator[]\<close> with an assignment does.
\<close>

type_synonym ('k, 'v) omap = "('k \<times> 'v) list"

definition omap_find :: "('k, 'v) omap \<Rightarrow> 'k \<Rightarrow> 'v option" where
  "omap_find m k = map_of m k"

fun omap_assign :: "'k::linorder \<Rightarrow> 'v \<Rightarrow> ('k, 'v) omap \<Rightarrow> ('k, 'v) omap" where
  "omap_assign k v [] = [(k, v)]"
| "omap_assign k v ((a, b) # m) =
     (if k < a then (k, v) # (a, b) # m
      else if k = a then (k, v) # m
      else (a, b) # omap_assign k v m)"

definition omap_emplace :: "'k::linorder \<Rightarrow> 'v \<Rightarrow> ('k, 'v) omap \<Rightarrow> ('k, 'v) omap" where
  "omap_emplace k v m = (case omap_find m k of None \<Rightarrow> omap_assign k v m | Some _ \<Rightarrow> m)"

definition omap_erase :: "'k \<Rightarrow> ('k, 'v) omap \<Rightarrow> ('k, 'v) omap" where
  "omap_erase k m = filter (\<lambda>e. fst e \<noteq> k) m"

definition omap_ok :: "('k::linorder, 'v) omap \<Rightarrow> bool" where
  "omap_ok m \<longleftrightarrow> sorted_wrt (<) (map fst m)"

definition omap_keys :: "('k, 'v) omap \<Rightarrow> 'k list" where
  "omap_keys m = map fst m"

lemma omap_ok_Nil [simp]: "omap_ok []"
  by (simp add: omap_ok_def)

lemma omap_ok_Cons:
  "omap_ok ((a, b) # m) \<longleftrightarrow> (\<forall>k \<in> fst ` set m. a < k) \<and> omap_ok m"
  by (auto simp: omap_ok_def)

lemma omap_ok_distinct: "omap_ok m \<Longrightarrow> distinct (map fst m)"
  by (auto simp: omap_ok_def strict_sorted_iff)

lemma omap_find_Nil [simp]: "omap_find [] k = None"
  by (simp add: omap_find_def)

lemma set_omap_assign: "fst ` set (omap_assign k v m) = insert k (fst ` set m)"
  by (induction k v m rule: omap_assign.induct) auto

lemma omap_find_assign:
  assumes "omap_ok m"
  shows "omap_find (omap_assign k v m) = (omap_find m)(k \<mapsto> v)"
  using assms
proof (induction k v m rule: omap_assign.induct)
  case (1 k v)
  then show ?case by (auto simp: omap_find_def)
next
  case (2 k v a b m)
  then show ?case by (auto simp: omap_find_def omap_ok_Cons fun_eq_iff)
qed

lemma omap_ok_assign: "omap_ok m \<Longrightarrow> omap_ok (omap_assign k v m)"
  by (induction k v m rule: omap_assign.induct) (auto simp: omap_ok_Cons set_omap_assign)

lemma omap_find_erase: "omap_find (omap_erase k m) = (omap_find m)(k := None)"
  by (induction m) (auto simp: omap_find_def omap_erase_def fun_eq_iff)

lemma omap_ok_erase: "omap_ok m \<Longrightarrow> omap_ok (omap_erase k m)"
  by (induction m) (auto simp: omap_ok_Cons omap_erase_def)

lemma omap_find_keys: "k \<in> set (omap_keys m) \<longleftrightarrow> omap_find m k \<noteq> None"
  by (auto simp: omap_keys_def omap_find_def map_of_eq_None_iff)

lemma omap_keys_sorted: "omap_ok m \<Longrightarrow> sorted (omap_keys m) \<and> distinct (omap_keys m)"
  by (simp add: omap_ok_def omap_keys_def strict_sorted_iff)

text \<open>
  The interface: what its clients (the registries, the channel table, the scheduler's component
  table) rely on, stated over a lookup function. Derived facts are proved here, once.
\<close>

locale ordered_map =
  fixes emp :: "'m"
    and lookup :: "'m \<Rightarrow> 'k \<Rightarrow> 'v option"
    and assign :: "'k \<Rightarrow> 'v \<Rightarrow> 'm \<Rightarrow> 'm"
    and erase :: "'k \<Rightarrow> 'm \<Rightarrow> 'm"
    and ok :: "'m \<Rightarrow> bool"
  assumes lookup_emp: "lookup emp k = None"
    and lookup_assign: "ok m \<Longrightarrow> lookup (assign k v m) = (lookup m)(k \<mapsto> v)"
    and lookup_erase: "ok m \<Longrightarrow> lookup (erase k m) = (lookup m)(k := None)"
    and ok_emp: "ok emp"
    and ok_assign: "ok m \<Longrightarrow> ok (assign k v m)"
    and ok_erase: "ok m \<Longrightarrow> ok (erase k m)"
begin

lemma lookup_assign_same: "ok m \<Longrightarrow> lookup (assign k v m) k = Some v"
  by (simp add: lookup_assign)

lemma lookup_assign_other: "ok m \<Longrightarrow> k' \<noteq> k \<Longrightarrow> lookup (assign k v m) k' = lookup m k'"
  by (simp add: lookup_assign)

lemma lookup_erase_same: "ok m \<Longrightarrow> lookup (erase k m) k = None"
  by (simp add: lookup_erase)

lemma lookup_erase_other: "ok m \<Longrightarrow> k' \<noteq> k \<Longrightarrow> lookup (erase k m) k' = lookup m k'"
  by (simp add: lookup_erase)

lemma erase_assign_absent:
  "ok m \<Longrightarrow> lookup m k = None \<Longrightarrow> lookup (erase k (assign k v m)) = lookup m"
  by (auto simp: lookup_erase lookup_assign ok_assign fun_eq_iff)

lemma dom_assign: "ok m \<Longrightarrow> dom (lookup (assign k v m)) = insert k (dom (lookup m))"
  by (simp add: lookup_assign)

lemma dom_erase: "ok m \<Longrightarrow> dom (lookup (erase k m)) = dom (lookup m) - {k}"
  by (simp add: lookup_erase)

end

interpretation om: ordered_map "[]" omap_find omap_assign omap_erase omap_ok
  by unfold_locales
    (simp_all add: omap_find_assign omap_find_erase omap_ok_assign omap_ok_erase)

lemma omap_ok_emplace: "omap_ok m \<Longrightarrow> omap_ok (omap_emplace k v m)"
  by (auto simp: omap_emplace_def om.ok_assign split: option.split)

lemma omap_find_emplace:
  "omap_ok m \<Longrightarrow> omap_find (omap_emplace k v m) k' =
     (if k' = k \<and> omap_find m k = None then Some v else omap_find m k')"
  by (auto simp: omap_emplace_def om.lookup_assign split: option.split)

lemma omap_ok_filter: "omap_ok m \<Longrightarrow> omap_ok (filter P m)"
  unfolding omap_ok_def by (induction m) (auto simp: sorted_wrt_append)

lemma omap_find_in: "omap_find m k = Some v \<Longrightarrow> (k, v) \<in> set m"
  by (simp add: omap_find_def map_of_SomeD)

lemma omap_in_find: "omap_ok m \<Longrightarrow> (k, v) \<in> set m \<Longrightarrow> omap_find m k = Some v"
  by (simp add: omap_find_def omap_ok_distinct)

lemma mset_omap_assign: "omap_find m k = None \<Longrightarrow> mset (omap_assign k v m) = add_mset (k, v) (mset m)"
  by (induction k v m rule: omap_assign.induct) (auto simp: omap_find_def split: if_splits)

lemma mset_omap_emplace: "omap_find m k = None \<Longrightarrow> mset (omap_emplace k v m) = add_mset (k, v) (mset m)"
  by (simp add: omap_emplace_def mset_omap_assign)

lemma mset_omap_erase:
  assumes "omap_ok m" "omap_find m k = Some v"
  shows "mset m = add_mset (k, v) (mset (omap_erase k m))"
  using assms
proof (induction m)
  case Nil
  then show ?case by simp
next
  case (Cons e m)
  show ?case
  proof (cases "fst e = k")
    case True
    with Cons.prems have "\<forall>x \<in> set m. fst x \<noteq> k" by (cases e) (force simp: omap_ok_Cons)
    then have "filter (\<lambda>x. fst x \<noteq> k) m = m" by (simp add: filter_id_conv)
    with True Cons.prems show ?thesis by (cases e) (simp add: omap_erase_def omap_find_def)
  next
    case False
    with Cons show ?thesis by (cases e) (simp add: omap_erase_def omap_find_def omap_ok_Cons)
  qed
qed

lemmas omap_laws [map_simps] =
  om.lookup_assign om.lookup_erase om.ok_assign om.ok_erase omap_ok_emplace omap_find_emplace

section \<open>Little-endian byte strings\<close>

text \<open>
  The writers of the sources emit byte \<open>index\<close> as \<open>bits >> (8 * index)\<close>; the readers rebuild
  the word by or-ing the shifted bytes (\<open>PortableReader::Take\<close>) or by shifting an accumulator
  (\<open>GetU32\<close>, \<open>GetU64\<close>). Both readers have the bits of the bytes, so both invert the writer.
\<close>

definition put_le :: "nat \<Rightarrow> 'a::len word \<Rightarrow> bytes" where
  "put_le n w = map (\<lambda>i. ucast (drop_bit (8 * i) w)) [0..<n]"

fun get_le_shift :: "bytes \<Rightarrow> 'a::len word" where
  "get_le_shift [] = 0"
| "get_le_shift (b # bs) = push_bit 8 (get_le_shift bs) OR ucast b"

definition get_le_or :: "bytes \<Rightarrow> 'a::len word" where
  "get_le_or bs = fold (\<lambda>i w. w OR push_bit (8 * i) (ucast (bs ! i))) [0..<length bs] 0"

lemma length_put_le [simp]: "length (put_le n w) = n"
  by (simp add: put_le_def)

lemma nth_put_le: "i < n \<Longrightarrow> put_le n w ! i = ucast (drop_bit (8 * i) w)"
  by (simp add: put_le_def)

lemma bit_get_le_shift:
  "bit (get_le_shift bs :: 'a::len word) k \<longleftrightarrow>
     k < LENGTH('a) \<and> k div 8 < length bs \<and> bit (bs ! (k div 8)) (k mod 8)"
proof (induction bs arbitrary: k)
  case Nil
  then show ?case by simp
next
  case (Cons b bs)
  show ?case
  proof (cases "k < 8")
    case True
    then show ?thesis by (auto simp: bit_simps)
  next
    case False
    then have "k div 8 = Suc ((k - 8) div 8)" "k mod 8 = (k - 8) mod 8"
      by (auto simp: le_div_geq le_mod_geq)
    moreover from False have "\<not> bit b k"
      using bit_imp_le_length [of b k] by auto
    ultimately show ?thesis
      using False Cons [of "k - 8"] by (auto simp: bit_simps)
  qed
qed

lemma bit_fold_or:
  fixes f :: "nat \<Rightarrow> 'a::len word"
  shows "bit (fold (\<lambda>i w. w OR f i) is w0) k \<longleftrightarrow> bit w0 k \<or> (\<exists>i \<in> set is. bit (f i) k)"
  by (induction "is" arbitrary: w0) (auto simp: bit_simps)

lemma bit_get_le_or:
  "bit (get_le_or bs :: 'a::len word) k \<longleftrightarrow>
     k < LENGTH('a) \<and> k div 8 < length bs \<and> bit (bs ! (k div 8)) (k mod 8)"
proof -
  have shifted: "bit (push_bit (8 * i) (ucast b) :: 'a word) k \<longleftrightarrow>
      k < LENGTH('a) \<and> i = k div 8 \<and> bit b (k mod 8)" for i and b :: byte
  proof -
    have "8 * i \<le> k \<and> k - 8 * i < 8 \<longleftrightarrow> i = k div 8" by auto
    moreover have "i = k div 8 \<Longrightarrow> k - 8 * i = k mod 8" by (simp add: minus_mult_div_eq_mod)
    moreover have "bit b j \<Longrightarrow> j < 8" for j using bit_imp_le_length [of b j] by simp
    ultimately show ?thesis by (auto simp: bit_simps)
  qed
  show ?thesis
    unfolding get_le_or_def bit_fold_or shifted by auto
qed

lemma get_le_or_eq_shift: "get_le_or bs = get_le_shift bs"
  by (rule bit_word_eqI) (simp add: bit_get_le_or bit_get_le_shift)

lemma get_put_le:
  fixes w :: "'a::len word"
  assumes "LENGTH('a) \<le> 8 * n"
  shows "get_le_shift (put_le n w) = w"
proof (rule bit_word_eqI)
  fix k assume k: "k < LENGTH('a)"
  with assms have "k div 8 < n" by auto
  with k show "bit (get_le_shift (put_le n w) :: 'a word) k = bit w k"
    by (simp add: bit_get_le_shift nth_put_le bit_simps)
qed

lemma get_put_le_take_bit:
  fixes w :: "'a::len word"
  shows "get_le_shift (put_le n w) = take_bit (8 * n) w"
proof (rule bit_word_eqI)
  fix k assume k: "k < LENGTH('a)"
  have "k div 8 < n \<longleftrightarrow> k < 8 * n" by auto
  with k show "bit (get_le_shift (put_le n w) :: 'a word) k = bit (take_bit (8 * n) w) k"
    by (auto simp: bit_get_le_shift nth_put_le bit_simps)
qed

lemma put_get_le:
  assumes "8 * length bs \<le> LENGTH('a)"
  shows "put_le (length bs) (get_le_shift bs :: 'a::len word) = bs"
proof (rule nth_equalityI)
  show "length (put_le (length bs) (get_le_shift bs :: 'a word)) = length bs" by simp
  fix i assume "i < length (put_le (length bs) (get_le_shift bs :: 'a word))"
  then have i: "i < length bs" by simp
  show "put_le (length bs) (get_le_shift bs :: 'a word) ! i = bs ! i"
  proof (rule bit_word_eqI)
    fix k assume k: "k < LENGTH(8)"
    with assms i have "8 * i + k < LENGTH('a)" by simp
    with k i show "bit (put_le (length bs) (get_le_shift bs :: 'a word) ! i) k = bit (bs ! i) k"
      by (simp add: nth_put_le bit_simps bit_get_le_shift)
  qed
qed

section \<open>Characters as bytes\<close>

definition byte_of_char :: "char \<Rightarrow> byte" where
  "byte_of_char c = word_of_nat (of_char c)"

definition char_of_byte :: "byte \<Rightarrow> char" where
  "char_of_byte b = char_of (unat b)"

lemma char_of_byte_of_char [simp]: "char_of_byte (byte_of_char c) = c"
proof -
  have "(of_char c :: nat) < 256"
    by (metis nat_of_char_less_256)
  then have "unat (byte_of_char c) = of_char c"
    by (simp add: byte_of_char_def unat_of_nat)
  then show ?thesis by (simp add: char_of_byte_def)
qed

lemma byte_of_char_of_byte [simp]: "byte_of_char (char_of_byte b) = b"
  using unsigned_less [of b, where ?'a = nat] by (simp add: byte_of_char_def char_of_byte_def)

lemma map_char_of_byte [simp]: "map char_of_byte (map byte_of_char s) = s"
  by (simp add: comp_def)

section \<open>Field encodings\<close>

text \<open>
  A reader of the sources holds a byte buffer and an offset into it. A field encoding is an
  encoder and such a reader, for the values \<open>valid\<close> picks out; the law is that wherever the
  buffer holds the encoding at the offset, the reader returns the value and moves past it.
\<close>

lemma drop_after: "drop off b = xs @ ys \<Longrightarrow> drop (off + length xs) b = ys"
  by (metis add.commute append_eq_conv_conj drop_drop)

lemma length_after: "drop off b = xs @ ys \<Longrightarrow> off \<le> length b \<Longrightarrow> off + length xs + length ys = length b"
  by (drule arg_cong [where f = length]) simp

fun read_seq :: "(bytes \<Rightarrow> nat \<Rightarrow> ('a \<times> nat) option) \<Rightarrow> nat \<Rightarrow> bytes \<Rightarrow> nat \<Rightarrow> ('a list \<times> nat) option" where
  "read_seq rd 0 b off = Some ([], off)"
| "read_seq rd (Suc n) b off =
     do { (x, off') \<leftarrow> rd b off; (xs, off'') \<leftarrow> read_seq rd n b off'; Some (x # xs, off'') }"

locale field_codec =
  fixes enc :: "'a \<Rightarrow> bytes"
    and rd :: "bytes \<Rightarrow> nat \<Rightarrow> ('a \<times> nat) option"
    and valid :: "'a \<Rightarrow> bool"
  assumes read_enc: "valid x \<Longrightarrow> off \<le> length b \<Longrightarrow> drop off b = enc x @ rest \<Longrightarrow>
    rd b off = Some (x, off + length (enc x))"
begin

lemma read_at: "valid x \<Longrightarrow> rd (pre @ enc x @ rest) (length pre) = Some (x, length pre + length (enc x))"
  by (rule read_enc) simp_all

lemma enc_prefix_unique:
  assumes "valid x" "valid y" "enc x @ r = enc y @ s"
  shows "x = y \<and> r = s"
proof -
  have "rd (enc x @ r) 0 = Some (x, length (enc x))"
    using read_at [OF assms(1), of "[]" r] by simp
  moreover have "rd (enc x @ r) 0 = Some (y, length (enc y))"
    using read_at [OF assms(2), of "[]" s] assms(3) by simp
  ultimately have "x = y" by simp
  with assms(3) show ?thesis by simp
qed

lemma enc_inj: "valid x \<Longrightarrow> valid y \<Longrightarrow> enc x = enc y \<Longrightarrow> x = y"
  using enc_prefix_unique [of x y "[]" "[]"] by simp

lemma read_seq_enc:
  assumes "\<forall>x \<in> set xs. valid x" "off \<le> length b" "drop off b = concat (map enc xs) @ rest"
  shows "read_seq rd (length xs) b off = Some (xs, off + length (concat (map enc xs)))"
  using assms
proof (induction xs arbitrary: off)
  case Nil
  then show ?case by simp
next
  case (Cons x xs)
  from Cons.prems have d: "drop off b = enc x @ concat (map enc xs) @ rest" by simp
  have x: "rd b off = Some (x, off + length (enc x))"
    using Cons.prems(1,2) d by (intro read_enc) auto
  have len: "off + length (enc x) \<le> length b" using length_after [OF d] Cons.prems(2) by simp
  note drop_after [OF d]
  with Cons.IH [of "off + length (enc x)"] Cons.prems(1) len x show ?case
    by (simp add: add.assoc)
qed

end

text \<open>
  The converse law: whatever the reader accepts is the encoding of the value it returns, so it
  never reads outside the buffer and every value has one encoding.
\<close>

locale exact_reader =
  fixes enc :: "'a \<Rightarrow> bytes"
    and rd :: "bytes \<Rightarrow> nat \<Rightarrow> ('a \<times> nat) option"
    and good :: "'a \<Rightarrow> bool"
  assumes read_exact: "rd b off = Some (x, off') \<Longrightarrow> off \<le> length b \<Longrightarrow>
    good x \<and> off' = off + length (enc x) \<and> (\<exists>rest. drop off b = enc x @ rest)"
begin

lemma read_in_bounds:
  assumes "rd b off = Some (x, off')" "off \<le> length b"
  shows "off' \<le> length b"
proof -
  from read_exact [OF assms] obtain rest where "off' = off + length (enc x)" "drop off b = enc x @ rest" by auto
  with length_after [of off b "enc x" rest] assms(2) show ?thesis by simp
qed

lemma read_seq_exact:
  assumes "read_seq rd n b off = Some (xs, off')" "off \<le> length b"
  shows "list_all good xs \<and> length xs = n \<and> off' = off + length (concat (map enc xs))
    \<and> (\<exists>rest. drop off b = concat (map enc xs) @ rest)"
  using assms
proof (induction n arbitrary: off xs)
  case 0
  then show ?case by simp
next
  case (Suc n)
  then obtain x off1 ys where x: "rd b off = Some (x, off1)"
    and ys: "read_seq rd n b off1 = Some (ys, off')" and xs: "xs = x # ys"
    by (auto split: bind_splits)
  from read_exact [OF x Suc.prems(2)] obtain r
    where r: "good x" "off1 = off + length (enc x)" "drop off b = enc x @ r" by auto
  from Suc.IH [OF ys read_in_bounds [OF x Suc.prems(2)]] obtain r'
    where r': "list_all good ys" "length ys = n" "off' = off1 + length (concat (map enc ys))"
      "drop off1 b = concat (map enc ys) @ r'" by auto
  have "drop off1 b = r" using drop_after [OF r(3)] r(2) by simp
  with r(3) r'(4) xs have "drop off b = concat (map enc xs) @ r'" by simp
  moreover have "list_all good xs" "length xs = Suc n" "off' = off + length (concat (map enc xs))"
    using r r' xs by simp_all
  ultimately show ?case by blast
qed

end

section \<open>Transition systems\<close>

text \<open>
  A component with state is its initial states and the steps its operations make. A predicate
  that holds initially and that every step keeps holds in every state a run reaches.
\<close>

locale transition_system =
  fixes init :: "'s \<Rightarrow> bool"
    and step :: "'s \<Rightarrow> 's \<Rightarrow> bool"
    and inv :: "'s \<Rightarrow> bool"
  assumes inv_init: "init s \<Longrightarrow> inv s"
    and inv_step: "inv s \<Longrightarrow> step s t \<Longrightarrow> inv t"
begin

lemma inv_run: "step\<^sup>*\<^sup>* s t \<Longrightarrow> inv s \<Longrightarrow> inv t"
  by (induction rule: rtranclp_induct) (auto intro: inv_step)

lemma inv_reachable: "init s \<Longrightarrow> step\<^sup>*\<^sup>* s t \<Longrightarrow> inv t"
  by (auto intro: inv_run inv_init)

lemma mono_run:
  assumes run: "step\<^sup>*\<^sup>* s t" and "inv s"
    and mono: "\<And>s t. inv s \<Longrightarrow> step s t \<Longrightarrow> (f s :: 'b::preorder) \<le> f t"
  shows "f s \<le> f t"
  using run \<open>inv s\<close>
proof (induction rule: rtranclp_induct)
  case base
  then show ?case by simp
next
  case (step y z)
  then have "inv y" by (blast intro: inv_run)
  with step mono show ?case by (meson order_trans)
qed

end

end
