(* ===== verification/Core_Types.thy ===== *)
theory Core_Types
  imports PM_Prelude
begin

text \<open>
  The transport-neutral core: \<open>include/puppet_master/core\<close> (status codes, results, names,
  message policies, topic and trigger declarations) and the data of
  \<open>include/puppet_master/transport/message.h\<close> and \<open>transport.h\<close> (byte views, descriptors,
  messages, endpoint configurations).

  A \<open>Status\<close> keeps its message text, so every error branch of the model names the text the code
  produces. \<open>Result<T>\<close> is modelled twice: as the class with its two fields
  (\<open>cpp_result\<close>) and as the sum type \<^typ>\<open>'e + 'a\<close> that the other theories use; the lemmas on
  \<open>abs_result\<close> show that the class's operations act on the sum as the model assumes.
\<close>

section \<open>Status\<close>

datatype status_code =
    kOk | kCancelled | kUnknown | kInvalidArgument | kNotFound | kAlreadyExists
  | kFailedPrecondition | kOutOfRange | kPermissionDenied | kResourceExhausted | kUnsupported
  | kUnavailable | kDeadlineExceeded | kDataLoss | kInternal

fun StatusCodeName :: "status_code \<Rightarrow> string" where
  "StatusCodeName kOk = ''ok''"
| "StatusCodeName kCancelled = ''cancelled''"
| "StatusCodeName kUnknown = ''unknown''"
| "StatusCodeName kInvalidArgument = ''invalid_argument''"
| "StatusCodeName kNotFound = ''not_found''"
| "StatusCodeName kAlreadyExists = ''already_exists''"
| "StatusCodeName kFailedPrecondition = ''failed_precondition''"
| "StatusCodeName kOutOfRange = ''out_of_range''"
| "StatusCodeName kPermissionDenied = ''permission_denied''"
| "StatusCodeName kResourceExhausted = ''resource_exhausted''"
| "StatusCodeName kUnsupported = ''unsupported''"
| "StatusCodeName kUnavailable = ''unavailable''"
| "StatusCodeName kDeadlineExceeded = ''deadline_exceeded''"
| "StatusCodeName kDataLoss = ''data_loss''"
| "StatusCodeName kInternal = ''internal''"

record status =
  st_code :: status_code
  st_message :: string

definition Status_Ok :: status where
  "Status_Ok = \<lparr>st_code = kOk, st_message = []\<rparr>"

definition Status_Error :: "status_code \<Rightarrow> string \<Rightarrow> status" where
  "Status_Error code message =
     (if code = kOk then Status_Ok else \<lparr>st_code = code, st_message = message\<rparr>)"

definition Status_Cancelled :: "string \<Rightarrow> status" where
  "Status_Cancelled m = Status_Error kCancelled m"

definition Status_InvalidArgument :: "string \<Rightarrow> status" where
  "Status_InvalidArgument m = Status_Error kInvalidArgument m"

definition Status_NotFound :: "string \<Rightarrow> status" where
  "Status_NotFound m = Status_Error kNotFound m"

definition Status_AlreadyExists :: "string \<Rightarrow> status" where
  "Status_AlreadyExists m = Status_Error kAlreadyExists m"

definition Status_FailedPrecondition :: "string \<Rightarrow> status" where
  "Status_FailedPrecondition m = Status_Error kFailedPrecondition m"

definition Status_OutOfRange :: "string \<Rightarrow> status" where
  "Status_OutOfRange m = Status_Error kOutOfRange m"

definition Status_ResourceExhausted :: "string \<Rightarrow> status" where
  "Status_ResourceExhausted m = Status_Error kResourceExhausted m"

definition Status_Unsupported :: "string \<Rightarrow> status" where
  "Status_Unsupported m = Status_Error kUnsupported m"

definition Status_Unavailable :: "string \<Rightarrow> status" where
  "Status_Unavailable m = Status_Error kUnavailable m"

definition Status_DeadlineExceeded :: "string \<Rightarrow> status" where
  "Status_DeadlineExceeded m = Status_Error kDeadlineExceeded m"

definition Status_DataLoss :: "string \<Rightarrow> status" where
  "Status_DataLoss m = Status_Error kDataLoss m"

definition Status_Internal :: "string \<Rightarrow> status" where
  "Status_Internal m = Status_Error kInternal m"

definition status_ok :: "status \<Rightarrow> bool" where
  "status_ok s \<longleftrightarrow> st_code s = kOk"

definition Status_ToString :: "status \<Rightarrow> string" where
  "Status_ToString s =
     (if st_message s = [] then StatusCodeName (st_code s)
      else StatusCodeName (st_code s) @ '': '' @ st_message s)"

lemmas status_defs =
  Status_Cancelled_def Status_InvalidArgument_def Status_NotFound_def Status_AlreadyExists_def
  Status_FailedPrecondition_def Status_OutOfRange_def Status_ResourceExhausted_def
  Status_Unsupported_def Status_Unavailable_def Status_DeadlineExceeded_def Status_DataLoss_def
  Status_Internal_def

lemma st_code_simps [simp, status_simps]:
  "st_code Status_Ok = kOk"
  "st_code (Status_Error c m) = c"
  "st_code (Status_Cancelled m) = kCancelled"
  "st_code (Status_InvalidArgument m) = kInvalidArgument"
  "st_code (Status_NotFound m) = kNotFound"
  "st_code (Status_AlreadyExists m) = kAlreadyExists"
  "st_code (Status_FailedPrecondition m) = kFailedPrecondition"
  "st_code (Status_OutOfRange m) = kOutOfRange"
  "st_code (Status_ResourceExhausted m) = kResourceExhausted"
  "st_code (Status_Unsupported m) = kUnsupported"
  "st_code (Status_Unavailable m) = kUnavailable"
  "st_code (Status_DeadlineExceeded m) = kDeadlineExceeded"
  "st_code (Status_DataLoss m) = kDataLoss"
  "st_code (Status_Internal m) = kInternal"
  by (simp_all add: status_defs Status_Error_def Status_Ok_def)

lemma status_ok_simps [simp, status_simps]:
  "status_ok Status_Ok"
  "status_ok (Status_Error c m) \<longleftrightarrow> c = kOk"
  "\<not> status_ok (Status_Cancelled m)"
  "\<not> status_ok (Status_InvalidArgument m)"
  "\<not> status_ok (Status_NotFound m)"
  "\<not> status_ok (Status_AlreadyExists m)"
  "\<not> status_ok (Status_FailedPrecondition m)"
  "\<not> status_ok (Status_OutOfRange m)"
  "\<not> status_ok (Status_ResourceExhausted m)"
  "\<not> status_ok (Status_Unsupported m)"
  "\<not> status_ok (Status_Unavailable m)"
  "\<not> status_ok (Status_DeadlineExceeded m)"
  "\<not> status_ok (Status_DataLoss m)"
  "\<not> status_ok (Status_Internal m)"
  by (simp_all add: status_ok_def)

text \<open>\<open>StatusCodeName\<close> tells all codes apart, so a logged status names its code.\<close>

lemma StatusCodeName_inj: "StatusCodeName a = StatusCodeName b \<Longrightarrow> a = b"
  by (cases a; cases b) simp_all

text \<open>
  The two shapes every validation in the sources has: return the first status that is not ok,
  and check each element of a list in order.
\<close>

definition and_then :: "status \<Rightarrow> status \<Rightarrow> status" where
  "and_then s t = (if \<not> status_ok s then s else t)"

fun validate_each :: "('a \<Rightarrow> status) \<Rightarrow> 'a list \<Rightarrow> status" where
  "validate_each f [] = Status_Ok"
| "validate_each f (x # xs) = and_then (f x) (validate_each f xs)"

lemma status_ok_and_then [simp]: "status_ok (and_then s t) \<longleftrightarrow> status_ok s \<and> status_ok t"
  by (simp add: and_then_def)

lemma status_ok_validate_each [simp]: "status_ok (validate_each f xs) \<longleftrightarrow> (\<forall>x \<in> set xs. status_ok (f x))"
  by (induction xs) auto

section \<open>Result\<close>

text \<open>\<open>Result<T>\<close> as its class has it: an optional value and a status.\<close>

record 'a cpp_result =
  res_value :: "'a option"
  res_status :: status

definition NormalizeError :: "status \<Rightarrow> status" where
  "NormalizeError s =
     (if status_ok s then Status_Internal ''Result<T> cannot store an OK status without a value'' else s)"

definition Result_of_value :: "'a \<Rightarrow> 'a cpp_result" where
  "Result_of_value v = \<lparr>res_value = Some v, res_status = Status_Ok\<rparr>"

definition Result_FromStatus :: "status \<Rightarrow> 'a cpp_result" where
  "Result_FromStatus s = \<lparr>res_value = None, res_status = NormalizeError s\<rparr>"

definition Result_ok :: "'a cpp_result \<Rightarrow> bool" where
  "Result_ok r \<longleftrightarrow> res_value r \<noteq> None"

text \<open>\<open>value()\<close> throws \<open>std::logic_error\<close> with the status text when there is no value.\<close>

definition Result_value :: "'a cpp_result \<Rightarrow> string + 'a" where
  "Result_value r = (case res_value r of None \<Rightarrow> Inl (Status_ToString (res_status r)) | Some v \<Rightarrow> Inr v)"

definition result_inv :: "'a cpp_result \<Rightarrow> bool" where
  "result_inv r \<longleftrightarrow> (res_value r = None \<longleftrightarrow> \<not> status_ok (res_status r))"

type_synonym 'a result = "status + 'a"

definition FromStatus :: "status \<Rightarrow> 'a result" where
  "FromStatus s = Inl (NormalizeError s)"

definition abs_result :: "'a cpp_result \<Rightarrow> 'a result" where
  "abs_result r = (case res_value r of None \<Rightarrow> Inl (res_status r) | Some v \<Rightarrow> Inr v)"

definition result_ok :: "'a result \<Rightarrow> bool" where
  "result_ok r = (case r of Inl _ \<Rightarrow> False | Inr _ \<Rightarrow> True)"

definition result_bind :: "'a result \<Rightarrow> ('a \<Rightarrow> 'b result) \<Rightarrow> 'b result" where
  "result_bind r f = (case r of Inl s \<Rightarrow> Inl s | Inr v \<Rightarrow> f v)"

definition result_status :: "'a result \<Rightarrow> status" where
  "result_status r = (case r of Inl s \<Rightarrow> s | Inr _ \<Rightarrow> Status_Ok)"

lemma NormalizeError_not_ok [simp]: "\<not> status_ok (NormalizeError s)"
  by (simp add: NormalizeError_def)

lemma NormalizeError_id [simp]: "\<not> status_ok s \<Longrightarrow> NormalizeError s = s"
  by (simp add: NormalizeError_def)

lemma result_simps [simp]:
  "result_ok (Inl s) = False" "result_ok (Inr v) = True"
  "result_status (Inl s) = s" "result_status (Inr v) = Status_Ok"
  by (simp_all add: result_ok_def result_status_def)

lemma FromStatus_eq_Inr [simp]: "FromStatus s \<noteq> Inr v" "Inr v \<noteq> FromStatus s"
  by (simp_all add: FromStatus_def)

lemma FromStatus_eq_Inl [simp]: "FromStatus s = Inl t \<longleftrightarrow> t = NormalizeError s"
  by (auto simp: FromStatus_def)

lemma result_ok_FromStatus [simp]: "\<not> result_ok (FromStatus s)"
  by (simp add: FromStatus_def)

lemma result_bind_simps [simp]:
  "result_bind (Inl s) f = Inl s" "result_bind (Inr v) f = f v"
  by (simp_all add: result_bind_def)

lemma result_bind_eq_Inr [simp]: "result_bind r f = Inr y \<longleftrightarrow> (\<exists>x. r = Inr x \<and> f x = Inr y)"
  by (cases r) simp_all

lemma result_bind_cong [fundef_cong]:
  "r = r' \<Longrightarrow> (\<And>x. r' = Inr x \<Longrightarrow> f x = f' x) \<Longrightarrow> result_bind r f = result_bind r' f'"
  by (cases r') simp_all

lemma result_inv_constructors: "result_inv (Result_of_value v)" "result_inv (Result_FromStatus s)"
  by (simp_all add: result_inv_def Result_of_value_def Result_FromStatus_def)

lemma abs_result_simps:
  "abs_result (Result_of_value v) = Inr v"
  "abs_result (Result_FromStatus s) = FromStatus s"
  "result_ok (abs_result r) = Result_ok r"
  by (simp_all add: abs_result_def Result_of_value_def Result_FromStatus_def FromStatus_def
      Result_ok_def split: option.split)

lemma abs_result_status: "result_inv r \<Longrightarrow> status_ok (result_status (abs_result r)) = Result_ok r"
  by (auto simp: result_inv_def abs_result_def Result_ok_def split: option.split)

definition result_option :: "'a result \<Rightarrow> 'a option" where
  "result_option r = (case r of Inl _ \<Rightarrow> None | Inr v \<Rightarrow> Some v)"

lemma result_option_simps [simp]:
  "result_option (Inl s) = None" "result_option (Inr v) = Some v"
  "result_option r = Some v \<longleftrightarrow> r = Inr v" "result_option (FromStatus s) = None"
  by (auto simp: result_option_def FromStatus_def split: sum.split)

section \<open>Message policies\<close>

datatype delivery_guarantee = kBestEffort | kReliable
datatype retention_policy = kKeepLast | kKeepAll
datatype freshness_policy = kLatest | kQueued
datatype queue_overflow_policy = kDropOldest | kDropNewest | kBlock | kReject

record message_policy =
  delivery :: delivery_guarantee
  retention :: retention_policy
  freshness :: freshness_policy
  overflow :: queue_overflow_policy
  queue_depth :: nat

definition MessagePolicy_default :: message_policy where
  "MessagePolicy_default = \<lparr>delivery = kBestEffort, retention = kKeepLast, freshness = kLatest,
     overflow = kDropOldest, queue_depth = 1\<rparr>"

definition MessagePolicy_Validate :: "message_policy \<Rightarrow> status" where
  "MessagePolicy_Validate p =
     (if queue_depth p = 0
      then Status_InvalidArgument ''message policy queue_depth must be greater than zero''
      else Status_Ok)"

fun DeliveryGuarantee_ToString :: "delivery_guarantee \<Rightarrow> string" where
  "DeliveryGuarantee_ToString kBestEffort = ''best_effort''"
| "DeliveryGuarantee_ToString kReliable = ''reliable''"

fun RetentionPolicy_ToString :: "retention_policy \<Rightarrow> string" where
  "RetentionPolicy_ToString kKeepLast = ''keep_last''"
| "RetentionPolicy_ToString kKeepAll = ''keep_all''"

fun FreshnessPolicy_ToString :: "freshness_policy \<Rightarrow> string" where
  "FreshnessPolicy_ToString kLatest = ''latest''"
| "FreshnessPolicy_ToString kQueued = ''queued''"

fun QueueOverflowPolicy_ToString :: "queue_overflow_policy \<Rightarrow> string" where
  "QueueOverflowPolicy_ToString kDropOldest = ''drop_oldest''"
| "QueueOverflowPolicy_ToString kDropNewest = ''drop_newest''"
| "QueueOverflowPolicy_ToString kBlock = ''block''"
| "QueueOverflowPolicy_ToString kReject = ''reject''"

section \<open>Kinds and names\<close>

datatype transport_kind = kInMemory | kFastDds | kZmq | kIpc
datatype endpoint_kind = kReader | kWriter
datatype trigger_kind = kPeriodic | kData | kTaskDependency | kManual | kService
datatype dependency_policy = kAll | kAny
datatype topic_lifetime = kShared | kReaderOwned

fun TransportKind_ToString :: "transport_kind \<Rightarrow> string" where
  "TransportKind_ToString kInMemory = ''in_memory''"
| "TransportKind_ToString kFastDds = ''fastdds''"
| "TransportKind_ToString kZmq = ''zmq''"
| "TransportKind_ToString kIpc = ''ipc''"

fun EndpointKind_ToString :: "endpoint_kind \<Rightarrow> string" where
  "EndpointKind_ToString kReader = ''reader''"
| "EndpointKind_ToString kWriter = ''writer''"

fun TriggerKind_ToString :: "trigger_kind \<Rightarrow> string" where
  "TriggerKind_ToString kPeriodic = ''periodic''"
| "TriggerKind_ToString kData = ''data''"
| "TriggerKind_ToString kTaskDependency = ''task_dependency''"
| "TriggerKind_ToString kManual = ''manual''"
| "TriggerKind_ToString kService = ''service''"

fun TopicLifetime_ToString :: "topic_lifetime \<Rightarrow> string" where
  "TopicLifetime_ToString kShared = ''shared''"
| "TopicLifetime_ToString kReaderOwned = ''reader_owned''"

definition kMaxNameLength :: nat where
  "kMaxNameLength = 255"

definition bad_name_char :: "char \<Rightarrow> bool" where
  "bad_name_char ch \<longleftrightarrow> (of_char ch :: nat) \<le> 0x20 \<or> (of_char ch :: nat) = 0x7f"

definition ValidateName :: "string \<Rightarrow> string \<Rightarrow> status" where
  "ValidateName kind v =
     (if v = [] then Status_InvalidArgument (kind @ '' must not be empty'')
      else if kMaxNameLength < length v then Status_InvalidArgument (kind @ '' exceeds max length'')
      else if list_ex bad_name_char v
      then Status_InvalidArgument (kind @ '' contains whitespace or control characters'')
      else Status_Ok)"

definition valid_name :: "string \<Rightarrow> bool" where
  "valid_name v \<longleftrightarrow> v \<noteq> [] \<and> length v \<le> 255 \<and> (\<forall>ch \<in> set v. \<not> bad_name_char ch)"

lemma status_ok_ValidateName [simp]: "status_ok (ValidateName kind v) \<longleftrightarrow> valid_name v"
  by (auto simp: ValidateName_def valid_name_def kMaxNameLength_def list_ex_iff)

lemma ValidateName_code: "st_code (ValidateName kind v) = (if valid_name v then kOk else kInvalidArgument)"
  using status_ok_ValidateName [of kind v]
  by (auto simp: ValidateName_def status_ok_def split: if_splits)

text \<open>
  \<open>NamedValue<Tag>\<close>: a string that only \<open>Create\<close> checks. Names are ordered by their text, as
  \<open>operator<\<close> compares them, which makes them keys of the ordered maps.
\<close>

datatype named_value = NamedValue (str: string)

instantiation named_value :: linorder
begin

definition less_named_value :: "named_value \<Rightarrow> named_value \<Rightarrow> bool" where
  "less_named_value a b \<longleftrightarrow> str a < str b"

definition less_eq_named_value :: "named_value \<Rightarrow> named_value \<Rightarrow> bool" where
  "less_eq_named_value a b \<longleftrightarrow> str a \<le> str b"

instance
  by standard
    (auto simp: less_named_value_def less_eq_named_value_def named_value.expand)

end

type_synonym topic_name = named_value
type_synonym task_name = named_value
type_synonym component_name = named_value
type_synonym transport_name = named_value

definition NamedValue_Create :: "string \<Rightarrow> string \<Rightarrow> named_value result" where
  "NamedValue_Create label v =
     (let st = ValidateName label v in
      if \<not> status_ok st then FromStatus st else Inr (NamedValue v))"

section \<open>Topics, endpoints and triggers\<close>

record topic_spec =
  ts_name :: topic_name
  ts_transport :: transport_kind
  ts_message_policy :: message_policy
  ts_lifetime :: topic_lifetime

definition TopicSpec_Validate :: "topic_spec \<Rightarrow> status" where
  "TopicSpec_Validate t =
     and_then (ValidateName ''topic name'' (str (ts_name t)))
       (MessagePolicy_Validate (ts_message_policy t))"

record trigger_spec =
  tr_kind :: trigger_kind
  tr_period :: nanoseconds
  tr_dependency_policy :: dependency_policy
  tr_data_dependencies :: "topic_name list"
  tr_task_dependencies :: "task_name list"
  tr_priority :: int
  tr_deadline :: nanoseconds
  tr_service_dependencies :: "topic_name list"

definition TriggerSpec_Validate :: "trigger_spec \<Rightarrow> status" where
  "TriggerSpec_Validate t =
     (if tr_kind t = kPeriodic \<and> tr_period t \<le> 0
      then Status_InvalidArgument ''periodic trigger period must be greater than zero''
      else if tr_kind t = kService \<and> tr_service_dependencies t = []
      then Status_InvalidArgument ''service trigger requires at least one service''
      else if tr_kind t \<noteq> kService \<and> tr_service_dependencies t \<noteq> []
      then Status_InvalidArgument ''trigger services can only be used with service triggers''
      else if tr_kind t \<noteq> kData \<and> tr_kind t \<noteq> kTaskDependency \<and> tr_dependency_policy t \<noteq> kAll
      then Status_InvalidArgument
        ''trigger dependency_policy can only be used with data or task dependency triggers''
      else if tr_deadline t < 0
      then Status_InvalidArgument ''trigger deadline must not be negative''
      else Status_Ok)"

text \<open>\<open>MessageDescriptor\<close>, \<open>MessageMetadata\<close> and \<open>Message\<close> of \<open>transport/message.h\<close>.\<close>

record message_descriptor =
  type_name :: string
  encoding :: string
  version :: u32

definition MessageDescriptor_Validate :: "message_descriptor \<Rightarrow> status" where
  "MessageDescriptor_Validate d =
     (if type_name d = [] then Status_InvalidArgument ''message type name must not be empty''
      else if encoding d = [] then Status_InvalidArgument ''message encoding must not be empty''
      else Status_Ok)"

definition MessageDescriptor_ToString :: "message_descriptor \<Rightarrow> string" where
  "MessageDescriptor_ToString d =
     type_name d
     @ (if version d \<noteq> 0 then '' v'' @ std_to_string (unat (version d)) else [])
     @ '' ('' @ encoding d @ '')''"

record message_metadata =
  sequence :: u64
  source_timestamp :: time_point
  reception_timestamp :: time_point

record message =
  payload :: bytes
  metadata :: message_metadata

text \<open>A byte view is a pointer and a size; a null pointer with a non-zero size is refused.\<close>

datatype byte_view = NullView nat | View bytes

fun ByteView_size :: "byte_view \<Rightarrow> nat" where
  "ByteView_size (NullView n) = n"
| "ByteView_size (View bs) = length bs"

fun ByteView_Validate :: "byte_view \<Rightarrow> status" where
  "ByteView_Validate (NullView n) =
     (if n \<noteq> 0 then Status_InvalidArgument ''byte view data is null but size is non-zero'' else Status_Ok)"
| "ByteView_Validate (View bs) = Status_Ok"

fun CopyBytes :: "byte_view \<Rightarrow> bytes" where
  "CopyBytes (NullView n) = []"
| "CopyBytes (View bs) = bs"

record endpoint_config =
  ep_topic :: topic_spec
  ep_message :: message_descriptor

definition EndpointConfig_Validate :: "endpoint_config \<Rightarrow> status" where
  "EndpointConfig_Validate e =
     and_then (TopicSpec_Validate (ep_topic e)) (MessageDescriptor_Validate (ep_message e))"

text \<open>
  A fill function returns the number of bytes it used together with the buffer contents it
  leaves, fails with a status, or throws. \<open>InvokeFill\<close> turns a throw into an internal error and
  refuses a size beyond the buffer.
\<close>

datatype fill_outcome = FillThrows bytes | FillFails status bytes | FillUses nat bytes

definition InvokeFill :: "(nat \<Rightarrow> fill_outcome) \<Rightarrow> nat \<Rightarrow> nat result \<times> bytes" where
  "InvokeFill fill capacity =
     (case fill capacity of
        FillThrows buf \<Rightarrow> (FromStatus (Status_Internal ''fill function threw an exception''), buf)
      | FillFails st buf \<Rightarrow> (FromStatus st, buf)
      | FillUses used buf \<Rightarrow>
          (if capacity < used
           then FromStatus (Status_OutOfRange (''fill function reported '' @ std_to_string used
             @ '' bytes for a '' @ std_to_string capacity @ ''-byte buffer''))
           else Inr used, buf))"

lemma InvokeFill_used: "fst (InvokeFill fill capacity) = Inr used \<Longrightarrow> used \<le> capacity"
  by (auto simp: InvokeFill_def split: fill_outcome.splits if_splits)

text \<open>What an accepted endpoint satisfies; the transports build on it.\<close>

lemma EndpointConfig_Validate_ok:
  "status_ok (EndpointConfig_Validate e) \<longleftrightarrow>
     valid_name (str (ts_name (ep_topic e))) \<and> 0 < queue_depth (ts_message_policy (ep_topic e))
     \<and> type_name (ep_message e) \<noteq> [] \<and> encoding (ep_message e) \<noteq> []"
  by (auto simp: EndpointConfig_Validate_def TopicSpec_Validate_def MessagePolicy_Validate_def
      MessageDescriptor_Validate_def)

end
