(* ===== verification/Message_Source.thy ===== *)
theory Message_Source
  imports PM_Prelude "HOL-Library.Sublist"
begin

text \<open>
  The delivery contract that the transports share: what a reader still has pending after a
  message is offered is a subsequence of what it had plus that message, and what it reads is
  taken from the front of what is pending. The locale proves once, for any interleaving of
  offers and reads, that a reader sees a subsequence of what was published, in order and each
  message at most once. The in-memory mailbox and the shared-memory ring interpret it.
\<close>

datatype 'm source_event = Offer 'm | Take

fun source_run :: "('m \<Rightarrow> 's \<Rightarrow> 's) \<Rightarrow> ('s \<Rightarrow> 'm option \<times> 's) \<Rightarrow> 's \<Rightarrow> 'm source_event list \<Rightarrow> 'm list \<times> 's" where
  "source_run put get s [] = ([], s)"
| "source_run put get s (Offer m # es) = source_run put get (put m s) es"
| "source_run put get s (Take # es) =
     (case get s of (r, s') \<Rightarrow>
        (case source_run put get s' es of (ms, s'') \<Rightarrow>
           (case r of None \<Rightarrow> (ms, s'') | Some m \<Rightarrow> (m # ms, s''))))"

fun offered :: "'m source_event list \<Rightarrow> 'm list" where
  "offered [] = []"
| "offered (Offer m # es) = m # offered es"
| "offered (Take # es) = offered es"

locale message_source =
  fixes put :: "'m \<Rightarrow> 's \<Rightarrow> 's"
    and get :: "'s \<Rightarrow> 'm option \<times> 's"
    and pending :: "'s \<Rightarrow> 'm list"
    and ok :: "'s \<Rightarrow> bool"
  assumes ok_put: "ok s \<Longrightarrow> ok (put m s)"
    and ok_get: "ok s \<Longrightarrow> get s = (r, s') \<Longrightarrow> ok s'"
    and pending_put: "ok s \<Longrightarrow> subseq (pending (put m s)) (pending s @ [m])"
    and pending_get_Some: "ok s \<Longrightarrow> get s = (Some m, s') \<Longrightarrow> subseq (m # pending s') (pending s)"
    and pending_get_None: "ok s \<Longrightarrow> get s = (None, s') \<Longrightarrow> subseq (pending s') (pending s)"
begin

lemma subseq_put: "ok s \<Longrightarrow> subseq (pending (put m s) @ xs) (pending s @ m # xs)"
  using list_emb_append_mono [OF pending_put, of s xs xs m] by simp

theorem run_subseq:
  "ok s \<Longrightarrow> source_run put get s es = (ms, s') \<Longrightarrow> ok s' \<and> subseq (ms @ pending s') (pending s @ offered es)"
proof (induction es arbitrary: s ms s')
  case Nil
  then show ?case by simp
next
  case (Cons e es)
  show ?case
  proof (cases e)
    case (Offer m)
    with Cons.prems have run: "source_run put get (put m s) es = (ms, s')" by simp
    from Cons.prems(1) have "ok (put m s)" by (rule ok_put)
    from Cons.IH [OF this run] have "ok s'" "subseq (ms @ pending s') (pending (put m s) @ offered es)"
      by auto
    with subseq_put [OF Cons.prems(1)] Offer show ?thesis
      by (auto intro: subseq_order.order_trans)
  next
    case Take
    obtain r s1 where get: "get s = (r, s1)" by force
    obtain ms1 s2 where run: "source_run put get s1 es = (ms1, s2)" by force
    from Cons.prems(1) get have ok1: "ok s1" by (rule ok_get)
    from Cons.IH [OF ok1 run] have ih: "ok s2" "subseq (ms1 @ pending s2) (pending s1 @ offered es)"
      by auto
    show ?thesis
    proof (cases r)
      case None
      with Cons.prems get run Take have "ms = ms1" "s' = s2" by auto
      moreover from None get have "subseq (pending s1 @ offered es) (pending s @ offered es)"
        using Cons.prems(1) by (auto intro: list_emb_append_mono pending_get_None)
      ultimately show ?thesis
        using ih Take by (auto intro: subseq_order.order_trans)
    next
      case (Some m)
      with Cons.prems get run Take have eq: "ms = m # ms1" "s' = s2" by auto
      from Some get have "subseq (m # pending s1) (pending s)"
        using Cons.prems(1) by (auto intro: pending_get_Some)
      then have "subseq ((m # pending s1) @ offered es) (pending s @ offered es)"
        by (intro list_emb_append_mono) auto
      moreover from ih have "subseq (m # ms1 @ pending s2) (m # pending s1 @ offered es)" by simp
      ultimately show ?thesis
        using ih eq Take by (auto intro: subseq_order.order_trans)
    qed
  qed
qed

text \<open>From an empty start a reader's messages are a subsequence of the published ones.\<close>

corollary reads_subseq:
  assumes "ok s" "pending s = []" "source_run put get s es = (ms, s')"
  shows "subseq ms (offered es)"
proof -
  from run_subseq [OF assms(1,3)] assms(2) have "subseq (ms @ pending s') (offered es)" by simp
  then show ?thesis
    by (meson list_emb_prefix subseq_order.order_trans subseq_order.order_refl prefixI)
qed

end

text \<open>
  A source that loses nothing: an offer is either accepted, and then it is pending at the end of
  the queue, or refused and leaves the queue as it was.
\<close>

fun accepted :: "('m \<Rightarrow> 's \<Rightarrow> bool) \<Rightarrow> ('m \<Rightarrow> 's \<Rightarrow> 's) \<Rightarrow> ('s \<Rightarrow> 'm option \<times> 's) \<Rightarrow> 's \<Rightarrow> 'm source_event list \<Rightarrow> 'm list" where
  "accepted acc put get s [] = []"
| "accepted acc put get s (Offer m # es) =
     (if acc m s then [m] else []) @ accepted acc put get (put m s) es"
| "accepted acc put get s (Take # es) = accepted acc put get (snd (get s)) es"

locale lossless_source = message_source +
  fixes acc :: "'a \<Rightarrow> 'b \<Rightarrow> bool"
  assumes put_accepted: "ok s \<Longrightarrow> acc m s \<Longrightarrow> pending (put m s) = pending s @ [m]"
    and put_refused: "ok s \<Longrightarrow> \<not> acc m s \<Longrightarrow> pending (put m s) = pending s"
    and get_front: "ok s \<Longrightarrow> get s = (Some m, s') \<Longrightarrow> pending s = m # pending s'"
    and get_nothing: "ok s \<Longrightarrow> get s = (None, s') \<Longrightarrow> pending s' = pending s"
begin

theorem run_lossless:
  "ok s \<Longrightarrow> source_run put get s es = (ms, s') \<Longrightarrow>
     ms @ pending s' = pending s @ accepted acc put get s es"
proof (induction es arbitrary: s ms s')
  case Nil
  then show ?case by simp
next
  case (Cons e es)
  show ?case
  proof (cases e)
    case (Offer m)
    with Cons.prems have "source_run put get (put m s) es = (ms, s')" by simp
    with Cons.IH [OF ok_put [OF Cons.prems(1)] this] Offer Cons.prems(1) show ?thesis
      by (simp add: put_accepted put_refused)
  next
    case Take
    obtain r s1 where get: "get s = (r, s1)" by force
    obtain ms1 s2 where run: "source_run put get s1 es = (ms1, s2)" by force
    from Cons.prems(1) get have "ok s1" by (rule ok_get)
    from Cons.IH [OF this run] have "ms1 @ pending s2 = pending s1 @ accepted acc put get s1 es" .
    moreover have "pending s = (case r of None \<Rightarrow> [] | Some m \<Rightarrow> [m]) @ pending s1"
      using get_front [OF Cons.prems(1)] get_nothing [OF Cons.prems(1)] get by (cases r) auto
    ultimately show ?thesis
      using Cons.prems(2) get run Take by (cases r) auto
  qed
qed

end

end
