(* ===== verification/Inmemory_Transport.thy ===== *)
theory Inmemory_Transport
  imports Core_Types Message_Source
begin

text \<open>
  The in-memory publish/subscribe backend, \<open>src/transport/inmemory/inmemory_transport.cpp\<close>.

  A \<open>mailbox\<close> is one reader's queue, a \<open>channel\<close> one topic. Shared and weak pointers become
  identities in two heaps: a mailbox is alive while its reader endpoint exists, a channel while
  some endpoint refers to it, and \<open>expired()\<close> is absence from the heap. Every operation is the
  body of a critical section, as a function from state to state; a call that would wait on a
  condition variable returns \<open>ReadWaits\<close> or \<open>PublishBlocked\<close>, and waking up is running it again
  in a later state. The callbacks that \<open>Push\<close> invokes are returned in order, and \<open>cb_throws\<close>
  says which of them throw.
\<close>

section \<open>Endpoint checks and queue shapes\<close>

definition ValidateInMemoryEndpoint :: "endpoint_config \<Rightarrow> status" where
  "ValidateInMemoryEndpoint e =
     (let st = EndpointConfig_Validate e in
      if \<not> status_ok st then st
      else if ts_transport (ep_topic e) \<noteq> kInMemory
      then Status_InvalidArgument
        ''in-memory transport requires topic transport kind to be in_memory''
      else Status_Ok)"

definition UsesUnboundedQueue :: "message_policy \<Rightarrow> bool" where
  "UsesUnboundedQueue p \<longleftrightarrow> freshness p = kQueued \<and> retention p = kKeepAll"

definition QueueCapacity :: "message_policy \<Rightarrow> nat" where
  "QueueCapacity p = (if freshness p = kLatest then 1 else queue_depth p)"

section \<open>Mailbox\<close>

record 'cb mailbox =
  mb_topic :: topic_name
  mb_descriptor :: message_descriptor
  mb_policy :: message_policy
  mb_messages :: "message list"
  mb_callback :: "'cb option"
  mb_closed :: bool

definition Mailbox_new :: "topic_name \<Rightarrow> message_descriptor \<Rightarrow> message_policy \<Rightarrow> 'cb mailbox" where
  "Mailbox_new topic descriptor policy =
     \<lparr>mb_topic = topic, mb_descriptor = descriptor, mb_policy = policy, mb_messages = [],
      mb_callback = None, mb_closed = False\<rparr>"

record read_options =
  ro_wait :: bool
  ro_timeout :: nanoseconds

datatype 'cb read_step = ReadDone "message result" "'cb mailbox" | ReadWaits

text \<open>\<open>expired\<close> tells whether the timed wait ran out, which only time decides.\<close>

definition Mailbox_Read :: "read_options \<Rightarrow> bool \<Rightarrow> 'cb mailbox \<Rightarrow> 'cb read_step" where
  "Mailbox_Read opts expired mb =
     (if ro_wait opts \<and> \<not> (mb_closed mb \<or> mb_messages mb \<noteq> [])
      then (if ro_timeout opts > 0 \<and> expired
            then ReadDone (FromStatus (Status_DeadlineExceeded ''timed out waiting for in-memory message'')) mb
            else ReadWaits)
      else (case mb_messages mb of
              [] \<Rightarrow> ReadDone (FromStatus (Status_Unavailable ''no in-memory message is available'')) mb
            | m # ms \<Rightarrow> ReadDone (Inr m) (mb\<lparr>mb_messages := ms\<rparr>)))"

definition Mailbox_SetDataAvailableCallback :: "'cb option \<Rightarrow> 'cb mailbox \<Rightarrow> status \<times> 'cb mailbox" where
  "Mailbox_SetDataAvailableCallback cb mb = (Status_Ok, mb\<lparr>mb_callback := cb\<rparr>)"

definition Mailbox_PendingMessageCount :: "'cb mailbox \<Rightarrow> nat" where
  "Mailbox_PendingMessageCount mb = length (mb_messages mb)"

definition mailbox_closed_status :: status where
  "mailbox_closed_status = Status_FailedPrecondition ''in-memory reader mailbox is closed''"

text \<open>\<open>None\<close> is waiting for space.\<close>

definition Mailbox_PushQueued :: "message \<Rightarrow> 'cb mailbox \<Rightarrow> (status \<times> 'cb mailbox) option" where
  "Mailbox_PushQueued m mb =
     (if UsesUnboundedQueue (mb_policy mb)
      then Some (Status_Ok, mb\<lparr>mb_messages := mb_messages mb @ [m]\<rparr>)
      else if length (mb_messages mb) < QueueCapacity (mb_policy mb)
      then Some (Status_Ok, mb\<lparr>mb_messages := mb_messages mb @ [m]\<rparr>)
      else (case overflow (mb_policy mb) of
              kDropOldest \<Rightarrow> Some (Status_Ok, mb\<lparr>mb_messages := tl (mb_messages mb) @ [m]\<rparr>)
            | kDropNewest \<Rightarrow> Some (Status_Ok, mb)
            | kReject \<Rightarrow> Some (Status_ResourceExhausted ''in-memory reader queue is full'', mb)
            | kBlock \<Rightarrow> None))"

datatype 'cb push_step = PushDone status "'cb mailbox" "'cb list" | PushWaits

definition Mailbox_Push :: "('cb \<Rightarrow> bool) \<Rightarrow> message \<Rightarrow> 'cb mailbox \<Rightarrow> 'cb push_step" where
  "Mailbox_Push cb_throws m mb =
     (let notify = (\<lambda>mb'. case mb_callback mb' of
            None \<Rightarrow> PushDone Status_Ok mb' []
          | Some cb \<Rightarrow>
              PushDone (if cb_throws cb then Status_Internal ''in-memory reader callback failed''
                        else Status_Ok) mb' [cb])
      in if mb_closed mb then PushDone mailbox_closed_status mb []
         else if freshness (mb_policy mb) = kLatest
         then notify (mb\<lparr>mb_messages := [m]\<rparr>)
         else (case Mailbox_PushQueued m mb of
                 None \<Rightarrow> PushWaits
               | Some (st, mb') \<Rightarrow> if \<not> status_ok st then PushDone st mb' [] else notify mb'))"

definition Mailbox_Close :: "'cb mailbox \<Rightarrow> 'cb mailbox" where
  "Mailbox_Close mb = mb\<lparr>mb_closed := True\<rparr>"

subsection \<open>The mailbox never exceeds its capacity\<close>

definition mailbox_ok :: "'cb mailbox \<Rightarrow> bool" where
  "mailbox_ok mb \<longleftrightarrow> 0 < queue_depth (mb_policy mb)
     \<and> (UsesUnboundedQueue (mb_policy mb) \<or> length (mb_messages mb) \<le> QueueCapacity (mb_policy mb))"

lemma QueueCapacity_pos: "0 < queue_depth p \<Longrightarrow> 0 < QueueCapacity p"
  by (simp add: QueueCapacity_def)

lemma mailbox_ok_new: "0 < queue_depth policy \<Longrightarrow> mailbox_ok (Mailbox_new t d policy)"
  by (simp add: mailbox_ok_def Mailbox_new_def)

lemma subseq_tl_snoc: "subseq (tl xs @ [m]) (xs @ [m])"
  by (cases xs) auto

lemma Mailbox_PushQueued_shape:
  assumes "Mailbox_PushQueued m mb = Some (st, mb')" "mailbox_ok mb"
  shows "\<exists>ms. mb' = mb\<lparr>mb_messages := ms\<rparr> \<and> mailbox_ok mb' \<and> subseq ms (mb_messages mb @ [m])
    \<and> (\<not> status_ok st \<longrightarrow> ms = mb_messages mb)"
proof -
  let ?goal = "\<lambda>ms. mb' = mb\<lparr>mb_messages := ms\<rparr> \<and> mailbox_ok mb' \<and> subseq ms (mb_messages mb @ [m])
    \<and> (\<not> status_ok st \<longrightarrow> ms = mb_messages mb)"
  consider "mb' = mb\<lparr>mb_messages := mb_messages mb @ [m]\<rparr>" "status_ok st"
      "UsesUnboundedQueue (mb_policy mb) \<or> length (mb_messages mb) < QueueCapacity (mb_policy mb)"
    | "mb' = mb\<lparr>mb_messages := tl (mb_messages mb) @ [m]\<rparr>" "status_ok st"
    | "mb' = mb"
    using assms(1) by (auto simp: Mailbox_PushQueued_def split: if_splits queue_overflow_policy.splits)
  then show ?thesis
  proof cases
    case 1
    then have "?goal (mb_messages mb @ [m])"
      using assms(2) by (auto simp: mailbox_ok_def)
    then show ?thesis by blast
  next
    case 2
    then have "?goal (tl (mb_messages mb) @ [m])"
      using assms(2) QueueCapacity_pos [of "mb_policy mb"]
      by (auto simp: mailbox_ok_def subseq_tl_snoc)
    then show ?thesis by blast
  next
    case 3
    then have "?goal (mb_messages mb)"
      using assms(2) by auto
    then show ?thesis by blast
  qed
qed

lemma Mailbox_Push_closed:
  "mb_closed mb \<Longrightarrow> Mailbox_Push cb_throws m mb = PushDone mailbox_closed_status mb []"
  by (simp add: Mailbox_Push_def)

lemma Mailbox_Push_shape:
  assumes "Mailbox_Push cb_throws m mb = PushDone st mb' cbs" "mailbox_ok mb"
  shows "\<exists>ms. mb' = mb\<lparr>mb_messages := ms\<rparr> \<and> mailbox_ok mb' \<and> subseq ms (mb_messages mb @ [m])
    \<and> set cbs \<subseteq> set_option (mb_callback mb)"
proof -
  consider "mb_closed mb" "mb' = mb" "cbs = []"
    | "\<not> mb_closed mb" "freshness (mb_policy mb) = kLatest" "mb' = mb\<lparr>mb_messages := [m]\<rparr>"
      "set cbs \<subseteq> set_option (mb_callback mb)"
    | st1 where "\<not> mb_closed mb" "Mailbox_PushQueued m mb = Some (st1, mb')"
      "set cbs \<subseteq> set_option (mb_callback mb')"
    using assms(1) by (auto simp: Mailbox_Push_def Let_def split: if_splits option.splits prod.splits)
  then show ?thesis
  proof cases
    case 1
    then show ?thesis using assms(2) by (intro exI [of _ "mb_messages mb"]) auto
  next
    case 2
    then show ?thesis using assms(2)
      by (intro exI [of _ "[m]"]) (auto simp: mailbox_ok_def QueueCapacity_def)
  next
    case 3
    with Mailbox_PushQueued_shape [OF 3(2) assms(2)]
    obtain ms where "mb' = mb\<lparr>mb_messages := ms\<rparr>" "mailbox_ok mb'" "subseq ms (mb_messages mb @ [m])"
      by auto
    with 3 show ?thesis by (intro exI [of _ ms]) simp
  qed
qed

subsection \<open>What a reader sees of what was pushed\<close>

text \<open>A push that would wait leaves the mailbox as it is; reads here do not wait.\<close>

definition mailbox_offer :: "message \<Rightarrow> 'cb mailbox \<Rightarrow> 'cb mailbox" where
  "mailbox_offer m mb = (case Mailbox_Push (\<lambda>_. False) m mb of PushDone _ mb' _ \<Rightarrow> mb' | PushWaits \<Rightarrow> mb)"

definition no_wait :: read_options where
  "no_wait = \<lparr>ro_wait = False, ro_timeout = 0\<rparr>"

definition mailbox_take :: "'cb mailbox \<Rightarrow> message option \<times> 'cb mailbox" where
  "mailbox_take mb =
     (case Mailbox_Read no_wait False mb of
        ReadDone (Inl _) mb' \<Rightarrow> (None, mb')
      | ReadDone (Inr m) mb' \<Rightarrow> (Some m, mb')
      | ReadWaits \<Rightarrow> (None, mb))"

definition mailbox_accepts :: "message \<Rightarrow> 'cb mailbox \<Rightarrow> bool" where
  "mailbox_accepts m mb =
     (case Mailbox_Push (\<lambda>_. False) m mb of PushDone st _ _ \<Rightarrow> status_ok st | PushWaits \<Rightarrow> False)"

lemma mailbox_take_eq:
  "mailbox_take mb = (case mb_messages mb of [] \<Rightarrow> (None, mb) | m # ms \<Rightarrow> (Some m, mb\<lparr>mb_messages := ms\<rparr>))"
  by (auto simp: mailbox_take_def Mailbox_Read_def no_wait_def FromStatus_def split: list.split)

lemma mailbox_offer_shape:
  assumes "mailbox_ok mb"
  shows "\<exists>ms. mailbox_offer m mb = mb\<lparr>mb_messages := ms\<rparr> \<and> mailbox_ok (mailbox_offer m mb)
    \<and> subseq ms (mb_messages mb @ [m])"
proof (cases "Mailbox_Push (\<lambda>_. False) m mb")
  case (PushDone st mb' cbs)
  from Mailbox_Push_shape [OF this assms] PushDone show ?thesis
    by (auto simp: mailbox_offer_def)
next
  case PushWaits
  with assms show ?thesis
    by (intro exI [of _ "mb_messages mb"]) (auto simp: mailbox_offer_def)
qed

lemma mailbox_ok_take: "mailbox_ok mb \<Longrightarrow> mailbox_ok (snd (mailbox_take mb))"
  by (auto simp: mailbox_take_eq mailbox_ok_def split: list.split)

interpretation mbq: message_source mailbox_offer mailbox_take mb_messages mailbox_ok
proof unfold_locales
  fix s s' :: "'a mailbox" and m r
  assume ok: "mailbox_ok s"
  from mailbox_offer_shape [OF ok, of m]
  show "mailbox_ok (mailbox_offer m s)" "subseq (mb_messages (mailbox_offer m s)) (mb_messages s @ [m])"
    by auto
  show "mailbox_take s = (r, s') \<Longrightarrow> mailbox_ok s'"
    using mailbox_ok_take [OF ok] by simp
  show "mailbox_take s = (Some m, s') \<Longrightarrow> subseq (m # mb_messages s') (mb_messages s)"
    and "mailbox_take s = (None, s') \<Longrightarrow> subseq (mb_messages s') (mb_messages s)"
    by (auto simp: mailbox_take_eq split: list.splits)
qed

text \<open>
  Unbounded queues, and bounded ones that block or reject when full, lose nothing they accepted.
\<close>

definition lossless_policy :: "message_policy \<Rightarrow> bool" where
  "lossless_policy p \<longleftrightarrow> freshness p = kQueued
     \<and> (retention p = kKeepAll \<or> overflow p = kBlock \<or> overflow p = kReject)"

lemma mailbox_offer_lossless:
  assumes "lossless_policy (mb_policy mb)"
  shows "mb_messages (mailbox_offer m mb) = mb_messages mb @ (if mailbox_accepts m mb then [m] else [])"
  using assms
  by (auto simp: mailbox_offer_def mailbox_accepts_def Mailbox_Push_def Mailbox_PushQueued_def
      lossless_policy_def UsesUnboundedQueue_def Let_def mailbox_closed_status_def
      split: option.splits queue_overflow_policy.splits)

lemma mailbox_offer_policy: "mb_policy (mailbox_offer m mb) = mb_policy mb"
  by (auto simp: mailbox_offer_def Mailbox_Push_def Mailbox_PushQueued_def Let_def
      split: option.splits queue_overflow_policy.splits if_splits push_step.splits)

lemma mailbox_take_policy: "mb_policy (snd (mailbox_take mb)) = mb_policy mb"
  by (auto simp: mailbox_take_eq split: list.split)

interpretation mbl: lossless_source mailbox_offer mailbox_take mb_messages
  "\<lambda>mb. mailbox_ok mb \<and> lossless_policy (mb_policy mb)" mailbox_accepts
proof unfold_locales
  fix s s' :: "'a mailbox" and m r
  assume ok: "mailbox_ok s \<and> lossless_policy (mb_policy s)"
  then show "mailbox_ok (mailbox_offer m s) \<and> lossless_policy (mb_policy (mailbox_offer m s))"
    by (simp add: mbq.ok_put mailbox_offer_policy)
  show "mailbox_take s = (r, s') \<Longrightarrow> mailbox_ok s' \<and> lossless_policy (mb_policy s')"
    using ok mailbox_ok_take [of s] mailbox_take_policy [of s] by simp
  show "subseq (mb_messages (mailbox_offer m s)) (mb_messages s @ [m])"
    using ok by (blast intro: mbq.pending_put)
  show "mailbox_take s = (Some m, s') \<Longrightarrow> subseq (m # mb_messages s') (mb_messages s)"
    and "mailbox_take s = (None, s') \<Longrightarrow> subseq (mb_messages s') (mb_messages s)"
    using ok mbq.pending_get_Some mbq.pending_get_None by blast+
  show "mailbox_accepts m s \<Longrightarrow> mb_messages (mailbox_offer m s) = mb_messages s @ [m]"
    and "\<not> mailbox_accepts m s \<Longrightarrow> mb_messages (mailbox_offer m s) = mb_messages s"
    using ok by (simp_all add: mailbox_offer_lossless)
  show "mailbox_take s = (Some m, s') \<Longrightarrow> mb_messages s = m # mb_messages s'"
    and "mailbox_take s = (None, s') \<Longrightarrow> mb_messages s' = mb_messages s"
    by (auto simp: mailbox_take_eq split: list.splits)
qed

section \<open>Topic channels and the transport\<close>

record channel =
  ch_topic :: topic_name
  ch_descriptor :: message_descriptor
  ch_lifetime :: topic_lifetime
  ch_readers :: "nat list"
  ch_next_sequence :: u64
  ch_had_reader :: bool
  ch_closed :: bool

definition TopicChannel_new :: "topic_name \<Rightarrow> message_descriptor \<Rightarrow> topic_lifetime \<Rightarrow> channel" where
  "TopicChannel_new topic descriptor lifetime =
     \<lparr>ch_topic = topic, ch_descriptor = descriptor, ch_lifetime = lifetime, ch_readers = [],
      ch_next_sequence = 1, ch_had_reader = False, ch_closed = False\<rparr>"

text \<open>
  \<open>t_channels\<close> is the table of weak pointers, \<open>t_chan\<close> and \<open>t_mbox\<close> the objects alive,
  \<open>t_readers\<close> and \<open>t_writers\<close> the endpoints that keep them alive.
\<close>

record 'cb inmemory =
  t_open :: bool
  t_channels :: "(string, nat) omap"
  t_chan :: "(nat, channel) omap"
  t_mbox :: "(nat, 'cb mailbox) omap"
  t_readers :: "(nat, nat) omap"
  t_writers :: "(nat, nat) omap"
  t_next :: nat

definition inmemory_init :: "'cb inmemory" where
  "inmemory_init = \<lparr>t_open = False, t_channels = [], t_chan = [], t_mbox = [], t_readers = [],
     t_writers = [], t_next = 0\<rparr>"

definition live_mailbox :: "'cb inmemory \<Rightarrow> nat \<Rightarrow> bool" where
  "live_mailbox st rid \<longleftrightarrow> omap_find (t_mbox st) rid \<noteq> None"

definition GoneLocked :: "'cb inmemory \<Rightarrow> channel \<Rightarrow> bool" where
  "GoneLocked st ch \<longleftrightarrow>
     (if ch_lifetime ch \<noteq> kReaderOwned \<or> \<not> ch_had_reader ch then False
      else \<not> list_ex (live_mailbox st) (ch_readers ch))"

definition channel_closed_status :: "channel \<Rightarrow> status" where
  "channel_closed_status ch =
     Status_FailedPrecondition (''in-memory topic channel is closed: '' @ str (ch_topic ch))"

definition TopicChannel_AddReader :: "nat \<Rightarrow> channel \<Rightarrow> status \<times> channel" where
  "TopicChannel_AddReader rid ch =
     (if ch_closed ch then (channel_closed_status ch, ch)
      else (Status_Ok, ch\<lparr>ch_readers := ch_readers ch @ [rid], ch_had_reader := True\<rparr>))"

text \<open>
  Delivery to the readers found under the lock, one after the other. A blocked push leaves the
  rest of the readers to be served later; a reader destroyed meanwhile is a closed mailbox.
\<close>

datatype 'cb publish_step =
    PublishDone status "'cb inmemory" "'cb list"
  | PublishBlocked "nat list" message status "'cb inmemory" "'cb list"

fun push_readers :: "('cb \<Rightarrow> bool) \<Rightarrow> nat list \<Rightarrow> message \<Rightarrow> status \<Rightarrow> 'cb inmemory \<Rightarrow> 'cb list \<Rightarrow> 'cb publish_step" where
  "push_readers cb_throws [] m result st cbs = PublishDone result st cbs"
| "push_readers cb_throws (rid # rids) m result st cbs =
     (case omap_find (t_mbox st) rid of
        None \<Rightarrow>
          push_readers cb_throws rids m (if status_ok result then mailbox_closed_status else result) st cbs
      | Some mb \<Rightarrow>
          (case Mailbox_Push cb_throws m mb of
             PushWaits \<Rightarrow> PublishBlocked (rid # rids) m result st cbs
           | PushDone s mb' cbs' \<Rightarrow>
               push_readers cb_throws rids m (if status_ok result \<and> \<not> status_ok s then s else result)
                 (st\<lparr>t_mbox := omap_assign rid mb' (t_mbox st)\<rparr>) (cbs @ cbs')))"

definition publish_message :: "channel \<Rightarrow> byte_view \<Rightarrow> time_point \<Rightarrow> time_point \<Rightarrow> message" where
  "publish_message ch view source now =
     \<lparr>payload = CopyBytes view,
      metadata = \<lparr>sequence = ch_next_sequence ch,
                  source_timestamp = (if source = 0 then now else source),
                  reception_timestamp = now\<rparr>\<rparr>"

text \<open>
  \<open>Publish\<close> up to the point where it releases the channel's lock: either it is finished, or it
  has numbered the message and collected the readers, and the deliveries follow outside the lock.
\<close>

datatype 'cb publish_begin = BeginDone status | BeginDeliver "nat list" message "'cb inmemory"

definition Publish_begin ::
  "nat \<times> channel \<Rightarrow> byte_view \<Rightarrow> time_point \<Rightarrow> time_point \<Rightarrow> 'cb inmemory \<Rightarrow> 'cb publish_begin" where
  "Publish_begin chan view source now st =
     (let s = ByteView_Validate view; (cid, ch) = chan in
      if \<not> status_ok s then BeginDone s
      else if ch_closed ch then BeginDone (channel_closed_status ch)
      else if GoneLocked st ch
      then BeginDone (Status_NotFound (''in-memory topic '' @ str (ch_topic ch) @ '' was closed by its reader''))
      else let m = publish_message ch view source now;
               readers = filter (live_mailbox st) (ch_readers ch);
               ch' = ch\<lparr>ch_next_sequence := ch_next_sequence ch + 1, ch_readers := readers\<rparr>
           in BeginDeliver readers m (st\<lparr>t_chan := omap_assign cid ch' (t_chan st)\<rparr>))"

definition TopicChannel_Publish ::
  "('cb \<Rightarrow> bool) \<Rightarrow> nat \<times> channel \<Rightarrow> byte_view \<Rightarrow> time_point \<Rightarrow> time_point \<Rightarrow> 'cb inmemory \<Rightarrow> 'cb publish_step" where
  "TopicChannel_Publish cb_throws chan view source now st =
     (case Publish_begin chan view source now st of
        BeginDone s \<Rightarrow> PublishDone s st []
      | BeginDeliver readers m st' \<Rightarrow> push_readers cb_throws readers m Status_Ok st' [])"

definition close_mailboxes :: "nat list \<Rightarrow> (nat, 'cb mailbox) omap \<Rightarrow> (nat, 'cb mailbox) omap" where
  "close_mailboxes rids m = map (\<lambda>(k, mb). (k, if k \<in> set rids then Mailbox_Close mb else mb)) m"

definition TopicChannel_Close :: "nat \<Rightarrow> 'cb inmemory \<Rightarrow> 'cb inmemory" where
  "TopicChannel_Close cid st =
     (case omap_find (t_chan st) cid of
        None \<Rightarrow> st
      | Some ch \<Rightarrow> st\<lparr>t_chan := omap_assign cid (ch\<lparr>ch_closed := True, ch_readers := []\<rparr>) (t_chan st),
                      t_mbox := close_mailboxes (ch_readers ch) (t_mbox st)\<rparr>)"

definition State_Open :: "'cb inmemory \<Rightarrow> status \<times> 'cb inmemory" where
  "State_Open st = (Status_Ok, st\<lparr>t_open := True\<rparr>)"

definition State_Close :: "'cb inmemory \<Rightarrow> status \<times> 'cb inmemory" where
  "State_Close st =
     (if \<not> t_open st \<and> t_channels st = [] then (Status_Ok, st)
      else (Status_Ok, (fold TopicChannel_Close (map snd (t_channels st)) st)
              \<lparr>t_open := False, t_channels := []\<rparr>))"

definition live_channel :: "'cb inmemory \<Rightarrow> nat \<Rightarrow> bool" where
  "live_channel st cid \<longleftrightarrow> omap_find (t_chan st) cid \<noteq> None"

definition new_channel :: "endpoint_config \<Rightarrow> bool \<Rightarrow> 'cb inmemory \<Rightarrow> (nat \<times> channel) result \<times> 'cb inmemory" where
  "new_channel e writer st =
     (let key = str (ts_name (ep_topic e));
          ch = TopicChannel_new (ts_name (ep_topic e)) (ep_message e) (ts_lifetime (ep_topic e)) in
      if writer \<and> ts_lifetime (ep_topic e) = kReaderOwned
      then (FromStatus (Status_NotFound (''in-memory topic '' @ key @ '' has no reader'')), st)
      else (Inr (t_next st, ch),
            st\<lparr>t_chan := omap_assign (t_next st) ch (t_chan st),
               t_channels := omap_emplace key (t_next st) (t_channels st),
               t_next := t_next st + 1\<rparr>))"

definition GetOrCreateChannel :: "endpoint_config \<Rightarrow> bool \<Rightarrow> 'cb inmemory \<Rightarrow> (nat \<times> channel) result \<times> 'cb inmemory" where
  "GetOrCreateChannel e writer st =
     (let s = ValidateInMemoryEndpoint e; key = str (ts_name (ep_topic e)) in
      if \<not> status_ok s then (FromStatus s, st)
      else if \<not> t_open st
      then (FromStatus (Status_FailedPrecondition
        ''in-memory transport must be open before creating endpoints''), st)
      else let st1 = st\<lparr>t_channels := filter (\<lambda>entry. live_channel st (snd entry)) (t_channels st)\<rparr>
        in (case omap_find (t_channels st1) key of
              None \<Rightarrow> new_channel e writer st1
            | Some cid \<Rightarrow>
                (case omap_find (t_chan st1) cid of
                   None \<Rightarrow> new_channel e writer (st1\<lparr>t_channels := omap_erase key (t_channels st1)\<rparr>)
                 | Some ch \<Rightarrow>
                     if ch_lifetime ch \<noteq> ts_lifetime (ep_topic e)
                     then (FromStatus (Status_InvalidArgument (''in-memory topic '' @ key @ '' is ''
                       @ TopicLifetime_ToString (ch_lifetime ch) @ '', not ''
                       @ TopicLifetime_ToString (ts_lifetime (ep_topic e)))), st1)
                     else if ch_descriptor ch \<noteq> ep_message e
                     then (FromStatus (Status_InvalidArgument (''in-memory topic '' @ key @ '' carries ''
                       @ MessageDescriptor_ToString (ch_descriptor ch) @ '', not ''
                       @ MessageDescriptor_ToString (ep_message e))), st1)
                     else if \<not> GoneLocked st1 ch then (Inr (cid, ch), st1)
                     else new_channel e writer (st1\<lparr>t_channels := omap_erase key (t_channels st1)\<rparr>))))"

text \<open>The reader's identity is that of its mailbox.\<close>

definition CreateReader :: "endpoint_config \<Rightarrow> 'cb inmemory \<Rightarrow> nat result \<times> 'cb inmemory" where
  "CreateReader e st =
     (case GetOrCreateChannel e False st of
        (Inl s, st1) \<Rightarrow> (FromStatus s, st1)
      | (Inr (cid, ch), st1) \<Rightarrow>
          let rid = t_next st1;
              mb = Mailbox_new (ts_name (ep_topic e)) (ep_message e) (ts_message_policy (ep_topic e))
          in (case TopicChannel_AddReader rid ch of
                (s, ch') \<Rightarrow>
                  if \<not> status_ok s then (FromStatus s, st1)
                  else (Inr rid,
                        st1\<lparr>t_chan := omap_assign cid ch' (t_chan st1),
                           t_mbox := omap_assign rid mb (t_mbox st1),
                           t_readers := omap_assign rid cid (t_readers st1),
                           t_next := rid + 1\<rparr>)))"

definition CreateWriter :: "endpoint_config \<Rightarrow> 'cb inmemory \<Rightarrow> nat result \<times> 'cb inmemory" where
  "CreateWriter e st =
     (case GetOrCreateChannel e True st of
        (Inl s, st1) \<Rightarrow> (FromStatus s, st1)
      | (Inr (cid, ch), st1) \<Rightarrow>
          (Inr (t_next st1),
           st1\<lparr>t_writers := omap_assign (t_next st1) cid (t_writers st1), t_next := t_next st1 + 1\<rparr>))"

text \<open>Destroying the last endpoint of a channel destroys the channel.\<close>

definition drop_channel_if_unused :: "nat \<Rightarrow> 'cb inmemory \<Rightarrow> 'cb inmemory" where
  "drop_channel_if_unused cid st =
     (if list_ex (\<lambda>entry. snd entry = cid) (t_readers st @ t_writers st) then st
      else st\<lparr>t_chan := omap_erase cid (t_chan st)\<rparr>)"

definition DestroyReader :: "nat \<Rightarrow> 'cb inmemory \<Rightarrow> 'cb inmemory" where
  "DestroyReader rid st =
     (case omap_find (t_readers st) rid of
        None \<Rightarrow> st
      | Some cid \<Rightarrow>
          drop_channel_if_unused cid
            (st\<lparr>t_mbox := omap_erase rid (t_mbox st), t_readers := omap_erase rid (t_readers st)\<rparr>))"

definition DestroyWriter :: "nat \<Rightarrow> 'cb inmemory \<Rightarrow> 'cb inmemory" where
  "DestroyWriter wid st =
     (case omap_find (t_writers st) wid of
        None \<Rightarrow> st
      | Some cid \<Rightarrow> drop_channel_if_unused cid (st\<lparr>t_writers := omap_erase wid (t_writers st)\<rparr>))"

text \<open>\<open>None\<close>: no such endpoint object, or, for a read, the call waits.\<close>

definition writer_channel :: "'cb inmemory \<Rightarrow> nat \<Rightarrow> (nat \<times> channel) option" where
  "writer_channel st wid =
     do { cid \<leftarrow> omap_find (t_writers st) wid; ch \<leftarrow> omap_find (t_chan st) cid; Some (cid, ch) }"

definition InMemoryWriter_Write ::
  "('cb \<Rightarrow> bool) \<Rightarrow> nat \<Rightarrow> byte_view \<Rightarrow> time_point \<Rightarrow> time_point \<Rightarrow> 'cb inmemory \<Rightarrow> 'cb publish_step option" where
  "InMemoryWriter_Write cb_throws wid view source now st =
     map_option (\<lambda>chan. TopicChannel_Publish cb_throws chan view source now st) (writer_channel st wid)"

definition InMemoryReader_Read ::
  "read_options \<Rightarrow> bool \<Rightarrow> nat \<Rightarrow> 'cb inmemory \<Rightarrow> (message result \<times> 'cb inmemory) option" where
  "InMemoryReader_Read opts expired rid st =
     (case omap_find (t_mbox st) rid of
        None \<Rightarrow> None
      | Some mb \<Rightarrow>
          (case Mailbox_Read opts expired mb of
             ReadWaits \<Rightarrow> None
           | ReadDone r mb' \<Rightarrow> Some (r, st\<lparr>t_mbox := omap_assign rid mb' (t_mbox st)\<rparr>)))"

end
