(* ===== verification/Inmemory_Runs.thy ===== *)
theory Inmemory_Runs
  imports Inmemory_Transport
begin

text \<open>
  Runs of the in-memory transport. A state is the transport together with the publications in
  flight: \<open>Publish\<close> numbers a message and collects its readers under the channel's lock, and
  delivers to them after releasing it, so the deliveries of different writers interleave. The
  flag \<open>serial\<close> of the step relation forbids two publications of one channel at the same time.

  The structural invariant \<open>im_wf\<close> holds in every run; the ordering invariant \<open>im_seq\<close> (each
  mailbox holds strictly increasing sequence numbers) holds in every serial run.
\<close>

record flight =
  fl_cid :: nat
  fl_readers :: "nat list"
  fl_message :: message
  fl_result :: status

type_synonym 'cb im_sys = "'cb inmemory \<times> flight list"

definition seq_of :: "message \<Rightarrow> nat" where
  "seq_of m = unat (sequence (metadata m))"

definition seqs :: "'cb mailbox \<Rightarrow> nat list" where
  "seqs mb = map seq_of (mb_messages mb)"

text \<open>
  The bound on the sequence number is the width of the counter: a channel that publishes a
  message every nanosecond reaches it after more than 500 years.
\<close>

inductive im_step :: "('cb \<Rightarrow> bool) \<Rightarrow> bool \<Rightarrow> 'cb im_sys \<Rightarrow> 'cb im_sys \<Rightarrow> bool"
  for cb_throws :: "'cb \<Rightarrow> bool" and serial :: bool where
  op_open: "im_step cb_throws serial (st, fs) (snd (State_Open st), fs)"
| op_close: "im_step cb_throws serial (st, fs) (snd (State_Close st), fs)"
| create_reader: "im_step cb_throws serial (st, fs) (snd (CreateReader e st), fs)"
| create_writer: "im_step cb_throws serial (st, fs) (snd (CreateWriter e st), fs)"
| destroy_reader: "im_step cb_throws serial (st, fs) (DestroyReader rid st, fs)"
| destroy_writer: "im_step cb_throws serial (st, fs) (DestroyWriter wid st, fs)"
| read: "InMemoryReader_Read opts expired rid st = Some (r, st') \<Longrightarrow>
    im_step cb_throws serial (st, fs) (st', fs)"
| set_callback: "omap_find (t_mbox st) rid = Some mb \<Longrightarrow>
    im_step cb_throws serial (st, fs)
      (st\<lparr>t_mbox := omap_assign rid (snd (Mailbox_SetDataAvailableCallback cb mb)) (t_mbox st)\<rparr>, fs)"
| publish: "writer_channel st wid = Some (cid, ch) \<Longrightarrow>
    Publish_begin (cid, ch) view source now st = BeginDeliver rids m st' \<Longrightarrow>
    (serial \<Longrightarrow> cid \<notin> fl_cid ` set fs) \<Longrightarrow>
    unat (ch_next_sequence ch) < 2 ^ 64 - 1 \<Longrightarrow>
    im_step cb_throws serial (st, fs)
      (st', fs @ [\<lparr>fl_cid = cid, fl_readers = rids, fl_message = m, fl_result = Status_Ok\<rparr>])"
| deliver: "fl_readers f = rid # rids \<Longrightarrow> omap_find (t_mbox st) rid = Some mb \<Longrightarrow>
    Mailbox_Push cb_throws (fl_message f) mb = PushDone s mb' cbs \<Longrightarrow>
    im_step cb_throws serial (st, fs1 @ f # fs2)
      (st\<lparr>t_mbox := omap_assign rid mb' (t_mbox st)\<rparr>,
       fs1 @ f\<lparr>fl_readers := rids,
               fl_result := (if status_ok (fl_result f) \<and> \<not> status_ok s then s else fl_result f)\<rparr> # fs2)"
| deliver_closed: "fl_readers f = rid # rids \<Longrightarrow> omap_find (t_mbox st) rid = None \<Longrightarrow>
    im_step cb_throws serial (st, fs1 @ f # fs2)
      (st, fs1 @ f\<lparr>fl_readers := rids,
               fl_result := (if status_ok (fl_result f) then mailbox_closed_status else fl_result f)\<rparr> # fs2)"
| finish: "fl_readers f = [] \<Longrightarrow> im_step cb_throws serial (st, fs1 @ f # fs2) (st, fs1 @ fs2)"

section \<open>The structural invariant\<close>

definition maps_ok :: "'cb inmemory \<Rightarrow> bool" where
  "maps_ok st \<longleftrightarrow> omap_ok (t_channels st) \<and> omap_ok (t_chan st) \<and> omap_ok (t_mbox st)
     \<and> omap_ok (t_readers st) \<and> omap_ok (t_writers st)"

definition ids_ok :: "'cb inmemory \<Rightarrow> bool" where
  "ids_ok st \<longleftrightarrow>
     (\<forall>k. omap_find (t_chan st) k \<noteq> None \<longrightarrow> k < t_next st)
     \<and> (\<forall>k. omap_find (t_mbox st) k \<noteq> None \<longleftrightarrow> omap_find (t_readers st) k \<noteq> None)
     \<and> (\<forall>k. omap_find (t_mbox st) k \<noteq> None \<longrightarrow> k < t_next st)
     \<and> (\<forall>k cid. omap_find (t_readers st) k = Some cid \<longrightarrow> omap_find (t_chan st) cid \<noteq> None)
     \<and> (\<forall>k cid. omap_find (t_writers st) k = Some cid \<longrightarrow> omap_find (t_chan st) cid \<noteq> None)"

definition chans_ok :: "'cb inmemory \<Rightarrow> bool" where
  "chans_ok st \<longleftrightarrow>
     (\<forall>cid ch. omap_find (t_chan st) cid = Some ch \<longrightarrow>
        distinct (ch_readers ch)
        \<and> (\<forall>rid \<in> set (ch_readers ch). rid < t_next st
             \<and> (live_mailbox st rid \<longrightarrow> omap_find (t_readers st) rid = Some cid)))"

definition mboxes_ok :: "'cb inmemory \<Rightarrow> bool" where
  "mboxes_ok st \<longleftrightarrow>
     (\<forall>rid mb. omap_find (t_mbox st) rid = Some mb \<longrightarrow> mailbox_ok mb
        \<and> (\<forall>cid ch. omap_find (t_readers st) rid = Some cid \<longrightarrow> omap_find (t_chan st) cid = Some ch \<longrightarrow>
             mb_descriptor mb = ch_descriptor ch))"

definition flights_ok :: "'cb inmemory \<Rightarrow> flight list \<Rightarrow> bool" where
  "flights_ok st fs \<longleftrightarrow>
     (\<forall>f \<in> set fs. fl_cid f < t_next st \<and> distinct (fl_readers f)
        \<and> (\<forall>rid \<in> set (fl_readers f). rid < t_next st
             \<and> (live_mailbox st rid \<longrightarrow> omap_find (t_readers st) rid = Some (fl_cid f))))"

definition im_wf :: "'cb im_sys \<Rightarrow> bool" where
  "im_wf sys = (case sys of (st, fs) \<Rightarrow>
     maps_ok st \<and> ids_ok st \<and> chans_ok st \<and> mboxes_ok st \<and> flights_ok st fs)"

lemmas wf_defs = im_wf_def maps_ok_def ids_ok_def chans_ok_def mboxes_ok_def flights_ok_def live_mailbox_def

lemma wf_reader_channel:
  "im_wf (st, fs) \<Longrightarrow> omap_find (t_readers st) rid = Some cid \<Longrightarrow> \<exists>ch. omap_find (t_chan st) cid = Some ch"
  unfolding im_wf_def ids_ok_def prod.case not_None_eq by blast

subsection \<open>What the operations change\<close>

definition fresh_channel :: "endpoint_config \<Rightarrow> channel" where
  "fresh_channel e = TopicChannel_new (ts_name (ep_topic e)) (ep_message e) (ts_lifetime (ep_topic e))"

lemma live_upd [simp]:
  "live_mailbox (st\<lparr>t_channels := tc\<rparr>) = live_mailbox st"
  "live_mailbox (st\<lparr>t_chan := cs\<rparr>) = live_mailbox st"
  "live_mailbox (st\<lparr>t_next := n\<rparr>) = live_mailbox st"
  "live_mailbox (st\<lparr>t_writers := ws\<rparr>) = live_mailbox st"
  "live_mailbox (st\<lparr>t_open := b\<rparr>) = live_mailbox st"
  "live_mailbox (st\<lparr>t_readers := rs\<rparr>) = live_mailbox st"
  by (simp_all add: live_mailbox_def fun_eq_iff)

lemma GoneLocked_upd [simp]: "GoneLocked (st\<lparr>t_channels := tc\<rparr>) = GoneLocked st"
  by (auto simp: GoneLocked_def fun_eq_iff)

lemma new_channel_cases:
  assumes "omap_ok (t_channels st)" "new_channel e w st = (r, st')"
  obtains s where "r = FromStatus s" "st' = st" "w" "ts_lifetime (ep_topic e) = kReaderOwned" "st_code s = kNotFound"
  | tc where "omap_ok tc" "r = Inr (t_next st, fresh_channel e)"
      "st' = st\<lparr>t_channels := tc, t_chan := omap_assign (t_next st) (fresh_channel e) (t_chan st),
                t_next := t_next st + 1\<rparr>"
proof (cases "w \<and> ts_lifetime (ep_topic e) = kReaderOwned")
  case True
  with assms(2) show ?thesis
    by (intro that(1)) (auto simp: new_channel_def Let_def)
next
  case False
  with assms show ?thesis
    by (intro that(2) [of "omap_emplace (str (ts_name (ep_topic e))) (t_next st) (t_channels st)"])
      (auto simp: new_channel_def Let_def fresh_channel_def omap_ok_emplace)
qed

lemma GetOrCreateChannel_cases:
  assumes "omap_ok (t_channels st)" "GetOrCreateChannel e w st = (r, st')"
  obtains (err) s tc where "r = FromStatus s" "omap_ok tc" "st' = st\<lparr>t_channels := tc\<rparr>"
  | (old) cid ch tc where "r = Inr (cid, ch)" "omap_find (t_chan st) cid = Some ch"
      "ch_descriptor ch = ep_message e" "ch_lifetime ch = ts_lifetime (ep_topic e)" "\<not> GoneLocked st ch"
      "omap_ok tc" "st' = st\<lparr>t_channels := tc\<rparr>" "status_ok (ValidateInMemoryEndpoint e)" "t_open st"
  | (new) tc where "r = Inr (t_next st, fresh_channel e)" "omap_ok tc"
      "st' = st\<lparr>t_channels := tc, t_chan := omap_assign (t_next st) (fresh_channel e) (t_chan st),
                t_next := t_next st + 1\<rparr>"
      "status_ok (ValidateInMemoryEndpoint e)" "t_open st" "\<not> (w \<and> ts_lifetime (ep_topic e) = kReaderOwned)"
proof -
  let ?v = "ValidateInMemoryEndpoint e"
  let ?key = "str (ts_name (ep_topic e))"
  let ?st1 = "st\<lparr>t_channels := filter (\<lambda>entry. live_channel st (snd entry)) (t_channels st)\<rparr>"
  have ok1: "omap_ok (t_channels ?st1)" "omap_ok (omap_erase ?key (t_channels ?st1))"
    using assms(1) by (simp_all add: omap_ok_filter om.ok_erase)
  have created: thesis
    if eq: "new_channel e w st2 = (r, st')" and st2: "st2 = st\<lparr>t_channels := tc2\<rparr>"
      and tc2: "omap_ok tc2" and v: "status_ok ?v" "t_open st"
    for st2 tc2
  proof (rule new_channel_cases [OF _ eq])
    show "omap_ok (t_channels st2)" using st2 tc2 by simp
    show thesis if "r = FromStatus s" "st' = st2" for s
      using err [OF that(1) tc2] that(2) st2 by simp
    show thesis if "omap_ok tc" "r = Inr (t_next st2, fresh_channel e)"
      "st' = st2\<lparr>t_channels := tc, t_chan := omap_assign (t_next st2) (fresh_channel e) (t_chan st2),
                t_next := t_next st2 + 1\<rparr>" for tc
    proof (rule new [of tc])
      show "\<not> (w \<and> ts_lifetime (ep_topic e) = kReaderOwned)"
        using eq that(2) by (auto simp: new_channel_def Let_def)
    qed (use that st2 v in simp_all)
  qed
  consider "\<not> status_ok ?v \<or> \<not> t_open st" | "status_ok ?v" "t_open st" by blast
  then show thesis
  proof cases
    case 1
    then have "st' = st" "\<exists>s. r = FromStatus s"
      using assms(2) by (auto simp: GetOrCreateChannel_def Let_def split: if_splits)
    then obtain s where "r = FromStatus s" "st' = st\<lparr>t_channels := t_channels st\<rparr>" by auto
    then show thesis by (rule err [OF _ assms(1)])
  next
    case 2
    then show thesis
    proof (cases "omap_find (t_channels ?st1) ?key")
      case None
      with 2 assms(2) have "new_channel e w ?st1 = (r, st')"
        by (simp add: GetOrCreateChannel_def Let_def)
      from created [OF this refl _ 2] ok1 show thesis by simp
    next
      case (Some cid)
      show thesis
      proof (cases "omap_find (t_chan st) cid")
        case None
        with Some 2 assms(2) have "new_channel e w (?st1\<lparr>t_channels := omap_erase ?key (t_channels ?st1)\<rparr>) = (r, st')"
          by (simp add: GetOrCreateChannel_def Let_def)
        from created [OF this _ ok1(2) 2] show thesis by simp
      next
        case (Some ch)
        let ?err = "ch_lifetime ch \<noteq> ts_lifetime (ep_topic e) \<or> ch_descriptor ch \<noteq> ep_message e"
        note found = \<open>omap_find (t_channels ?st1) ?key = Some cid\<close> Some 2
        consider "?err" | "\<not> ?err" "\<not> GoneLocked ?st1 ch" | "\<not> ?err" "GoneLocked ?st1 ch" by blast
        then show thesis
        proof cases
          case 1
          then have "st' = ?st1" "\<exists>s. r = FromStatus s"
            using found assms(2) by (simp_all add: GetOrCreateChannel_def Let_def split: if_splits) blast+
          then obtain s where "r = FromStatus s" "st' = ?st1" by auto
          then show thesis by (rule err [OF _ ok1(1) [simplified]])
        next
          case 2
          then have r: "r = Inr (cid, ch)" and st': "st' = ?st1"
            using found assms(2) by (simp_all add: GetOrCreateChannel_def Let_def)
          show thesis
            by (rule old [OF r Some _ _ _ ok1(1) [simplified] st' found(3,4)])
              (use 2 in simp_all)
        next
          case 3
          then have "new_channel e w (?st1\<lparr>t_channels := omap_erase ?key (t_channels ?st1)\<rparr>) = (r, st')"
            using found assms(2) by (simp add: GetOrCreateChannel_def Let_def)
          from created [OF this _ ok1(2) found(3,4)] show thesis by simp
        qed
      qed
    qed
  qed
qed

subsection \<open>Every operation keeps the structural invariant\<close>

lemma im_wf_frame:
  assumes "im_wf (st, fs)" "omap_ok tc"
  shows "im_wf (st\<lparr>t_channels := tc\<rparr>, fs)" "im_wf (st\<lparr>t_open := b\<rparr>, fs)"
  using assms by (simp_all add: im_wf_def maps_ok_def ids_ok_def chans_ok_def mboxes_ok_def flights_ok_def)

text \<open>A new channel under a fresh identity, with no readers.\<close>

lemma im_wf_new_channel:
  assumes "im_wf (st, fs)" "ch_readers ch = []"
  shows "im_wf (st\<lparr>t_chan := omap_assign (t_next st) ch (t_chan st), t_next := t_next st + 1\<rparr>, fs)"
proof -
  from assms(1) have maps: "maps_ok st" and ids: "ids_ok st" and chans: "chans_ok st"
    and mboxes: "mboxes_ok st" and fl: "flights_ok st fs"
    by (simp_all add: im_wf_def)
  from maps have ok: "omap_ok (t_chan st)" by (simp add: maps_ok_def)
  from ids have absent: "omap_find (t_chan st) (t_next st) = None"
    unfolding ids_ok_def by (metis less_irrefl)
  let ?st = "st\<lparr>t_chan := omap_assign (t_next st) ch (t_chan st), t_next := t_next st + 1\<rparr>"
  have "maps_ok ?st" using maps by (simp add: maps_ok_def om.ok_assign)
  moreover have "ids_ok ?st" using ids ok by (auto simp: ids_ok_def om.lookup_assign less_Suc_eq)
  moreover have "chans_ok ?st"
    using chans ok assms(2) by (auto simp: chans_ok_def om.lookup_assign less_Suc_eq)
  moreover have "mboxes_ok ?st"
    using mboxes ids ok absent by (fastforce simp: mboxes_ok_def ids_ok_def om.lookup_assign)
  moreover have "flights_ok ?st fs"
    using fl by (auto simp: flights_ok_def less_Suc_eq)
  ultimately show ?thesis by (simp add: im_wf_def)
qed

text \<open>A mailbox replaced by one with the same descriptor.\<close>

lemma im_wf_mailbox:
  assumes "im_wf (st, fs)" "omap_find (t_mbox st) rid = Some mb"
    "mailbox_ok mb'" "mb_descriptor mb' = mb_descriptor mb"
  shows "im_wf (st\<lparr>t_mbox := omap_assign rid mb' (t_mbox st)\<rparr>, fs)"
proof -
  from assms(1) have maps: "maps_ok st" and ids: "ids_ok st" and chans: "chans_ok st"
    and mboxes: "mboxes_ok st" and fl: "flights_ok st fs"
    by (simp_all add: im_wf_def)
  let ?st = "st\<lparr>t_mbox := omap_assign rid mb' (t_mbox st)\<rparr>"
  from maps have ok: "omap_ok (t_mbox st)" by (simp add: maps_ok_def)
  have live: "live_mailbox ?st k = live_mailbox st k" for k
    using assms(2) ok by (simp add: live_mailbox_def om.lookup_assign)
  have "maps_ok ?st" using maps by (simp add: maps_ok_def om.ok_assign)
  moreover have "ids_ok ?st" using ids ok assms(2) by (auto simp: ids_ok_def om.lookup_assign)
  moreover have "chans_ok ?st" using chans live by (simp add: chans_ok_def)
  moreover have "mboxes_ok ?st" using mboxes ok assms(2-4) by (auto simp: mboxes_ok_def om.lookup_assign)
  moreover have "flights_ok ?st fs" using fl live by (simp add: flights_ok_def)
  ultimately show ?thesis by (simp add: im_wf_def)
qed

text \<open>A new mailbox under a fresh identity, attached to a channel with its descriptor.\<close>

lemma im_wf_add_reader:
  assumes wf: "im_wf (st, fs)" and ch: "omap_find (t_chan st) cid = Some ch"
    and mb: "mailbox_ok mb" "mb_descriptor mb = ch_descriptor ch"
    and ch': "ch_readers ch' = ch_readers ch @ [t_next st]" "ch_descriptor ch' = ch_descriptor ch"
  shows "im_wf (st\<lparr>t_chan := omap_assign cid ch' (t_chan st), t_mbox := omap_assign (t_next st) mb (t_mbox st),
      t_readers := omap_assign (t_next st) cid (t_readers st), t_next := t_next st + 1\<rparr>, fs)"
    (is "im_wf (?st, fs)")
proof -
  from wf have maps: "maps_ok st" and ids: "ids_ok st" and chans: "chans_ok st"
    and mboxes: "mboxes_ok st" and fl: "flights_ok st fs"
    by (simp_all add: im_wf_def)
  from maps have ok: "omap_ok (t_mbox st)" "omap_ok (t_chan st)" "omap_ok (t_readers st)"
    by (simp_all add: maps_ok_def)
  from ids have absent: "omap_find (t_mbox st) (t_next st) = None" "omap_find (t_readers st) (t_next st) = None"
    unfolding ids_ok_def by (metis less_irrefl)+
  have live: "live_mailbox ?st k \<longleftrightarrow> k = t_next st \<or> live_mailbox st k" for k
    using ok by (simp add: live_mailbox_def om.lookup_assign)
  have "maps_ok ?st" using maps by (simp add: maps_ok_def om.ok_assign)
  moreover have "ids_ok ?st" using ids ok ch by (auto simp: ids_ok_def om.lookup_assign less_Suc_eq)
  moreover have "chans_ok ?st"
    unfolding chans_ok_def live using chans ok ch ch'(1)
    by (auto simp: chans_ok_def om.lookup_assign less_Suc_eq)
  moreover have "mboxes_ok ?st"
    using mboxes ok ch mb ch'(2) absent by (auto simp: mboxes_ok_def om.lookup_assign)
  moreover have "flights_ok ?st fs"
    unfolding flights_ok_def live using fl ok by (auto simp: flights_ok_def om.lookup_assign less_Suc_eq)
  ultimately show ?thesis by (simp add: im_wf_def)
qed

text \<open>A channel replaced by one with the same descriptor and no new readers.\<close>

lemma im_wf_channel:
  assumes wf: "im_wf (st, fs)" and ch: "omap_find (t_chan st) cid = Some ch"
    and ch': "set (ch_readers ch') \<subseteq> set (ch_readers ch)" "distinct (ch_readers ch')"
      "ch_descriptor ch' = ch_descriptor ch"
  shows "im_wf (st\<lparr>t_chan := omap_assign cid ch' (t_chan st)\<rparr>, fs)" (is "im_wf (?st, fs)")
proof -
  from wf have maps: "maps_ok st" and ids: "ids_ok st" and chans: "chans_ok st"
    and mboxes: "mboxes_ok st" and fl: "flights_ok st fs"
    by (simp_all add: im_wf_def)
  from maps have ok: "omap_ok (t_chan st)" by (simp add: maps_ok_def)
  have "maps_ok ?st" using maps by (simp add: maps_ok_def om.ok_assign)
  moreover have "ids_ok ?st" using ids ok ch by (auto simp: ids_ok_def om.lookup_assign)
  moreover have "chans_ok ?st" using chans ok ch ch' by (auto simp: chans_ok_def om.lookup_assign)
  moreover have "mboxes_ok ?st" using mboxes ok ch ch'(3) by (auto simp: mboxes_ok_def om.lookup_assign)
  moreover have "flights_ok ?st fs" using fl by (simp add: flights_ok_def)
  ultimately show ?thesis by (simp add: im_wf_def)
qed

lemma im_wf_remove_writer:
  assumes "im_wf (st, fs)"
  shows "im_wf (st\<lparr>t_writers := omap_erase wid (t_writers st)\<rparr>, fs)"
  using assms by (auto simp: im_wf_def maps_ok_def ids_ok_def chans_ok_def mboxes_ok_def flights_ok_def om.ok_erase om.lookup_erase)

lemma im_wf_remove_reader:
  assumes "im_wf (st, fs)"
  shows "im_wf (st\<lparr>t_mbox := omap_erase rid (t_mbox st), t_readers := omap_erase rid (t_readers st)\<rparr>, fs)"
    (is "im_wf (?st, fs)")
proof -
  from assms have maps: "maps_ok st" and ids: "ids_ok st" and chans: "chans_ok st"
    and mboxes: "mboxes_ok st" and fl: "flights_ok st fs"
    by (simp_all add: im_wf_def)
  from maps have ok: "omap_ok (t_mbox st)" "omap_ok (t_readers st)" by (simp_all add: maps_ok_def)
  have live: "live_mailbox ?st k \<longleftrightarrow> k \<noteq> rid \<and> live_mailbox st k" for k
    using ok by (simp add: live_mailbox_def om.lookup_erase)
  have "maps_ok ?st" using maps by (simp add: maps_ok_def om.ok_erase)
  moreover have "ids_ok ?st" using ids ok by (auto simp: ids_ok_def om.lookup_erase)
  moreover have "chans_ok ?st" unfolding chans_ok_def live using chans ok by (auto simp: chans_ok_def om.lookup_erase)
  moreover have "mboxes_ok ?st" using mboxes ok by (auto simp: mboxes_ok_def om.lookup_erase)
  moreover have "flights_ok ?st fs" unfolding flights_ok_def live using fl ok by (auto simp: flights_ok_def om.lookup_erase)
  ultimately show ?thesis by (simp add: im_wf_def)
qed

lemma im_wf_drop_channel:
  assumes "im_wf (st, fs)"
  shows "im_wf (drop_channel_if_unused cid st, fs)"
proof (cases "list_ex (\<lambda>entry. snd entry = cid) (t_readers st @ t_writers st)")
  case True
  with assms show ?thesis by (simp add: drop_channel_if_unused_def)
next
  case False
  then have unused: "omap_find (t_readers st) k \<noteq> Some cid" "omap_find (t_writers st) k \<noteq> Some cid" for k
    by (force simp: list_ex_iff dest!: omap_find_in)+
  from assms have maps: "maps_ok st" and ids: "ids_ok st" and chans: "chans_ok st"
    and mboxes: "mboxes_ok st" and fl: "flights_ok st fs"
    by (simp_all add: im_wf_def)
  let ?st = "st\<lparr>t_chan := omap_erase cid (t_chan st)\<rparr>"
  from maps have ok: "omap_ok (t_chan st)" by (simp add: maps_ok_def)
  have "maps_ok ?st" using maps by (simp add: maps_ok_def om.ok_erase)
  moreover have "ids_ok ?st" using ids ok unused by (auto simp: ids_ok_def om.lookup_erase)
  moreover have "chans_ok ?st" using chans ok by (auto simp: chans_ok_def om.lookup_erase)
  moreover have "mboxes_ok ?st" using mboxes ok by (auto simp: mboxes_ok_def om.lookup_erase)
  moreover have "flights_ok ?st fs" using fl by (simp add: flights_ok_def)
  ultimately show ?thesis using False by (simp add: im_wf_def drop_channel_if_unused_def)
qed

lemma omap_find_close_mailboxes:
  "omap_find (close_mailboxes rids m) k =
     map_option (\<lambda>mb. if k \<in> set rids then Mailbox_Close mb else mb) (omap_find m k)"
  by (induction m) (auto simp: omap_find_def close_mailboxes_def)

lemma omap_ok_close_mailboxes: "omap_ok (close_mailboxes rids m) = omap_ok m"
  by (simp add: omap_ok_def close_mailboxes_def comp_def case_prod_unfold)

lemma Mailbox_Close_simps [simp]:
  "mailbox_ok (Mailbox_Close mb) = mailbox_ok mb" "mb_descriptor (Mailbox_Close mb) = mb_descriptor mb"
  "mb_messages (Mailbox_Close mb) = mb_messages mb" "mb_closed (Mailbox_Close mb)"
  by (simp_all add: Mailbox_Close_def mailbox_ok_def)

lemma im_wf_close_mailboxes:
  assumes "im_wf (st, fs)"
  shows "im_wf (st\<lparr>t_mbox := close_mailboxes rids (t_mbox st)\<rparr>, fs)"
  using assms
  by (auto simp: wf_defs omap_find_close_mailboxes omap_ok_close_mailboxes)

lemma im_wf_TopicChannel_Close:
  assumes "im_wf (st, fs)"
  shows "im_wf (TopicChannel_Close cid st, fs)"
proof (cases "omap_find (t_chan st) cid")
  case None
  with assms show ?thesis by (simp add: TopicChannel_Close_def)
next
  case (Some ch)
  have "im_wf (st\<lparr>t_chan := omap_assign cid (ch\<lparr>ch_closed := True, ch_readers := []\<rparr>) (t_chan st)\<rparr>, fs)"
    by (rule im_wf_channel [OF assms Some]) simp_all
  from im_wf_close_mailboxes [OF this, of "ch_readers ch"] Some show ?thesis
    by (simp add: TopicChannel_Close_def)
qed

lemma im_wf_fold_Close: "im_wf (st, fs) \<Longrightarrow> im_wf (fold TopicChannel_Close cids st, fs)"
  by (induction cids arbitrary: st) (auto intro: im_wf_TopicChannel_Close)

lemma im_wf_State_Close:
  assumes "im_wf (st, fs)"
  shows "im_wf (snd (State_Close st), fs)"
proof -
  have "im_wf ((fold TopicChannel_Close (map snd (t_channels st)) st)\<lparr>t_open := False, t_channels := []\<rparr>, fs)"
    by (rule im_wf_frame(1) [OF im_wf_frame(2) [OF im_wf_fold_Close [OF assms] omap_ok_Nil] omap_ok_Nil])
  with assms show ?thesis by (simp add: State_Close_def)
qed

lemma TopicChannel_new_simps [simp]:
  "ch_readers (TopicChannel_new t d l) = []" "ch_descriptor (TopicChannel_new t d l) = d"
  "ch_lifetime (TopicChannel_new t d l) = l" "ch_next_sequence (TopicChannel_new t d l) = 1"
  "ch_closed (TopicChannel_new t d l) = False" "ch_had_reader (TopicChannel_new t d l) = False"
  by (simp_all add: TopicChannel_new_def)

lemma im_wf_GetOrCreate:
  assumes "im_wf (st, fs)" "GetOrCreateChannel e w st = (r, st')"
  shows "im_wf (st', fs)"
    and "\<And>cid ch. r = Inr (cid, ch) \<Longrightarrow> omap_find (t_chan st') cid = Some ch
      \<and> ch_descriptor ch = ep_message e \<and> status_ok (ValidateInMemoryEndpoint e)"
proof -
  have ok: "omap_ok (t_channels st)" "omap_ok (t_chan st)"
    using assms(1) by (simp_all add: im_wf_def maps_ok_def)
  have "im_wf (st', fs) \<and> (\<forall>cid ch. r = Inr (cid, ch) \<longrightarrow> omap_find (t_chan st') cid = Some ch
      \<and> ch_descriptor ch = ep_message e \<and> status_ok (ValidateInMemoryEndpoint e))"
    using ok(1) assms(2)
  proof (cases rule: GetOrCreateChannel_cases)
    case (err s tc)
    then show ?thesis using assms(1) by (simp add: im_wf_frame)
  next
    case (old cid ch tc)
    then show ?thesis using assms(1) by (simp add: im_wf_frame)
  next
    case (new tc)
    have "im_wf (st\<lparr>t_channels := tc\<rparr>, fs)" by (rule im_wf_frame(1) [OF assms(1) new(2)])
    from im_wf_new_channel [OF this, of "fresh_channel e"] new ok show ?thesis
      by (simp add: fresh_channel_def om.lookup_assign)
  qed
  then show "im_wf (st', fs)"
    and "\<And>cid ch. r = Inr (cid, ch) \<Longrightarrow> omap_find (t_chan st') cid = Some ch
      \<and> ch_descriptor ch = ep_message e \<and> status_ok (ValidateInMemoryEndpoint e)"
    by blast+
qed

lemma ValidateInMemoryEndpoint_ok:
  "status_ok (ValidateInMemoryEndpoint e) \<longleftrightarrow>
     status_ok (EndpointConfig_Validate e) \<and> ts_transport (ep_topic e) = kInMemory"
  by (auto simp: ValidateInMemoryEndpoint_def Let_def)

lemma im_wf_CreateReader:
  assumes "im_wf (st, fs)"
  shows "im_wf (snd (CreateReader e st), fs)"
proof -
  obtain r st1 where get: "GetOrCreateChannel e False st = (r, st1)" by force
  note wf1 = im_wf_GetOrCreate(1) [OF assms get] and found = im_wf_GetOrCreate(2) [OF assms get]
  show ?thesis
  proof (cases r)
    case (Inl s)
    with get wf1 show ?thesis by (simp add: CreateReader_def)
  next
    case (Inr chan)
    obtain cid ch where chan: "chan = (cid, ch)" by force
    with Inr found have f: "omap_find (t_chan st1) cid = Some ch" "ch_descriptor ch = ep_message e"
      "status_ok (ValidateInMemoryEndpoint e)"
      by auto
    have "mailbox_ok (Mailbox_new (ts_name (ep_topic e)) (ep_message e) (ts_message_policy (ep_topic e)))"
      using f(3) by (auto simp: ValidateInMemoryEndpoint_ok EndpointConfig_Validate_ok intro: mailbox_ok_new)
    from im_wf_add_reader [OF wf1 f(1) this,
        of "ch\<lparr>ch_readers := ch_readers ch @ [t_next st1], ch_had_reader := True\<rparr>"] f(2)
    show ?thesis
      using get Inr chan wf1
      by (simp add: CreateReader_def TopicChannel_AddReader_def Let_def Mailbox_new_def channel_closed_status_def)
  qed
qed

lemma im_wf_CreateWriter:
  assumes "im_wf (st, fs)"
  shows "im_wf (snd (CreateWriter e st), fs)"
proof -
  obtain r st1 where get: "GetOrCreateChannel e True st = (r, st1)" by force
  note wf1 = im_wf_GetOrCreate(1) [OF assms get] and found = im_wf_GetOrCreate(2) [OF assms get]
  show ?thesis
  proof (cases r)
    case (Inl s)
    with get wf1 show ?thesis by (simp add: CreateWriter_def)
  next
    case (Inr chan)
    obtain cid ch where chan: "chan = (cid, ch)" by force
    with Inr found have "omap_find (t_chan st1) cid = Some ch" by auto
    then have "im_wf (st1\<lparr>t_writers := omap_assign (t_next st1) cid (t_writers st1), t_next := t_next st1 + 1\<rparr>, fs)"
      using wf1 by (auto simp: im_wf_def maps_ok_def ids_ok_def chans_ok_def mboxes_ok_def flights_ok_def
          om.ok_assign om.lookup_assign less_Suc_eq)
    with get Inr chan show ?thesis by (simp add: CreateWriter_def)
  qed
qed

lemma Publish_begin_deliver:
  assumes "Publish_begin (cid, ch) view source now st = BeginDeliver rids m st'"
  shows "m = publish_message ch view source now" "rids = filter (live_mailbox st) (ch_readers ch)"
    "st' = st\<lparr>t_chan := omap_assign cid
       (ch\<lparr>ch_next_sequence := ch_next_sequence ch + 1, ch_readers := rids\<rparr>) (t_chan st)\<rparr>"
    "\<not> ch_closed ch" "\<not> GoneLocked st ch" "status_ok (ByteView_Validate view)"
  using assms by (auto simp: Publish_begin_def Let_def split: if_splits)

lemma im_wf_publish:
  assumes "im_wf (st, fs)" "omap_find (t_chan st) cid = Some ch"
    "Publish_begin (cid, ch) view source now st = BeginDeliver rids m st'"
  shows "im_wf (st', fs @ [\<lparr>fl_cid = cid, fl_readers = rids, fl_message = m, fl_result = r\<rparr>])"
proof -
  note p = Publish_begin_deliver [OF assms(3)]
  from assms(1,2) have d: "distinct (ch_readers ch)" and "cid < t_next st"
    and rd: "\<forall>rid \<in> set (ch_readers ch). rid < t_next st
             \<and> (live_mailbox st rid \<longrightarrow> omap_find (t_readers st) rid = Some cid)"
    by (auto simp: im_wf_def chans_ok_def ids_ok_def)
  have "im_wf (st', fs)"
    unfolding p(3) by (rule im_wf_channel [OF assms(1,2)]) (use p(2) d in auto)
  moreover from d rd p(2,3) \<open>cid < t_next st\<close>
  have "flights_ok st' [\<lparr>fl_cid = cid, fl_readers = rids, fl_message = m, fl_result = r\<rparr>]"
    by (auto simp: flights_ok_def)
  ultimately show ?thesis by (auto simp: im_wf_def flights_ok_def)
qed

lemma im_wf_flight:
  assumes "im_wf (st, fs1 @ f # fs2)" "fl_cid f' = fl_cid f" "fl_readers f = rid # fl_readers f'"
  shows "im_wf (st, fs1 @ f' # fs2)"
  using assms unfolding im_wf_def flights_ok_def by simp

lemma Mailbox_Read_shape:
  assumes "Mailbox_Read opts expired mb = ReadDone r mb'"
  shows "\<exists>ms. mb' = mb\<lparr>mb_messages := ms\<rparr> \<and> suffix ms (mb_messages mb) \<and> (mailbox_ok mb \<longrightarrow> mailbox_ok mb')"
proof -
  consider "mb' = mb" | m ms where "mb_messages mb = m # ms" "mb' = mb\<lparr>mb_messages := ms\<rparr>"
    using assms by (auto simp: Mailbox_Read_def split: if_splits list.splits)
  then show ?thesis
  proof cases
    case 1
    then show ?thesis by (intro exI [of _ "mb_messages mb"]) simp
  next
    case 2
    then show ?thesis by (intro exI [of _ ms]) (auto simp: mailbox_ok_def suffix_Cons)
  qed
qed

theorem im_wf_step: "im_step cb_throws serial s t \<Longrightarrow> im_wf s \<Longrightarrow> im_wf t"
proof (induction rule: im_step.induct)
  case (op_open st fs)
  then show ?case by (simp add: State_Open_def im_wf_frame(2) [OF _ omap_ok_Nil])
next
  case (destroy_reader st fs rid)
  then show ?case
    by (simp add: DestroyReader_def im_wf_drop_channel im_wf_remove_reader split: option.split)
next
  case (destroy_writer st fs wid)
  then show ?case
    by (simp add: DestroyWriter_def im_wf_drop_channel im_wf_remove_writer split: option.split)
next
  case (read opts expired rid st r st' fs)
  then obtain mb mb' where mb: "omap_find (t_mbox st) rid = Some mb" "Mailbox_Read opts expired mb = ReadDone r mb'"
    and st': "st' = st\<lparr>t_mbox := omap_assign rid mb' (t_mbox st)\<rparr>"
    by (auto simp: InMemoryReader_Read_def split: option.splits read_step.splits)
  from read.prems mb(1) have "mailbox_ok mb" by (simp add: im_wf_def mboxes_ok_def)
  with Mailbox_Read_shape [OF mb(2)] have "mailbox_ok mb'" "mb_descriptor mb' = mb_descriptor mb" by auto
  from im_wf_mailbox [OF read.prems mb(1) this] st' show ?case by simp
next
  case (set_callback st rid mb fs cb)
  then have "mailbox_ok mb" by (simp add: im_wf_def mboxes_ok_def)
  with set_callback show ?case
    by (intro im_wf_mailbox) (auto simp: Mailbox_SetDataAvailableCallback_def mailbox_ok_def)
next
  case (publish st wid cid ch view source now rids m st' fs)
  then have "omap_find (t_chan st) cid = Some ch"
    by (auto simp: writer_channel_def bind_eq_Some_conv)
  with publish show ?case by (intro im_wf_publish)
next
  case (deliver f rid rids st mb s mb' cbs fs1 fs2)
  then have "mailbox_ok mb" by (simp add: im_wf_def mboxes_ok_def)
  from Mailbox_Push_shape [OF deliver.hyps(3) this]
  have "mailbox_ok mb'" "mb_descriptor mb' = mb_descriptor mb" by auto
  from im_wf_mailbox [OF deliver.prems deliver.hyps(2) this] show ?case
    by (rule im_wf_flight) (use deliver.hyps(1) in simp_all)
next
  case (deliver_closed f rid rids st fs1 fs2)
  from deliver_closed.prems show ?case
    by (rule im_wf_flight) (use deliver_closed.hyps(1) in simp_all)
next
  case (finish f st fs1 fs2)
  then show ?case by (auto simp: im_wf_def flights_ok_def)
qed (simp_all add: im_wf_State_Close im_wf_CreateReader im_wf_CreateWriter)

interpretation imw: transition_system "\<lambda>s. s = (inmemory_init, [])" "im_step cb_throws serial" im_wf
proof unfold_locales
  show "s = (inmemory_init, []) \<Longrightarrow> im_wf s" for s :: "'a im_sys"
    by (simp add: wf_defs inmemory_init_def)
  show "im_wf s \<Longrightarrow> im_step cb_throws serial s t \<Longrightarrow> im_wf t" for s t
    by (rule im_wf_step)
qed

end
