(* ===== verification/Inmemory_Order.thy ===== *)
theory Inmemory_Order
  imports Inmemory_Runs
begin

text \<open>
  The order in which a reader sees the messages of a topic. When publications of one channel do
  not overlap, every mailbox holds strictly increasing sequence numbers in every reachable state.
  When two writers publish at the same time the numbers a reader sees can decrease: \<open>Publish\<close>
  numbers messages under the channel's lock and delivers them after releasing it.
\<close>

lemma sorted_wrt_subseq: "subseq xs ys \<Longrightarrow> sorted_wrt R ys \<Longrightarrow> sorted_wrt R xs"
  by (induction rule: list_emb.induct) (auto dest: list_emb_set)

lemma subseq_set: "subseq xs ys \<Longrightarrow> set xs \<subseteq> set ys"
  by (auto dest: list_emb_set)

definition mbox_seq_ok :: "'cb inmemory \<Rightarrow> bool" where
  "mbox_seq_ok st \<longleftrightarrow>
     (\<forall>rid cid mb ch. omap_find (t_readers st) rid = Some cid \<longrightarrow> omap_find (t_mbox st) rid = Some mb \<longrightarrow>
        omap_find (t_chan st) cid = Some ch \<longrightarrow>
        sorted_wrt (<) (seqs mb) \<and> (\<forall>q \<in> set (seqs mb). q < unat (ch_next_sequence ch)))"

definition flight_seq_ok :: "'cb inmemory \<Rightarrow> flight \<Rightarrow> bool" where
  "flight_seq_ok st f \<longleftrightarrow>
     (\<forall>ch. omap_find (t_chan st) (fl_cid f) = Some ch \<longrightarrow>
        seq_of (fl_message f) < unat (ch_next_sequence ch))
     \<and> (\<forall>rid \<in> set (fl_readers f). \<forall>mb. omap_find (t_mbox st) rid = Some mb \<longrightarrow>
          (\<forall>q \<in> set (seqs mb). q < seq_of (fl_message f)))"

definition im_seq :: "'cb im_sys \<Rightarrow> bool" where
  "im_seq sys = (case sys of (st, fs) \<Rightarrow>
     mbox_seq_ok st \<and> (\<forall>f \<in> set fs. flight_seq_ok st f) \<and> distinct (map fl_cid fs))"

definition im_inv :: "'cb im_sys \<Rightarrow> bool" where
  "im_inv sys \<longleftrightarrow> im_wf sys \<and> im_seq sys"

text \<open>Steps that leave the mailboxes' contents and the counters alone.\<close>

lemma im_seq_mono:
  fixes st st' :: "'cb inmemory"
  assumes "im_seq (st, fs)"
    and chan: "\<And>cid ch'. omap_find (t_chan st') cid = Some ch' \<Longrightarrow>
      (\<exists>ch. omap_find (t_chan st) cid = Some ch \<and> ch_next_sequence ch' = ch_next_sequence ch)
      \<or> (cid \<notin> fl_cid ` set fs \<and> (\<forall>rid. omap_find (t_readers st') rid \<noteq> Some cid))"
    and mbox: "\<And>rid mb'. omap_find (t_mbox st') rid = Some mb' \<Longrightarrow>
      \<exists>mb. omap_find (t_mbox st) rid = Some mb \<and> suffix (mb_messages mb') (mb_messages mb)
        \<and> omap_find (t_readers st') rid = omap_find (t_readers st) rid"
  shows "im_seq (st', fs)"
proof -
  have suf: "sorted_wrt (<) (seqs mb) \<Longrightarrow> sorted_wrt (<) (seqs mb')" "set (seqs mb') \<subseteq> set (seqs mb)"
    if "suffix (mb_messages mb') (mb_messages mb)" for mb mb' :: "'cb mailbox"
    using that by (auto simp: seqs_def suffix_def sorted_wrt_append)
  from assms(1) have old: "mbox_seq_ok st" "\<forall>f \<in> set fs. flight_seq_ok st f" "distinct (map fl_cid fs)"
    by (simp_all add: im_seq_def)
  have "mbox_seq_ok st'"
    unfolding mbox_seq_ok_def
  proof (intro allI impI)
    fix rid cid mb' ch'
    assume a: "omap_find (t_readers st') rid = Some cid" "omap_find (t_mbox st') rid = Some mb'"
      "omap_find (t_chan st') cid = Some ch'"
    from mbox [OF a(2)] a(1) obtain mb where mb: "omap_find (t_mbox st) rid = Some mb"
      "suffix (mb_messages mb') (mb_messages mb)" "omap_find (t_readers st) rid = Some cid" by auto
    from chan [OF a(3)] a(1) obtain ch where ch: "omap_find (t_chan st) cid = Some ch"
      "ch_next_sequence ch' = ch_next_sequence ch" by auto
    from old(1) mb(1,3) ch(1) have "sorted_wrt (<) (seqs mb)" "\<forall>q \<in> set (seqs mb). q < unat (ch_next_sequence ch)"
      by (auto simp: mbox_seq_ok_def)
    with suf [OF mb(2)] ch(2) show "sorted_wrt (<) (seqs mb') \<and> (\<forall>q \<in> set (seqs mb'). q < unat (ch_next_sequence ch'))"
      by auto
  qed
  moreover have "flight_seq_ok st' f" if f: "f \<in> set fs" for f
    unfolding flight_seq_ok_def
  proof (intro conjI ballI allI impI)
    fix ch' assume "omap_find (t_chan st') (fl_cid f) = Some ch'"
    from chan [OF this] f obtain ch where "omap_find (t_chan st) (fl_cid f) = Some ch"
      "ch_next_sequence ch' = ch_next_sequence ch" by auto
    with old(2) f show "seq_of (fl_message f) < unat (ch_next_sequence ch')"
      by (simp add: flight_seq_ok_def)
  next
    fix rid mb' q assume r: "rid \<in> set (fl_readers f)" "omap_find (t_mbox st') rid = Some mb'" "q \<in> set (seqs mb')"
    from mbox [OF r(2)] obtain mb where mb: "omap_find (t_mbox st) rid = Some mb"
      "suffix (mb_messages mb') (mb_messages mb)"
      by auto
    from suf(2) [OF mb(2)] r(3) have "q \<in> set (seqs mb)" by blast
    with mb(1) r(1) old(2) f show "q < seq_of (fl_message f)"
      by (simp add: flight_seq_ok_def)
  qed
  ultimately show ?thesis using old(3) by (simp add: im_seq_def)
qed

lemma close_keeps:
  "omap_ok (t_chan st) \<Longrightarrow> omap_ok (t_chan (fold TopicChannel_Close cids st))
     \<and> t_readers (fold TopicChannel_Close cids st) = t_readers st
     \<and> (\<forall>cid. map_option ch_next_sequence (omap_find (t_chan (fold TopicChannel_Close cids st)) cid)
          = map_option ch_next_sequence (omap_find (t_chan st) cid))
     \<and> (\<forall>rid. map_option mb_messages (omap_find (t_mbox (fold TopicChannel_Close cids st)) rid)
          = map_option mb_messages (omap_find (t_mbox st) rid))"
proof (induction cids arbitrary: st)
  case Nil
  then show ?case by simp
next
  case (Cons c cids)
  have one: "omap_ok (t_chan (TopicChannel_Close c st))" "t_readers (TopicChannel_Close c st) = t_readers st"
    "map_option ch_next_sequence (omap_find (t_chan (TopicChannel_Close c st)) cid)
       = map_option ch_next_sequence (omap_find (t_chan st) cid)"
    "map_option mb_messages (omap_find (t_mbox (TopicChannel_Close c st)) rid)
       = map_option mb_messages (omap_find (t_mbox st) rid)" for cid rid
    using Cons.prems
    by (auto simp: TopicChannel_Close_def om.ok_assign om.lookup_assign omap_find_close_mailboxes
        option.map_comp comp_def if_distrib cong: if_cong split: option.split)
  from Cons.IH [OF one(1)] one show ?case by simp
qed

lemma im_seq_State_Close:
  assumes "im_inv (st, fs)"
  shows "im_seq (snd (State_Close st), fs)"
proof (cases "\<not> t_open st \<and> t_channels st = []")
  case True
  with assms show ?thesis by (simp add: State_Close_def im_inv_def)
next
  case False
  let ?st = "fold TopicChannel_Close (map snd (t_channels st)) st"
  from assms have ok: "omap_ok (t_chan st)" and seq: "im_seq (st, fs)"
    by (simp_all add: im_inv_def im_wf_def maps_ok_def)
  note k = close_keeps [OF ok, of "map snd (t_channels st)"]
  have eq: "snd (State_Close st) = ?st\<lparr>t_open := False, t_channels := []\<rparr>"
    using False by (auto simp: State_Close_def)
  show ?thesis
  proof (rule im_seq_mono [OF seq])
    fix cid ch' assume "omap_find (t_chan (snd (State_Close st))) cid = Some ch'"
    then have "omap_find (t_chan ?st) cid = Some ch'" unfolding eq by simp
    with k have "map_option ch_next_sequence (omap_find (t_chan st) cid) = Some (ch_next_sequence ch')"
      by (metis option.simps(9))
    then show "(\<exists>ch. omap_find (t_chan st) cid = Some ch \<and> ch_next_sequence ch' = ch_next_sequence ch)
      \<or> (cid \<notin> fl_cid ` set fs \<and> (\<forall>rid. omap_find (t_readers (snd (State_Close st))) rid \<noteq> Some cid))"
      by auto
  next
    fix rid mb' assume "omap_find (t_mbox (snd (State_Close st))) rid = Some mb'"
    then have "omap_find (t_mbox ?st) rid = Some mb'" unfolding eq by simp
    with k have "map_option mb_messages (omap_find (t_mbox st) rid) = Some (mb_messages mb')"
      by (metis option.simps(9))
    with k show "\<exists>mb. omap_find (t_mbox st) rid = Some mb \<and> suffix (mb_messages mb') (mb_messages mb)
        \<and> omap_find (t_readers (snd (State_Close st))) rid = omap_find (t_readers st) rid"
      unfolding eq by auto
  qed
qed

lemma im_seq_frame:
  assumes "im_seq (st, fs)" "t_chan st' = t_chan st" "t_mbox st' = t_mbox st" "t_readers st' = t_readers st"
  shows "im_seq (st', fs)"
  using assms by (simp add: im_seq_def mbox_seq_ok_def flight_seq_ok_def)

lemma im_seq_GetOrCreate:
  assumes "im_inv (st, fs)" "GetOrCreateChannel e w st = (r, st')"
  shows "im_seq (st', fs)"
proof -
  from assms(1) have seq: "im_seq (st, fs)" and wf: "im_wf (st, fs)"
    and ok: "omap_ok (t_channels st)" "omap_ok (t_chan st)"
    by (simp_all add: im_inv_def im_wf_def maps_ok_def)
  show ?thesis
    using ok(1) assms(2)
  proof (cases rule: GetOrCreateChannel_cases)
    case (err s tc)
    then show ?thesis by (auto intro: im_seq_frame [OF seq])
  next
    case (old cid ch tc)
    then show ?thesis by (auto intro: im_seq_frame [OF seq])
  next
    case (new tc)
    have fresh: "t_next st \<notin> fl_cid ` set fs" "omap_find (t_readers st) rid \<noteq> Some (t_next st)" for rid
      using wf unfolding im_wf_def flights_ok_def ids_ok_def by (auto, metis less_irrefl)+
    show ?thesis
      unfolding new(3)
      by (rule im_seq_mono [OF seq]) (use ok(2) fresh in \<open>auto simp: om.lookup_assign split: if_splits\<close>)
  qed
qed

lemma im_seq_CreateReader:
  assumes "im_inv (st, fs)"
  shows "im_seq (snd (CreateReader e st), fs)"
proof -
  obtain r st1 where get: "GetOrCreateChannel e False st = (r, st1)" by force
  have wf: "im_wf (st, fs)" using assms by (simp add: im_inv_def)
  note seq1 = im_seq_GetOrCreate [OF assms get]
  note wf1 = im_wf_GetOrCreate(1) [OF wf get] and found = im_wf_GetOrCreate(2) [OF wf get]
  show ?thesis
  proof (cases r)
    case (Inl s)
    with get seq1 show ?thesis by (simp add: CreateReader_def)
  next
    case (Inr chan)
    obtain cid ch where chan: "chan = (cid, ch)" by force
    with Inr found have f: "omap_find (t_chan st1) cid = Some ch" by auto
    from wf1 have ok: "omap_ok (t_chan st1)" "omap_ok (t_mbox st1)" "omap_ok (t_readers st1)"
      by (simp_all add: im_wf_def maps_ok_def)
    have new: "rid \<noteq> t_next st1" if "f \<in> set fs" "rid \<in> set (fl_readers f)" for f rid
      using wf1 that by (fastforce simp: im_wf_def flights_ok_def)
    let ?ch = "ch\<lparr>ch_readers := ch_readers ch @ [t_next st1], ch_had_reader := True\<rparr>"
    let ?mb = "Mailbox_new (ts_name (ep_topic e)) (ep_message e) (ts_message_policy (ep_topic e))"
    let ?st = "st1\<lparr>t_chan := omap_assign cid ?ch (t_chan st1), t_mbox := omap_assign (t_next st1) ?mb (t_mbox st1),
      t_readers := omap_assign (t_next st1) cid (t_readers st1), t_next := t_next st1 + 1\<rparr>"
    have "mbox_seq_ok ?st"
      using seq1 ok f by (auto simp: im_seq_def mbox_seq_ok_def om.lookup_assign seqs_def Mailbox_new_def)
    moreover have "flight_seq_ok ?st f" if "f \<in> set fs" for f
      using seq1 ok \<open>omap_find (t_chan st1) cid = Some ch\<close> new [OF that] that
      by (auto simp: im_seq_def flight_seq_ok_def om.lookup_assign)
    ultimately have "im_seq (?st, fs)" using seq1 by (simp add: im_seq_def)
    then show ?thesis
      using get Inr chan seq1
      by (simp add: CreateReader_def TopicChannel_AddReader_def Let_def channel_closed_status_def)
  qed
qed

lemma im_seq_CreateWriter:
  assumes "im_inv (st, fs)"
  shows "im_seq (snd (CreateWriter e st), fs)"
proof -
  obtain r st1 where get: "GetOrCreateChannel e True st = (r, st1)" by force
  from im_seq_GetOrCreate [OF assms get] have "im_seq (snd (CreateWriter e st), fs)"
    if "t_chan (snd (CreateWriter e st)) = t_chan st1" "t_mbox (snd (CreateWriter e st)) = t_mbox st1"
      "t_readers (snd (CreateWriter e st)) = t_readers st1"
    by (rule im_seq_frame [OF _ that])
  then show ?thesis using get by (cases r) (auto simp: CreateWriter_def)
qed

text \<open>Destroying endpoints removes mailboxes and channels.\<close>

lemma im_seq_destroy:
  assumes "im_inv (st, fs)"
  shows "im_seq (DestroyReader rid st, fs)" "im_seq (DestroyWriter rid st, fs)"
proof -
  from assms have seq: "im_seq (st, fs)" and ok: "omap_ok (t_chan st)" "omap_ok (t_mbox st)" "omap_ok (t_readers st)"
    by (simp_all add: im_inv_def im_wf_def maps_ok_def)
  have chan: "omap_find (t_chan (drop_channel_if_unused cid st1)) c = Some ch' \<Longrightarrow> t_chan st1 = t_chan st \<Longrightarrow>
      omap_find (t_chan st) c = Some ch'" for cid st1 c ch'
    using ok by (auto simp: drop_channel_if_unused_def om.lookup_erase split: if_splits)
  have frame: "t_mbox (drop_channel_if_unused cid st1) = t_mbox st1"
    "t_readers (drop_channel_if_unused cid st1) = t_readers st1" for cid st1
    by (simp_all add: drop_channel_if_unused_def)
  show "im_seq (DestroyReader rid st, fs)"
    by (rule im_seq_mono [OF seq])
      (use ok in \<open>auto simp: DestroyReader_def frame om.lookup_erase dest!: chan split: option.splits if_splits\<close>)
  show "im_seq (DestroyWriter rid st, fs)"
    by (rule im_seq_mono [OF seq])
      (auto simp: DestroyWriter_def frame dest!: chan split: option.splits)
qed

lemma im_seq_read:
  assumes "im_inv (st, fs)" "omap_find (t_mbox st) rid = Some mb" "suffix (mb_messages mb') (mb_messages mb)"
  shows "im_seq (st\<lparr>t_mbox := omap_assign rid mb' (t_mbox st)\<rparr>, fs)"
proof -
  from assms(1) have seq: "im_seq (st, fs)" and ok: "omap_ok (t_mbox st)"
    by (simp_all add: im_inv_def im_wf_def maps_ok_def)
  show ?thesis
    by (rule im_seq_mono [OF seq]) (use ok assms(2,3) in \<open>auto simp: om.lookup_assign split: if_splits\<close>)
qed

lemma unat_Suc_no_wrap: "unat (w :: u64) < 2 ^ 64 - 1 \<Longrightarrow> unat (w + 1) = unat w + 1"
  by (simp add: unat_word_ariths)

lemma im_seq_publish:
  assumes inv: "im_inv (st, fs)" and ch: "omap_find (t_chan st) cid = Some ch"
    and pub: "Publish_begin (cid, ch) view source now st = BeginDeliver rids m st'"
    and free: "cid \<notin> fl_cid ` set fs" and room: "unat (ch_next_sequence ch) < 2 ^ 64 - 1"
  shows "im_seq (st', fs @ [\<lparr>fl_cid = cid, fl_readers = rids, fl_message = m, fl_result = r\<rparr>])"
proof -
  note p = Publish_begin_deliver [OF pub]
  from inv have seq: "im_seq (st, fs)" and ok: "omap_ok (t_chan st)" and wf: "im_wf (st, fs)"
    by (simp_all add: im_inv_def im_wf_def maps_ok_def)
  have seq_m: "seq_of m = unat (ch_next_sequence ch)"
    by (simp add: p(1) publish_message_def seq_of_def)
  have next_seq: "unat (ch_next_sequence ch + 1) = unat (ch_next_sequence ch) + 1"
    by (rule unat_Suc_no_wrap [OF room])
  have readers: "omap_find (t_readers st) rid = Some cid" if "rid \<in> set rids" for rid
    using wf ch that p(2) by (auto simp: im_wf_def chans_ok_def)
  have "mbox_seq_ok st'"
    unfolding mbox_seq_ok_def
  proof (intro allI impI)
    fix rid c mb k assume a: "omap_find (t_readers st') rid = Some c" "omap_find (t_mbox st') rid = Some mb"
      "omap_find (t_chan st') c = Some k"
    obtain k0 where k0: "omap_find (t_chan st) c = Some k0" "unat (ch_next_sequence k0) \<le> unat (ch_next_sequence k)"
      using a(3) ok ch next_seq by (cases "c = cid") (auto simp: p(3) om.lookup_assign)
    with seq a(1,2) have "sorted_wrt (<) (seqs mb)" "\<forall>q \<in> set (seqs mb). q < unat (ch_next_sequence k0)"
      by (auto simp: p(3) im_seq_def mbox_seq_ok_def)
    with k0(2) show "sorted_wrt (<) (seqs mb) \<and> (\<forall>q \<in> set (seqs mb). q < unat (ch_next_sequence k))"
      by auto
  qed
  moreover have "flight_seq_ok st' f" if "f \<in> set fs" for f
    using seq ok ch that free unfolding p(3) im_seq_def flight_seq_ok_def
    by (auto simp: om.lookup_assign)
  moreover have "flight_seq_ok st' \<lparr>fl_cid = cid, fl_readers = rids, fl_message = m, fl_result = r\<rparr>"
  proof -
    have "q < unat (ch_next_sequence ch)"
      if "rid \<in> set rids" "omap_find (t_mbox st) rid = Some mb" "q \<in> set (seqs mb)" for rid mb q
      using seq readers [OF that(1)] that(2,3) ch unfolding im_seq_def mbox_seq_ok_def by fast
    then show ?thesis
      using ok ch next_seq seq_m by (auto simp: p(3) flight_seq_ok_def om.lookup_assign)
  qed
  ultimately show ?thesis
    using seq free by (auto simp: im_seq_def)
qed

lemma seqs_push:
  assumes "subseq (mb_messages mb') (mb_messages mb @ [m])"
    and "sorted_wrt (<) (seqs mb)" "\<forall>q \<in> set (seqs mb). q < seq_of m"
  shows "sorted_wrt (<) (seqs mb')" "set (seqs mb') \<subseteq> insert (seq_of m) (set (seqs mb))"
proof -
  have sub: "subseq (seqs mb') (seqs mb @ [seq_of m])"
    using subseq_map [OF assms(1), of seq_of] by (simp add: seqs_def)
  then show "sorted_wrt (<) (seqs mb')"
  proof (rule sorted_wrt_subseq)
    show "sorted_wrt (<) (seqs mb @ [seq_of m])"
      using assms(2,3) by (simp add: sorted_wrt_append)
  qed
  from subseq_set [OF sub] show "set (seqs mb') \<subseteq> insert (seq_of m) (set (seqs mb))" by auto
qed

lemma im_seq_deliver:
  assumes inv: "im_inv (st, fs1 @ f # fs2)" and f: "fl_readers f = rid # fl_readers f'" "fl_cid f' = fl_cid f"
      "fl_message f' = fl_message f"
    and mb: "omap_find (t_mbox st) rid = Some mb"
    and push: "subseq (mb_messages mb') (mb_messages mb @ [fl_message f])"
  shows "im_seq (st\<lparr>t_mbox := omap_assign rid mb' (t_mbox st)\<rparr>, fs1 @ f' # fs2)" (is "im_seq (?st, _)")
proof -
  from inv have seq: "mbox_seq_ok st" "\<forall>g \<in> set (fs1 @ f # fs2). flight_seq_ok st g"
    "distinct (map fl_cid (fs1 @ f # fs2))" and ok: "omap_ok (t_mbox st)" and wf: "im_wf (st, fs1 @ f # fs2)"
    by (simp_all add: im_inv_def im_seq_def im_wf_def maps_ok_def)
  have rd: "omap_find (t_readers st) rid = Some (fl_cid f)"
    using wf f(1) mb by (simp add: im_wf_def flights_ok_def live_mailbox_def)
  from wf_reader_channel [OF wf rd] obtain ch where ch: "omap_find (t_chan st) (fl_cid f) = Some ch" ..
  have below: "\<forall>q \<in> set (seqs mb). q < seq_of (fl_message f)" "seq_of (fl_message f) < unat (ch_next_sequence ch)"
    using seq(2) f(1) mb ch by (auto simp: flight_seq_ok_def)
  have "sorted_wrt (<) (seqs mb)" using seq(1) rd mb ch by (auto simp: mbox_seq_ok_def)
  note new = seqs_push [OF push this below(1)]
  have "mbox_seq_ok ?st"
    unfolding mbox_seq_ok_def
  proof (intro allI impI)
    fix r c b k assume a: "omap_find (t_readers ?st) r = Some c" "omap_find (t_mbox ?st) r = Some b"
      "omap_find (t_chan ?st) c = Some k"
    show "sorted_wrt (<) (seqs b) \<and> (\<forall>q \<in> set (seqs b). q < unat (ch_next_sequence k))"
    proof (cases "r = rid")
      case True
      with a rd ch ok have "b = mb'" "k = ch" by (auto simp: om.lookup_assign)
      moreover have "q < unat (ch_next_sequence ch)" if "q \<in> set (seqs mb')" for q
        using that new(2) below by (blast intro: less_trans)
      ultimately show ?thesis using new(1) by simp
    next
      case False
      with a ok seq(1) show ?thesis by (auto simp: mbox_seq_ok_def om.lookup_assign)
    qed
  qed
  moreover have "flight_seq_ok ?st g" if g: "g \<in> set fs1 \<union> set fs2" for g
  proof -
    have "rid \<notin> set (fl_readers g)"
    proof
      assume "rid \<in> set (fl_readers g)"
      with wf g mb have "omap_find (t_readers st) rid = Some (fl_cid g)"
        by (auto simp: im_wf_def flights_ok_def live_mailbox_def)
      with rd have "fl_cid g = fl_cid f" by simp
      with seq(3) g show False by (force simp: image_iff)
    qed
    with seq(2) g ok show ?thesis by (auto simp: flight_seq_ok_def om.lookup_assign)
  qed
  moreover have "flight_seq_ok ?st f'"
  proof -
    from wf f(1) have "rid \<notin> set (fl_readers f')" by (simp add: im_wf_def flights_ok_def)
    with seq(2) f ok show ?thesis by (auto simp: flight_seq_ok_def om.lookup_assign)
  qed
  ultimately show ?thesis using seq(3) f(2) by (auto simp: im_seq_def)
qed

theorem im_inv_step:
  assumes "im_step cb_throws True s t" "im_inv s"
  shows "im_inv t"
proof -
  have "im_wf t" using assms by (auto simp: im_inv_def intro: im_wf_step)
  moreover have "im_seq t"
    using assms
  proof (induction rule: im_step.induct)
    case (op_open st fs)
    then show ?case by (auto simp: State_Open_def im_inv_def intro: im_seq_frame)
  next
    case (read opts expired rid st r st' fs)
    then obtain mb mb' where mb: "omap_find (t_mbox st) rid = Some mb" "Mailbox_Read opts expired mb = ReadDone r mb'"
      and st': "st' = st\<lparr>t_mbox := omap_assign rid mb' (t_mbox st)\<rparr>"
      by (auto simp: InMemoryReader_Read_def split: option.splits read_step.splits)
    from Mailbox_Read_shape [OF mb(2)] have "suffix (mb_messages mb') (mb_messages mb)" by auto
    from im_seq_read [OF read.prems mb(1) this] st' show ?case by simp
  next
    case (set_callback st rid mb fs cb)
    then show ?case by (intro im_seq_read) (auto simp: Mailbox_SetDataAvailableCallback_def)
  next
    case (publish st wid cid ch view source now rids m st' fs)
    then have "omap_find (t_chan st) cid = Some ch"
      by (auto simp: writer_channel_def bind_eq_Some_conv)
    from im_seq_publish [OF publish.prems this publish.hyps(2) _ publish.hyps(4)] publish.hyps(3) show ?case
      by simp
  next
    case (deliver f rid rids st mb s mb' cbs fs1 fs2)
    then have "mailbox_ok mb" by (simp add: im_inv_def im_wf_def mboxes_ok_def)
    from Mailbox_Push_shape [OF deliver.hyps(3) this]
    have "subseq (mb_messages mb') (mb_messages mb @ [fl_message f])" by auto
    with deliver.prems deliver.hyps(1,2) show ?case
      by (intro im_seq_deliver) simp_all
  next
    case (deliver_closed f rid rids st fs1 fs2)
    then show ?case by (auto simp: im_inv_def im_seq_def flight_seq_ok_def)
  next
    case (finish f st fs1 fs2)
    then show ?case by (auto simp: im_inv_def im_seq_def)
  qed (simp_all add: im_seq_State_Close im_seq_CreateReader im_seq_CreateWriter im_seq_destroy)
  ultimately show ?thesis by (simp add: im_inv_def)
qed

interpretation imo: transition_system "\<lambda>s. s = (inmemory_init, [])" "im_step cb_throws True" im_inv
proof unfold_locales
  show "s = (inmemory_init, []) \<Longrightarrow> im_inv s" for s :: "'a im_sys"
    using imw.inv_init by (simp add: im_inv_def im_seq_def mbox_seq_ok_def inmemory_init_def)
  show "im_inv s \<Longrightarrow> im_step cb_throws True s t \<Longrightarrow> im_inv t" for s t
    by (rule im_inv_step)
qed

end
