(* ===== verification/Inmemory_Properties.thy ===== *)
theory Inmemory_Properties
  imports Inmemory_Order
begin

text \<open>
  What the in-memory transport promises, over its reachable states: bounded mailboxes that agree
  with their topic, delivery to every live reader, order of delivery, reader-owned topics and
  closing. The example states at the end of each part are the runs the witnesses use.
\<close>

section \<open>Publishing to all live readers\<close>

text \<open>What one publication does to one reader's mailbox; \<open>ok\<close> is whether it succeeded.\<close>

definition delivered :: "('cb \<Rightarrow> bool) \<Rightarrow> message \<Rightarrow> bool \<Rightarrow> 'cb mailbox option \<Rightarrow> 'cb mailbox option \<Rightarrow> bool" where
  "delivered cb_throws m ok old new \<longleftrightarrow>
     (case old of
        None \<Rightarrow> new = None \<and> \<not> ok
      | Some mb \<Rightarrow> (\<exists>s mb' cs. Mailbox_Push cb_throws m mb = PushDone s mb' cs \<and> new = Some mb'
                     \<and> (ok \<longrightarrow> status_ok s)))"

lemma push_readers_done:
  assumes "push_readers cb_throws rids m res st cbs = PublishDone res' st' cbs'"
    "distinct rids" "omap_ok (t_mbox st)"
  shows "(\<forall>rid. if rid \<in> set rids
                then delivered cb_throws m (status_ok res') (omap_find (t_mbox st) rid) (omap_find (t_mbox st') rid)
                else omap_find (t_mbox st') rid = omap_find (t_mbox st) rid)
       \<and> st' = st\<lparr>t_mbox := t_mbox st'\<rparr> \<and> (status_ok res' \<longrightarrow> status_ok res)"
  using assms
proof (induction rids arbitrary: st res cbs)
  case Nil
  then show ?case by simp
next
  case (Cons rid rids)
  from Cons.prems(2) have d: "rid \<notin> set rids" "distinct rids" by simp_all
  show ?case
  proof (cases "omap_find (t_mbox st) rid")
    case None
    with Cons.prems(1) have run: "push_readers cb_throws rids m
        (if status_ok res then mailbox_closed_status else res) st cbs = PublishDone res' st' cbs'"
      by simp
    note ih = Cons.IH [OF run d(2) Cons.prems(3)]
    then have "\<not> status_ok res'" by (auto simp: mailbox_closed_status_def split: if_splits)
    moreover from ih d(1) None have "omap_find (t_mbox st') rid = None" by metis
    ultimately have "delivered cb_throws m (status_ok res') (omap_find (t_mbox st) rid) (omap_find (t_mbox st') rid)"
      using None by (simp add: delivered_def)
    with ih have "if r \<in> set (rid # rids)
      then delivered cb_throws m (status_ok res') (omap_find (t_mbox st) r) (omap_find (t_mbox st') r)
      else omap_find (t_mbox st') r = omap_find (t_mbox st) r" for r
      by (metis set_ConsD list.set_intros(2))
    with ih \<open>\<not> status_ok res'\<close> show ?thesis by blast
  next
    case (Some mb)
    then obtain s mb' cs where push: "Mailbox_Push cb_throws m mb = PushDone s mb' cs"
      using Cons.prems(1) by (cases "Mailbox_Push cb_throws m mb") auto
    let ?st = "st\<lparr>t_mbox := omap_assign rid mb' (t_mbox st)\<rparr>"
    have ok: "omap_ok (t_mbox ?st)" using Cons.prems(3) by (simp add: om.ok_assign)
    have run: "push_readers cb_throws rids m (if status_ok res \<and> \<not> status_ok s then s else res) ?st (cbs @ cs)
        = PublishDone res' st' cbs'"
      using Cons.prems(1) Some push by simp
    note ih = Cons.IH [OF run d(2) ok]
    have st': "st' = st\<lparr>t_mbox := t_mbox st'\<rparr>" and res: "status_ok res' \<longrightarrow> status_ok res \<and> status_ok s"
      using ih by (auto split: if_splits)
    have "if r \<in> set (rid # rids)
      then delivered cb_throws m (status_ok res') (omap_find (t_mbox st) r) (omap_find (t_mbox st') r)
      else omap_find (t_mbox st') r = omap_find (t_mbox st) r" for r
    proof (cases "r = rid")
      case True
      from ih d(1) have "omap_find (t_mbox st') rid = omap_find (t_mbox ?st) rid" by metis
      with True Some push res Cons.prems(3) show ?thesis
        by (simp add: delivered_def om.lookup_assign)
    next
      case False
      then have "omap_find (t_mbox ?st) r = omap_find (t_mbox st) r"
        using Cons.prems(3) by (simp add: om.lookup_assign)
      with ih False show ?thesis by (metis set_ConsD list.set_intros(2))
    qed
    with st' res show ?thesis by blast
  qed
qed

section \<open>Example runs\<close>

definition ex_name :: named_value where
  "ex_name = NamedValue ''speed''"

definition ex_descriptor :: message_descriptor where
  "ex_descriptor = \<lparr>type_name = ''Speed'', encoding = ''raw'', version = 1\<rparr>"

definition ex_endpoint :: "message_policy \<Rightarrow> topic_lifetime \<Rightarrow> endpoint_config" where
  "ex_endpoint p l = \<lparr>ep_topic = \<lparr>ts_name = ex_name, ts_transport = kInMemory, ts_message_policy = p,
     ts_lifetime = l\<rparr>, ep_message = ex_descriptor\<rparr>"

definition ex_queue :: message_policy where
  "ex_queue = MessagePolicy_default\<lparr>freshness := kQueued, queue_depth := 4\<rparr>"

text \<open>A transport with a reader (identity 1) and two writers (2 and 3) on one topic (channel 0).\<close>

definition ex_setup :: "message_policy \<Rightarrow> topic_lifetime \<Rightarrow> unit inmemory" where
  "ex_setup p l =
     snd (CreateWriter (ex_endpoint p l) (snd (CreateWriter (ex_endpoint p l)
       (snd (CreateReader (ex_endpoint p l) (snd (State_Open inmemory_init)))))))"

definition ex_channel :: "topic_lifetime \<Rightarrow> channel" where
  "ex_channel l = (TopicChannel_new ex_name ex_descriptor l)\<lparr>ch_readers := [1], ch_had_reader := True\<rparr>"

definition ex_state :: "message_policy \<Rightarrow> topic_lifetime \<Rightarrow> unit inmemory" where
  "ex_state p l = \<lparr>t_open = True, t_channels = [(''speed'', 0)], t_chan = [(0, ex_channel l)],
     t_mbox = [(1, Mailbox_new ex_name ex_descriptor p)], t_readers = [(1, 0)], t_writers = [(2, 0), (3, 0)],
     t_next = 4\<rparr>"

lemma ex_valid: "valid_name ''speed''"
  by (simp add: valid_name_def bad_name_char_def)

lemma ex_endpoint_ok: "queue_depth p \<noteq> 0 \<Longrightarrow> status_ok (ValidateInMemoryEndpoint (ex_endpoint p l))"
  by (simp add: ValidateInMemoryEndpoint_ok EndpointConfig_Validate_ok ex_endpoint_def ex_name_def
      ex_descriptor_def ex_valid)

lemma ex_endpoint_simps [simp]:
  "ts_name (ep_topic (ex_endpoint p l)) = ex_name" "ts_lifetime (ep_topic (ex_endpoint p l)) = l"
  "ts_message_policy (ep_topic (ex_endpoint p l)) = p" "ep_message (ex_endpoint p l) = ex_descriptor"
  "str ex_name = ''speed''"
  by (simp_all add: ex_endpoint_def ex_name_def)

lemma ex_setup_eq:
  assumes "queue_depth p \<noteq> 0"
  shows "ex_setup p l = ex_state p l"
proof -
  let ?mb = "Mailbox_new ex_name ex_descriptor p"
  note ok [simp] = ex_endpoint_ok [OF assms, of l]
  note [simp] = omap_find_def omap_emplace_def live_channel_def live_mailbox_def ex_channel_def GoneLocked_def
    TopicChannel_AddReader_def
  have reader: "snd (CreateReader (ex_endpoint p l) (snd (State_Open inmemory_init))) =
    \<lparr>t_open = True, t_channels = [(''speed'', 0)], t_chan = [(0, ex_channel l)], t_mbox = [(1, ?mb)],
     t_readers = [(1, 0)], t_writers = [], t_next = 2\<rparr>"
    by (simp add: State_Open_def inmemory_init_def CreateReader_def GetOrCreateChannel_def new_channel_def Let_def)
  have channel: "ch_lifetime (ex_channel l) = l" "ch_descriptor (ex_channel l) = ex_descriptor" by simp_all
  have writer: "snd (CreateWriter (ex_endpoint p l) \<lparr>t_open = True, t_channels = [(''speed'', 0)],
      t_chan = [(0, ex_channel l)], t_mbox = [(1, ?mb)], t_readers = [(1, 0)], t_writers = ws, t_next = n\<rparr>) =
    \<lparr>t_open = True, t_channels = [(''speed'', 0)], t_chan = [(0, ex_channel l)], t_mbox = [(1, ?mb)],
     t_readers = [(1, 0)], t_writers = omap_assign n 0 ws, t_next = n + 1\<rparr>" for ws n
    by (simp add: CreateWriter_def GetOrCreateChannel_def Let_def)
  show ?thesis
    unfolding ex_setup_def reader writer ex_state_def by simp
qed

lemma ex_setup_run:
  assumes "queue_depth p \<noteq> 0"
  shows "(im_step cb_throws serial)\<^sup>*\<^sup>* (inmemory_init, []) (ex_state p l, [])"
proof -
  let ?st = "snd (State_Open inmemory_init) :: unit inmemory"
  have "(im_step cb_throws serial)\<^sup>*\<^sup>* (inmemory_init, []) (?st, [])"
    by (intro r_into_rtranclp im_step.op_open)
  then have "(im_step cb_throws serial)\<^sup>*\<^sup>* (inmemory_init, []) (snd (CreateReader (ex_endpoint p l) ?st), [])"
    by (rule rtranclp.rtrancl_into_rtrancl) (rule im_step.create_reader)
  then have "(im_step cb_throws serial)\<^sup>*\<^sup>* (inmemory_init, []) (ex_setup p l, [])"
    unfolding ex_setup_def
    by (blast intro: rtranclp.rtrancl_into_rtrancl im_step.create_writer)
  then show ?thesis by (simp add: ex_setup_eq [OF assms])
qed

definition ex_message :: "u64 \<Rightarrow> byte \<Rightarrow> message" where
  "ex_message q b = \<lparr>payload = [b], metadata = \<lparr>sequence = q, source_timestamp = 7, reception_timestamp = 7\<rparr>\<rparr>"

definition ex_at :: "message_policy \<Rightarrow> u64 \<Rightarrow> unit inmemory" where
  "ex_at p q = (ex_state p kShared)\<lparr>t_chan := [(0, (ex_channel kShared)\<lparr>ch_next_sequence := q\<rparr>)]\<rparr>"

lemma ex_publish:
  "writer_channel (ex_at p q) wid = Some (0, (ex_channel kShared)\<lparr>ch_next_sequence := q\<rparr>) \<Longrightarrow>
   Publish_begin (0, (ex_channel kShared)\<lparr>ch_next_sequence := q\<rparr>) (View [b]) 7 7 (ex_at p q)
     = BeginDeliver [1] (ex_message q b) (ex_at p (q + 1))"
  by (simp add: Publish_begin_def Let_def ex_channel_def GoneLocked_def live_mailbox_def ex_state_def ex_at_def
      publish_message_def ex_message_def omap_find_def TopicChannel_new_def)

lemma ex_writers: "wid = 2 \<or> wid = 3 \<Longrightarrow>
    writer_channel (ex_at p q) wid = Some (0, (ex_channel kShared)\<lparr>ch_next_sequence := q\<rparr>)"
  by (auto simp: writer_channel_def ex_at_def ex_state_def omap_find_def)

text \<open>Both writers publish, then the second message is delivered before the first.\<close>

lemma ex_race_run:
  assumes p: "queue_depth p \<noteq> 0"
    and push2: "Mailbox_Push (\<lambda>_. False) (ex_message 2 b2) (Mailbox_new ex_name ex_descriptor p) = PushDone s2 mb2 c2"
    and push1: "Mailbox_Push (\<lambda>_. False) (ex_message 1 b1) mb2 = PushDone s1 mb1 c1"
  shows "\<exists>fs. (im_step (\<lambda>_. False) False)\<^sup>*\<^sup>* (inmemory_init, []) ((ex_at p 3)\<lparr>t_mbox := [(1, mb1)]\<rparr>, fs)"
proof -
  let ?step = "im_step (\<lambda>_ :: unit. False) False"
  let ?f1 = "\<lparr>fl_cid = 0, fl_readers = [1], fl_message = ex_message 1 b1, fl_result = Status_Ok\<rparr>"
  let ?f2 = "\<lparr>fl_cid = 0, fl_readers = [1], fl_message = ex_message 2 b2, fl_result = Status_Ok\<rparr>"
  have at1: "ex_state p kShared = ex_at p 1"
    by (simp add: ex_at_def ex_state_def ex_channel_def TopicChannel_new_def)
  have run0: "?step\<^sup>*\<^sup>* (inmemory_init, []) (ex_at p 1, [])"
    using ex_setup_run [OF p, of "\<lambda>_. False" False kShared] unfolding at1 .
  have "?step (ex_at p 1, []) (ex_at p (1 + 1), [] @ [?f1])"
    by (rule im_step.publish [OF ex_writers [of 2] ex_publish [OF ex_writers [of 2]]]) (simp_all add: ex_channel_def)
  then have run1: "?step\<^sup>*\<^sup>* (inmemory_init, []) (ex_at p 2, [?f1])"
    using run0 by (simp add: rtranclp.rtrancl_into_rtrancl)
  have "?step (ex_at p 2, [?f1]) (ex_at p (2 + 1), [?f1] @ [?f2])"
    by (rule im_step.publish [OF ex_writers [of 3] ex_publish [OF ex_writers [of 3]]]) (simp_all add: ex_channel_def)
  then have run2: "?step\<^sup>*\<^sup>* (inmemory_init, []) (ex_at p 3, [?f1] @ ?f2 # [])"
    using run1 by (simp add: rtranclp.rtrancl_into_rtrancl)
  have mb0: "omap_find (t_mbox (ex_at p 3)) 1 = Some (Mailbox_new ex_name ex_descriptor p)"
    by (simp add: ex_at_def ex_state_def omap_find_def)
  have d2: "?step (ex_at p 3, [?f1] @ ?f2 # [])
      ((ex_at p 3)\<lparr>t_mbox := [(1, mb2)]\<rparr>, [?f1] @ ?f2\<lparr>fl_readers := [], fl_result := (if status_ok (fl_result ?f2) \<and> \<not> status_ok s2 then s2 else fl_result ?f2)\<rparr> # [])"
    using im_step.deliver [of ?f2 1 "[]" "ex_at p 3" _ "\<lambda>_. False" s2 mb2 c2 False "[?f1]" "[]", OF _ mb0] push2
    by (simp add: ex_at_def ex_state_def)
  let ?st = "(ex_at p 3)\<lparr>t_mbox := [(1, mb2)]\<rparr>"
  obtain fs2 where run3: "?step\<^sup>*\<^sup>* (inmemory_init, []) (?st, [] @ ?f1 # fs2)"
    using rtranclp.rtrancl_into_rtrancl [OF run2 d2] by auto
  have "omap_find (t_mbox ?st) 1 = Some mb2" by (simp add: omap_find_def)
  from im_step.deliver [of ?f1 1 "[]" ?st mb2 "\<lambda>_. False" s1 mb1 c1 False "[]" fs2, OF _ this] push1
  have "\<exists>fs. ?step (?st, [] @ ?f1 # fs2) ((ex_at p 3)\<lparr>t_mbox := [(1, mb1)]\<rparr>, fs)"
    by auto
  with run3 show ?thesis by (blast intro: rtranclp.rtrancl_into_rtrancl)
qed

section \<open>Bounded mailboxes that agree with their topic\<close>

text \<open>
  C1. In every state the in-memory transport can reach, by any interleaving of opening, closing,
  creating and destroying endpoints, reading, publishing and delivering (also with several
  publications of one topic in flight), the mailbox of every reader holds at most as many messages
  as its policy allows, unless the policy asks for an unbounded queue, and the reader is attached
  to a live channel that carries exactly the message type, encoding and version the reader declared.
\<close>

theorem mailbox_bounded_and_typed:
  assumes "(im_step cb_throws serial)\<^sup>*\<^sup>* (inmemory_init, []) (st, fs)"
    and "omap_find (t_mbox st) rid = Some mb"
  shows "(UsesUnboundedQueue (mb_policy mb) \<or> length (mb_messages mb) \<le> QueueCapacity (mb_policy mb))
    \<and> (\<exists>cid ch. omap_find (t_readers st) rid = Some cid \<and> omap_find (t_chan st) cid = Some ch
         \<and> ch_descriptor ch = mb_descriptor mb)"
proof -
  have wf: "im_wf (st, fs)" using imw.inv_reachable [OF refl assms(1)] .
  from wf assms(2) have ok: "mailbox_ok mb" and live: "omap_find (t_readers st) rid \<noteq> None"
    unfolding im_wf_def ids_ok_def mboxes_ok_def by auto
  from live obtain cid where cid: "omap_find (t_readers st) rid = Some cid" by auto
  from wf_reader_channel [OF wf cid] obtain ch where ch: "omap_find (t_chan st) cid = Some ch" ..
  from wf assms(2) cid ch have "ch_descriptor ch = mb_descriptor mb"
    by (simp add: im_wf_def mboxes_ok_def)
  with ok cid ch show ?thesis by (auto simp: mailbox_ok_def)
qed

theorem mailbox_bounded_and_typed_witness:
  "\<exists>cid ch. omap_find (t_readers (ex_state ex_queue kShared)) 1 = Some cid
     \<and> omap_find (t_chan (ex_state ex_queue kShared)) cid = Some ch \<and> ch_descriptor ch = ex_descriptor"
proof -
  have q: "queue_depth ex_queue \<noteq> 0" by (simp add: ex_queue_def)
  have "omap_find (t_mbox (ex_state ex_queue kShared)) 1 = Some (Mailbox_new ex_name ex_descriptor ex_queue)"
    by (simp add: ex_state_def omap_find_def)
  from mailbox_bounded_and_typed [OF ex_setup_run [OF q, of "\<lambda>_. False" False kShared] this]
  show ?thesis by (simp add: Mailbox_new_def)
qed

section \<open>Order of delivery\<close>



text \<open>
  C3. Overlapping publications can be delivered out of order: from the initial state the transport
  reaches a state in which a queueing reader holds message 2 before message 1, and one in which a
  latest-only reader holds message 1 after message 2 was published and delivered. The sequence
  number is taken under the channel's lock but the deliveries happen after it is released.
\<close>

theorem concurrent_publish_reorders:
  "(\<exists>(st :: unit inmemory) fs mb. (im_step (\<lambda>_. False) False)\<^sup>*\<^sup>* (inmemory_init, []) (st, fs)
     \<and> omap_find (t_mbox st) 1 = Some mb \<and> freshness (mb_policy mb) = kQueued \<and> seqs mb = [2, 1])
   \<and> (\<exists>(st :: unit inmemory) fs mb. (im_step (\<lambda>_. False) False)\<^sup>*\<^sup>* (inmemory_init, []) (st, fs)
     \<and> omap_find (t_mbox st) 1 = Some mb \<and> freshness (mb_policy mb) = kLatest \<and> seqs mb = [1]
     \<and> map_option ch_next_sequence (omap_find (t_chan st) 0) = Some 3)"
proof -
  have "\<exists>fs. (im_step (\<lambda>_. False) False)\<^sup>*\<^sup>* (inmemory_init, [])
      ((ex_at ex_queue 3)\<lparr>t_mbox := [(1, (Mailbox_new ex_name ex_descriptor ex_queue)
         \<lparr>mb_messages := [ex_message 2 5, ex_message 1 5]\<rparr>)]\<rparr>, fs)"
    by (rule ex_race_run [of ex_queue 5 Status_Ok "(Mailbox_new ex_name ex_descriptor ex_queue)
          \<lparr>mb_messages := [ex_message 2 5]\<rparr>" "[]" 5 Status_Ok _ "[]"])
      (simp_all add: ex_queue_def MessagePolicy_default_def Mailbox_Push_def Mailbox_new_def
        Mailbox_PushQueued_def UsesUnboundedQueue_def QueueCapacity_def)
  moreover have "\<exists>fs. (im_step (\<lambda>_. False) False)\<^sup>*\<^sup>* (inmemory_init, [])
      ((ex_at MessagePolicy_default 3)\<lparr>t_mbox := [(1, (Mailbox_new ex_name ex_descriptor MessagePolicy_default)
         \<lparr>mb_messages := [ex_message 1 5]\<rparr>)]\<rparr>, fs)"
    by (rule ex_race_run [of MessagePolicy_default 5 Status_Ok "(Mailbox_new ex_name ex_descriptor MessagePolicy_default)
          \<lparr>mb_messages := [ex_message 2 5]\<rparr>" "[]" 5 Status_Ok _ "[]"])
      (simp_all add: MessagePolicy_default_def Mailbox_Push_def Mailbox_new_def)
  ultimately show ?thesis
    by (force simp: omap_find_def seqs_def seq_of_def ex_message_def Mailbox_new_def ex_queue_def
        MessagePolicy_default_def ex_at_def)
qed

section \<open>What a reader gets\<close>

text \<open>
  C4. A reader whose policy is an unbounded queue, or a bounded queue that blocks or rejects when
  full, loses nothing: for any sequence of pushes and reads, the messages it has read followed by
  the messages still in the mailbox are exactly the messages the mailbox accepted, in order.
\<close>

theorem mailbox_lossless:
  assumes "0 < queue_depth p" "lossless_policy p"
    and "source_run mailbox_offer mailbox_take (Mailbox_new t d p :: 'cb mailbox) es = (ms, mb)"
  shows "ms @ mb_messages mb = accepted mailbox_accepts mailbox_offer mailbox_take (Mailbox_new t d p :: 'cb mailbox) es"
  using mbl.run_lossless [OF _ assms(3)] assms(1,2) mailbox_ok_new [OF assms(1), of t d]
  by (simp add: Mailbox_new_def)

definition ex_reject :: message_policy where
  "ex_reject = MessagePolicy_default\<lparr>freshness := kQueued, overflow := kReject, queue_depth := 1\<rparr>"

definition ex_events :: "message source_event list" where
  "ex_events = [Offer (ex_message 1 5), Offer (ex_message 2 6), Take, Offer (ex_message 3 7)]"

theorem mailbox_lossless_witness:
  "accepted mailbox_accepts mailbox_offer mailbox_take (Mailbox_new ex_name ex_descriptor ex_reject :: unit mailbox) ex_events
     = [ex_message 1 5] @ [ex_message 3 7]"
proof -
  have "source_run mailbox_offer mailbox_take (Mailbox_new ex_name ex_descriptor ex_reject :: unit mailbox) ex_events
      = ([ex_message 1 5], (Mailbox_new ex_name ex_descriptor ex_reject)\<lparr>mb_messages := [ex_message 3 7]\<rparr>)"
    by (simp add: ex_events_def mailbox_offer_def mailbox_take_eq Mailbox_Push_def Mailbox_PushQueued_def
        Mailbox_new_def ex_reject_def MessagePolicy_default_def UsesUnboundedQueue_def QueueCapacity_def)
  from mailbox_lossless [OF _ _ this] show ?thesis
    by (simp add: ex_reject_def MessagePolicy_default_def lossless_policy_def Mailbox_new_def)
qed

text \<open>
  Whatever the policy, a reader sees a subsequence of what was pushed to it: messages are never
  reordered, duplicated or made up by a mailbox, for any sequence of pushes and reads.
\<close>

theorem mailbox_reads_subsequence:
  assumes "0 < queue_depth p"
    and "source_run mailbox_offer mailbox_take (Mailbox_new t d p :: 'cb mailbox) es = (ms, mb)"
  shows "subseq (ms @ mb_messages mb) (offered es)"
  using mbq.run_subseq [OF mailbox_ok_new [OF assms(1)] assms(2)] by (simp add: Mailbox_new_def)

theorem mailbox_reads_subsequence_witness:
  "subseq ([ex_message 2 6] @ [ex_message 3 7]) (offered ex_events)"
proof -
  have "source_run mailbox_offer mailbox_take (Mailbox_new ex_name ex_descriptor MessagePolicy_default :: unit mailbox) ex_events
      = ([ex_message 2 6], (Mailbox_new ex_name ex_descriptor MessagePolicy_default)\<lparr>mb_messages := [ex_message 3 7]\<rparr>)"
    by (simp add: ex_events_def mailbox_offer_def mailbox_take_eq Mailbox_Push_def Mailbox_new_def MessagePolicy_default_def)
  from mailbox_reads_subsequence [OF _ this] show ?thesis
    by (simp add: MessagePolicy_default_def Mailbox_new_def)
qed

text \<open>
  A publication that completes hands one message, with the payload of the view and the
  channel's next sequence number, to every live reader registered on the channel and to no other
  mailbox, advances the sequence number by one, and reports success only if every mailbox
  accepted the message.
\<close>

theorem publish_reaches_every_reader:
  assumes "(im_step cb_throws serial)\<^sup>*\<^sup>* (inmemory_init, []) (st, fs)"
    and "writer_channel st wid = Some (cid, ch)"
    and "\<not> ch_closed ch" "\<not> GoneLocked st ch"
    and "InMemoryWriter_Write cb_throws wid (View bs) source now st = Some (PublishDone res st' cbs)"
  shows "(\<forall>rid. if rid \<in> set (ch_readers ch) \<and> live_mailbox st rid
            then delivered cb_throws (publish_message ch (View bs) source now) (status_ok res)
                   (omap_find (t_mbox st) rid) (omap_find (t_mbox st') rid)
            else omap_find (t_mbox st') rid = omap_find (t_mbox st) rid)
       \<and> map_option ch_next_sequence (omap_find (t_chan st') cid) = Some (ch_next_sequence ch + 1)"
proof -
  have wf: "im_wf (st, fs)" using imw.inv_reachable [OF refl assms(1)] .
  then have ok: "omap_ok (t_mbox st)" "omap_ok (t_chan st)" by (simp_all add: im_wf_def maps_ok_def)
  from assms(2) have ch: "omap_find (t_chan st) cid = Some ch" by (auto simp: writer_channel_def bind_eq_Some_conv)
  with wf have d: "distinct (ch_readers ch)" by (auto simp: im_wf_def chans_ok_def)
  let ?rids = "filter (live_mailbox st) (ch_readers ch)"
  let ?ch = "ch\<lparr>ch_next_sequence := ch_next_sequence ch + 1, ch_readers := ?rids\<rparr>"
  let ?st = "st\<lparr>t_chan := omap_assign cid ?ch (t_chan st)\<rparr>"
  have run: "push_readers cb_throws ?rids (publish_message ch (View bs) source now) Status_Ok ?st [] = PublishDone res st' cbs"
    using assms(2-5) by (simp add: InMemoryWriter_Write_def TopicChannel_Publish_def Publish_begin_def Let_def)
  have dr: "distinct ?rids" and okm: "omap_ok (t_mbox ?st)" using d ok(1) by simp_all
  note pushed = push_readers_done [OF run dr okm]
  then have "st' = ?st\<lparr>t_mbox := t_mbox st'\<rparr>" by blast
  then have "t_chan st' = t_chan (?st\<lparr>t_mbox := t_mbox st'\<rparr>)" by (rule arg_cong)
  with ok(2) have "map_option ch_next_sequence (omap_find (t_chan st') cid) = Some (ch_next_sequence ch + 1)"
    by (simp add: om.lookup_assign)
  moreover have mb: "t_mbox ?st = t_mbox st" by simp
  ultimately show ?thesis using pushed unfolding mb by simp
qed

theorem publish_reaches_every_reader_witness:
  "delivered (\<lambda>_. False) (publish_message (ex_channel kShared) (View [5]) 7 7) True
     (omap_find (t_mbox (ex_state ex_queue kShared)) 1)
     (Some ((Mailbox_new ex_name ex_descriptor ex_queue)\<lparr>mb_messages := [ex_message 1 5]\<rparr> :: unit mailbox))"
proof -
  let ?st = "ex_state ex_queue kShared"
  have q: "queue_depth ex_queue \<noteq> 0" by (simp add: ex_queue_def)
  have w: "writer_channel ?st 2 = Some (0, ex_channel kShared)"
    by (simp add: writer_channel_def ex_state_def omap_find_def)
  have ready: "\<not> ch_closed (ex_channel kShared)" "\<not> GoneLocked ?st (ex_channel kShared)"
    by (simp_all add: ex_channel_def GoneLocked_def)
  have wr: "InMemoryWriter_Write (\<lambda>_. False) 2 (View [5]) 7 7 ?st = Some (PublishDone Status_Ok
      (?st\<lparr>t_chan := [(0, (ex_channel kShared)\<lparr>ch_next_sequence := 2\<rparr>)],
          t_mbox := [(1, (Mailbox_new ex_name ex_descriptor ex_queue)\<lparr>mb_messages := [ex_message 1 5]\<rparr>)]\<rparr>) [])"
    by (simp add: InMemoryWriter_Write_def w TopicChannel_Publish_def Publish_begin_def Let_def ready)
      (simp add: ex_state_def ex_channel_def live_mailbox_def omap_find_def Mailbox_Push_def Mailbox_PushQueued_def
        Mailbox_new_def ex_queue_def MessagePolicy_default_def UsesUnboundedQueue_def QueueCapacity_def
        publish_message_def ex_message_def)
  from publish_reaches_every_reader
      [OF ex_setup_run [OF q, of "\<lambda>_. False" False kShared] w ready wr, THEN conjunct1, THEN spec, of 1]
  show ?thesis by (simp add: ex_channel_def live_mailbox_def ex_state_def omap_find_def)
qed

section \<open>Reader-owned topics and closing\<close>

lemma omap_find_filter:
  assumes "omap_ok m" "omap_find m k = Some v" "P (k, v)"
  shows "omap_find (filter P m) k = Some v"
  using assms
proof (induction m)
  case Nil
  then show ?case by simp
next
  case (Cons a m)
  then show ?case
    by (cases a) (auto simp: omap_find_def omap_ok_Cons split: if_splits)
qed

text \<open>
  A reader-owned topic dies with its reader: once the only live reader of such a topic is
  destroyed, a writer still attached to it gets \<open>NotFound\<close> for every well-formed message and
  nothing is delivered anywhere, and no new writer can attach until a reader creates the topic
  again.
\<close>

theorem reader_owned_topic_ends_with_reader:
  assumes "(im_step cb_throws serial)\<^sup>*\<^sup>* (inmemory_init, []) (st, fs)"
    and "writer_channel st wid = Some (cid, ch)" "omap_find (t_readers st) rid = Some cid"
    and "ch_lifetime ch = kReaderOwned" "ch_had_reader ch" "\<not> ch_closed ch"
    and "\<forall>r \<in> set (ch_readers ch). live_mailbox st r \<longrightarrow> r = rid"
    and "ts_name (ep_topic e) = ch_topic ch" "ep_message e = ch_descriptor ch" "ts_lifetime (ep_topic e) = kReaderOwned"
    and "status_ok (ValidateInMemoryEndpoint e)" "t_open st"
    and "omap_find (t_channels st) (str (ch_topic ch)) = Some cid"
  shows "(\<exists>s. InMemoryWriter_Write cb_throws wid (View bs) source now (DestroyReader rid st)
            = Some (PublishDone s (DestroyReader rid st) []) \<and> st_code s = kNotFound)
    \<and> (\<exists>s. fst (CreateWriter e (DestroyReader rid st)) = Inl s \<and> st_code s = kNotFound)"
proof -
  have wf: "im_wf (st, fs)" using imw.inv_reachable [OF refl assms(1)] .
  then have ok: "omap_ok (t_mbox st)" "omap_ok (t_channels st)" by (simp_all add: im_wf_def maps_ok_def)
  from assms(2) have w: "omap_find (t_writers st) wid = Some cid" and ch: "omap_find (t_chan st) cid = Some ch"
    by (auto simp: writer_channel_def bind_eq_Some_conv)
  let ?st = "st\<lparr>t_mbox := omap_erase rid (t_mbox st), t_readers := omap_erase rid (t_readers st)\<rparr>"
  have used: "list_ex (\<lambda>entry. snd entry = cid) (t_readers ?st @ t_writers ?st)"
    using omap_find_in [OF w] by (force simp: list_ex_iff)
  have destroy: "DestroyReader rid st = ?st"
    using assms(3) used by (simp add: DestroyReader_def drop_channel_if_unused_def)
  have gone: "GoneLocked ?st ch"
    using assms(4,5,7) ok(1) by (auto simp: GoneLocked_def live_mailbox_def list_ex_iff om.lookup_erase)
  have "InMemoryWriter_Write cb_throws wid (View bs) source now ?st = Some (PublishDone
      (Status_NotFound (''in-memory topic '' @ str (ch_topic ch) @ '' was closed by its reader'')) ?st [])"
    using assms(6) gone w ch
    by (simp add: InMemoryWriter_Write_def writer_channel_def TopicChannel_Publish_def Publish_begin_def Let_def)
  moreover have "\<exists>s. fst (CreateWriter e ?st) = Inl s \<and> st_code s = kNotFound"
  proof -
    have "omap_find (filter (\<lambda>entry. live_channel ?st (snd entry)) (t_channels ?st)) (str (ts_name (ep_topic e))) = Some cid"
      using assms(8,13) ch ok(2)
      by (simp add: omap_find_filter live_channel_def)
    then show ?thesis
      using assms(4,8-12) ch gone
      by (simp add: CreateWriter_def GetOrCreateChannel_def Let_def new_channel_def FromStatus_def)
  qed
  ultimately show ?thesis unfolding destroy by fastforce
qed

theorem reader_owned_topic_ends_with_reader_witness:
  "(\<exists>s. InMemoryWriter_Write (\<lambda>_. False) 2 (View [5]) 7 7 (DestroyReader 1 (ex_state ex_queue kReaderOwned))
        = Some (PublishDone s (DestroyReader 1 (ex_state ex_queue kReaderOwned)) []) \<and> st_code s = kNotFound)
   \<and> (\<exists>s. fst (CreateWriter (ex_endpoint ex_queue kReaderOwned) (DestroyReader 1 (ex_state ex_queue kReaderOwned)))
        = Inl s \<and> st_code s = kNotFound)"
proof -
  have q: "queue_depth ex_queue \<noteq> 0" by (simp add: ex_queue_def)
  have w: "writer_channel (ex_state ex_queue kReaderOwned) 2 = Some (0, ex_channel kReaderOwned)"
    by (simp add: writer_channel_def ex_state_def omap_find_def)
  show ?thesis
    by (rule reader_owned_topic_ends_with_reader [OF ex_setup_run [OF q, of "\<lambda>_. False" False kReaderOwned] w])
      (use ex_endpoint_ok [OF q] in \<open>simp_all add: ex_state_def ex_channel_def TopicChannel_new_def omap_find_def
        ex_name_def [symmetric]\<close>)
qed

lemma Close_channel:
  assumes "omap_ok (t_chan st)" "omap_find (t_chan st) cid = Some ch"
  shows "\<exists>ch'. omap_find (t_chan (TopicChannel_Close c st)) cid = Some ch'
     \<and> (ch_closed ch \<or> c = cid \<longrightarrow> ch_closed ch') \<and> (c \<noteq> cid \<longrightarrow> ch' = ch)"
    and "omap_ok (t_chan (TopicChannel_Close c st))"
  using assms by (auto simp: TopicChannel_Close_def om.lookup_assign om.ok_assign split: option.split)

lemma Close_mailbox:
  assumes "omap_find (t_mbox st) rid = Some mb"
  shows "\<exists>mb'. omap_find (t_mbox (TopicChannel_Close c st)) rid = Some mb'
     \<and> (mb_closed mb \<or> (\<exists>ch. omap_find (t_chan st) c = Some ch \<and> rid \<in> set (ch_readers ch)) \<longrightarrow> mb_closed mb')"
  using assms
  by (auto simp: TopicChannel_Close_def omap_find_close_mailboxes split: option.split)

lemma fold_Close_channel:
  assumes "omap_ok (t_chan st)" "omap_find (t_chan st) cid = Some ch" "cid \<in> set cids \<or> ch_closed ch"
  shows "\<exists>ch'. omap_find (t_chan (fold TopicChannel_Close cids st)) cid = Some ch' \<and> ch_closed ch'"
  using assms
proof (induction cids arbitrary: st ch)
  case Nil
  then show ?case by simp
next
  case (Cons c cids)
  from Close_channel [OF Cons.prems(1,2), of c] obtain ch' where
    "omap_find (t_chan (TopicChannel_Close c st)) cid = Some ch'"
    "ch_closed ch \<or> c = cid \<longrightarrow> ch_closed ch'" "omap_ok (t_chan (TopicChannel_Close c st))" by blast
  with Cons.IH [of "TopicChannel_Close c st" ch'] Cons.prems(3) show ?case by auto
qed

lemma fold_Close_mailbox:
  assumes "omap_ok (t_chan st)" "omap_find (t_mbox st) rid = Some mb"
    and "mb_closed mb \<or> cid \<in> set cids \<and> omap_find (t_chan st) cid = Some ch \<and> rid \<in> set (ch_readers ch)"
  shows "\<exists>mb'. omap_find (t_mbox (fold TopicChannel_Close cids st)) rid = Some mb' \<and> mb_closed mb'"
  using assms
proof (induction cids arbitrary: st mb)
  case Nil
  then show ?case by simp
next
  case (Cons c cids)
  let ?st = "TopicChannel_Close c st"
  from Close_mailbox [OF Cons.prems(2), of c] obtain mb' where mb': "omap_find (t_mbox ?st) rid = Some mb'"
    "mb_closed mb \<or> (\<exists>ch. omap_find (t_chan st) c = Some ch \<and> rid \<in> set (ch_readers ch)) \<longrightarrow> mb_closed mb'"
    by blast
  have ok: "omap_ok (t_chan ?st)"
    using Cons.prems(1) by (auto simp: TopicChannel_Close_def om.ok_assign split: option.split)
  have "mb_closed mb' \<or> cid \<in> set cids \<and> omap_find (t_chan ?st) cid = Some ch \<and> rid \<in> set (ch_readers ch)"
  proof (cases "mb_closed mb \<or> c = cid")
    case True
    with mb'(2) Cons.prems(3) show ?thesis by auto
  next
    case False
    with Cons.prems(3) have "cid \<in> set cids" "omap_find (t_chan st) cid = Some ch" "rid \<in> set (ch_readers ch)" "c \<noteq> cid"
      by auto
    with Close_channel(1) [OF Cons.prems(1), of cid ch c] show ?thesis by auto
  qed
  from Cons.IH [OF ok mb'(1) this] show ?case by simp
qed

text \<open>
  Closing the transport ends every topic in its table: afterwards a write through any writer
  attached to such a channel fails with \<open>FailedPrecondition\<close>, and every mailbox registered on it is
  closed, so that a reader that waits for data wakes up.
\<close>

theorem close_ends_topics:
  assumes "(im_step cb_throws serial)\<^sup>*\<^sup>* (inmemory_init, []) (st, fs)"
    and "writer_channel st wid = Some (cid, ch)" "cid \<in> snd ` set (t_channels st)"
    and "rid \<in> set (ch_readers ch)" "live_mailbox st rid"
  shows "(\<exists>s. InMemoryWriter_Write cb_throws wid (View bs) source now (snd (State_Close st))
            = Some (PublishDone s (snd (State_Close st)) []) \<and> st_code s = kFailedPrecondition)
    \<and> (\<exists>mb. omap_find (t_mbox (snd (State_Close st))) rid = Some mb \<and> Mailbox_Read opts expired mb \<noteq> ReadWaits)"
proof -
  have wf: "im_wf (st, fs)" using imw.inv_reachable [OF refl assms(1)] .
  then have ok: "omap_ok (t_chan st)" by (simp add: im_wf_def maps_ok_def)
  from assms(2) have w: "omap_find (t_writers st) wid = Some cid" and ch: "omap_find (t_chan st) cid = Some ch"
    by (auto simp: writer_channel_def bind_eq_Some_conv)
  from assms(3) have tab: "t_channels st \<noteq> []" "cid \<in> set (map snd (t_channels st))" by auto
  let ?st = "fold TopicChannel_Close (map snd (t_channels st)) st"
  have st': "snd (State_Close st) = ?st\<lparr>t_open := False, t_channels := []\<rparr>"
    using tab(1) by (simp add: State_Close_def)
  have writers: "t_writers (fold TopicChannel_Close cs s) = t_writers s" for cs and s :: "'a inmemory"
    by (induction cs arbitrary: s) (auto simp: TopicChannel_Close_def split: option.split)
  from fold_Close_channel [OF ok ch] tab(2) obtain ch' where
    ch': "omap_find (t_chan ?st) cid = Some ch'" "ch_closed ch'" by blast
  from assms(5) obtain mb where "omap_find (t_mbox st) rid = Some mb" by (auto simp: live_mailbox_def)
  from fold_Close_mailbox [OF ok this] tab(2) ch assms(4) obtain mb' where
    mb': "omap_find (t_mbox ?st) rid = Some mb'" "mb_closed mb'" by blast
  have "InMemoryWriter_Write cb_throws wid (View bs) source now (snd (State_Close st))
      = Some (PublishDone (channel_closed_status ch') (snd (State_Close st)) [])"
    unfolding st' using ch' w writers
    by (simp add: InMemoryWriter_Write_def writer_channel_def TopicChannel_Publish_def Publish_begin_def Let_def)
  moreover have "Mailbox_Read opts expired mb' \<noteq> ReadWaits"
    using mb'(2) by (simp add: Mailbox_Read_def split: list.split)
  ultimately show ?thesis
    using mb'(1) by (simp add: st' channel_closed_status_def)
qed

theorem close_ends_topics_witness:
  "\<exists>s. InMemoryWriter_Write (\<lambda>_. False) 2 (View [5]) 7 7 (snd (State_Close (ex_state ex_queue kShared)))
     = Some (PublishDone s (snd (State_Close (ex_state ex_queue kShared))) []) \<and> st_code s = kFailedPrecondition"
proof -
  have q: "queue_depth ex_queue \<noteq> 0" by (simp add: ex_queue_def)
  have w: "writer_channel (ex_state ex_queue kShared) 2 = Some (0, ex_channel kShared)"
    by (simp add: writer_channel_def ex_state_def omap_find_def)
  show ?thesis
    by (rule close_ends_topics [OF ex_setup_run [OF q, of "\<lambda>_. False" False kShared] w, of 1, THEN conjunct1])
      (simp_all add: ex_state_def ex_channel_def live_mailbox_def omap_find_def)
qed

end
