(* ===== verification/Portable_Codec.thy ===== *)
theory Portable_Codec
  imports Core_Types
begin

text \<open>
  \<open>PortableCodec<T>\<close> of \<open>include/puppet_master/transport/portable_codec.h\<close>: the field types the
  templates accept as the datatype \<open>ptype\<close>, the values of those types as \<open>pvalue\<close>, and the three
  visitors \<open>PortableSizer\<close>, \<open>PortableWriter\<close> and \<open>PortableReader\<close>. A type with \<open>PortableFields\<close> is
  the list of the fields its \<open>Visit\<close> names, in that order. Integers are \<open>int\<close> in the range of
  their C++ type; floating-point values are carried as their IEEE bits.
\<close>

unbundle bit_operations_syntax

section \<open>Types and values\<close>

datatype scalar_type = TBool | TInt bool nat | TFloat nat | TEnum scalar_type

datatype ptype = TScalar scalar_type | TString | TVector ptype | TArray nat ptype | TStruct "ptype list"

datatype scalar = VBool bool | VInt int | VFloat u64

datatype pvalue = VScalar scalar | VString string | VSeq "pvalue list" | VStruct "pvalue list"

text \<open>The types that pass the templates' static assertions: \<open>kPortableScalar\<close> and \<open>PortableSupported\<close>.\<close>

fun kPortableScalar :: "scalar_type \<Rightarrow> bool" where
  "kPortableScalar TBool = True"
| "kPortableScalar (TInt sg n) = (n \<in> {1, 2, 4, 8})"
| "kPortableScalar (TFloat n) = (n \<in> {4, 8})"
| "kPortableScalar (TEnum t) = (case t of TBool \<Rightarrow> True | TInt sg n \<Rightarrow> n \<in> {1, 2, 4, 8} | _ \<Rightarrow> False)"

fun PortableSupported :: "ptype \<Rightarrow> bool" where
  "PortableSupported (TScalar t) = kPortableScalar t"
| "PortableSupported TString = True"
| "PortableSupported (TVector t) = (t \<noteq> TScalar TBool \<and> PortableSupported t)"
| "PortableSupported (TArray n t) = PortableSupported t"
| "PortableSupported (TStruct ts) = (\<forall>t \<in> set ts. PortableSupported t)"

text \<open>The values a C++ object of the type can hold.\<close>

fun scalar_typed :: "scalar_type \<Rightarrow> scalar \<Rightarrow> bool" where
  "scalar_typed TBool (VBool b) = True"
| "scalar_typed (TInt sg n) (VInt i) =
     (if sg then - (2 ^ (8 * n - 1)) \<le> i \<and> i < 2 ^ (8 * n - 1) else 0 \<le> i \<and> i < 2 ^ (8 * n))"
| "scalar_typed (TFloat n) (VFloat w) = (take_bit (8 * n) w = w)"
| "scalar_typed (TEnum t) v = scalar_typed t v"
| "scalar_typed _ _ = False"

fun typed :: "ptype \<Rightarrow> pvalue \<Rightarrow> bool" and typed_fields :: "ptype list \<Rightarrow> pvalue list \<Rightarrow> bool" where
  "typed (TScalar t) (VScalar v) = scalar_typed t v"
| "typed TString (VString s) = True"
| "typed (TVector t) (VSeq vs) = list_all (typed t) vs"
| "typed (TArray n t) (VSeq vs) = (length vs = n \<and> list_all (typed t) vs)"
| "typed (TStruct ts) (VStruct vs) = typed_fields ts vs"
| "typed _ _ = False"
| "typed_fields [] [] = True"
| "typed_fields (t # ts) (v # vs) = (typed t v \<and> typed_fields ts vs)"
| "typed_fields _ _ = False"

section \<open>Scalars\<close>

fun ScalarBits :: "scalar_type \<Rightarrow> scalar \<Rightarrow> u64" where
  "ScalarBits TBool (VBool b) = (if b then 1 else 0)"
| "ScalarBits (TInt sg n) (VInt i) = word_of_int (take_bit (8 * n) i)"
| "ScalarBits (TFloat n) (VFloat w) = take_bit (8 * n) w"
| "ScalarBits (TEnum t) v = ScalarBits t v"
| "ScalarBits _ _ = 0"

fun ScalarSize :: "scalar_type \<Rightarrow> nat" where
  "ScalarSize TBool = 1"
| "ScalarSize (TInt sg n) = n"
| "ScalarSize (TFloat n) = n"
| "ScalarSize (TEnum t) = ScalarSize t"

section \<open>PortableSizer\<close>

text \<open>\<open>Elements\<close> multiplies for scalar elements and visits each element otherwise.\<close>

fun PortableSizer :: "ptype \<Rightarrow> pvalue \<Rightarrow> nat \<Rightarrow> nat"
  and PortableSizer_Visit :: "ptype list \<Rightarrow> pvalue list \<Rightarrow> nat \<Rightarrow> nat" where
  "PortableSizer (TScalar t) v sz = sz + ScalarSize t"
| "PortableSizer TString (VString s) sz = sz + (4 + length s)"
| "PortableSizer (TVector t) (VSeq vs) sz =
     (case t of TScalar st \<Rightarrow> sz + 4 + length vs * ScalarSize st
      | _ \<Rightarrow> fold (PortableSizer t) vs (sz + 4))"
| "PortableSizer (TArray n t) (VSeq vs) sz =
     (case t of TScalar st \<Rightarrow> sz + length vs * ScalarSize st
      | _ \<Rightarrow> fold (PortableSizer t) vs sz)"
| "PortableSizer (TStruct ts) (VStruct vs) sz = PortableSizer_Visit ts vs sz"
| "PortableSizer _ _ sz = sz"
| "PortableSizer_Visit (t # ts) (v # vs) sz = PortableSizer_Visit ts vs (PortableSizer t v sz)"
| "PortableSizer_Visit _ _ sz = sz"

section \<open>PortableWriter\<close>

record portable_writer =
  w_buffer :: bytes
  w_offset :: nat
  w_status :: status

definition Writer_Reserve :: "nat \<Rightarrow> portable_writer \<Rightarrow> bool \<times> portable_writer" where
  "Writer_Reserve sz w =
     (if length (w_buffer w) - w_offset w < sz
      then (False, w\<lparr>w_status := Status_OutOfRange ''portable encoding does not fit the buffer''\<rparr>)
      else (True, w))"

text \<open>\<open>overwrite off bs buf\<close> stores \<open>bs\<close> into the buffer at \<open>off\<close>.\<close>

definition overwrite :: "nat \<Rightarrow> bytes \<Rightarrow> bytes \<Rightarrow> bytes" where
  "overwrite off bs buf = take off buf @ bs @ drop (off + length bs) buf"

definition Writer_Put :: "u64 \<Rightarrow> nat \<Rightarrow> portable_writer \<Rightarrow> portable_writer" where
  "Writer_Put bits sz w =
     (case Writer_Reserve sz w of
        (False, w') \<Rightarrow> w'
      | (True, w') \<Rightarrow> w'\<lparr>w_buffer := overwrite (w_offset w') (put_le sz bits) (w_buffer w'),
                       w_offset := w_offset w' + sz\<rparr>)"

definition Writer_Count :: "nat \<Rightarrow> portable_writer \<Rightarrow> portable_writer" where
  "Writer_Count cnt w =
     (if 2 ^ 32 - 1 < cnt
      then w\<lparr>w_status := Status_OutOfRange ''portable encoding: more than 2^32-1 elements''\<rparr>
      else Writer_Put (word_of_nat cnt) 4 w)"

definition Writer_Bytes :: "bytes \<Rightarrow> portable_writer \<Rightarrow> portable_writer" where
  "Writer_Bytes data w =
     (if \<not> status_ok (w_status w) then w
      else case Writer_Reserve (length data) w of
        (False, w') \<Rightarrow> w'
      | (True, w') \<Rightarrow> w'\<lparr>w_buffer := (if length data \<noteq> 0 then overwrite (w_offset w') data (w_buffer w') else w_buffer w'),
                       w_offset := w_offset w' + length data\<rparr>)"

fun PortableWriter :: "ptype \<Rightarrow> pvalue \<Rightarrow> portable_writer \<Rightarrow> portable_writer"
  and PortableWriter_Visit :: "ptype list \<Rightarrow> pvalue list \<Rightarrow> portable_writer \<Rightarrow> portable_writer" where
  "PortableWriter (TScalar t) v w =
     (if \<not> status_ok (w_status w) then w
      else case v of VScalar s \<Rightarrow> Writer_Put (ScalarBits t s) (ScalarSize t) w | _ \<Rightarrow> w)"
| "PortableWriter TString v w =
     (if \<not> status_ok (w_status w) then w
      else case v of VString s \<Rightarrow> Writer_Bytes (map byte_of_char s) (Writer_Count (length s) w) | _ \<Rightarrow> w)"
| "PortableWriter (TVector t) v w =
     (if \<not> status_ok (w_status w) then w
      else case v of VSeq vs \<Rightarrow> fold (PortableWriter t) vs (Writer_Count (length vs) w) | _ \<Rightarrow> w)"
| "PortableWriter (TArray n t) v w =
     (if \<not> status_ok (w_status w) then w
      else case v of VSeq vs \<Rightarrow> fold (PortableWriter t) vs w | _ \<Rightarrow> w)"
| "PortableWriter (TStruct ts) v w =
     (if \<not> status_ok (w_status w) then w
      else case v of VStruct vs \<Rightarrow> PortableWriter_Visit ts vs w | _ \<Rightarrow> w)"
| "PortableWriter_Visit (t # ts) (v # vs) w = PortableWriter_Visit ts vs (PortableWriter t v w)"
| "PortableWriter_Visit _ _ w = w"

section \<open>PortableReader\<close>

text \<open>
  After a failure every later call of the reader returns at once, and \<open>Decode\<close> drops the value,
  so the reader is a function of the bytes and the offset that returns its first failure.
\<close>

definition Reader_Take :: "bytes \<Rightarrow> nat \<Rightarrow> nat \<Rightarrow> (u64 \<times> nat) result" where
  "Reader_Take b off sz =
     (if length b - off < sz
      then Inl (Status_DataLoss ''portable decoding: message ends inside a field'')
      else Inr (get_le_or (take sz (drop off b)), off + sz))"

definition Reader_Count :: "nat \<Rightarrow> bytes \<Rightarrow> nat \<Rightarrow> (nat \<times> nat) result" where
  "Reader_Count element_size b off =
     result_bind (Reader_Take b off 4) (\<lambda>(bits, off').
       let cnt = unat bits in
       if (length b - off') div element_size < cnt
       then Inl (Status_DataLoss (''portable decoding: element count '' @ std_to_string cnt
              @ '' exceeds the message''))
       else Inr (cnt, off'))"

definition signed_of_bits :: "nat \<Rightarrow> u64 \<Rightarrow> int" where
  "signed_of_bits n bits = signed_take_bit (8 * n - 1) (uint bits)"

fun Reader_scalar :: "scalar_type \<Rightarrow> bytes \<Rightarrow> nat \<Rightarrow> (scalar \<times> nat) result" where
  "Reader_scalar TBool b off =
     result_bind (Reader_Take b off 1) (\<lambda>(bits, off').
       if 1 < bits
       then Inl (Status_DataLoss (''portable decoding: bool byte is '' @ std_to_string (unat bits)))
       else Inr (VBool (bits = 1), off'))"
| "Reader_scalar (TEnum t) b off = Reader_scalar t b off"
| "Reader_scalar (TFloat n) b off =
     result_bind (Reader_Take b off n) (\<lambda>(bits, off'). Inr (VFloat (take_bit (8 * n) bits), off'))"
| "Reader_scalar (TInt sg n) b off =
     result_bind (Reader_Take b off n) (\<lambda>(bits, off').
       Inr (VInt (if sg then signed_of_bits n bits else take_bit (8 * n) (uint bits)), off'))"

fun read_elements :: "(bytes \<Rightarrow> nat \<Rightarrow> ('a \<times> nat) result) \<Rightarrow> nat \<Rightarrow> bytes \<Rightarrow> nat \<Rightarrow> ('a list \<times> nat) result" where
  "read_elements rd 0 b off = Inr ([], off)"
| "read_elements rd (Suc n) b off =
     result_bind (rd b off) (\<lambda>(x, off').
       result_bind (read_elements rd n b off') (\<lambda>(xs, off''). Inr (x # xs, off'')))"

definition element_size :: "ptype \<Rightarrow> nat" where
  "element_size t = (case t of TScalar st \<Rightarrow> ScalarSize st | _ \<Rightarrow> 1)"

fun PortableReader :: "ptype \<Rightarrow> bytes \<Rightarrow> nat \<Rightarrow> (pvalue \<times> nat) result"
  and PortableReader_Visit :: "ptype list \<Rightarrow> bytes \<Rightarrow> nat \<Rightarrow> (pvalue list \<times> nat) result" where
  "PortableReader (TScalar t) b off = result_bind (Reader_scalar t b off) (\<lambda>(v, off'). Inr (VScalar v, off'))"
| "PortableReader TString b off =
     result_bind (Reader_Count 1 b off) (\<lambda>(cnt, off').
       Inr (VString (map char_of_byte (take cnt (drop off' b))), off' + cnt))"
| "PortableReader (TVector t) b off =
     result_bind (Reader_Count (element_size t) b off) (\<lambda>(cnt, off').
       result_bind (read_elements (PortableReader t) cnt b off') (\<lambda>(vs, off''). Inr (VSeq vs, off'')))"
| "PortableReader (TArray n t) b off =
     result_bind (read_elements (PortableReader t) n b off) (\<lambda>(vs, off'). Inr (VSeq vs, off'))"
| "PortableReader (TStruct ts) b off =
     result_bind (PortableReader_Visit ts b off) (\<lambda>(vs, off'). Inr (VStruct vs, off'))"
| "PortableReader_Visit [] b off = Inr ([], off)"
| "PortableReader_Visit (t # ts) b off =
     result_bind (PortableReader t b off) (\<lambda>(v, off').
       result_bind (PortableReader_Visit ts b off') (\<lambda>(vs, off''). Inr (v # vs, off'')))"

definition Reader_Finish :: "bytes \<Rightarrow> nat \<Rightarrow> status" where
  "Reader_Finish b off =
     (if off \<noteq> length b
      then Status_DataLoss (''portable decoding: '' @ std_to_string (length b - off)
             @ '' bytes left over; the writer's field list differs'')
      else Status_Ok)"

section \<open>PortableCodec\<close>

definition PortableCodec_MaxSize :: "ptype \<Rightarrow> pvalue \<Rightarrow> nat" where
  "PortableCodec_MaxSize ty v = PortableSizer ty v 0"

definition PortableCodec_Encode :: "ptype \<Rightarrow> pvalue \<Rightarrow> bytes \<Rightarrow> nat result \<times> bytes" where
  "PortableCodec_Encode ty v buffer =
     (let w = PortableWriter ty v \<lparr>w_buffer = buffer, w_offset = 0, w_status = Status_Ok\<rparr> in
      (if \<not> status_ok (w_status w) then FromStatus (w_status w) else Inr (w_offset w), w_buffer w))"

definition decode_error :: "string \<Rightarrow> status \<Rightarrow> status" where
  "decode_error tyname s = Status_Error (st_code s) (tyname @ '': '' @ st_message s)"

definition PortableCodec_Decode :: "string \<Rightarrow> ptype \<Rightarrow> bytes \<Rightarrow> pvalue result" where
  "PortableCodec_Decode tyname ty b =
     (case PortableReader ty b 0 of
        Inl s \<Rightarrow> FromStatus (decode_error tyname s)
      | Inr (v, off) \<Rightarrow>
          (let s = Reader_Finish b off in
           if \<not> status_ok s then FromStatus (decode_error tyname s) else Inr v))"

section \<open>The wire format\<close>

text \<open>
  The format the header documents, as a function of the value; \<open>counts_fit\<close> says that every
  string and vector has a count a u32 can hold, and \<open>elements_sized\<close> that no vector has elements of
  a type without bytes on the wire.
\<close>

fun wire :: "ptype \<Rightarrow> pvalue \<Rightarrow> bytes" and wire_fields :: "ptype list \<Rightarrow> pvalue list \<Rightarrow> bytes" where
  "wire (TScalar t) (VScalar s) = put_le (ScalarSize t) (ScalarBits t s)"
| "wire TString (VString s) = put_le 4 (word_of_nat (length s) :: u64) @ map byte_of_char s"
| "wire (TVector t) (VSeq vs) = put_le 4 (word_of_nat (length vs) :: u64) @ concat (map (wire t) vs)"
| "wire (TArray n t) (VSeq vs) = concat (map (wire t) vs)"
| "wire (TStruct ts) (VStruct vs) = wire_fields ts vs"
| "wire _ _ = []"
| "wire_fields (t # ts) (v # vs) = wire t v @ wire_fields ts vs"
| "wire_fields _ _ = []"

fun counts_fit :: "ptype \<Rightarrow> pvalue \<Rightarrow> bool" and counts_fit_fields :: "ptype list \<Rightarrow> pvalue list \<Rightarrow> bool" where
  "counts_fit TString (VString s) = (length s < 2 ^ 32)"
| "counts_fit (TVector t) (VSeq vs) = (length vs < 2 ^ 32 \<and> list_all (counts_fit t) vs)"
| "counts_fit (TArray n t) (VSeq vs) = list_all (counts_fit t) vs"
| "counts_fit (TStruct ts) (VStruct vs) = counts_fit_fields ts vs"
| "counts_fit _ _ = True"
| "counts_fit_fields (t # ts) (v # vs) = (counts_fit t v \<and> counts_fit_fields ts vs)"
| "counts_fit_fields _ _ = True"

fun min_wire :: "ptype \<Rightarrow> nat" where
  "min_wire (TScalar t) = ScalarSize t"
| "min_wire TString = 4"
| "min_wire (TVector t) = 4"
| "min_wire (TArray n t) = n * min_wire t"
| "min_wire (TStruct ts) = sum_list (map min_wire ts)"

fun elements_sized :: "ptype \<Rightarrow> bool" where
  "elements_sized (TScalar t) = True"
| "elements_sized TString = True"
| "elements_sized (TVector t) = (0 < min_wire t \<and> elements_sized t)"
| "elements_sized (TArray n t) = elements_sized t"
| "elements_sized (TStruct ts) = list_all elements_sized ts"

section \<open>The sizer counts the wire format\<close>

lemma length_wire_scalars:
  "typed (TScalar t) v \<Longrightarrow> length (wire (TScalar t) v) = ScalarSize t"
  by (cases v) simp_all

lemma length_wire_scalar_list:
  "list_all (typed (TScalar t)) vs \<Longrightarrow> length (concat (map (wire (TScalar t)) vs)) = length vs * ScalarSize t"
  by (induction vs) (simp_all add: length_wire_scalars)

lemma fold_sizer:
  assumes "\<And>v sz. v \<in> set vs \<Longrightarrow> f v sz = sz + length (g v)"
  shows "fold f vs sz = sz + length (concat (map g vs))"
  using assms by (induction vs arbitrary: sz) simp_all

lemma PortableSizer_wire:
  "typed ty v \<Longrightarrow> PortableSizer ty v sz = sz + length (wire ty v)"
  "typed_fields ts vs \<Longrightarrow> PortableSizer_Visit ts vs sz = sz + length (wire_fields ts vs)"
proof (induction ty v and ts vs arbitrary: sz and sz rule: wire_wire_fields.induct)
  case (3 t vs)
  then have "fold (PortableSizer t) vs (sz + 4) = sz + 4 + length (concat (map (wire t) vs))"
    by (intro fold_sizer) (auto simp: list_all_iff)
  with 3 show ?case by (auto simp: length_wire_scalar_list split: ptype.split)
next
  case (4 n t vs)
  then have "fold (PortableSizer t) vs sz = sz + length (concat (map (wire t) vs))"
    by (intro fold_sizer) (auto simp: list_all_iff)
  with 4 show ?case by (auto simp: length_wire_scalar_list split: ptype.split)
qed simp_all

section \<open>The writer emits the wire format\<close>

definition writer_ok :: "portable_writer \<Rightarrow> bool" where
  "writer_ok w \<longleftrightarrow> status_ok (w_status w) \<and> w_offset w \<le> length (w_buffer w)"

definition advance :: "bytes \<Rightarrow> portable_writer \<Rightarrow> portable_writer" where
  "advance bs w = w\<lparr>w_buffer := overwrite (w_offset w) bs (w_buffer w), w_offset := w_offset w + length bs\<rparr>"

text \<open>
  \<open>emits f c bs\<close>: from a good writer \<open>f\<close> appends exactly \<open>bs\<close> when the condition \<open>c\<close> holds and
  they fit, and otherwise stops with \<open>kOutOfRange\<close>; \<open>guarded f\<close>: a writer that has failed is left alone.
\<close>

definition emits :: "(portable_writer \<Rightarrow> portable_writer) \<Rightarrow> bool \<Rightarrow> bytes \<Rightarrow> bool" where
  "emits f c bs \<longleftrightarrow> (\<forall>w. writer_ok w \<longrightarrow>
     (if c \<and> w_offset w + length bs \<le> length (w_buffer w) then f w = advance bs w
      else st_code (w_status (f w)) = kOutOfRange))"

definition guarded :: "(portable_writer \<Rightarrow> portable_writer) \<Rightarrow> bool" where
  "guarded f \<longleftrightarrow> (\<forall>w. \<not> status_ok (w_status w) \<longrightarrow> f w = w)"

lemma length_overwrite [simp]: "off + length bs \<le> length buf \<Longrightarrow> length (overwrite off bs buf) = length buf"
  by (simp add: overwrite_def)

lemma overwrite_Nil [simp]: "overwrite off [] buf = buf"
  by (simp add: overwrite_def)

lemma overwrite_append:
  "off + length as + length bs \<le> length buf \<Longrightarrow>
     overwrite (off + length as) bs (overwrite off as buf) = overwrite off (as @ bs) buf"
  by (simp add: overwrite_def add_ac)

lemma advance_append:
  "w_offset w + length as + length bs \<le> length (w_buffer w) \<Longrightarrow> advance bs (advance as w) = advance (as @ bs) w"
  by (simp add: advance_def overwrite_append)

lemma emits_comp:
  assumes f: "emits f c as" and g: "emits g d bs" "guarded g"
  shows "emits (\<lambda>w. g (f w)) (c \<and> d) (as @ bs)"
  unfolding emits_def
proof (intro allI impI)
  fix w assume w: "writer_ok w"
  show "if (c \<and> d) \<and> w_offset w + length (as @ bs) \<le> length (w_buffer w)
        then g (f w) = advance (as @ bs) w else st_code (w_status (g (f w))) = kOutOfRange"
  proof (cases "c \<and> w_offset w + length as \<le> length (w_buffer w)")
    case True
    with f w have fw: "f w = advance as w" by (auto simp: emits_def)
    from True w have ok: "writer_ok (advance as w)" by (auto simp: writer_ok_def advance_def)
    have len: "w_offset (advance as w) = w_offset w + length as" "length (w_buffer (advance as w)) = length (w_buffer w)"
      using True by (simp_all add: advance_def)
    from g(1) ok have "if d \<and> w_offset w + length as + length bs \<le> length (w_buffer w)
        then g (advance as w) = advance bs (advance as w) else st_code (w_status (g (advance as w))) = kOutOfRange"
      unfolding emits_def using len by metis
    with True fw show ?thesis by (auto simp: advance_append)
  next
    case False
    with f w have "st_code (w_status (f w)) = kOutOfRange" by (auto simp: emits_def)
    moreover from this g(2) have "g (f w) = f w" by (auto simp: guarded_def status_ok_def)
    ultimately show ?thesis using False by auto
  qed
qed

lemma emits_id: "emits (\<lambda>w. w) True []"
  by (simp add: emits_def advance_def writer_ok_def)

lemma guarded_fold: "(\<And>v. v \<in> set vs \<Longrightarrow> guarded (F v)) \<Longrightarrow> guarded (fold F vs)"
  by (induction vs) (auto simp: guarded_def)

lemma emits_fold:
  assumes "\<And>v. v \<in> set vs \<Longrightarrow> emits (F v) (c v) (g v) \<and> guarded (F v)"
  shows "emits (fold F vs) (list_all c vs) (concat (map g vs))"
  using assms
proof (induction vs)
  case Nil
  then show ?case using emits_id by (simp add: id_def)
next
  case (Cons v vs)
  have "emits (\<lambda>w. fold F vs (F v w)) (c v \<and> list_all c vs) (g v @ concat (map g vs))"
    using Cons by (intro emits_comp guarded_fold) auto
  then show ?case by (simp add: comp_def)
qed

lemma emits_Put: "length (put_le n bits) = n \<Longrightarrow> emits (Writer_Put bits n) True (put_le n bits)"
  by (auto simp: emits_def Writer_Put_def Writer_Reserve_def advance_def writer_ok_def Status_OutOfRange_def
      Status_Error_def)

lemma emits_Count: "emits (Writer_Count n) (n < 2 ^ 32) (put_le 4 (word_of_nat n :: u64))"
  using emits_Put [of 4 "word_of_nat n"]
  by (auto simp: emits_def Writer_Count_def Status_OutOfRange_def Status_Error_def)

lemma emits_Bytes: "emits (Writer_Bytes bs) True bs" "guarded (Writer_Bytes bs)"
  by (auto simp: emits_def guarded_def Writer_Bytes_def Writer_Reserve_def advance_def writer_ok_def
      Status_OutOfRange_def Status_Error_def)

lemma guarded_PortableWriter [simp]: "guarded (PortableWriter ty v)" "guarded (PortableWriter_Visit ts vs)"
proof -
  show g: "guarded (PortableWriter ty v)" for ty v by (cases ty) (simp_all add: guarded_def)
  show "guarded (PortableWriter_Visit ts vs)"
  proof (induction ts arbitrary: vs)
    case (Cons t ts)
    then show ?case using g [of t] by (cases vs) (auto simp: guarded_def)
  qed (simp add: guarded_def)
qed

lemma emits_guard: "emits f c bs \<Longrightarrow> emits (\<lambda>w. if \<not> status_ok (w_status w) then w else f w) c bs"
  by (auto simp: emits_def writer_ok_def)

lemma PortableWriter_emits:
  "typed ty v \<Longrightarrow> emits (PortableWriter ty v) (counts_fit ty v) (wire ty v)"
  "typed_fields ts vs \<Longrightarrow> emits (PortableWriter_Visit ts vs) (counts_fit_fields ts vs) (wire_fields ts vs)"
proof (induction ty v and ts vs rule: wire_wire_fields.induct)
  case (1 t s)
  then show ?case using emits_guard [OF emits_Put] by (simp cong: if_cong)
next
  case (2 s)
  then show ?case
    using emits_guard [OF emits_comp [OF emits_Count emits_Bytes]] by (simp cong: if_cong)
next
  case (3 t vs)
  then have "emits (fold (PortableWriter t) vs) (list_all (counts_fit t) vs) (concat (map (wire t) vs))"
    by (intro emits_fold) (auto simp: list_all_iff)
  then show ?case
    using emits_guard [OF emits_comp [OF emits_Count _ guarded_fold [of vs "PortableWriter t"]], of
        "list_all (counts_fit t) vs" "concat (map (wire t) vs)" "length vs"]
    by (simp cong: if_cong)
next
  case (4 n t vs)
  then have "emits (fold (PortableWriter t) vs) (list_all (counts_fit t) vs) (concat (map (wire t) vs))"
    by (intro emits_fold) (auto simp: list_all_iff)
  then show ?case using emits_guard by (simp cong: if_cong)
next
  case (5 ts vs)
  then show ?case using emits_guard by (simp cong: if_cong)
next
  case (7 t ts v vs)
  then show ?case using emits_comp by simp
qed (simp_all add: emits_def advance_def writer_ok_def)

section \<open>The reader inverts the wire format\<close>

text \<open>A type that is not supported has no instance of the reader.\<close>

definition portable_rd :: "ptype \<Rightarrow> bytes \<Rightarrow> nat \<Rightarrow> (pvalue \<times> nat) option" where
  "portable_rd ty b off = (if PortableSupported ty then result_option (PortableReader ty b off) else None)"

definition portable_value :: "ptype \<Rightarrow> pvalue \<Rightarrow> bool" where
  "portable_value ty v \<longleftrightarrow> PortableSupported ty \<and> elements_sized ty \<and> typed ty v \<and> counts_fit ty v"

lemma read_elements_seq:
  "result_option (read_elements rd n b off) = read_seq (\<lambda>b off. result_option (rd b off)) n b off"
proof (induction n arbitrary: off)
  case (Suc n)
  show ?case
  proof (cases "rd b off")
    case (Inr p)
    then show ?thesis
      using Suc [of "snd p", symmetric] by (cases "read_elements rd n b (snd p)") (auto simp: case_prod_beta)
  qed simp
qed simp

lemma read_elements_eq:
  "read_elements rd n b off = Inr r \<longleftrightarrow> read_seq (\<lambda>b off. result_option (rd b off)) n b off = Some r"
  by (simp flip: read_elements_seq)

lemma Reader_Take_put_le:
  assumes "drop off b = put_le n w @ rest"
  shows "Reader_Take b off n = Inr (take_bit (8 * n) w, off + n)"
proof -
  from assms have "\<not> length b - off < n"
    by (metis length_append length_drop length_put_le not_add_less1)
  moreover from assms have "take n (drop off b) = put_le n w" by simp
  ultimately show ?thesis
    by (simp add: Reader_Take_def get_le_or_eq_shift get_put_le_take_bit)
qed

lemma Reader_Count_put_le:
  assumes d: "drop off b = put_le 4 (word_of_nat n :: u64) @ rest" and "n < 2 ^ 32"
    and fits: "n * k \<le> length rest" "0 < k"
  shows "Reader_Count k b off = Inr (n, off + 4)"
proof -
  have bits: "unat (take_bit (8 * 4) (word_of_nat n :: u64)) = n"
    using \<open>n < 2 ^ 32\<close> by (simp add: unsigned_take_bit_eq unat_of_nat take_bit_nat_eq_self)
  have "length b - off = 4 + length rest"
    using arg_cong [OF d, of length] by simp
  then have "length b - (off + 4) = length rest" by linarith
  moreover have "n \<le> length rest div k"
    using fits by (simp add: less_eq_div_iff_mult_less_eq)
  ultimately show ?thesis
    using bits by (simp add: Reader_Count_def Reader_Take_put_le [OF d])
qed

lemma signed_bits_roundtrip:
  assumes "0 < n" "n \<le> 8" "- (2 ^ (8 * n - 1)) \<le> i" "i < 2 ^ (8 * n - 1)"
  shows "signed_of_bits n (take_bit (8 * n) (word_of_int (take_bit (8 * n) i))) = i"
proof -
  have "uint (take_bit (8 * n) (word_of_int (take_bit (8 * n) i) :: u64)) = take_bit (8 * n) i"
    using assms(2) by (simp add: unsigned_take_bit_eq uint_word_of_int_eq min_absorb1)
  moreover have "signed_take_bit (8 * n - 1) (take_bit (8 * n) i) = signed_take_bit (8 * n - 1) i"
    using assms(1) by (subst signed_take_bit_take_bit) auto
  ultimately show ?thesis
    using assms by (simp add: signed_of_bits_def signed_take_bit_int_eq_self)
qed

lemma unsigned_bits_roundtrip:
  assumes "n \<le> 8" "0 \<le> i" "i < 2 ^ (8 * n)"
  shows "take_bit (8 * n) (uint (take_bit (8 * n) (word_of_int (take_bit (8 * n) i) :: u64))) = i"
  using assms by (simp add: unsigned_take_bit_eq uint_word_of_int_eq min_absorb1 take_bit_int_eq_self)

lemma kPortableScalar_size: "kPortableScalar t \<Longrightarrow> 0 < ScalarSize t \<and> ScalarSize t \<le> 8"
  by (induction t) (auto split: scalar_type.splits)

lemma Reader_scalar_wire:
  assumes "kPortableScalar t" "scalar_typed t v" "drop off b = put_le (ScalarSize t) (ScalarBits t v) @ rest"
  shows "Reader_scalar t b off = Inr (v, off + ScalarSize t)"
  using assms
proof (induction t v rule: scalar_typed.induct)
  case (1 c)
  then show ?case by (cases c) (simp_all add: Reader_Take_put_le [OF 1(3)[simplified]])
next
  case (2 sg n i)
  then have "0 < n" "n \<le> 8" by auto
  with 2 show ?case
    using signed_bits_roundtrip [of n i] unsigned_bits_roundtrip [of n i]
    by (simp add: Reader_Take_put_le [OF 2(3)[simplified]] split: if_splits)
next
  case (3 n w)
  then show ?case by (simp add: Reader_Take_put_le [OF 3(3)[simplified]])
next
  case (4 t v)
  then show ?case by (simp split: scalar_type.splits)
qed simp_all

lemma typed_fields_Nil [simp]: "typed_fields ts [] \<longleftrightarrow> ts = []"
  by (cases ts) simp_all

lemma min_wire_le:
  "typed ty v \<Longrightarrow> min_wire ty \<le> length (wire ty v)"
  "typed_fields ts vs \<Longrightarrow> sum_list (map min_wire ts) \<le> length (wire_fields ts vs)"
proof (induction ty v and ts vs rule: wire_wire_fields.induct)
  case (4 n t vs)
  then have "\<forall>v \<in> set vs. min_wire t \<le> length (wire t v)" by (auto simp: list_all_iff)
  then have "length vs * min_wire t \<le> length (concat (map (wire t) vs))"
    by (induction vs) auto
  with 4 show ?case by simp
qed auto

lemma element_size_le:
  assumes "typed t v" "PortableSupported t" "0 < min_wire t"
  shows "0 < element_size t \<and> element_size t \<le> length (wire t v)"
proof -
  have "0 < length (wire t v)" using assms min_wire_le(1) [of t v] by linarith
  with assms show ?thesis
    using kPortableScalar_size length_wire_scalars [of _ v]
    by (cases t) (auto simp: element_size_def Suc_le_eq)
qed

lemma elements_bytes:
  assumes "\<forall>v \<in> set vs. k \<le> length (f v)"
  shows "length vs * k \<le> length (concat (map f vs))"
  using assms by (induction vs) auto

lemma element_size_pos: "PortableSupported t \<Longrightarrow> 0 < element_size t"
  using kPortableScalar_size by (cases t) (auto simp: element_size_def)

lemma PortableReader_Visit_wire:
  assumes "\<And>t. t \<in> set ts \<Longrightarrow> field_codec (wire t) (\<lambda>b off. result_option (PortableReader t b off)) (portable_value t)"
    and "\<forall>t \<in> set ts. PortableSupported t" "list_all elements_sized ts" "typed_fields ts vs" "counts_fit_fields ts vs"
    and "off \<le> length b" "drop off b = wire_fields ts vs @ rest"
  shows "PortableReader_Visit ts b off = Inr (vs, off + length (wire_fields ts vs))"
  using assms
proof (induction ts arbitrary: vs off)
  case Nil
  then show ?case by (cases vs) simp_all
next
  case (Cons t ts)
  then obtain v ws where vs: "vs = v # ws" by (cases vs) simp_all
  have d: "drop off b = wire t v @ wire_fields ts ws @ rest" using Cons.prems(7) vs by simp
  have v: "PortableReader t b off = Inr (v, off + length (wire t v))"
    using field_codec.read_enc [OF Cons.prems(1), of t v off b "wire_fields ts ws @ rest"] Cons.prems(2-6) d vs
    by (simp add: portable_value_def)
  have "PortableReader_Visit ts b (off + length (wire t v))
      = Inr (ws, off + length (wire t v) + length (wire_fields ts ws))"
    using Cons.prems vs drop_after [OF d] length_after [OF d] by (intro Cons.IH) auto
  with v vs show ?case by simp
qed

lemma portable_reads_wire:
  "field_codec (wire ty) (\<lambda>b off. result_option (PortableReader ty b off)) (portable_value ty)"
proof (induction ty)
  case (TScalar t)
  show ?case
  proof
    fix v b off rest
    assume "portable_value (TScalar t) v" "drop off b = wire (TScalar t) v @ rest"
    then show "result_option (PortableReader (TScalar t) b off) = Some (v, off + length (wire (TScalar t) v))"
      by (cases v) (simp_all add: portable_value_def Reader_scalar_wire)
  qed
next
  case TString
  show ?case
  proof
    fix v b off rest
    assume v: "portable_value TString v" and d: "drop off b = wire TString v @ rest"
    then obtain s where s: "v = VString s" by (cases v) (auto simp: portable_value_def)
    have "Reader_Count 1 b off = Inr (length s, off + 4)"
      using d v s by (intro Reader_Count_put_le) (auto simp: portable_value_def)
    moreover have "drop (off + 4) b = map byte_of_char s @ rest"
      using drop_after [of off b "put_le 4 (word_of_nat (length s) :: u64)"] d s by simp
    ultimately show "result_option (PortableReader TString b off) = Some (v, off + length (wire TString v))"
      using s by (simp add: comp_def)
  qed
next
  case (TVector t)
  show ?case
  proof
    fix v b off rest
    assume v: "portable_value (TVector t) v" and off: "off \<le> length b" and d: "drop off b = wire (TVector t) v @ rest"
    then obtain vs where vs: "v = VSeq vs" by (cases v) (auto simp: portable_value_def)
    with v have ok: "\<forall>x \<in> set vs. portable_value t x" "PortableSupported t"
      by (auto simp: portable_value_def list_all_iff)
    have sz: "\<forall>x \<in> set vs. element_size t \<le> length (wire t x)"
      using v vs ok element_size_le [of t] by (auto simp: portable_value_def)
    have "length vs * element_size t \<le> length (concat (map (wire t) vs) @ rest)"
      using elements_bytes [OF sz] by simp
    then have c: "Reader_Count (element_size t) b off = Inr (length vs, off + 4)"
      using d v vs ok element_size_pos [of t]
      by (intro Reader_Count_put_le [where rest = "concat (map (wire t) vs) @ rest"])
        (auto simp: portable_value_def)
    have "off + 4 \<le> length b"
      using length_after [OF d off] vs by simp
    moreover have "drop (off + 4) b = concat (map (wire t) vs) @ rest"
      using drop_after [of off b "put_le 4 (word_of_nat (length vs) :: u64)"] d vs by simp
    ultimately have "read_elements (PortableReader t) (length vs) b (off + 4)
        = Inr (vs, off + 4 + length (concat (map (wire t) vs)))"
      using field_codec.read_seq_enc [OF TVector.IH ok(1)] by (simp add: read_elements_eq)
    with c vs show "result_option (PortableReader (TVector t) b off) = Some (v, off + length (wire (TVector t) v))"
      by (simp add: add.assoc)
  qed
next
  case (TArray n t)
  show ?case
  proof
    fix v b off rest
    assume v: "portable_value (TArray n t) v" and off: "off \<le> length b" and d: "drop off b = wire (TArray n t) v @ rest"
    then obtain vs where vs: "v = VSeq vs" "length vs = n" by (cases v) (auto simp: portable_value_def)
    with v have ok: "\<forall>x \<in> set vs. portable_value t x" by (auto simp: portable_value_def list_all_iff)
    have "read_elements (PortableReader t) n b off = Inr (vs, off + length (concat (map (wire t) vs)))"
      using field_codec.read_seq_enc [OF TArray.IH ok off, of rest] d vs by (simp add: read_elements_eq)
    with vs show "result_option (PortableReader (TArray n t) b off) = Some (v, off + length (wire (TArray n t) v))"
      by simp
  qed
next
  case (TStruct ts)
  show ?case
  proof
    fix v b off rest
    assume v: "portable_value (TStruct ts) v" and off: "off \<le> length b" and d: "drop off b = wire (TStruct ts) v @ rest"
    then obtain vs where vs: "v = VStruct vs" by (cases v) (auto simp: portable_value_def)
    have "PortableReader_Visit ts b off = Inr (vs, off + length (wire_fields ts vs))"
      using v vs off d by (intro PortableReader_Visit_wire TStruct.IH) (auto simp: portable_value_def)
    with vs show "result_option (PortableReader (TStruct ts) b off) = Some (v, off + length (wire (TStruct ts) v))"
      by simp
  qed
qed

text \<open>Conversely the reader accepts only wire bytes: what it returns encodes to what it consumed.\<close>

lemma Reader_Take_exact:
  assumes "Reader_Take b off n = Inr (bits, off')" "n \<le> 8"
  shows "off' = off + n \<and> take_bit (8 * n) bits = bits \<and> (\<exists>rest. drop off b = put_le n bits @ rest)"
proof -
  from assms have n: "n \<le> length b - off" "off' = off + n" "bits = get_le_shift (take n (drop off b))"
    by (auto simp: Reader_Take_def get_le_or_eq_shift split: if_splits)
  have len: "length (take n (drop off b)) = n" using n(1) by simp
  then have put: "put_le n bits = take n (drop off b)"
    using put_get_le [of "take n (drop off b)", where ?'a = 64] assms(2) n(3) by simp
  have "take_bit (8 * n) bits = get_le_shift (put_le n bits)"
    by (simp add: get_put_le_take_bit)
  with put n(3) have "take_bit (8 * n) bits = bits" by simp
  moreover have "drop off b = put_le n bits @ drop n (drop off b)"
    unfolding put by (rule append_take_drop_id [symmetric])
  ultimately show ?thesis using n(2) by blast
qed

lemma Reader_Count_exact:
  assumes "Reader_Count k b off = Inr (n, off')" "0 < k"
  shows "off' = off + 4 \<and> n < 2 ^ 32 \<and> n * k \<le> length b - off'
    \<and> (\<exists>rest. drop off b = put_le 4 (word_of_nat n :: u64) @ rest)"
proof -
  from assms obtain bits where t: "Reader_Take b off 4 = Inr (bits, off')" and n: "n = unat bits"
    and le: "n \<le> (length b - off') div k"
    by (auto simp: Reader_Count_def Let_def split: if_splits)
  from Reader_Take_exact [OF t] have bits: "off' = off + 4" "take_bit 32 bits = bits"
    "\<exists>rest. drop off b = put_le 4 bits @ rest" by auto
  have "unat (take_bit 32 bits) < 2 ^ 32" 
    using take_bit_nat_less_exp [of 32 "unat bits"] by (simp add: unsigned_take_bit_eq)
  with bits(2) n have "n < 2 ^ 32" by simp
  moreover have "n * k \<le> length b - off'"
    using le assms(2) by (simp add: less_eq_div_iff_mult_less_eq)
  ultimately show ?thesis using bits n by simp
qed

lemma Reader_scalar_exact:
  assumes "kPortableScalar t" "Reader_scalar t b off = Inr (v, off')"
  shows "scalar_typed t v \<and> off' = off + ScalarSize t \<and> (\<exists>rest. drop off b = put_le (ScalarSize t) (ScalarBits t v) @ rest)"
  using assms
proof (induction t b off rule: Reader_scalar.induct)
  case (1 b off)
  then obtain bits where t: "Reader_Take b off 1 = Inr (bits, off')" and v: "v = VBool (bits = 1)" "bits \<le> 1"
    by (auto split: if_splits simp: not_less)
  from v(2) have "bits = 0 \<or> bits = 1" 
    by (metis le_less one_word_def unsigned_1 unat_eq_zero less_one word_less_nat_alt)
  with Reader_Take_exact [OF t] v show ?case by auto
next
  case (2 t b off)
  then show ?case by (auto split: scalar_type.splits)
next
  case (3 n b off)
  then obtain bits where t: "Reader_Take b off n = Inr (bits, off')" and v: "v = VFloat (take_bit (8 * n) bits)" by auto
  have "n \<le> 8" using 3 by auto
  with Reader_Take_exact [OF t] v show ?case by auto
next
  case (4 sg n b off)
  then obtain bits where t: "Reader_Take b off n = Inr (bits, off')"
    and v: "v = VInt (if sg then signed_of_bits n bits else take_bit (8 * n) (uint bits))" by auto
  have n: "0 < n" "n \<le> 8" using 4 by auto
  from Reader_Take_exact [OF t n(2)] have bits: "off' = off + n" "take_bit (8 * n) bits = bits"
    "\<exists>rest. drop off b = put_le n bits @ rest" by auto
  have "take_bit (8 * n) (signed_of_bits n bits) = take_bit (8 * n) (uint bits)"
    unfolding signed_of_bits_def using n by (subst take_bit_signed_take_bit) auto
  moreover have "word_of_int (take_bit (8 * n) (uint bits)) = bits"
    by (metis bits(2) unsigned_take_bit_eq word_of_int_uint)
  ultimately have enc: "ScalarBits (TInt sg n) v = bits" using v by simp
  have "- (2 ^ (8 * n - 1)) \<le> signed_of_bits n bits" "signed_of_bits n bits < 2 ^ (8 * n - 1)"
    by (simp_all add: signed_of_bits_def signed_take_bit_int_greater_eq_minus_exp signed_take_bit_int_less_exp)
  then have "scalar_typed (TInt sg n) v" using v by simp
  with enc bits show ?case by simp
qed

lemma portable_rd_supported:
  "PortableSupported ty \<Longrightarrow> portable_rd ty = (\<lambda>b off. result_option (PortableReader ty b off))"
  by (simp add: fun_eq_iff portable_rd_def)

definition read_value :: "ptype \<Rightarrow> pvalue \<Rightarrow> bool" where
  "read_value ty v \<longleftrightarrow> typed ty v \<and> counts_fit ty v"

lemma PortableReader_Visit_exact:
  assumes "\<And>t. t \<in> set ts \<Longrightarrow> exact_reader (wire t) (portable_rd t) (read_value t)"
    and "\<forall>t \<in> set ts. PortableSupported t"
    and "PortableReader_Visit ts b off = Inr (vs, off')" "off \<le> length b"
  shows "typed_fields ts vs \<and> counts_fit_fields ts vs \<and> off' = off + length (wire_fields ts vs)
    \<and> (\<exists>rest. drop off b = wire_fields ts vs @ rest)"
  using assms
proof (induction ts arbitrary: off vs)
  case Nil
  then show ?case by simp
next
  case (Cons t ts)
  then obtain v off1 ws where v: "PortableReader t b off = Inr (v, off1)"
    and ws: "PortableReader_Visit ts b off1 = Inr (ws, off')" and vs: "vs = v # ws" by auto
  have ex: "exact_reader (wire t) (portable_rd t) (read_value t)" using Cons.prems(1) by simp
  have rd: "portable_rd t b off = Some (v, off1)" using v Cons.prems(2) by (simp add: portable_rd_def)
  from exact_reader.read_exact [OF ex rd Cons.prems(4)] obtain r
    where r: "read_value t v" "off1 = off + length (wire t v)" "drop off b = wire t v @ r" by auto
  have "off1 \<le> length b" by (rule exact_reader.read_in_bounds [OF ex rd Cons.prems(4)])
  with Cons.IH [OF Cons.prems(1) _ ws] Cons.prems(2) obtain r'
    where r': "typed_fields ts ws" "counts_fit_fields ts ws" "off' = off1 + length (wire_fields ts ws)"
      "drop off1 b = wire_fields ts ws @ r'" by auto
  have "drop off b = wire_fields (t # ts) vs @ r'"
    using drop_after [OF r(3)] r(2,3) r'(4) vs by simp
  with r r' vs show ?case by (auto simp: read_value_def)
qed

lemma portable_reads_exactly: "exact_reader (wire ty) (portable_rd ty) (read_value ty)"
proof (induction ty)
  case (TScalar t)
  show ?case
  proof
    fix b off v off'
    assume "portable_rd (TScalar t) b off = Some (v, off')"
    then obtain s where "kPortableScalar t" "Reader_scalar t b off = Inr (s, off')" "v = VScalar s"
      by (auto simp: portable_rd_def split: if_splits)
    with Reader_scalar_exact [of t b off s off']
    show "read_value (TScalar t) v \<and> off' = off + length (wire (TScalar t) v) \<and> (\<exists>rest. drop off b = wire (TScalar t) v @ rest)"
      by (simp add: read_value_def)
  qed
next
  case TString
  show ?case
  proof
    fix b off v off'
    assume rd: "portable_rd TString b off = Some (v, off')"
    then obtain n off1 where c: "Reader_Count 1 b off = Inr (n, off1)"
      and v: "v = VString (map char_of_byte (take n (drop off1 b)))" "off' = off1 + n"
      by (auto simp: portable_rd_def)
    from Reader_Count_exact [OF c] obtain r where r: "off1 = off + 4" "n < 2 ^ 32" "n \<le> length b - off1"
      "drop off b = put_le 4 (word_of_nat n :: u64) @ r" by auto
    have "r = take n (drop off1 b) @ drop n (drop off1 b)" using drop_after [OF r(4)] r(1) by simp
    moreover have "length (take n (drop off1 b)) = n" using r(3) by simp
    moreover have "map (byte_of_char \<circ> char_of_byte) xs = xs" for xs by (simp add: comp_def)
    ultimately have "wire TString v @ drop n (drop off1 b) = drop off b" "length (wire TString v) = 4 + n"
      using v r(4) by simp_all
    moreover have "read_value TString v" using v r by (simp add: read_value_def)
    ultimately show "read_value TString v \<and> off' = off + length (wire TString v) \<and> (\<exists>rest. drop off b = wire TString v @ rest)"
      using v(2) r(1) by (metis add.assoc)
  qed
next
  case (TVector t)
  show ?case
  proof
    fix b off v off'
    assume rd: "portable_rd (TVector t) b off = Some (v, off')" and off: "off \<le> length b"
    then obtain n off1 vs where t: "PortableSupported t" and c: "Reader_Count (element_size t) b off = Inr (n, off1)"
      and vs: "read_elements (PortableReader t) n b off1 = Inr (vs, off')" and v: "v = VSeq vs"
      by (auto simp: portable_rd_def split: if_splits)
    from Reader_Count_exact [OF c element_size_pos [OF t]] obtain r where r: "off1 = off + 4" "n < 2 ^ 32"
      "drop off b = put_le 4 (word_of_nat n :: u64) @ r" by auto
    have "off1 \<le> length b" using length_after [OF r(3) off] r(1) by simp
    moreover have "read_seq (portable_rd t) n b off1 = Some (vs, off')"
      using vs t by (simp add: read_elements_eq portable_rd_supported)
    ultimately obtain r' where r': "list_all (read_value t) vs" "length vs = n"
        "off' = off1 + length (concat (map (wire t) vs))" "drop off1 b = concat (map (wire t) vs) @ r'"
      using exact_reader.read_seq_exact [OF TVector.IH] by blast
    have "drop off b = wire (TVector t) v @ r'" using drop_after [OF r(3)] r r' v by simp
    with r r' v show "read_value (TVector t) v \<and> off' = off + length (wire (TVector t) v) \<and> (\<exists>rest. drop off b = wire (TVector t) v @ rest)"
      by (auto simp: read_value_def list_all_iff)
  qed
next
  case (TArray n t)
  show ?case
  proof
    fix b off v off'
    assume rd: "portable_rd (TArray n t) b off = Some (v, off')" and off: "off \<le> length b"
    then obtain vs where t: "PortableSupported t" and vs: "read_elements (PortableReader t) n b off = Inr (vs, off')"
      and v: "v = VSeq vs" by (auto simp: portable_rd_def split: if_splits)
    have "read_seq (portable_rd t) n b off = Some (vs, off')"
      using vs t by (simp add: read_elements_eq portable_rd_supported)
    from exact_reader.read_seq_exact [OF TArray.IH this off] v
    show "read_value (TArray n t) v \<and> off' = off + length (wire (TArray n t) v) \<and> (\<exists>rest. drop off b = wire (TArray n t) v @ rest)"
      by (auto simp: read_value_def list_all_iff)
  qed
next
  case (TStruct ts)
  show ?case
  proof
    fix b off v off'
    assume rd: "portable_rd (TStruct ts) b off = Some (v, off')" and off: "off \<le> length b"
    then obtain vs where "PortableReader_Visit ts b off = Inr (vs, off')" "v = VStruct vs" "\<forall>t \<in> set ts. PortableSupported t"
      by (auto simp: portable_rd_def split: if_splits)
    with PortableReader_Visit_exact [OF TStruct.IH _ _ off]
    show "read_value (TStruct ts) v \<and> off' = off + length (wire (TStruct ts) v) \<and> (\<exists>rest. drop off b = wire (TStruct ts) v @ rest)"
      by (simp add: read_value_def)
  qed
qed

interpretation pcr: exact_reader "wire ty" "portable_rd ty" "read_value ty" for ty
  by (rule portable_reads_exactly)

interpretation pcc: field_codec "wire ty" "portable_rd ty" "portable_value ty" for ty
proof
  fix v b off rest
  assume "portable_value ty v" "off \<le> length b" "drop off b = wire ty v @ rest"
  then show "portable_rd ty b off = Some (v, off + length (wire ty v))"
    using field_codec.read_enc [OF portable_reads_wire [of ty], of v off b rest]
    by (simp add: portable_rd_def portable_value_def)
qed

section \<open>Encode and Decode\<close>

lemma PortableCodec_MaxSize_wire: "typed ty v \<Longrightarrow> PortableCodec_MaxSize ty v = length (wire ty v)"
  by (simp add: PortableCodec_MaxSize_def PortableSizer_wire)

lemma PortableCodec_Encode_wire:
  assumes "typed ty v"
  shows "if counts_fit ty v \<and> length (wire ty v) \<le> length buffer
    then PortableCodec_Encode ty v buffer = (Inr (length (wire ty v)), wire ty v @ drop (length (wire ty v)) buffer)
    else \<exists>s. fst (PortableCodec_Encode ty v buffer) = Inl s \<and> st_code s = kOutOfRange"
proof -
  define w where "w = \<lparr>w_buffer = buffer, w_offset = 0, w_status = Status_Ok\<rparr>"
  have "writer_ok w" by (simp add: w_def writer_ok_def)
  with PortableWriter_emits(1) [OF assms]
  have "if counts_fit ty v \<and> length (wire ty v) \<le> length buffer then PortableWriter ty v w = advance (wire ty v) w
    else st_code (w_status (PortableWriter ty v w)) = kOutOfRange"
    by (auto simp: emits_def w_def)
  then show ?thesis
    by (auto simp: PortableCodec_Encode_def advance_def overwrite_def w_def status_ok_def Let_def FromStatus_def
        NormalizeError_def split: if_splits)
qed

lemma PortableCodec_Decode_iff:
  assumes "PortableSupported ty"
  shows "PortableCodec_Decode tyname ty b = Inr v \<longleftrightarrow> portable_rd ty b 0 = Some (v, length b)"
  using assms
  by (auto simp: PortableCodec_Decode_def portable_rd_def Reader_Finish_def decode_error_def Let_def
      split: sum.splits prod.splits if_splits)

text \<open>
  C7. What \<open>PortableCodec::Encode\<close> does on every buffer: a value of the type whose strings and
  vectors have fewer than \<open>2^32\<close> elements and whose wire form fits is written at the start of the
  buffer, the rest of the buffer is left alone and the size returned is the one \<open>MaxSize\<close> computes;
  every other value is refused with \<open>kOutOfRange\<close>.
\<close>

theorem portable_encode_refines_wire:
  assumes "typed ty v"
  shows "PortableCodec_MaxSize ty v = length (wire ty v)
    \<and> (if counts_fit ty v \<and> PortableCodec_MaxSize ty v \<le> length buffer
         then PortableCodec_Encode ty v buffer
              = (Inr (PortableCodec_MaxSize ty v), wire ty v @ drop (PortableCodec_MaxSize ty v) buffer)
         else \<exists>s. fst (PortableCodec_Encode ty v buffer) = Inl s \<and> st_code s = kOutOfRange)"
  using PortableCodec_Encode_wire [OF assms, of buffer] PortableCodec_MaxSize_wire [OF assms] by simp_all

text \<open>
  C5. Round trip of \<open>PortableCodec\<close>: a value of a supported type without zero-sized vector elements,
  encoded into a buffer of at least \<open>MaxSize\<close> bytes, is decoded from the bytes written to exactly
  the same value.
\<close>

theorem portable_roundtrip:
  assumes "PortableSupported ty" "elements_sized ty" "typed ty v" "counts_fit ty v"
    and "PortableCodec_MaxSize ty v \<le> length buffer"
  shows "case PortableCodec_Encode ty v buffer of
      (Inl s, buf) \<Rightarrow> False
    | (Inr used, buf) \<Rightarrow> used = PortableCodec_MaxSize ty v \<and> PortableCodec_Decode tyname ty (take used buf) = Inr v"
proof -
  have "portable_value ty v" using assms by (simp add: portable_value_def)
  from pcc.read_at [OF this, of "[]" "[]"] have "PortableCodec_Decode tyname ty (wire ty v) = Inr v"
    using assms(1) by (simp add: PortableCodec_Decode_iff)
  with PortableCodec_Encode_wire [OF assms(3), of buffer] assms(4,5) show ?thesis
    by (simp add: PortableCodec_MaxSize_wire [OF assms(3)])
qed

text \<open>
  C6. \<open>PortableCodec::Decode\<close> accepts nothing but encodings: if some bytes decode to a value, the value is
  one its C++ type can hold and encoding it into a buffer of that length gives back exactly those
  bytes. In particular different byte strings never decode to the same value, and a message with
  leftover or missing bytes, or a bool byte other than 0 and 1, is never accepted.
\<close>

theorem portable_decode_canonical:
  assumes "PortableSupported ty" "PortableCodec_Decode tyname ty b = Inr v" "length buffer = length b"
  shows "typed ty v \<and> PortableCodec_Encode ty v buffer = (Inr (length b), b)"
proof -
  from assms(1,2) have "portable_rd ty b 0 = Some (v, length b)" by (simp add: PortableCodec_Decode_iff)
  from pcr.read_exact [OF this] obtain rest
    where v: "read_value ty v" "length b = length (wire ty v)" "b = wire ty v @ rest" by auto
  then have "rest = []" by simp
  with v PortableCodec_Encode_wire [of ty v buffer] assms(3) show ?thesis
    by (simp add: read_value_def)
qed

lemma Reader_Count_short:
  assumes "n < 2 ^ 32" "length rest < n"
  shows "\<exists>s. Reader_Count 1 (put_le 4 (word_of_nat n :: u64) @ rest) 0 = Inl s \<and> st_code s = kDataLoss"
proof -
  have "unat (take_bit 32 (word_of_nat n :: u64)) = n"
    using assms(1) by (simp add: unsigned_take_bit_eq unat_of_nat take_bit_nat_eq_self)
  with assms(2) show ?thesis
    by (simp add: Reader_Count_def Reader_Take_put_le [of 0 _ 4 "word_of_nat n" rest] Status_DataLoss_def Status_Error_def)
qed

text \<open>
  C8. The element-count check of \<open>PortableReader\<close> assumes that every element takes at least one
  byte. Elements such as \<open>std::array<T, 0>\<close> or a type whose \<open>PortableFields\<close> list is empty are
  supported and take none: a vector with any positive number of them is encoded without an error and
  its encoding is then refused with \<open>kDataLoss\<close>, so these types do not round trip.
\<close>

theorem portable_empty_elements_lost:
  assumes "0 < n" "n < 2 ^ 32" "PortableSupported t"
  shows "PortableSupported (TVector (TArray 0 t))
    \<and> typed (TVector (TArray 0 t)) (VSeq (replicate n (VSeq [])))
    \<and> fst (PortableCodec_Encode (TVector (TArray 0 t)) (VSeq (replicate n (VSeq []))) [0, 0, 0, 0]) = Inr 4
    \<and> (\<exists>s. PortableCodec_Decode tyname (TVector (TArray 0 t))
               (snd (PortableCodec_Encode (TVector (TArray 0 t)) (VSeq (replicate n (VSeq []))) [0, 0, 0, 0])) = Inl s
             \<and> st_code s = kDataLoss)"
proof -
  let ?ty = "TVector (TArray 0 t)" and ?v = "VSeq (replicate n (VSeq []))"
  have typed: "typed ?ty ?v" by (simp add: list_all_iff)
  have w: "wire ?ty ?v = put_le 4 (word_of_nat n :: u64)" by simp
  have fit: "counts_fit ?ty ?v" using assms(2) by (simp add: list_all_iff)
  have enc: "PortableCodec_Encode ?ty ?v [0, 0, 0, 0] = (Inr 4, put_le 4 (word_of_nat n :: u64))"
    using PortableCodec_Encode_wire [OF typed, of "[0, 0, 0, 0]"] fit unfolding w by simp
  from Reader_Count_short [of n "[]"] assms obtain s
    where s: "Reader_Count 1 (put_le 4 (word_of_nat n :: u64)) 0 = Inl s" "st_code s = kDataLoss" by auto
  have "PortableCodec_Decode tyname ?ty (put_le 4 (word_of_nat n :: u64)) = Inl (decode_error tyname s)"
    using s by (simp add: PortableCodec_Decode_def element_size_def FromStatus_def NormalizeError_def
        decode_error_def Status_Error_def status_ok_def)
  moreover have "st_code (decode_error tyname s) = kDataLoss"
    using s by (simp add: decode_error_def Status_Error_def)
  ultimately show ?thesis using typed enc assms(3) by simp
qed

subsection \<open>Example\<close>

text \<open>A pose as the header's comment has it: two doubles, a frame name and a vector of floats.\<close>

definition ex_pose_type :: ptype where
  "ex_pose_type = TStruct [TScalar (TFloat 8), TScalar (TInt True 2), TString, TVector (TScalar (TFloat 4))]"

definition ex_pose :: pvalue where
  "ex_pose = VStruct [VScalar (VFloat 1), VScalar (VInt (-2)), VString ''map'', VSeq [VScalar (VFloat 7)]]"

lemma ex_pose_ok:
  "PortableSupported ex_pose_type" "elements_sized ex_pose_type" "typed ex_pose_type ex_pose"
  "counts_fit ex_pose_type ex_pose" "PortableCodec_MaxSize ex_pose_type ex_pose = 25"
  by (simp_all add: ex_pose_type_def ex_pose_def PortableCodec_MaxSize_def)

theorem portable_encode_refines_wire_witness:
  "\<exists>s. fst (PortableCodec_Encode ex_pose_type ex_pose (replicate 24 0)) = Inl s \<and> st_code s = kOutOfRange"
  using portable_encode_refines_wire [OF ex_pose_ok(3), of "replicate 24 0"] ex_pose_ok(5) by simp

theorem portable_roundtrip_witness:
  "case PortableCodec_Encode ex_pose_type ex_pose (replicate 30 0) of
      (Inl s, buf) \<Rightarrow> False
    | (Inr used, buf) \<Rightarrow> used = 25 \<and> PortableCodec_Decode ''Pose'' ex_pose_type (take used buf) = Inr ex_pose"
  using portable_roundtrip [OF ex_pose_ok(1-4), of "replicate 30 0" "''Pose''", unfolded ex_pose_ok(5)] by simp

theorem portable_decode_canonical_witness:
  "PortableCodec_Encode (TStruct [TScalar TBool, TScalar (TInt False 2)]) (VStruct [VScalar (VBool True), VScalar (VInt 513)])
     [0, 0, 0] = (Inr 3, [1, 1, 2])"
proof -
  have "PortableCodec_Decode ''T'' (TStruct [TScalar TBool, TScalar (TInt False 2)]) [1, 1, 2]
      = Inr (VStruct [VScalar (VBool True), VScalar (VInt 513)])"
    by code_simp
  from portable_decode_canonical [OF _ this, of "[0, 0, 0]"] show ?thesis by simp
qed

theorem portable_empty_elements_lost_witness:
  "\<exists>s. PortableCodec_Decode ''T'' (TVector (TArray 0 TString))
         (snd (PortableCodec_Encode (TVector (TArray 0 TString)) (VSeq (replicate 3 (VSeq []))) [0, 0, 0, 0])) = Inl s
       \<and> st_code s = kDataLoss"
  using portable_empty_elements_lost [of 3 TString "''T''"] by simp

end
