(* ===== verification/Service_Protocol.thy ===== *)
theory Service_Protocol
  imports Core_Types
begin

text \<open>
  The wire protocol and the topics of \<open>src/service/service.cpp\<close>: the 32-byte header of requests
  and replies, service specifications, and the endpoints a service derives from its name.
\<close>

unbundle bit_operations_syntax

section \<open>Status codes on the wire\<close>

text \<open>The value of \<open>StatusCode\<close>, and the cast back of a value that is in range.\<close>

definition status_codes :: "status_code list" where
  "status_codes = [kOk, kCancelled, kUnknown, kInvalidArgument, kNotFound, kAlreadyExists,
     kFailedPrecondition, kOutOfRange, kPermissionDenied, kResourceExhausted, kUnsupported,
     kUnavailable, kDeadlineExceeded, kDataLoss, kInternal]"

fun status_value :: "status_code \<Rightarrow> nat" where
  "status_value kOk = 0"
| "status_value kCancelled = 1"
| "status_value kUnknown = 2"
| "status_value kInvalidArgument = 3"
| "status_value kNotFound = 4"
| "status_value kAlreadyExists = 5"
| "status_value kFailedPrecondition = 6"
| "status_value kOutOfRange = 7"
| "status_value kPermissionDenied = 8"
| "status_value kResourceExhausted = 9"
| "status_value kUnsupported = 10"
| "status_value kUnavailable = 11"
| "status_value kDeadlineExceeded = 12"
| "status_value kDataLoss = 13"
| "status_value kInternal = 14"

definition status_of_value :: "nat \<Rightarrow> status_code" where
  "status_of_value n = status_codes ! n"

lemma status_value_le: "status_value c \<le> status_value kInternal"
  by (cases c) simp_all

lemma status_of_value_inverse [simp]: "status_of_value (status_value c) = c"
  by (cases c) (simp_all add: status_of_value_def status_codes_def)

lemma status_value_of_value:
  assumes "n \<le> status_value kInternal"
  shows "status_value (status_of_value n) = n"
proof -
  have "n \<in> set [0..<15]" using assms by simp
  then show ?thesis by (auto simp: status_of_value_def status_codes_def upt_rec)
qed

section \<open>Message header\<close>

definition kRequestMagic :: u32 where "kRequestMagic = 0x51524d50"
definition kReplyMagic :: u32 where "kReplyMagic = 0x50524d50"
definition kHeaderVersion :: "16 word" where "kHeaderVersion = 2"
definition kHeaderSize :: nat where "kHeaderSize = 32"

record header =
  h_magic :: u32
  h_status :: status_code
  h_client_id :: u64
  h_request_id :: u64
  h_budget_ns :: int

definition Header_Encode :: "header \<Rightarrow> bytes \<Rightarrow> bytes" where
  "Header_Encode h data =
     put_le 4 (h_magic h) @ put_le 2 kHeaderVersion
     @ put_le 2 (word_of_nat (status_value (h_status h)) :: 16 word)
     @ put_le 8 (h_client_id h) @ put_le 8 (h_request_id h)
     @ put_le 8 (word_of_int (h_budget_ns h) :: u64) @ data"

definition bytes_at :: "nat \<Rightarrow> nat \<Rightarrow> bytes \<Rightarrow> bytes" where
  "bytes_at off n b = take n (drop off b)"

definition Header_Decode :: "bytes \<Rightarrow> u32 \<Rightarrow> (header \<times> bytes) option" where
  "Header_Decode b magic =
     (if length b < kHeaderSize \<or> get_le_shift (bytes_at 0 4 b) \<noteq> magic
         \<or> get_le_or (bytes_at 4 2 b) \<noteq> kHeaderVersion
      then None
      else let st = get_le_or (bytes_at 6 2 b) :: 16 word in
        if status_value kInternal < unat st then None
        else Some (\<lparr>h_magic = magic, h_status = status_of_value (unat st),
                    h_client_id = get_le_shift (bytes_at 8 8 b), h_request_id = get_le_shift (bytes_at 16 8 b),
                    h_budget_ns = sint (get_le_shift (bytes_at 24 8 b) :: u64)\<rparr>,
                   drop kHeaderSize b))"

lemma bytes_at_append:
  "bytes_at off n (a @ b) = (if length a \<le> off then bytes_at (off - length a) n b
     else if off + n \<le> length a then bytes_at off n a else take n (drop off a @ b))"
  by (auto simp: bytes_at_def)

lemma bytes_at_put_le: "bytes_at 0 n (put_le n w) = put_le n w"
  by (simp add: bytes_at_def)

lemma status_word_value:
  assumes "n \<le> status_value kInternal"
  shows "unat (word_of_nat n :: 16 word) = n"
  using assms by (simp add: unat_of_nat)

lemma Header_Decode_Encode:
  assumes "in_int64 (h_budget_ns h)" "h_magic h = magic"
  shows "Header_Decode (Header_Encode h data) magic = Some (h, data)"
proof -
  have "sint (word_of_int (h_budget_ns h) :: u64) = h_budget_ns h"
    using assms(1) by (simp add: in_int64_def signed_of_int signed_take_bit_int_eq_self)
  then show ?thesis
    using assms(2) status_value_le [of "h_status h"]
    by (simp add: Header_Decode_def Header_Encode_def kHeaderSize_def bytes_at_append bytes_at_put_le
        get_le_or_eq_shift get_put_le status_word_value del: status_value.simps)
qed

lemma split_bytes: "off + n \<le> length b \<Longrightarrow> drop off b = bytes_at off n b @ drop (off + n) b"
  by (simp add: bytes_at_def add.commute flip: drop_drop)

lemma length_bytes_at: "off + n \<le> length b \<Longrightarrow> length (bytes_at off n b) = n"
  by (simp add: bytes_at_def)

lemma put_get_at:
  assumes "off + n \<le> length b" "8 * n \<le> LENGTH('a)"
  shows "put_le n (get_le_shift (bytes_at off n b) :: 'a::len word) = bytes_at off n b"
  using put_get_le [of "bytes_at off n b", where ?'a = 'a] length_bytes_at [OF assms(1)] assms(2) by simp

lemma Header_Encode_Decode:
  assumes "Header_Decode b magic = Some (h, data)"
  shows "Header_Encode h data = b \<and> h_magic h = magic \<and> in_int64 (h_budget_ns h)"
proof -
  define st where "st = (get_le_shift (bytes_at 6 2 b) :: 16 word)"
  from assms have len: "32 \<le> length b" and magic: "get_le_shift (bytes_at 0 4 b) = magic"
    and ver: "get_le_shift (bytes_at 4 2 b) = kHeaderVersion" and st: "unat st \<le> status_value kInternal"
    and h: "h = \<lparr>h_magic = magic, h_status = status_of_value (unat st),
      h_client_id = get_le_shift (bytes_at 8 8 b), h_request_id = get_le_shift (bytes_at 16 8 b),
      h_budget_ns = sint (get_le_shift (bytes_at 24 8 b) :: u64)\<rparr>" and data: "data = drop 32 b"
    by (auto simp: Header_Decode_def kHeaderSize_def get_le_or_eq_shift Let_def st_def split: if_splits)
  have f: "put_le 4 magic = bytes_at 0 4 b" "put_le 2 kHeaderVersion = bytes_at 4 2 b"
    "put_le 2 st = bytes_at 6 2 b" "put_le 8 (h_client_id h) = bytes_at 8 8 b"
    "put_le 8 (h_request_id h) = bytes_at 16 8 b"
    "put_le 8 (get_le_shift (bytes_at 24 8 b) :: u64) = bytes_at 24 8 b"
    using len h by (simp_all add: put_get_at st_def flip: magic ver)
  have status: "(word_of_nat (status_value (h_status h)) :: 16 word) = st"
    using h st by (simp add: status_value_of_value)
  have budget: "(word_of_int (h_budget_ns h) :: u64) = get_le_shift (bytes_at 24 8 b)"
    using h by simp
  have "b = drop 0 b" by simp
  also have "\<dots> = bytes_at 0 4 b @ bytes_at 4 2 b @ bytes_at 6 2 b @ bytes_at 8 8 b @ bytes_at 16 8 b @ bytes_at 24 8 b @ drop 32 b"
    using len split_bytes [of 0 4 b] split_bytes [of 4 2 b] split_bytes [of 6 2 b] split_bytes [of 8 8 b]
      split_bytes [of 16 8 b] split_bytes [of 24 8 b] by simp
  finally have "Header_Encode h data = b"
    using f status budget h data by (simp add: Header_Encode_def)
  moreover have "in_int64 (h_budget_ns h)"
    using h sint_ge [of "get_le_shift (bytes_at 24 8 b) :: u64"] sint_lt [of "get_le_shift (bytes_at 24 8 b) :: u64"]
    by (simp add: in_int64_def)
  ultimately show ?thesis using h by simp
qed

section \<open>Service specifications and topics\<close>

record service_spec =
  sv_name :: topic_name
  sv_transport :: transport_kind
  sv_request :: message_descriptor
  sv_reply :: message_descriptor
  sv_queue_depth :: nat
  sv_heartbeat_interval :: nanoseconds

record service_endpoints =
  se_request :: endpoint_config
  se_reply :: endpoint_config
  se_presence :: endpoint_config

definition Service_Describe :: "service_spec \<Rightarrow> string" where
  "Service_Describe s = ''service '' @ str (sv_name s)"

definition ServiceSpec_Validate :: "service_spec \<Rightarrow> status" where
  "ServiceSpec_Validate s =
     (let st = ValidateName ''service name'' (str (sv_name s)) in
      if \<not> status_ok st then st
      else let st = MessageDescriptor_Validate (sv_request s) in
      if \<not> status_ok st then Status_InvalidArgument (Service_Describe s @ '' request: '' @ st_message st)
      else let st = MessageDescriptor_Validate (sv_reply s) in
      if \<not> status_ok st then Status_InvalidArgument (Service_Describe s @ '' reply: '' @ st_message st)
      else if sv_queue_depth s = 0
      then Status_InvalidArgument (Service_Describe s @ '': queue_depth must be greater than zero'')
      else if sv_heartbeat_interval s \<le> 0
      then Status_InvalidArgument (Service_Describe s @ '': heartbeat_interval must be greater than zero'')
      else Status_Ok)"

definition Prefixed :: "string \<Rightarrow> message_descriptor \<Rightarrow> message_descriptor" where
  "Prefixed prefix d = \<lparr>type_name = prefix @ type_name d, encoding = encoding d, version = version d\<rparr>"

definition SubTopic :: "topic_name \<Rightarrow> string \<Rightarrow> topic_name result" where
  "SubTopic service suffix = NamedValue_Create ''topic name'' (str service @ ''/'' @ suffix)"

definition hex_digits :: string where
  "hex_digits = ''0123456789abcdef''"

text \<open>\<open>Hex16\<close> fills its text from the last character to the first, four bits at a time.\<close>

fun hex_loop :: "nat \<Rightarrow> u64 \<Rightarrow> string \<Rightarrow> string" where
  "hex_loop 0 v out = out"
| "hex_loop (Suc i) v out = hex_loop i (drop_bit 4 v) (out[i := hex_digits ! unat (v AND 0xf)])"

definition Hex16 :: "u64 \<Rightarrow> string" where
  "Hex16 v = hex_loop 16 v (replicate 16 (CHR ''0''))"

definition ReplyEndpoint :: "endpoint_config \<Rightarrow> u64 \<Rightarrow> endpoint_config result" where
  "ReplyEndpoint base client_id =
     result_bind (NamedValue_Create ''topic name'' (str (ts_name (ep_topic base)) @ ''/'' @ Hex16 client_id))
       (\<lambda>name. Inr (base\<lparr>ep_topic := (ep_topic base)\<lparr>ts_name := name\<rparr>\<rparr>))"

definition kPresenceType :: string where
  "kPresenceType = ''service.Presence.v2''"

definition kPresenceVersion :: u32 where
  "kPresenceVersion = 2"

definition queued_policy :: "nat \<Rightarrow> message_policy" where
  "queued_policy depth = MessagePolicy_default\<lparr>delivery := kReliable, freshness := kQueued,
     overflow := kDropOldest, queue_depth := depth\<rparr>"

definition EndpointsFor :: "service_spec \<Rightarrow> service_endpoints result" where
  "EndpointsFor s =
     (let st = ServiceSpec_Validate s in
      if \<not> status_ok st then FromStatus st
      else
        result_bind (SubTopic (sv_name s) ''request'') (\<lambda>request.
        result_bind (SubTopic (sv_name s) ''reply'') (\<lambda>reply.
        result_bind (SubTopic (sv_name s) ''presence'') (\<lambda>presence.
        result_bind (SubTopic (sv_name s) ''reply/0000000000000000'') (\<lambda>per_client.
        Inr \<lparr>se_request =
               \<lparr>ep_topic = \<lparr>ts_name = request, ts_transport = sv_transport s,
                  ts_message_policy = queued_policy (sv_queue_depth s), ts_lifetime = kShared\<rparr>,
                ep_message = Prefixed ''service.request:'' (sv_request s)\<rparr>,
             se_reply =
               \<lparr>ep_topic = \<lparr>ts_name = reply, ts_transport = sv_transport s,
                  ts_message_policy = queued_policy (sv_queue_depth s), ts_lifetime = kReaderOwned\<rparr>,
                ep_message = Prefixed ''service.reply:'' (sv_reply s)\<rparr>,
             se_presence =
               \<lparr>ep_topic = \<lparr>ts_name = presence, ts_transport = sv_transport s,
                  ts_message_policy = MessagePolicy_default, ts_lifetime = kShared\<rparr>,
                ep_message = \<lparr>type_name = kPresenceType, encoding = ''application/x-puppetmaster-presence'',
                  version = kPresenceVersion\<rparr>\<rparr>\<rparr>)))))"

definition ReplyEndpointFor :: "service_spec \<Rightarrow> u64 \<Rightarrow> endpoint_config result" where
  "ReplyEndpointFor s client_id =
     result_bind (EndpointsFor s) (\<lambda>e. ReplyEndpoint (se_reply e) client_id)"

subsection \<open>Client ids in hexadecimal\<close>

lemma length_hex_loop [simp]: "length (hex_loop i v out) = length out"
  by (induction i v out rule: hex_loop.induct) simp_all

lemma nth_hex_loop_ge: "i \<le> k \<Longrightarrow> hex_loop i v out ! k = out ! k"
  by (induction i v out rule: hex_loop.induct) simp_all

lemma nth_hex_loop:
  assumes "k < i" "i \<le> length out"
  shows "hex_loop i v out ! k = hex_digits ! unat (drop_bit (4 * (i - 1 - k)) v AND 0xf)"
  using assms
proof (induction i v out rule: hex_loop.induct)
  case (2 i v out)
  show ?case
  proof (cases "k = i")
    case True
    with 2 show ?thesis by (simp add: nth_hex_loop_ge)
  next
    case False
    with 2 have "k < i" by simp
    then have "4 + 4 * (i - 1 - k) = 4 * (i - k)" by simp
    with 2 \<open>k < i\<close> show ?thesis by (simp add: add.commute)
  qed
qed simp

lemma nibble_take_bit: "(w :: u64) AND 0xf = take_bit 4 w"
  by (simp add: take_bit_eq_mask mask_numeral)

lemma unat_nibble: "unat (take_bit 4 (w :: u64)) < 16"
  using take_bit_nat_less_exp [of 4 "unat w"] by (simp add: unsigned_take_bit_eq)

lemma distinct_hex_digits: "distinct hex_digits" "length hex_digits = 16"
  by (simp_all add: hex_digits_def)

lemma length_Hex16 [simp]: "length (Hex16 v) = 16"
  by (simp add: Hex16_def)

lemma nth_Hex16: "k < 16 \<Longrightarrow> Hex16 v ! k = hex_digits ! unat (take_bit 4 (drop_bit (4 * (15 - k)) v))"
  by (simp add: Hex16_def nth_hex_loop nibble_take_bit)

lemma Hex16_inj:
  assumes "Hex16 v = Hex16 w"
  shows "v = w"
proof (rule bit_word_eqI)
  fix n assume "n < LENGTH(64)"
  then have k: "15 - n div 4 < 16" "15 - (15 - n div 4) = n div 4" by auto
  have "hex_digits ! unat (take_bit 4 (drop_bit (4 * (n div 4)) v))
      = hex_digits ! unat (take_bit 4 (drop_bit (4 * (n div 4)) w))"
    using arg_cong [OF assms, of "\<lambda>s. s ! (15 - n div 4)"] k by (simp add: nth_Hex16)
  then have "unat (take_bit 4 (drop_bit (4 * (n div 4)) v)) = unat (take_bit 4 (drop_bit (4 * (n div 4)) w))"
    by (rule iffD1 [OF nth_eq_iff_index_eq, rotated 3]) (use distinct_hex_digits unat_nibble in auto)
  then have "take_bit 4 (drop_bit (4 * (n div 4)) v) = take_bit 4 (drop_bit (4 * (n div 4)) w)"
    by (simp only: word_unat_eq_iff)
  from arg_cong [OF this, of "\<lambda>x. bit x (n mod 4)"] show "bit v n = bit w n"
    by (simp add: bit_simps)
qed

lemma Hex16_chars: "set (Hex16 v) \<subseteq> set hex_digits"
proof
  fix ch assume "ch \<in> set (Hex16 v)"
  then obtain k where "k < 16" "ch = Hex16 v ! k" by (auto simp: in_set_conv_nth)
  then have "ch = hex_digits ! unat (take_bit 4 (drop_bit (4 * (15 - k)) v))" by (simp add: nth_Hex16)
  then show "ch \<in> set hex_digits" using unat_nibble distinct_hex_digits(2) by simp
qed

lemma hex_digits_ok: "ch \<in> set hex_digits \<Longrightarrow> \<not> bad_name_char ch"
  by (auto simp: hex_digits_def bad_name_char_def)

subsection \<open>The endpoints of a service\<close>

lemma status_ok_ServiceSpec_Validate:
  "status_ok (ServiceSpec_Validate s) \<longleftrightarrow>
     valid_name (str (sv_name s)) \<and> status_ok (MessageDescriptor_Validate (sv_request s))
     \<and> status_ok (MessageDescriptor_Validate (sv_reply s)) \<and> 0 < sv_queue_depth s \<and> 0 < sv_heartbeat_interval s"
  by (auto simp: ServiceSpec_Validate_def Let_def)

lemma NamedValue_Create_ok: "NamedValue_Create label v = Inr n \<longleftrightarrow> valid_name v \<and> n = NamedValue v"
  by (auto simp: NamedValue_Create_def Let_def)

lemma valid_sub_name:
  assumes "valid_name name" "\<forall>ch \<in> set suffix. \<not> bad_name_char ch"
  shows "valid_name (name @ ''/'' @ suffix) \<longleftrightarrow> length name + 1 + length suffix \<le> 255"
  using assms by (auto simp: valid_name_def bad_name_char_def)

definition service_name_fits :: "service_spec \<Rightarrow> bool" where
  "service_name_fits s \<longleftrightarrow> length (str (sv_name s)) \<le> 232"

lemma suffix_chars:
  "\<forall>ch \<in> set ''request''. \<not> bad_name_char ch" "\<forall>ch \<in> set ''reply''. \<not> bad_name_char ch"
  "\<forall>ch \<in> set ''presence''. \<not> bad_name_char ch" "\<forall>ch \<in> set ''reply/0000000000000000''. \<not> bad_name_char ch"
  by (simp_all add: bad_name_char_def)

lemma EndpointsFor_ok:
  "EndpointsFor s = Inr e \<longleftrightarrow> status_ok (ServiceSpec_Validate s) \<and> service_name_fits s
    \<and> e = \<lparr>se_request =
             \<lparr>ep_topic = \<lparr>ts_name = NamedValue (str (sv_name s) @ ''/request''), ts_transport = sv_transport s,
                ts_message_policy = queued_policy (sv_queue_depth s), ts_lifetime = kShared\<rparr>,
              ep_message = Prefixed ''service.request:'' (sv_request s)\<rparr>,
           se_reply =
             \<lparr>ep_topic = \<lparr>ts_name = NamedValue (str (sv_name s) @ ''/reply''), ts_transport = sv_transport s,
                ts_message_policy = queued_policy (sv_queue_depth s), ts_lifetime = kReaderOwned\<rparr>,
              ep_message = Prefixed ''service.reply:'' (sv_reply s)\<rparr>,
           se_presence =
             \<lparr>ep_topic = \<lparr>ts_name = NamedValue (str (sv_name s) @ ''/presence''), ts_transport = sv_transport s,
                ts_message_policy = MessagePolicy_default, ts_lifetime = kShared\<rparr>,
              ep_message = \<lparr>type_name = kPresenceType, encoding = ''application/x-puppetmaster-presence'',
                version = kPresenceVersion\<rparr>\<rparr>\<rparr>"
proof (cases "status_ok (ServiceSpec_Validate s)")
  case True
  then have n: "valid_name (str (sv_name s))" by (simp add: status_ok_ServiceSpec_Validate)
  show ?thesis
    using True valid_sub_name [OF n suffix_chars(1)] valid_sub_name [OF n suffix_chars(2)]
      valid_sub_name [OF n suffix_chars(3)] valid_sub_name [OF n suffix_chars(4)]
    by (auto simp: EndpointsFor_def Let_def SubTopic_def NamedValue_Create_ok service_name_fits_def)
qed (simp add: EndpointsFor_def Let_def)

lemma queued_policy_ok: "queue_depth (queued_policy n) = n"
  by (simp add: queued_policy_def)

lemma ReplyEndpointFor_ok:
  assumes "EndpointsFor s = Inr e"
  shows "ReplyEndpointFor s c
    = Inr ((se_reply e)\<lparr>ep_topic := (ep_topic (se_reply e))
        \<lparr>ts_name := NamedValue (str (sv_name s) @ ''/reply/'' @ Hex16 c)\<rparr>\<rparr>)"
proof -
  from assms have n: "valid_name (str (sv_name s))" "service_name_fits s"
    by (simp_all add: EndpointsFor_ok status_ok_ServiceSpec_Validate)
  have chars: "\<forall>ch \<in> set (''reply/'' @ Hex16 c). \<not> bad_name_char ch"
    using Hex16_chars [of c] hex_digits_ok by (auto simp: bad_name_char_def)
  have "NamedValue_Create ''topic name'' (str (sv_name s) @ ''/'' @ ''reply/'' @ Hex16 c)
      = Inr (NamedValue (str (sv_name s) @ ''/'' @ ''reply/'' @ Hex16 c))"
    using valid_sub_name [OF n(1) chars] n(2) by (simp add: NamedValue_Create_ok service_name_fits_def)
  with assms show ?thesis by (simp add: ReplyEndpointFor_def ReplyEndpoint_def EndpointsFor_ok)
qed

text \<open>
  C9. The service header is a faithful wire format: \<open>Decode\<close> accepts a message for a magic number if and only if
  the message is the encoding of the header and payload it returns, with that magic and a budget an
  \<open>int64\<close> can hold; so encode and decode are inverse to each other, and nothing that is not a
  service message of this kind and version is taken for one.
\<close>

theorem service_header_exact:
  "Header_Decode b magic = Some (h, data) \<longleftrightarrow>
     b = Header_Encode h data \<and> h_magic h = magic \<and> in_int64 (h_budget_ns h)"
  using Header_Encode_Decode [of b magic h data] Header_Decode_Encode [of h magic data] by auto

text \<open>
  \<open>EndpointsFor\<close> checks a service once for all of its clients: for a specification it accepts, its three
  endpoints are valid, every client's reply endpoint exists and is valid, reader-owned and on the
  service's transport, replies carry the reply type, and the reply topics of different clients are
  different from each other and from the service's own topics.
\<close>

theorem service_endpoints_valid:
  assumes "EndpointsFor s = Inr e"
  shows "status_ok (EndpointConfig_Validate (se_request e)) \<and> status_ok (EndpointConfig_Validate (se_presence e))
    \<and> (\<forall>c. \<exists>r. ReplyEndpointFor s c = Inr r \<and> status_ok (EndpointConfig_Validate r)
         \<and> ts_lifetime (ep_topic r) = kReaderOwned \<and> ts_transport (ep_topic r) = sv_transport s
         \<and> ep_message r = ep_message (se_reply e)
         \<and> ts_name (ep_topic r) \<notin> {ts_name (ep_topic (se_request e)), ts_name (ep_topic (se_presence e))}
         \<and> (\<forall>c' r'. c' \<noteq> c \<longrightarrow> ReplyEndpointFor s c' = Inr r' \<longrightarrow> ts_name (ep_topic r') \<noteq> ts_name (ep_topic r)))"
proof -
  have v: "status_ok (ServiceSpec_Validate s)" "service_name_fits s" using assms by (simp_all add: EndpointsFor_ok)
  then have n: "valid_name (str (sv_name s))" "0 < sv_queue_depth s" "encoding (sv_request s) \<noteq> []"
      "encoding (sv_reply s) \<noteq> []" "length (str (sv_name s)) \<le> 232"
    by (auto simp: status_ok_ServiceSpec_Validate MessageDescriptor_Validate_def service_name_fits_def split: if_splits)
  have chars: "\<forall>ch \<in> set (''reply/'' @ Hex16 c). \<not> bad_name_char ch" for c
    using Hex16_chars [of c] hex_digits_ok by (auto simp: bad_name_char_def)
  have names: "valid_name (str (sv_name s) @ ''/request'')" "valid_name (str (sv_name s) @ ''/presence'')"
      "valid_name (str (sv_name s) @ ''/reply/'' @ Hex16 c)" for c
    using n(5) valid_sub_name [OF n(1) suffix_chars(1)] valid_sub_name [OF n(1) suffix_chars(3)]
      valid_sub_name [OF n(1) chars [of c]] by simp_all
  show ?thesis
    using assms names n(2-4) Hex16_inj
    by (auto simp: ReplyEndpointFor_ok [OF assms] EndpointConfig_Validate_ok EndpointsFor_ok Prefixed_def
        queued_policy_ok MessagePolicy_default_def kPresenceType_def)
qed

definition ex_service :: service_spec where
  "ex_service = \<lparr>sv_name = NamedValue ''/add'', sv_transport = kIpc,
     sv_request = \<lparr>type_name = ''Add'', encoding = ''raw'', version = 1\<rparr>,
     sv_reply = \<lparr>type_name = ''Sum'', encoding = ''raw'', version = 1\<rparr>,
     sv_queue_depth = 16, sv_heartbeat_interval = 100000000\<rparr>"

lemma ex_service_ok: "\<exists>e. EndpointsFor ex_service = Inr e"
  by (simp add: EndpointsFor_ok status_ok_ServiceSpec_Validate service_name_fits_def ex_service_def valid_name_def
      bad_name_char_def MessageDescriptor_Validate_def)

theorem service_endpoints_valid_witness:
  "\<exists>e. EndpointsFor ex_service = Inr e \<and> status_ok (EndpointConfig_Validate (se_request e))"
proof -
  obtain e where "EndpointsFor ex_service = Inr e" using ex_service_ok by blast
  with service_endpoints_valid [OF this] show ?thesis by blast
qed

end
