(* ===== verification/Service_Client.thy ===== *)
theory Service_Client
  imports Service_Protocol "HOL-Library.Multiset"
begin

text \<open>
  \<open>service::Client\<close> of \<open>src/service/service.cpp\<close>. The state behind the client's mutex is a record,
  every critical section a function on it, and the threads that enter them (callers in \<open>Start\<close>, the
  dispatcher, and \<open>Close\<close>) are the program counters of a step relation, so a step is what one thread
  does while it holds the mutex or between two holds. Time and what the transport returns (presence
  and reply messages, the number of matched readers, the outcome of a write) are inputs of the steps.
\<close>

section \<open>State behind the mutex\<close>

record 'tok pending =
  p_deadline :: time_point
  p_timeout :: nanoseconds
  p_done :: 'tok

record 'tok client =
  cl_spec :: service_spec
  cl_client_id :: u64
  cl_data :: bool
  cl_closed :: bool
  cl_next_request :: u64
  cl_pending :: "(u64, 'tok pending) omap"
  cl_server_instance :: u64
  cl_server_withdrew :: bool
  cl_heartbeat_sequence :: u64
  cl_heartbeat_at :: time_point

type_synonym 'tok completion = "'tok \<times> bytes result"

text \<open>\<open>cl_init\<close> is the state \<open>Client::Create\<close> builds once its endpoints exist.\<close>

definition cl_init :: "service_spec \<Rightarrow> u64 \<Rightarrow> 'tok client" where
  "cl_init spec cid = \<lparr>cl_spec = spec, cl_client_id = cid, cl_data = False, cl_closed = False, cl_next_request = 0,
     cl_pending = [], cl_server_instance = 0, cl_server_withdrew = False, cl_heartbeat_sequence = 0,
     cl_heartbeat_at = 0\<rparr>"

definition kPresenceSize :: nat where "kPresenceSize = 16"
definition kOfflineSequence :: u64 where "kOfflineSequence = 0"

definition Client_Liveness :: "'tok client \<Rightarrow> nanoseconds" where
  "Client_Liveness c = 3 * sv_heartbeat_interval (cl_spec c)"

text \<open>One presence message, with the time it is processed at.\<close>

definition PollPresence_message :: "time_point \<times> bytes \<Rightarrow> 'tok client \<Rightarrow> 'tok client" where
  "PollPresence_message = (\<lambda>(now, data) c.
     if length data \<noteq> kPresenceSize then c
     else let inst = get_le_shift (bytes_at 0 8 data); sequence = get_le_shift (bytes_at 8 8 data) in
       if inst = cl_server_instance c \<and> sequence = cl_heartbeat_sequence c then c
       else if sequence = kOfflineSequence
       then (if inst = cl_server_instance c
             then c\<lparr>cl_server_instance := 0, cl_heartbeat_sequence := 0, cl_heartbeat_at := 0,
                    cl_server_withdrew := True\<rparr>
             else c)
       else c\<lparr>cl_server_instance := inst, cl_heartbeat_sequence := sequence, cl_heartbeat_at := now,
              cl_server_withdrew := False\<rparr>)"

definition PollPresenceLocked :: "(time_point \<times> bytes) list \<Rightarrow> 'tok client \<Rightarrow> 'tok client" where
  "PollPresenceLocked msgs c = fold PollPresence_message msgs c"

record server_info =
  si_instance_id :: u64
  si_age :: nanoseconds

definition LiveServerLocked :: "(time_point \<times> bytes) list \<Rightarrow> time_point \<Rightarrow> 'tok client \<Rightarrow> server_info result \<times> 'tok client" where
  "LiveServerLocked msgs now c0 =
     (let c = PollPresenceLocked msgs c0; age = now - cl_heartbeat_at c in
      if cl_server_instance c = 0 \<or> Client_Liveness c < age
      then (FromStatus (Status_Unavailable (Service_Describe (cl_spec c) @ '' has no live server''
              @ (if cl_server_withdrew c then '' (the server stopped)''
                 else if cl_server_instance c \<noteq> 0
                 then '' (last heartbeat '' @ std_to_string_int (age div 1000000) @ '' ms ago)'' else []))), c)
      else (Inr \<lparr>si_instance_id = cl_server_instance c, si_age = age\<rparr>, c))"

text \<open>\<open>ExpireLocked\<close>: the completions it takes, in the order of the map, and what stays pending.\<close>

definition expire_reason :: "bool \<Rightarrow> time_point \<Rightarrow> service_spec \<Rightarrow> 'tok pending \<Rightarrow> bytes result option" where
  "expire_reason server_alive now spec p =
     (if \<not> server_alive
      then Some (FromStatus (Status_Unavailable (Service_Describe spec @ '': server stopped responding during the call'')))
      else if p_deadline p \<le> now
      then Some (FromStatus (Status_DeadlineExceeded (Service_Describe spec @ '': no reply within ''
             @ std_to_string_int (p_timeout p div 1000000) @ '' ms'')))
      else None)"

definition take_calls :: "('tok pending \<Rightarrow> bytes result option) \<Rightarrow> 'tok client \<Rightarrow> 'tok completion list \<times> 'tok client" where
  "take_calls why c =
     ([(p_done p, the (why p)). (i, p) \<leftarrow> cl_pending c, why p \<noteq> None],
      c\<lparr>cl_pending := filter (\<lambda>(i, p). why p = None) (cl_pending c)\<rparr>)"

definition ExpireLocked :: "time_point \<Rightarrow> (time_point \<times> bytes) list \<Rightarrow> time_point \<Rightarrow> 'tok client \<Rightarrow> 'tok completion list \<times> 'tok client" where
  "ExpireLocked now msgs now' c =
     (if cl_pending c = [] then ([], c)
      else case LiveServerLocked msgs now' c of (server, c') \<Rightarrow>
        take_calls (expire_reason (result_ok server) now (cl_spec c')) c')"

text \<open>One reply message in \<open>Dispatch\<close>.\<close>

definition reply_result :: "header \<Rightarrow> bytes \<Rightarrow> bytes result" where
  "reply_result h data =
     (if h_status h = kOk then Inr data else FromStatus (Status_Error (h_status h) (map char_of_byte data)))"

definition Dispatch_reply :: "bytes \<Rightarrow> 'tok client \<Rightarrow> 'tok completion list \<times> 'tok client" where
  "Dispatch_reply message c =
     (case Header_Decode message kReplyMagic of
        None \<Rightarrow> ([], c)
      | Some (h, data) \<Rightarrow>
          if h_client_id h \<noteq> cl_client_id c then ([], c)
          else case omap_find (cl_pending c) (h_request_id h) of
            None \<Rightarrow> ([], c)
          | Some p \<Rightarrow> ([(p_done p, reply_result h data)],
                       c\<lparr>cl_pending := omap_erase (h_request_id h) (cl_pending c)\<rparr>))"

section \<open>Waiting for a server\<close>

text \<open>
  One turn of each of the two loops of \<open>AwaitServerLocked\<close>, from a point where the lock is held to
  the next wait or return. \<open>AwaitPoll\<close> and \<open>AwaitMatch\<close> are the waits of the first and the second
  loop, which release the lock; the first loop goes on to the second without releasing it.
\<close>

datatype await = AwaitFail status | AwaitOk | AwaitPoll | AwaitMatch

definition matches :: "nat result \<Rightarrow> bool" where
  "matches matched = (case matched of Inl _ \<Rightarrow> True | Inr n \<Rightarrow> 0 < n)"

definition client_closed_status :: "'tok client \<Rightarrow> status" where
  "client_closed_status c = Status_Cancelled (Service_Describe (cl_spec c) @ '': client is closed'')"

definition AwaitServer_match :: "nat result \<Rightarrow> time_point \<Rightarrow> time_point \<Rightarrow> bool \<Rightarrow> 'tok client \<Rightarrow> await" where
  "AwaitServer_match matched now deadline may_wait c =
     (if matches matched then AwaitOk
      else if cl_closed c then AwaitFail (client_closed_status c)
      else if \<not> may_wait \<or> deadline \<le> now
      then AwaitFail (Status_Unavailable (Service_Describe (cl_spec c)
             @ '': the server is alive but its request reader was not matched in time''))
      else AwaitMatch)"

definition AwaitServer_poll ::
    "(time_point \<times> bytes) list \<Rightarrow> time_point \<Rightarrow> time_point \<Rightarrow> time_point \<Rightarrow> time_point \<Rightarrow> bool \<Rightarrow> nat result \<Rightarrow> 'tok client
      \<Rightarrow> await \<times> 'tok client" where
  "AwaitServer_poll msgs now_live now give_up deadline may_wait matched c0 =
     (if cl_closed c0 then (AwaitFail (client_closed_status c0), c0)
      else case LiveServerLocked msgs now_live c0 of
        (Inr info, c) \<Rightarrow> (AwaitServer_match matched now deadline may_wait c, c)
      | (Inl st, c) \<Rightarrow>
          if \<not> may_wait \<or> cl_server_withdrew c \<or> give_up \<le> now then (AwaitFail st, c) else (AwaitPoll, c))"

text \<open>Registering a call, in the same critical section as the last turn of the wait.\<close>

definition Start_register :: "time_point \<Rightarrow> nanoseconds \<Rightarrow> 'tok \<Rightarrow> 'tok client \<Rightarrow> u64 \<times> 'tok client" where
  "Start_register deadline timeout done_cb c =
     (let rid = cl_next_request c + 1 in
      (rid, c\<lparr>cl_next_request := rid,
             cl_pending := omap_emplace rid \<lparr>p_deadline = deadline, p_timeout = timeout, p_done = done_cb\<rparr> (cl_pending c)\<rparr>))"

definition Start_header :: "'tok client \<Rightarrow> u64 \<Rightarrow> nanoseconds \<Rightarrow> header" where
  "Start_header c rid timeout = \<lparr>h_magic = kRequestMagic, h_status = kOk, h_client_id = cl_client_id c,
     h_request_id = rid, h_budget_ns = timeout\<rparr>"

text \<open>What \<open>Start\<close> does when the write failed: the call, unless something completed it already.\<close>

definition Start_failed :: "u64 \<Rightarrow> status \<Rightarrow> 'tok client \<Rightarrow> 'tok completion list \<times> 'tok client" where
  "Start_failed rid st c =
     (case omap_find (cl_pending c) rid of
        None \<Rightarrow> ([], c)
      | Some p \<Rightarrow> ([(p_done p, FromStatus (Status_Error (st_code st)
                      (Service_Describe (cl_spec c) @ '': sending request failed: '' @ st_message st)))],
                   c\<lparr>cl_pending := omap_erase rid (cl_pending c)\<rparr>))"

definition Close_drain :: "'tok client \<Rightarrow> 'tok completion list \<times> 'tok client" where
  "Close_drain c =
     take_calls (\<lambda>_. Some (FromStatus (Status_Cancelled (Service_Describe (cl_spec c) @ '': client closed during the call'')))) c"

section \<open>Threads\<close>

datatype phase = PAwait | PMatch | PSend u64

record 'tok caller =
  k_token :: 'tok
  k_timeout :: nanoseconds
  k_deadline :: time_point
  k_give_up :: time_point
  k_may_wait :: bool
  k_phase :: phase

datatype 'tok dispatcher = DWait | DRead "'tok completion list" | DRun "'tok completion list" | DExited

datatype 'tok closer = CNone | CJoin | CDrain | CRun "'tok completion list" | CDone

text \<open>
  The whole client: its state, the callers inside \<open>Start\<close>, the dispatcher, the thread in \<open>Close\<close>
  (\<open>s_own\<close> when that is the dispatcher itself, from a reply callback), the callbacks invoked so far
  with their results, and the calls made.
\<close>

record 'tok csys =
  s_client :: "'tok client"
  s_callers :: "'tok caller list"
  s_disp :: "'tok dispatcher"
  s_close :: "'tok closer"
  s_own :: bool
  s_log :: "'tok completion list"
  s_issued :: "'tok list"

definition csys_init :: "service_spec \<Rightarrow> u64 \<Rightarrow> 'tok csys" where
  "csys_init spec cid = \<lparr>s_client = cl_init spec cid, s_callers = [], s_disp = DWait, s_close = CNone, s_own = False,
     s_log = [], s_issued = []\<rparr>"

definition new_caller :: "'tok client \<Rightarrow> 'tok \<Rightarrow> nanoseconds \<Rightarrow> time_point \<Rightarrow> time_point \<Rightarrow> bool \<Rightarrow> 'tok caller" where
  "new_caller c tok timeout now now' may_wait =
     \<lparr>k_token = tok, k_timeout = timeout, k_deadline = now + timeout,
      k_give_up = min (now + timeout) (now' + Client_Liveness c), k_may_wait = may_wait, k_phase = PAwait\<rparr>"

text \<open>How a caller goes on from a turn of the wait.\<close>

definition after_await :: "await \<Rightarrow> 'tok caller list \<Rightarrow> 'tok caller \<Rightarrow> 'tok caller list \<Rightarrow> 'tok csys \<Rightarrow> 'tok csys" where
  "after_await r ks1 k ks2 s =
     (case r of
        AwaitFail st \<Rightarrow> s\<lparr>s_callers := ks1 @ ks2, s_log := s_log s @ [(k_token k, FromStatus st)]\<rparr>
      | AwaitOk \<Rightarrow>
          (case Start_register (k_deadline k) (k_timeout k) (k_token k) (s_client s) of
             (rid, c) \<Rightarrow> s\<lparr>s_client := c, s_callers := ks1 @ k\<lparr>k_phase := PSend rid\<rparr> # ks2\<rparr>)
      | AwaitPoll \<Rightarrow> s\<lparr>s_callers := ks1 @ k\<lparr>k_phase := PAwait\<rparr> # ks2\<rparr>
      | AwaitMatch \<Rightarrow> s\<lparr>s_callers := ks1 @ k\<lparr>k_phase := PMatch\<rparr> # ks2\<rparr>)"

definition closing_own :: "'tok csys \<Rightarrow> bool" where
  "closing_own s \<longleftrightarrow> s_own s \<and> s_close s \<noteq> CDone"

text \<open>
  The steps. \<open>M\<close> restricts what \<open>MatchedReaderCount\<close> may return: everything for an arbitrary
  transport; an error or a positive count where readers match without delay.
\<close>

inductive cl_step :: "(nat result \<Rightarrow> bool) \<Rightarrow> 'tok csys \<Rightarrow> 'tok csys \<Rightarrow> bool" for M where
  call: "0 < timeout \<Longrightarrow> tok \<notin> set (s_issued s) \<Longrightarrow>
    cl_step M s (s\<lparr>s_callers := s_callers s @ [new_caller (s_client s) tok timeout now now' may_wait],
                   s_issued := s_issued s @ [tok]\<rparr>)"
| await: "s_callers s = ks1 @ k # ks2 \<Longrightarrow> k_phase k = PAwait \<Longrightarrow> M matched \<Longrightarrow>
    AwaitServer_poll msgs now_live now (k_give_up k) (k_deadline k) (k_may_wait k) matched (s_client s) = (r, c) \<Longrightarrow>
    cl_step M s (after_await r ks1 k ks2 (s\<lparr>s_client := c\<rparr>))"
| rematch: "s_callers s = ks1 @ k # ks2 \<Longrightarrow> k_phase k = PMatch \<Longrightarrow> M matched \<Longrightarrow>
    AwaitServer_match matched now (k_deadline k) (k_may_wait k) (s_client s) = r \<Longrightarrow>
    cl_step M s (after_await r ks1 k ks2 s)"
| sent: "s_callers s = ks1 @ k # ks2 \<Longrightarrow> k_phase k = PSend rid \<Longrightarrow>
    cl_step M s (s\<lparr>s_callers := ks1 @ ks2\<rparr>)"
| send_failed: "s_callers s = ks1 @ k # ks2 \<Longrightarrow> k_phase k = PSend rid \<Longrightarrow> \<not> status_ok st \<Longrightarrow>
    Start_failed rid st (s_client s) = (cs, c) \<Longrightarrow>
    cl_step M s (s\<lparr>s_client := c, s_callers := ks1 @ ks2, s_log := s_log s @ cs\<rparr>)"
| data: "cl_step M s (s\<lparr>s_client := (s_client s)\<lparr>cl_data := True\<rparr>\<rparr>)"
| poll: "LiveServerLocked msgs now (s_client s) = (r, c) \<Longrightarrow> cl_step M s (s\<lparr>s_client := c\<rparr>)"
| wake: "s_disp s = DWait \<Longrightarrow> \<not> cl_closed (s_client s) \<Longrightarrow>
    cl_step M s (s\<lparr>s_client := PollPresenceLocked msgs ((s_client s)\<lparr>cl_data := False\<rparr>), s_disp := DRead []\<rparr>)"
| exit: "s_disp s = DWait \<Longrightarrow> cl_closed (s_client s) \<Longrightarrow> cl_step M s (s\<lparr>s_disp := DExited\<rparr>)"
| reply: "s_disp s = DRead cs \<Longrightarrow> Dispatch_reply message (s_client s) = (cs', c) \<Longrightarrow>
    cl_step M s (s\<lparr>s_client := c, s_disp := DRead (cs @ cs')\<rparr>)"
| expire: "s_disp s = DRead cs \<Longrightarrow> ExpireLocked now msgs now' (s_client s) = (cs', c) \<Longrightarrow>
    cl_step M s (s\<lparr>s_client := c, s_disp := (if cs @ cs' = [] then DWait else DRun (cs @ cs'))\<rparr>)"
| run: "s_disp s = DRun (x # xs) \<Longrightarrow> \<not> closing_own s \<Longrightarrow>
    cl_step M s (s\<lparr>s_disp := DRun xs, s_log := s_log s @ [x]\<rparr>)"
| ran: "s_disp s = DRun [] \<Longrightarrow> \<not> closing_own s \<Longrightarrow> cl_step M s (s\<lparr>s_disp := DWait\<rparr>)"
| close: "s_close s = CNone \<Longrightarrow>
    cl_step M s (s\<lparr>s_client := (s_client s)\<lparr>cl_closed := True\<rparr>, s_close := CJoin\<rparr>)"
| close_own: "s_close s = CNone \<Longrightarrow> s_disp s = DRun xs \<Longrightarrow>
    cl_step M s (s\<lparr>s_client := (s_client s)\<lparr>cl_closed := True\<rparr>, s_close := CDrain, s_own := True\<rparr>)"
| join: "s_close s = CJoin \<Longrightarrow> s_disp s = DExited \<Longrightarrow> cl_step M s (s\<lparr>s_close := CDrain\<rparr>)"
| drain: "s_close s = CDrain \<Longrightarrow> Close_drain (s_client s) = (cs, c) \<Longrightarrow>
    cl_step M s (s\<lparr>s_client := c, s_close := CRun cs\<rparr>)"
| cancel: "s_close s = CRun (x # xs) \<Longrightarrow> cl_step M s (s\<lparr>s_close := CRun xs, s_log := s_log s @ [x]\<rparr>)"
| closed: "s_close s = CRun [] \<Longrightarrow> cl_step M s (s\<lparr>s_close := CDone\<rparr>)"

section \<open>Every call is in one place\<close>

definition waiting :: "'tok caller list \<Rightarrow> 'tok multiset" where
  "waiting ks = mset (map k_token (filter (\<lambda>k. \<forall>rid. k_phase k \<noteq> PSend rid) ks))"

definition pending_calls :: "'tok client \<Rightarrow> 'tok multiset" where
  "pending_calls c = mset (map (p_done \<circ> snd) (cl_pending c))"

fun disp_calls :: "'tok dispatcher \<Rightarrow> 'tok multiset" where
  "disp_calls (DRead cs) = mset (map fst cs)"
| "disp_calls (DRun cs) = mset (map fst cs)"
| "disp_calls DWait = {#}"
| "disp_calls DExited = {#}"

fun close_calls :: "'tok closer \<Rightarrow> 'tok multiset" where
  "close_calls (CRun cs) = mset (map fst cs)"
| "close_calls CNone = {#}"
| "close_calls CJoin = {#}"
| "close_calls CDrain = {#}"
| "close_calls CDone = {#}"

definition accounted :: "'tok csys \<Rightarrow> bool" where
  "accounted s \<longleftrightarrow> mset (s_issued s) = waiting (s_callers s) + pending_calls (s_client s)
     + disp_calls (s_disp s) + close_calls (s_close s) + mset (map fst (s_log s))"

text \<open>
  Request ids are handed out in order, so a fresh one is not in the map as long as fewer than
  \<open>2^64\<close> calls have been made.
\<close>

definition ids_fresh :: "'tok csys \<Rightarrow> bool" where
  "ids_fresh s \<longleftrightarrow> omap_ok (cl_pending (s_client s))
     \<and> (\<forall>(i, p) \<in> set (cl_pending (s_client s)). i \<le> cl_next_request (s_client s))
     \<and> unat (cl_next_request (s_client s)) + size (waiting (s_callers s)) \<le> length (s_issued s)"

definition cl_wf :: "'tok csys \<Rightarrow> bool" where
  "cl_wf s \<longleftrightarrow> distinct (s_issued s) \<and> (length (s_issued s) < 2 ^ 64 \<longrightarrow> accounted s \<and> ids_fresh s)"

lemma PollPresence_message_frame:
  "cl_pending (PollPresence_message m c) = cl_pending c"
  "cl_next_request (PollPresence_message m c) = cl_next_request c"
  "cl_closed (PollPresence_message m c) = cl_closed c"
  "cl_spec (PollPresence_message m c) = cl_spec c"
  "cl_client_id (PollPresence_message m c) = cl_client_id c"
  by (simp_all add: PollPresence_message_def Let_def split: prod.split)

lemma PollPresenceLocked_frame [simp]:
  "cl_pending (PollPresenceLocked msgs c) = cl_pending c"
  "cl_next_request (PollPresenceLocked msgs c) = cl_next_request c"
  "cl_closed (PollPresenceLocked msgs c) = cl_closed c"
  "cl_spec (PollPresenceLocked msgs c) = cl_spec c"
  "cl_client_id (PollPresenceLocked msgs c) = cl_client_id c"
  unfolding PollPresenceLocked_def
  by (induction msgs arbitrary: c) (simp_all add: PollPresence_message_frame)

lemma LiveServerLocked_client: "snd (LiveServerLocked msgs now c) = PollPresenceLocked msgs c"
  by (simp add: LiveServerLocked_def Let_def)

lemma LiveServerLocked_eq: "LiveServerLocked msgs now c = (r, c') \<Longrightarrow> c' = PollPresenceLocked msgs c"
  using LiveServerLocked_client [of msgs now c] by simp

lemma AwaitServer_poll_client:
  assumes "AwaitServer_poll msgs nl now g d w m c0 = (r, c)"
  shows "c = c0 \<or> c = PollPresenceLocked msgs c0"
    and "cl_closed c0 \<longrightarrow> (\<exists>st. r = AwaitFail st)"
    and "r = AwaitMatch \<longrightarrow> \<not> matches m"
proof -
  obtain live c1 where live: "LiveServerLocked msgs nl c0 = (live, c1)" by (cases "LiveServerLocked msgs nl c0")
  with LiveServerLocked_eq [OF live] assms show
    "c = c0 \<or> c = PollPresenceLocked msgs c0" "cl_closed c0 \<longrightarrow> (\<exists>st. r = AwaitFail st)"
    "r = AwaitMatch \<longrightarrow> \<not> matches m"
    by (auto simp: AwaitServer_poll_def AwaitServer_match_def split: if_splits sum.splits)
qed

lemma take_calls_split:
  "mset (map fst (fst (take_calls why c))) + pending_calls (snd (take_calls why c)) = pending_calls c"
proof -
  have "mset (map fst [(p_done p, the (why p)). (i, p) \<leftarrow> ps, why p \<noteq> None])
      + mset (map (p_done \<circ> snd) (filter (\<lambda>(i, p). why p = None) ps)) = mset (map (p_done \<circ> snd) ps)"
    for ps :: "(u64 \<times> 'a pending) list"
    by (induction ps) (auto split: prod.splits)
  then show ?thesis by (simp add: take_calls_def pending_calls_def)
qed

lemma pending_calls_erase:
  assumes "omap_ok (cl_pending c)" "omap_find (cl_pending c) rid = Some p"
  shows "pending_calls c = add_mset (p_done p) (pending_calls (c\<lparr>cl_pending := omap_erase rid (cl_pending c)\<rparr>))"
  using mset_omap_erase [OF assms] by (simp add: pending_calls_def)

lemma waiting_simps [simp]:
  "waiting [] = {#}" "waiting (ks @ ks') = waiting ks + waiting ks'"
  "waiting (k # ks) = (case k_phase k of PSend rid \<Rightarrow> waiting ks | _ \<Rightarrow> add_mset (k_token k) (waiting ks))"
  by (simp_all add: waiting_def split: phase.split)

lemma pending_calls_frame [simp]:
  "pending_calls (PollPresenceLocked msgs c) = pending_calls c"
  "pending_calls (c\<lparr>cl_data := b\<rparr>) = pending_calls c"
  "pending_calls (c\<lparr>cl_closed := b\<rparr>) = pending_calls c"
  by (simp_all add: pending_calls_def)

text \<open>Removing calls from the map and handing them to another thread keeps both invariants.\<close>

definition ids_of :: "'tok client \<Rightarrow> bool" where
  "ids_of c \<longleftrightarrow> omap_ok (cl_pending c) \<and> (\<forall>(i, p) \<in> set (cl_pending c). i \<le> cl_next_request c)"

lemma ids_fresh_alt:
  "ids_fresh s \<longleftrightarrow> ids_of (s_client s)
     \<and> unat (cl_next_request (s_client s)) + size (waiting (s_callers s)) \<le> length (s_issued s)"
  by (auto simp: ids_fresh_def ids_of_def)

lemma ids_of_frame [simp]:
  "ids_of (PollPresenceLocked msgs c) = ids_of c"
  "ids_of (c\<lparr>cl_data := b\<rparr>) = ids_of c" "ids_of (c\<lparr>cl_closed := b\<rparr>) = ids_of c"
  by (simp_all add: ids_of_def)

lemma ids_of_filter: "ids_of c \<Longrightarrow> ids_of (c\<lparr>cl_pending := filter P (cl_pending c)\<rparr>)"
  by (auto simp: ids_of_def omap_ok_filter)

lemma ids_of_erase: "ids_of c \<Longrightarrow> ids_of (c\<lparr>cl_pending := omap_erase rid (cl_pending c)\<rparr>)"
  unfolding omap_erase_def by (rule ids_of_filter)

lemma pending_calls_take:
  "ids_of c \<Longrightarrow> omap_find (cl_pending c) rid = Some p \<Longrightarrow>
     add_mset (p_done p) (pending_calls (c\<lparr>cl_pending := omap_erase rid (cl_pending c)\<rparr>)) = pending_calls c"
  by (simp add: ids_of_def flip: pending_calls_erase)

lemma Dispatch_reply_split:
  assumes "Dispatch_reply m c = (cs, c')" "ids_of c"
  shows "mset (map fst cs) + pending_calls c' = pending_calls c \<and> ids_of c'
    \<and> cl_next_request c' = cl_next_request c \<and> cl_closed c' = cl_closed c"
  using assms ids_of_erase [OF assms(2)]
  by (auto simp: Dispatch_reply_def pending_calls_take split: option.splits prod.splits if_splits)

lemma Start_failed_split:
  assumes "Start_failed rid st c = (cs, c')" "ids_of c"
  shows "mset (map fst cs) + pending_calls c' = pending_calls c \<and> ids_of c'
    \<and> cl_next_request c' = cl_next_request c \<and> cl_closed c' = cl_closed c"
  using assms ids_of_erase [OF assms(2)]
  by (auto simp: Start_failed_def pending_calls_take split: option.splits)

lemma take_calls_ids:
  assumes "take_calls why c = (cs, c')" "ids_of c"
  shows "mset (map fst cs) + pending_calls c' = pending_calls c \<and> ids_of c'
    \<and> cl_next_request c' = cl_next_request c \<and> cl_closed c' = cl_closed c"
  using take_calls_split [of why c] assms ids_of_filter [OF assms(2)]
  by (auto simp: take_calls_def)

lemma ExpireLocked_split:
  assumes "ExpireLocked now msgs now' c = (cs, c')" "ids_of c"
  shows "mset (map fst cs) + pending_calls c' = pending_calls c \<and> ids_of c'
    \<and> cl_next_request c' = cl_next_request c \<and> cl_closed c' = cl_closed c"
proof (cases "cl_pending c = []")
  case True
  with assms show ?thesis by (auto simp: ExpireLocked_def pending_calls_def)
next
  case False
  obtain live c1 where live: "LiveServerLocked msgs now' c = (live, c1)" by (cases "LiveServerLocked msgs now' c")
  with False assms(1) have "take_calls (expire_reason (result_ok live) now (cl_spec c1)) c1 = (cs, c')"
    by (simp add: ExpireLocked_def)
  from take_calls_ids [OF this] LiveServerLocked_eq [OF live] assms(2) show ?thesis by simp
qed

lemma Start_register_split:
  assumes "Start_register d t tok c = (rid, c')" "ids_of c" "unat (cl_next_request c) + 1 < 2 ^ 64"
  shows "pending_calls c' = add_mset tok (pending_calls c) \<and> ids_of c'
    \<and> unat (cl_next_request c') = unat (cl_next_request c) + 1"
proof -
  from assms(1) have rid: "rid = cl_next_request c + 1"
    and c': "c' = c\<lparr>cl_next_request := rid, cl_pending := omap_emplace rid
      \<lparr>p_deadline = d, p_timeout = t, p_done = tok\<rparr> (cl_pending c)\<rparr>"
    by (auto simp: Start_register_def Let_def)
  have nxt: "unat rid = unat (cl_next_request c) + 1"
    unfolding rid using assms(3) by (subst unat_add_lem [THEN iffD1]) simp_all
  then have less: "cl_next_request c < rid" by (simp add: word_less_nat_alt)
  have none: "omap_find (cl_pending c) rid = None"
    using assms(2) less by (cases "omap_find (cl_pending c) rid") (force simp: ids_of_def dest: omap_find_in)+
  note m = mset_omap_emplace [OF none, of "\<lparr>p_deadline = d, p_timeout = t, p_done = tok\<rparr>"]
  have "set (cl_pending c') = insert (rid, \<lparr>p_deadline = d, p_timeout = t, p_done = tok\<rparr>) (set (cl_pending c))"
    using arg_cong [OF m, of set_mset] c' by simp
  with assms(2) less have "ids_of c'"
    by (auto simp: ids_of_def c' omap_ok_emplace intro: order_trans less_imp_le)
  with m nxt c' show ?thesis by (simp add: pending_calls_def)
qed

text \<open>A caller's turn of the wait: whatever it returns, the call stays accounted for.\<close>

lemma cl_wf_after_await:
  assumes "cl_wf s" "s_callers s = ks1 @ k # ks2" "\<forall>rid. k_phase k \<noteq> PSend rid"
  shows "cl_wf (after_await r ks1 k ks2 s)"
proof -
  have tok: "waiting (s_callers s) = add_mset (k_token k) (waiting ks1 + waiting ks2)"
    using assms(2,3) by (cases "k_phase k") auto
  show ?thesis
  proof (cases r)
    case AwaitOk
    obtain rid c where reg: "Start_register (k_deadline k) (k_timeout k) (k_token k) (s_client s) = (rid, c)"
      by (cases "Start_register (k_deadline k) (k_timeout k) (k_token k) (s_client s)")
    have "accounted s' \<and> ids_fresh s'" if "length (s_issued s) < 2 ^ 64" "s' = after_await r ks1 k ks2 s" for s'
    proof -
      from that assms(1) have ac: "accounted s" "ids_fresh s" by (simp_all add: cl_wf_def)
      then have "ids_of (s_client s)" "unat (cl_next_request (s_client s)) + 1 < 2 ^ 64"
        using tok that(1) by (simp_all add: ids_fresh_alt)
      from Start_register_split [OF reg this] ac tok that(2) reg show ?thesis
        by (simp add: after_await_def AwaitOk accounted_def ids_fresh_alt)
    qed
    with assms(1) reg show ?thesis by (simp add: cl_wf_def after_await_def AwaitOk)
  qed (use assms(1) tok in \<open>auto simp: cl_wf_def after_await_def accounted_def ids_fresh_alt\<close>)
qed

lemma cl_wf_client:
  assumes "cl_wf s" "pending_calls c = pending_calls (s_client s)" "ids_of c = ids_of (s_client s)"
    "cl_next_request c = cl_next_request (s_client s)"
  shows "cl_wf (s\<lparr>s_client := c\<rparr>)"
  using assms by (simp add: cl_wf_def accounted_def ids_fresh_alt)

text \<open>Calls taken from the map by a thread that keeps them or logs them.\<close>

lemma cl_wf_taken:
  assumes wf: "cl_wf s"
    and split: "ids_of (s_client s) \<Longrightarrow> mset (map fst cs) + pending_calls c = pending_calls (s_client s) \<and> ids_of c
      \<and> cl_next_request c = cl_next_request (s_client s) \<and> cl_closed c = cl_closed (s_client s)"
    and s': "s_client s' = c" "s_issued s' = s_issued s" "size (waiting (s_callers s')) = size (waiting (s_callers s))"
    and moved: "waiting (s_callers s') + disp_calls (s_disp s') + close_calls (s_close s') + mset (map fst (s_log s'))
      = waiting (s_callers s) + disp_calls (s_disp s) + close_calls (s_close s) + mset (map fst (s_log s)) + mset (map fst cs)"
  shows "cl_wf s'"
proof -
  have "accounted s' \<and> ids_fresh s'" if "length (s_issued s) < 2 ^ 64"
  proof -
    from that wf have ac: "accounted s" "ids_fresh s" by (simp_all add: cl_wf_def)
    then have sp: "mset (map fst cs) + pending_calls c = pending_calls (s_client s)" "ids_of c"
      "cl_next_request c = cl_next_request (s_client s)"
      using split by (simp_all add: ids_fresh_alt)
    have "mset (s_issued s') = waiting (s_callers s') + pending_calls (s_client s') + disp_calls (s_disp s')
        + close_calls (s_close s') + mset (map fst (s_log s'))"
      using ac(1) sp(1) moved s' by (simp add: accounted_def ac_simps)
    with ac(2) sp s' show ?thesis by (simp add: accounted_def ids_fresh_alt)
  qed
  with wf s' show ?thesis by (simp add: cl_wf_def)
qed

lemma cl_wf_step:
  assumes "cl_step M s s'" "cl_wf s"
  shows "cl_wf s'"
  using assms
proof (cases rule: cl_step.cases)
  case (call timeout tok now now' may_wait)
  then show ?thesis
    using assms(2) by (auto simp: cl_wf_def accounted_def ids_fresh_alt new_caller_def)
next
  case (await ks1 k ks2 matched msgs now_live now r c)
  have "cl_wf (s\<lparr>s_client := c\<rparr>)"
    using AwaitServer_poll_client(1) [OF await(5)] assms(2) by (auto intro: cl_wf_client)
  from cl_wf_after_await [OF this] await show ?thesis by simp
next
  case (rematch ks1 k ks2 matched now r)
  then show ?thesis using cl_wf_after_await [OF assms(2)] by simp
next
  case (sent ks1 k ks2 rid)
  then show ?thesis using assms(2) by (simp add: cl_wf_def accounted_def ids_fresh_alt)
next
  case (send_failed ks1 k ks2 rid st cs c)
  show ?thesis
    by (rule cl_wf_taken [OF assms(2) Start_failed_split [OF send_failed(5)]]) (use send_failed in simp_all)
next
  case (poll msgs now r c)
  then show ?thesis using LiveServerLocked_eq [OF poll(2)] assms(2) by (auto intro: cl_wf_client)
next
  case (wake msgs)
  then show ?thesis using assms(2) by (simp add: cl_wf_def accounted_def ids_fresh_alt)
next
  case (reply cs message cs' c)
  show ?thesis
    by (rule cl_wf_taken [OF assms(2) Dispatch_reply_split [OF reply(3)]]) (use reply in simp_all)
next
  case (expire cs now msgs now' cs' c)
  show ?thesis
    by (rule cl_wf_taken [OF assms(2) ExpireLocked_split [OF expire(3)]]) (use expire in simp_all)
next
  case (drain cs c)
  show ?thesis
    by (rule cl_wf_taken [OF assms(2) take_calls_ids [OF drain(3) [unfolded Close_drain_def]]]) (use drain in simp_all)
qed (use assms(2) in \<open>simp_all add: cl_wf_def accounted_def ids_fresh_alt\<close>)

interpretation clw: transition_system "\<lambda>s. \<exists>spec cid. s = csys_init spec cid" "cl_step M" cl_wf for M
proof
  fix s :: "'a csys" assume "\<exists>spec cid. s = csys_init spec cid"
  then show "cl_wf s"
    by (auto simp: csys_init_def cl_init_def cl_wf_def accounted_def ids_fresh_def pending_calls_def)
qed (rule cl_wf_step)

section \<open>Completion\<close>

lemma distinct_submultiset:
  assumes "mset ys \<subseteq># mset xs" "distinct xs"
  shows "distinct ys"
proof -
  have "count (mset xs) a \<le> 1" for a using assms(2) distinct_count_atmost_1 [of xs] by simp
  then have "count (mset ys) a \<le> 1" for a
    using mset_subset_eq_count [OF assms(1), of a] by (rule order_trans [rotated])
  then show ?thesis
    unfolding distinct_count_atmost_1
    by (auto simp: le_Suc_eq count_eq_zero_iff dest: antisym)
qed

text \<open>
  C10. A call's callback runs at most once: in every state a client can reach, whatever the
  interleaving of callers, dispatcher and \<open>Close\<close>, each call made is in exactly one place (a caller
  that has not sent yet, the map of pending calls, the dispatcher's or \<open>Close\<close>'s list of completions,
  or already completed), so no callback has been invoked twice and none has been dropped from all of them.
\<close>

theorem service_call_in_one_place:
  assumes "(cl_step M)\<^sup>*\<^sup>* (csys_init spec cid) s" "length (s_issued s) < 2 ^ 64"
  shows "distinct (map fst (s_log s))
    \<and> mset (s_issued s) = waiting (s_callers s) + pending_calls (s_client s)
        + disp_calls (s_disp s) + close_calls (s_close s) + mset (map fst (s_log s))"
proof -
  have "cl_wf s" using clw.inv_reachable [OF _ assms(1)] by blast
  then have d: "distinct (s_issued s)" and a: "accounted s" using assms(2) by (simp_all add: cl_wf_def)
  have "distinct (map fst (s_log s))"
    by (rule distinct_submultiset [OF _ d]) (use a in \<open>simp add: accounted_def\<close>)
  with a show ?thesis by (simp add: accounted_def)
qed

subsection \<open>Transports that match at once\<close>

definition prompt_inv :: "'tok csys \<Rightarrow> bool" where
  "prompt_inv s \<longleftrightarrow> (\<forall>k \<in> set (s_callers s). k_phase k \<noteq> PMatch)
     \<and> (s_close s \<noteq> CNone \<longrightarrow> cl_closed (s_client s))
     \<and> (case s_close s of CRun cs \<Rightarrow> cl_pending (s_client s) = [] | CDone \<Rightarrow> cl_pending (s_client s) = [] | _ \<Rightarrow> True)"

lemma prompt_after_await:
  assumes "prompt_inv s" "s_callers s = ks1 @ k # ks2" "r \<noteq> AwaitMatch" "cl_closed (s_client s) \<Longrightarrow> r \<noteq> AwaitOk"
  shows "prompt_inv (after_await r ks1 k ks2 s)"
  using assms by (cases r) (auto simp: prompt_inv_def after_await_def Start_register_def Let_def split: closer.splits)

lemma take_calls_Nil: "take_calls why c = (cs, c') \<Longrightarrow> cl_pending c = [] \<Longrightarrow> cl_pending c' = []"
  by (auto simp: take_calls_def)

lemma ExpireLocked_Nil: "ExpireLocked now msgs now' c = (cs, c') \<Longrightarrow> cl_pending c = [] \<Longrightarrow> c' = c"
  by (simp add: ExpireLocked_def)

lemma Dispatch_reply_frame:
  assumes "Dispatch_reply m c = (cs, c')"
  shows "cl_closed c' = cl_closed c \<and> (cl_pending c = [] \<longrightarrow> cl_pending c' = [])"
  using assms by (auto simp: Dispatch_reply_def omap_erase_def split: option.splits prod.splits if_splits)

lemma Start_failed_frame:
  assumes "Start_failed rid st c = (cs, c')"
  shows "cl_closed c' = cl_closed c \<and> (cl_pending c = [] \<longrightarrow> cl_pending c' = [])"
  using assms by (auto simp: Start_failed_def omap_erase_def split: option.splits)

lemma ExpireLocked_closed:
  assumes "ExpireLocked now msgs now' c = (cs, c')"
  shows "cl_closed c' = cl_closed c"
proof (cases "LiveServerLocked msgs now' c")
  case (Pair live c1)
  then show ?thesis using assms LiveServerLocked_eq [OF Pair] by (auto simp: ExpireLocked_def take_calls_def split: if_splits)
qed

lemma prompt_inv_client:
  assumes "prompt_inv s" "cl_closed c = cl_closed (s_client s)" "cl_pending (s_client s) = [] \<longrightarrow> cl_pending c = []"
    "s_client s' = c" "s_close s' = s_close s" "set (s_callers s') \<subseteq> set (s_callers s)"
  shows "prompt_inv s'"
  using assms by (auto simp: prompt_inv_def split: closer.splits)

lemma prompt_inv_step:
  assumes "cl_step matches s s'" "prompt_inv s"
  shows "prompt_inv s'"
  using assms
proof (cases rule: cl_step.cases)
  case (call timeout tok now now' may_wait)
  then show ?thesis using assms(2) by (auto simp: prompt_inv_def new_caller_def split: closer.splits)
next
  case (await ks1 k ks2 matched msgs now_live now r c)
  have c: "cl_closed c = cl_closed (s_client s)" "cl_pending c = cl_pending (s_client s)"
    using AwaitServer_poll_client(1) [OF await(5)] by auto
  have "prompt_inv (s\<lparr>s_client := c\<rparr>)" by (rule prompt_inv_client [OF assms(2)]) (use c in auto)
  moreover have "cl_closed c \<Longrightarrow> r \<noteq> AwaitOk" "r \<noteq> AwaitMatch"
    using AwaitServer_poll_client(2,3) [OF await(5)] c await(4) by auto
  ultimately show ?thesis using await(1,2) prompt_after_await [of "s\<lparr>s_client := c\<rparr>"] by simp
next
  case (rematch ks1 k ks2 matched now r)
  then show ?thesis using assms(2) by (auto simp: prompt_inv_def)
next
  case (sent ks1 k ks2 rid)
  show ?thesis by (rule prompt_inv_client [OF assms(2), where c = "s_client s"]) (use sent in auto)
next
  case (send_failed ks1 k ks2 rid st cs c)
  show ?thesis
    by (rule prompt_inv_client [OF assms(2), where c = c]) (use send_failed Start_failed_frame [OF send_failed(5)] in auto)
next
  case (poll msgs now r c)
  then show ?thesis
    by (intro prompt_inv_client [OF assms(2), where c = c]) (auto dest: LiveServerLocked_eq)
next
  case (reply cs message cs' c)
  show ?thesis
    by (rule prompt_inv_client [OF assms(2), where c = c]) (use reply Dispatch_reply_frame [OF reply(3)] in auto)
next
  case (expire cs now msgs now' cs' c)
  show ?thesis
    by (rule prompt_inv_client [OF assms(2), where c = c])
      (use expire ExpireLocked_closed [OF expire(3)] ExpireLocked_Nil [OF expire(3)] in auto)
next
  case (drain cs c)
  then show ?thesis using assms(2) by (auto simp: prompt_inv_def Close_drain_def take_calls_def)
qed (use assms(2) in \<open>auto simp: prompt_inv_def split: closer.splits\<close>)

interpretation clp: transition_system "\<lambda>s. \<exists>spec cid. s = csys_init spec cid" "cl_step matches" prompt_inv
proof
  fix s :: "'a csys" assume "\<exists>spec cid. s = csys_init spec cid"
  then show "prompt_inv s" by (auto simp: csys_init_def prompt_inv_def)
qed (rule prompt_inv_step)


subsection \<open>A call lost in the wait for a match\<close>

text \<open>
  The second loop of \<open>AwaitServerLocked\<close> looks at \<open>closed\<close> only when no reader is matched. A call
  that waits there while \<open>Close\<close> runs, and finds its reader matched when it wakes, is registered after
  \<open>Close\<close> has drained the map, with no dispatcher left to complete it. \<open>lost_call\<close> describes the state
  afterwards; it is kept by every step.
\<close>

definition lost_call :: "'tok \<Rightarrow> u64 \<Rightarrow> 'tok csys \<Rightarrow> bool" where
  "lost_call tok rid s \<longleftrightarrow> s_close s = CDone \<and> s_disp s = DExited \<and> cl_closed (s_client s)
     \<and> rid \<le> cl_next_request (s_client s)
     \<and> (\<forall>k \<in> set (s_callers s). k_token k \<noteq> tok \<and> k_phase k \<noteq> PSend rid)
     \<and> (\<exists>p. omap_find (cl_pending (s_client s)) rid = Some p \<and> p_done p = tok)
     \<and> tok \<in> set (s_issued s) \<and> tok \<notin> fst ` set (s_log s)"

lemma lost_client:
  assumes "lost_call tok rid s" "cl_closed c = cl_closed (s_client s)"
    "cl_next_request c = cl_next_request (s_client s)" "cl_pending c = cl_pending (s_client s)"
  shows "lost_call tok rid (s\<lparr>s_client := c\<rparr>)"
  using assms by (simp add: lost_call_def)

lemma lost_after_await:
  assumes "lost_call tok rid s" "s_callers s = ks1 @ k # ks2" "\<forall>rid. k_phase k \<noteq> PSend rid"
    "omap_ok (cl_pending (s_client s))" "unat (cl_next_request (s_client s)) + 1 < 2 ^ 64"
  shows "lost_call tok rid (after_await r ks1 k ks2 s)"
proof (cases r)
  case AwaitOk
  have "unat (cl_next_request (s_client s) + 1) = unat (cl_next_request (s_client s)) + 1"
    using assms(5) by (subst unat_add_lem [THEN iffD1]) simp_all
  then have "cl_next_request (s_client s) < cl_next_request (s_client s) + 1" by (simp add: word_less_nat_alt)
  then have "rid < cl_next_request (s_client s) + 1" using assms(1) by (auto simp: lost_call_def)
  with assms AwaitOk show ?thesis
    by (auto simp: lost_call_def after_await_def Start_register_def Let_def omap_find_emplace)
qed (use assms in \<open>auto simp: lost_call_def after_await_def\<close>)

lemma lost_step:
  assumes step: "cl_step M s s'" and lost: "lost_call tok rid s" and wf: "cl_wf s" and bound: "length (s_issued s') < 2 ^ 64"
  shows "lost_call tok rid s'"
proof -
  have issued: "length (s_issued s) \<le> length (s_issued s')"
    using step by (cases rule: cl_step.cases) (auto simp: after_await_def Start_register_def Let_def split: await.split)
  with wf bound have fresh: "ids_of (s_client s)"
      "unat (cl_next_request (s_client s)) + size (waiting (s_callers s)) \<le> length (s_issued s)"
    by (simp_all add: cl_wf_def ids_fresh_alt)
  from step show ?thesis
  proof (cases rule: cl_step.cases)
    case (call timeout tok' now now' may_wait)
    then show ?thesis using lost by (auto simp: lost_call_def new_caller_def)
  next
    case (await ks1 k ks2 matched msgs now_live now r c)
    have c: "c = s_client s \<or> c = PollPresenceLocked msgs (s_client s)"
      by (rule AwaitServer_poll_client(1) [OF await(5)])
    have "lost_call tok rid (s\<lparr>s_client := c\<rparr>)" using c lost by (intro lost_client) auto
    moreover have "0 < size (waiting (s_callers s))" using await(2,3) by simp
    ultimately show ?thesis
      unfolding await(1) using c await(2,3) fresh issued bound
      by (intro lost_after_await) (auto simp: ids_of_def)
  next
    case (rematch ks1 k ks2 matched now r)
    moreover have "0 < size (waiting (s_callers s))" using rematch(2,3) by simp
    ultimately show ?thesis
      unfolding rematch(1) using lost fresh issued bound by (intro lost_after_await) (auto simp: ids_of_def)
  next
    case (sent ks1 k ks2 rid')
    then show ?thesis using lost by (auto simp: lost_call_def)
  next
    case (send_failed ks1 k ks2 rid' st cs c)
    then have ne: "rid' \<noteq> rid" using lost by (auto simp: lost_call_def)
    have dist: "p_done p \<noteq> tok" if "omap_find (cl_pending (s_client s)) rid' = Some p" for p
    proof
      assume "p_done p = tok"
      from lost obtain q where q: "omap_find (cl_pending (s_client s)) rid = Some q" "p_done q = tok"
        by (auto simp: lost_call_def)
      define c1 where "c1 = (s_client s)\<lparr>cl_pending := omap_erase rid' (cl_pending (s_client s))\<rparr>"
      have c1: "ids_of c1" "omap_find (cl_pending c1) rid = Some q"
        using ids_of_erase [OF fresh(1), of rid'] q ne fresh(1)
        by (auto simp: c1_def ids_of_def om.lookup_erase)
      have "pending_calls (s_client s) = add_mset tok (pending_calls c1)"
        using pending_calls_take [OF fresh(1) that] \<open>p_done p = tok\<close> by (simp add: c1_def)
      with pending_calls_take [OF c1] q(2) have "{#tok, tok#} \<subseteq># pending_calls (s_client s)"
        by (metis mset_subset_eq_add_mset_cancel empty_le)
      moreover have "pending_calls (s_client s) \<subseteq># mset (s_issued s)" "distinct (s_issued s)"
        using wf bound issued by (auto simp: cl_wf_def accounted_def)
      ultimately have "distinct [tok, tok]"
        by (intro distinct_submultiset [of "[tok, tok]" "s_issued s"]) (auto intro: subset_mset.order_trans)
      then show False by simp
    qed
    show ?thesis
      using lost send_failed ne dist fresh(1)
      by (auto simp: lost_call_def Start_failed_def ids_of_def om.lookup_erase split: option.splits)
  next
    case (poll msgs now r c)
    then show ?thesis using LiveServerLocked_eq [OF poll(2)] lost by (auto intro: lost_client)
  qed (use lost in \<open>auto simp: lost_call_def\<close>)
qed

text \<open>A run in which call \<open>0\<close> of an open client sees a server, waits for a match, and loses to \<open>Close\<close>.\<close>

definition ex_presence :: bytes where
  "ex_presence = put_le 8 (1 :: u64) @ put_le 8 (1 :: u64)"

definition ex_seen :: "nat client" where
  "ex_seen = (cl_init ex_service 7)\<lparr>cl_server_instance := 1, cl_heartbeat_sequence := 1, cl_heartbeat_at := 1\<rparr>"

definition ex_caller :: "phase \<Rightarrow> nat caller" where
  "ex_caller ph = \<lparr>k_token = 0, k_timeout = 1000000000, k_deadline = 1000000000, k_give_up = 300000000,
     k_may_wait = True, k_phase = ph\<rparr>"

definition ex_csys :: "nat client \<Rightarrow> nat caller list \<Rightarrow> nat dispatcher \<Rightarrow> nat closer \<Rightarrow> nat csys" where
  "ex_csys c ks d cl = \<lparr>s_client = c, s_callers = ks, s_disp = d, s_close = cl, s_own = False, s_log = [], s_issued = [0]\<rparr>"

definition ex_closed :: "nat client" where
  "ex_closed = ex_seen\<lparr>cl_closed := True\<rparr>"

definition ex_registered :: "nat client \<Rightarrow> nat client" where
  "ex_registered c = c\<lparr>cl_next_request := 1, cl_pending := [(1, \<lparr>p_deadline = 1000000000, p_timeout = 1000000000, p_done = 0\<rparr>)]\<rparr>"

lemma ex_poll_presence: "PollPresenceLocked [(1, ex_presence)] (cl_init ex_service 7) = ex_seen"
  by (simp add: PollPresenceLocked_def PollPresence_message_def ex_presence_def kPresenceSize_def cl_init_def
      bytes_at_append bytes_at_put_le get_put_le kOfflineSequence_def ex_seen_def)

lemma ex_live: "LiveServerLocked [(1, ex_presence)] 2 (cl_init ex_service 7) = (Inr \<lparr>si_instance_id = 1, si_age = 1\<rparr>, ex_seen)"
  unfolding LiveServerLocked_def Let_def ex_poll_presence
  by (simp add: ex_seen_def Client_Liveness_def cl_init_def ex_service_def)

lemma ex_step_call: "cl_step M (csys_init ex_service 7) (ex_csys (cl_init ex_service 7) [ex_caller PAwait] DWait CNone)"
  using cl_step.call [of 1000000000 0 "csys_init ex_service 7" M 0 0 True]
  by (simp add: csys_init_def ex_csys_def ex_caller_def new_caller_def Client_Liveness_def cl_init_def ex_service_def)

lemma ex_step_await:
  assumes "M (Inr n)"
  shows "cl_step M (ex_csys (cl_init ex_service 7) [ex_caller PAwait] DWait CNone)
    (if n = 0 then ex_csys ex_seen [ex_caller PMatch] DWait CNone
     else ex_csys (ex_registered ex_seen) [ex_caller (PSend 1)] DWait CNone)"
proof -
  have "AwaitServer_poll [(1, ex_presence)] 2 2 300000000 1000000000 True (Inr n) (cl_init ex_service 7)
      = (if n = 0 then AwaitMatch else AwaitOk, ex_seen)"
    by (simp add: AwaitServer_poll_def ex_live AwaitServer_match_def matches_def)
      (simp add: cl_init_def ex_seen_def)
  then have "cl_step M (ex_csys (cl_init ex_service 7) [ex_caller PAwait] DWait CNone)
      (after_await (if n = 0 then AwaitMatch else AwaitOk) [] (ex_caller PAwait) []
        ((ex_csys (cl_init ex_service 7) [ex_caller PAwait] DWait CNone)\<lparr>s_client := ex_seen\<rparr>))"
    using assms by (intro cl_step.await) (simp_all add: ex_csys_def ex_caller_def)
  then show ?thesis
    by (simp add: after_await_def ex_csys_def ex_caller_def Start_register_def Let_def ex_registered_def
        omap_emplace_def ex_seen_def cl_init_def split: if_splits)
qed

lemma run_step: "cl_step M a b \<Longrightarrow> (cl_step M)\<^sup>*\<^sup>* b c \<Longrightarrow> (cl_step M)\<^sup>*\<^sup>* a c"
  by (rule converse_rtranclp_into_rtranclp)

lemma ex_close_run: "(cl_step M)\<^sup>*\<^sup>* (ex_csys ex_seen ks DWait CNone) (ex_csys ex_closed ks DExited CDone)"
proof -
  have 1: "cl_step M (ex_csys ex_seen ks DWait CNone) (ex_csys ex_closed ks DWait CJoin)"
    using cl_step.close [of "ex_csys ex_seen ks DWait CNone" M] by (simp add: ex_csys_def ex_closed_def)
  have 2: "cl_step M (ex_csys ex_closed ks DWait CJoin) (ex_csys ex_closed ks DExited CJoin)"
    using cl_step.exit [of "ex_csys ex_closed ks DWait CJoin" M] by (simp add: ex_csys_def ex_closed_def)
  have 3: "cl_step M (ex_csys ex_closed ks DExited CJoin) (ex_csys ex_closed ks DExited CDrain)"
    using cl_step.join [of "ex_csys ex_closed ks DExited CJoin" M] by (simp add: ex_csys_def)
  have 4: "cl_step M (ex_csys ex_closed ks DExited CDrain) (ex_csys ex_closed ks DExited (CRun []))"
    using cl_step.drain [of "ex_csys ex_closed ks DExited CDrain" "[]" ex_closed M]
    by (simp add: ex_csys_def Close_drain_def take_calls_def ex_closed_def ex_seen_def cl_init_def)
  have 5: "cl_step M (ex_csys ex_closed ks DExited (CRun [])) (ex_csys ex_closed ks DExited CDone)"
    using cl_step.closed [of "ex_csys ex_closed ks DExited (CRun [])" M] by (simp add: ex_csys_def)
  show ?thesis by (rule run_step [OF 1 run_step [OF 2 run_step [OF 3 run_step [OF 4 run_step [OF 5]]]]]) simp
qed

lemma ex_lost_run:
  "(cl_step (\<lambda>_. True))\<^sup>*\<^sup>* (csys_init ex_service 7) (ex_csys (ex_registered ex_closed) [] DExited CDone)"
proof -
  note call = ex_step_call [of "\<lambda>_. True"]
  note await = ex_step_await [of "\<lambda>_. True" 0, simplified]
  have "AwaitServer_match (Inr 1) 3 1000000000 True ex_closed = AwaitOk"
    by (simp add: AwaitServer_match_def matches_def)
  then have rematch: "cl_step (\<lambda>_. True) (ex_csys ex_closed [ex_caller PMatch] DExited CDone)
      (ex_csys (ex_registered ex_closed) [ex_caller (PSend 1)] DExited CDone)"
    using cl_step.rematch [of "ex_csys ex_closed [ex_caller PMatch] DExited CDone" "[]" "ex_caller PMatch" "[]"
        "\<lambda>_. True" "Inr 1" 3 AwaitOk]
    by (simp add: after_await_def ex_csys_def ex_caller_def Start_register_def Let_def ex_registered_def
        omap_emplace_def ex_closed_def ex_seen_def cl_init_def)
  have sent: "cl_step (\<lambda>_. True) (ex_csys (ex_registered ex_closed) [ex_caller (PSend 1)] DExited CDone)
      (ex_csys (ex_registered ex_closed) [] DExited CDone)"
    using cl_step.sent [of "ex_csys (ex_registered ex_closed) [ex_caller (PSend 1)] DExited CDone" "[]"
        "ex_caller (PSend 1)" "[]" 1]
    by (simp add: ex_csys_def ex_caller_def)
  show ?thesis
    by (rule run_step [OF call run_step [OF await rtranclp_trans [OF ex_close_run run_step [OF rematch run_step [OF sent]]]]])
      simp
qed

lemma lost_forever:
  assumes "(cl_step M)\<^sup>*\<^sup>* s s'" "lost_call tok rid s" "cl_wf s" "length (s_issued s') < 2 ^ 64"
  shows "lost_call tok rid s'"
  using assms
proof (induction rule: rtranclp_induct)
  case base
  then show ?case by simp
next
  case (step y z)
  have "length (s_issued y) \<le> length (s_issued z)"
    using step(2) by (cases rule: cl_step.cases) (auto simp: after_await_def Start_register_def Let_def split: await.split)
  with step have "lost_call tok rid y" by simp
  moreover have "cl_wf y" by (rule clw.inv_run [OF step(1) step.prems(2)])
  ultimately show ?case using lost_step [OF step(2)] step.prems(3) by blast
qed

text \<open>
  C12. On a transport that discovers readers asynchronously a call can be lost: a client can reach a
  state in which \<open>Close\<close> has returned, the dispatcher has exited and the caller has left \<open>Start\<close>, and
  from which the call's callback is never invoked again, whatever happens next. \<open>CallAsync\<close> promises that
  \<open>done\<close> is called exactly once, and \<open>Call\<close> waits for it without a limit.
\<close>

theorem service_call_lost_at_close:
  "\<exists>s. (cl_step (\<lambda>_. True))\<^sup>*\<^sup>* (csys_init ex_service 7) s
     \<and> s_close s = CDone \<and> s_disp s = DExited \<and> s_callers s = [] \<and> s_issued s = [0 :: nat] \<and> s_log s = []
     \<and> (\<forall>s'. (cl_step (\<lambda>_. True))\<^sup>*\<^sup>* s s' \<and> length (s_issued s') < 2 ^ 64 \<longrightarrow> 0 \<notin> fst ` set (s_log s'))"
proof -
  let ?s = "ex_csys (ex_registered ex_closed) [] DExited CDone"
  have "lost_call 0 1 ?s"
    by (simp add: lost_call_def ex_csys_def ex_registered_def ex_closed_def omap_find_def)
  moreover have "cl_wf ?s" using clw.inv_reachable [OF _ ex_lost_run] by blast
  ultimately have "\<forall>s'. (cl_step (\<lambda>_. True))\<^sup>*\<^sup>* ?s s' \<and> length (s_issued s') < 2 ^ 64 \<longrightarrow> 0 \<notin> fst ` set (s_log s')"
    using lost_forever by (metis lost_call_def)
  then show ?thesis using ex_lost_run by (intro exI [of _ ?s]) (auto simp: ex_csys_def)
qed

theorem service_call_lost_at_close_witness:
  "\<exists>s. (cl_step (\<lambda>_. True))\<^sup>*\<^sup>* (csys_init ex_service 7) s \<and> s_close s = CDone \<and> s_issued s = [0 :: nat]
     \<and> (cl_step (\<lambda>_. True))\<^sup>*\<^sup>* s s \<and> length (s_issued s) < 2 ^ 64 \<and> 0 \<notin> fst ` set (s_log s)"
proof -
  obtain s where s: "(cl_step (\<lambda>_. True))\<^sup>*\<^sup>* (csys_init ex_service 7) s" "s_close s = CDone" "s_issued s = [0 :: nat]"
      "\<forall>s'. (cl_step (\<lambda>_. True))\<^sup>*\<^sup>* s s' \<and> length (s_issued s') < 2 ^ 64 \<longrightarrow> 0 \<notin> fst ` set (s_log s')"
    using service_call_lost_at_close by blast
  moreover have "(cl_step (\<lambda>_. True))\<^sup>*\<^sup>* s s \<and> length (s_issued s) < 2 ^ 64" using s(3) by simp
  ultimately show ?thesis by blast
qed

theorem service_call_in_one_place_witness:
  "mset (s_issued (ex_csys (ex_registered ex_closed) [] DExited CDone))
     = pending_calls (s_client (ex_csys (ex_registered ex_closed) [] DExited CDone))"
  using service_call_in_one_place [OF ex_lost_run] by (simp add: ex_csys_def)

text \<open>The same call on a transport that matches at once, cancelled by \<open>Close\<close>.\<close>

definition ex_cancelled :: "nat csys" where
  "ex_cancelled = (ex_csys (ex_closed\<lparr>cl_next_request := 1\<rparr>) [] DExited CDone)
     \<lparr>s_log := [(0, FromStatus (Status_Cancelled ''service /add: client closed during the call''))]\<rparr>"

lemma ex_cancelled_run: "(cl_step matches)\<^sup>*\<^sup>* (csys_init ex_service 7) ex_cancelled"
proof -
  let ?r = "ex_registered ex_seen" and ?c = "ex_registered ex_closed" and ?M = "matches"
  let ?x = "(0 :: nat, FromStatus (Status_Cancelled ''service /add: client closed during the call''))"
  let ?d = "ex_closed\<lparr>cl_next_request := 1\<rparr>"
  note call = ex_step_call [of ?M]
  have await: "cl_step ?M (ex_csys (cl_init ex_service 7) [ex_caller PAwait] DWait CNone)
      (ex_csys ?r [ex_caller (PSend 1)] DWait CNone)"
    using ex_step_await [of ?M 1] by (simp add: matches_def)
  have sent: "cl_step ?M (ex_csys ?r [ex_caller (PSend 1)] DWait CNone) (ex_csys ?r [] DWait CNone)"
    using cl_step.sent [of "ex_csys ?r [ex_caller (PSend 1)] DWait CNone" "[]" "ex_caller (PSend 1)" "[]" 1]
    by (simp add: ex_csys_def ex_caller_def)
  have close: "cl_step ?M (ex_csys ?r [] DWait CNone) (ex_csys ?c [] DWait CJoin)"
    using cl_step.close [of "ex_csys ?r [] DWait CNone" ?M]
    by (simp add: ex_csys_def ex_closed_def ex_registered_def ex_seen_def cl_init_def)
  have exit: "cl_step ?M (ex_csys ?c [] DWait CJoin) (ex_csys ?c [] DExited CJoin)"
    using cl_step.exit [of "ex_csys ?c [] DWait CJoin" ?M] by (simp add: ex_csys_def ex_closed_def ex_registered_def)
  have join: "cl_step ?M (ex_csys ?c [] DExited CJoin) (ex_csys ?c [] DExited CDrain)"
    using cl_step.join [of "ex_csys ?c [] DExited CJoin" ?M] by (simp add: ex_csys_def)
  have drain: "cl_step ?M (ex_csys ?c [] DExited CDrain) (ex_csys ?d [] DExited (CRun [?x]))"
    using cl_step.drain [of "ex_csys ?c [] DExited CDrain" "[?x]" ?d ?M]
    by (simp add: ex_csys_def Close_drain_def take_calls_def ex_registered_def ex_closed_def ex_seen_def cl_init_def
        Service_Describe_def ex_service_def)
  have cancel: "cl_step ?M (ex_csys ?d [] DExited (CRun [?x])) (ex_cancelled\<lparr>s_close := CRun []\<rparr>)"
    using cl_step.cancel [of "ex_csys ?d [] DExited (CRun [?x])" ?x "[]" ?M] by (simp add: ex_csys_def ex_cancelled_def)
  have closed: "cl_step ?M (ex_cancelled\<lparr>s_close := CRun []\<rparr>) ex_cancelled"
    using cl_step.closed [of "ex_cancelled\<lparr>s_close := CRun []\<rparr>" ?M] by (simp add: ex_csys_def ex_cancelled_def)
  show ?thesis
    by (rule run_step [OF call run_step [OF await run_step [OF sent run_step [OF close run_step [OF exit run_step [OF join
        run_step [OF drain run_step [OF cancel run_step [OF closed]]]]]]]]]) simp
qed


end
