(* ===== verification/Service_Server.thy ===== *)
theory Service_Server
  imports Service_Client "HOL-Library.Sublist"
begin

text \<open>
  \<open>service::Server\<close> of \<open>src/service/service.cpp\<close>: serving one request, replying to its client through a
  cache of writers, the bounded pass of \<open>ServePending\<close>, heartbeats and \<open>Close\<close>. What a call finds outside
  the server (clock readings, the transport's writers and their matching, the outcome of a write) is
  the record \<open>serve_env\<close>; the handler is a function that returns a result or throws.
\<close>

datatype serve_mode = kOwnThread | kCaller

record request =
  rq_payload :: bytes
  rq_client_id :: u64
  rq_request_id :: u64
  rq_deadline :: time_point

datatype handler_outcome = HReturns "bytes result" | HThrows string | HThrowsUnknown

record 'w server =
  sr_spec :: service_spec
  sr_mode :: serve_mode
  sr_reply_idle_timeout :: nanoseconds
  sr_instance_id :: u64
  sr_reply_base :: endpoint_config
  sr_reply_writers :: "(u64, 'w \<times> time_point) omap"
  sr_closed :: bool
  sr_handled :: u64
  sr_expired :: u64
  sr_heartbeat_sequence :: u64

record 'w serve_env =
  v_received :: time_point
  v_check :: time_point
  v_reply :: time_point
  v_writer :: time_point
  v_create :: "endpoint_config \<Rightarrow> 'w result"
  v_polls :: "(nat result \<times> time_point \<times> bool) list"
  v_write :: "'w \<Rightarrow> bytes \<Rightarrow> status"

definition kReplyMatchTimeout :: nanoseconds where
  "kReplyMatchTimeout = 1000000000"

section \<open>Heartbeats\<close>

definition Server_Announce :: "bool \<Rightarrow> 'w server \<Rightarrow> bytes \<times> 'w server" where
  "Server_Announce offline s =
     (let seq = (if offline then kOfflineSequence else sr_heartbeat_sequence s + 1) in
      (put_le 8 (sr_instance_id s) @ put_le 8 seq,
       if offline then s else s\<lparr>sr_heartbeat_sequence := seq\<rparr>))"

text \<open>\<open>Beat\<close> calls it while the server is open, \<open>try_lock\<close> saying whether the reply mutex was free.\<close>

definition EvictIdleWriters :: "bool \<Rightarrow> time_point \<Rightarrow> 'w server \<Rightarrow> 'w list \<times> 'w server" where
  "EvictIdleWriters try_lock now s =
     (if \<not> try_lock then ([], s)
      else let cutoff = now - sr_reply_idle_timeout s in
        (map (fst \<circ> snd) (filter (\<lambda>(c, w, last_used). last_used < cutoff) (sr_reply_writers s)),
         s\<lparr>sr_reply_writers := filter (\<lambda>(c, w, last_used). \<not> last_used < cutoff) (sr_reply_writers s)\<rparr>))"

section \<open>Replies\<close>

text \<open>The wait for a match: each poll with the time and the closed flag read after it.\<close>

fun wait_matched :: "(nat result \<times> time_point \<times> bool) list \<Rightarrow> time_point \<Rightarrow> bool" where
  "wait_matched [] give_up = False"
| "wait_matched ((matched, now, is_closed) # polls) give_up =
     (if matches matched then True
      else if give_up \<le> now \<or> is_closed then False
      else wait_matched polls give_up)"

definition ReplyWriterLocked :: "'w serve_env \<Rightarrow> u64 \<Rightarrow> time_point \<Rightarrow> 'w server \<Rightarrow> 'w option \<times> 'w server" where
  "ReplyWriterLocked env client_id give_up s =
     (case omap_find (sr_reply_writers s) client_id of
        Some (w, last_used) \<Rightarrow>
          (Some w, s\<lparr>sr_reply_writers := omap_assign client_id (w, v_writer env) (sr_reply_writers s)\<rparr>)
      | None \<Rightarrow>
          (case ReplyEndpoint (sr_reply_base s) client_id of
             Inl _ \<Rightarrow> (None, s)
           | Inr endpoint \<Rightarrow>
               (case v_create env endpoint of
                  Inl _ \<Rightarrow> (None, s)
                | Inr w \<Rightarrow>
                    if wait_matched (v_polls env) give_up
                    then (Some w, s\<lparr>sr_reply_writers := omap_emplace client_id (w, v_writer env) (sr_reply_writers s)\<rparr>)
                    else (None, s))))"

definition reply_message :: "header \<Rightarrow> status_code \<Rightarrow> bytes \<Rightarrow> bytes" where
  "reply_message request code data =
     Header_Encode \<lparr>h_magic = kReplyMagic, h_status = code, h_client_id = h_client_id request,
       h_request_id = h_request_id request, h_budget_ns = 0\<rparr> data"

text \<open>The message written and the writer it went through, if any.\<close>

definition Server_Reply :: "'w serve_env \<Rightarrow> header \<Rightarrow> time_point \<Rightarrow> status_code \<Rightarrow> bytes \<Rightarrow> 'w server
    \<Rightarrow> ('w \<times> bytes) option \<times> 'w server" where
  "Server_Reply env request deadline code data s =
     (let give_up = v_reply env + kReplyMatchTimeout;
          give_up = (if deadline \<noteq> 0 then min give_up deadline else give_up) in
      case ReplyWriterLocked env (h_client_id request) give_up s of
        (None, s') \<Rightarrow> (None, s')
      | (Some w, s') \<Rightarrow>
          if \<not> status_ok (v_write env w (reply_message request code data))
          then (None, s'\<lparr>sr_reply_writers := omap_erase (h_client_id request) (sr_reply_writers s')\<rparr>)
          else (Some (w, reply_message request code data), s'))"

section \<open>Serving\<close>

definition handler_result :: "handler_outcome \<Rightarrow> bytes result" where
  "handler_result out =
     (case out of
        HReturns r \<Rightarrow> r
      | HThrows what \<Rightarrow> FromStatus (Status_Internal (''service handler threw: '' @ what))
      | HThrowsUnknown \<Rightarrow> FromStatus (Status_Internal ''service handler threw''))"

definition result_reply :: "bytes result \<Rightarrow> status_code \<times> bytes" where
  "result_reply r = (case r of Inr data \<Rightarrow> (kOk, data) | Inl st \<Rightarrow> (st_code st, map byte_of_char (st_message st)))"

datatype 'w served = Malformed | Expired | Handled request "('w \<times> bytes) option"

definition Server_Serve :: "(request \<Rightarrow> handler_outcome) \<Rightarrow> 'w serve_env \<Rightarrow> message \<Rightarrow> 'w server \<Rightarrow> 'w served \<times> 'w server" where
  "Server_Serve handler env m s =
     (case Header_Decode (payload m) kRequestMagic of
        None \<Rightarrow> (Malformed, s)
      | Some (h, data) \<Rightarrow>
          let received = (if reception_timestamp (metadata m) = 0 then v_received env else reception_timestamp (metadata m));
              deadline = (if h_budget_ns h = 0 then 0 else received + h_budget_ns h);
              request = \<lparr>rq_payload = data, rq_client_id = h_client_id h, rq_request_id = h_request_id h,
                         rq_deadline = deadline\<rparr> in
          if h_budget_ns h \<noteq> 0 \<and> deadline < v_check env then (Expired, s\<lparr>sr_expired := sr_expired s + 1\<rparr>)
          else
            case result_reply (handler_result (handler request)) of
              (code, text) \<Rightarrow>
                (case Server_Reply env h deadline code text (s\<lparr>sr_handled := sr_handled s + 1\<rparr>) of
                   (sent, s') \<Rightarrow> (Handled request sent, s')))"

text \<open>
  The pass of \<open>ServePending\<close>: each turn sees the closed flag, and then what \<open>Read\<close> returns and the
  surroundings of the request it took. \<open>queued\<close> is what \<open>PendingMessageCount\<close> returned.
\<close>

definition serve_budget :: "nat \<Rightarrow> nat result \<Rightarrow> 'w server \<Rightarrow> nat" where
  "serve_budget limit queued s =
     (if limit \<noteq> 0 then limit else case queued of Inr n \<Rightarrow> n | Inl _ \<Rightarrow> sv_queue_depth (sr_spec s))"

fun serve_pass :: "(request \<Rightarrow> handler_outcome) \<Rightarrow> nat \<Rightarrow> (bool \<times> message result \<times> 'w serve_env) list \<Rightarrow> 'w server
    \<Rightarrow> 'w served list \<times> 'w server" where
  "serve_pass handler 0 turns s = ([], s)"
| "serve_pass handler (Suc budget) [] s = ([], s)"
| "serve_pass handler (Suc budget) ((is_closed, rd, env) # turns) s =
     (if is_closed then ([], s)
      else case rd of
        Inl _ \<Rightarrow> ([], s)
      | Inr m \<Rightarrow>
          (case Server_Serve handler env m s of
             (x, s') \<Rightarrow> (case serve_pass handler budget turns s' of (xs, s'') \<Rightarrow> (x # xs, s''))))"

fun is_handled :: "'w served \<Rightarrow> bool" where
  "is_handled (Handled r w) = True"
| "is_handled Malformed = False"
| "is_handled Expired = False"

definition ServePending ::
    "(request \<Rightarrow> handler_outcome) \<Rightarrow> bool \<Rightarrow> nat \<Rightarrow> nat result \<Rightarrow> (bool \<times> message result \<times> 'w serve_env) list \<Rightarrow> 'w server
      \<Rightarrow> nat result \<times> 'w server" where
  "ServePending handler from_handler limit queued turns s =
     (if sr_mode s \<noteq> kCaller
      then (FromStatus (Status_FailedPrecondition (Service_Describe (sr_spec s)
        @ '': ServePending needs ServeMode::kCaller; this server serves on its own thread'')), s)
      else if from_handler
      then (FromStatus (Status_FailedPrecondition (Service_Describe (sr_spec s)
        @ '': ServePending called from its own handler'')), s)
      else if sr_closed s
      then (FromStatus (Status_FailedPrecondition (Service_Describe (sr_spec s) @ '': server is closed'')), s)
      else case serve_pass handler (serve_budget limit queued s) turns s of
        (xs, s') \<Rightarrow> (Inr (length (filter is_handled xs)), s'))"

text \<open>
  \<open>Close\<close>: the first call marks the server closed, announces that it stopped and releases the reply
  writers, which are closed with it.
\<close>

definition Server_Close :: "'w server \<Rightarrow> bytes option \<times> 'w list \<times> 'w server" where
  "Server_Close s =
     (if sr_closed s then (None, [], s)
      else case Server_Announce True (s\<lparr>sr_closed := True\<rparr>) of
        (goodbye, s') \<Rightarrow> (Some goodbye, map (fst \<circ> snd) (sr_reply_writers s'), s'\<lparr>sr_reply_writers := []\<rparr>))"

section \<open>What a pass does\<close>

lemma ReplyWriterLocked_frame:
  assumes "ReplyWriterLocked env cid g s = (w, s')"
  shows "sr_handled s' = sr_handled s \<and> sr_expired s' = sr_expired s \<and> sr_reply_base s' = sr_reply_base s"
  using assms by (auto simp: ReplyWriterLocked_def split: option.splits prod.splits sum.splits if_splits)

lemma Server_Reply_frame:
  assumes "Server_Reply env h d code data s = (w, s')"
  shows "sr_handled s' = sr_handled s \<and> sr_expired s' = sr_expired s \<and> sr_reply_base s' = sr_reply_base s"
proof (cases "ReplyWriterLocked env (h_client_id h)
    (if d \<noteq> 0 then min (v_reply env + kReplyMatchTimeout) d else v_reply env + kReplyMatchTimeout) s")
  case (Pair w1 s1)
  from ReplyWriterLocked_frame [OF Pair] Pair assms show ?thesis
    by (auto simp: Server_Reply_def Let_def split: option.splits if_splits)
qed

text \<open>The verdict on one request, as the code documents it.\<close>

definition request_of :: "'w serve_env \<Rightarrow> message \<Rightarrow> header \<Rightarrow> bytes \<Rightarrow> request" where
  "request_of env m h data = \<lparr>rq_payload = data, rq_client_id = h_client_id h, rq_request_id = h_request_id h,
     rq_deadline = (if h_budget_ns h = 0 then 0
       else (if reception_timestamp (metadata m) = 0 then v_received env else reception_timestamp (metadata m)) + h_budget_ns h)\<rparr>"

definition verdict :: "message \<Rightarrow> 'w serve_env \<Rightarrow> 'w served \<Rightarrow> bool" where
  "verdict m env x =
     (case Header_Decode (payload m) kRequestMagic of
        None \<Rightarrow> x = Malformed
      | Some (h, data) \<Rightarrow>
          if h_budget_ns h \<noteq> 0 \<and> rq_deadline (request_of env m h data) < v_check env then x = Expired
          else \<exists>w. x = Handled (request_of env m h data) w)"

fun is_expired :: "'w served \<Rightarrow> bool" where
  "is_expired Expired = True"
| "is_expired Malformed = False"
| "is_expired (Handled r w) = False"

lemma Server_Serve_verdict:
  assumes "Server_Serve handler env m s = (x, s')"
  shows "verdict m env x \<and> sr_handled s' = sr_handled s + (if is_handled x then 1 else 0)
    \<and> sr_expired s' = sr_expired s + (if is_expired x then 1 else 0)"
proof (cases "Header_Decode (payload m) kRequestMagic")
  case None
  with assms show ?thesis by (auto simp: Server_Serve_def verdict_def)
next
  case (Some hd)
  obtain h data where hd: "hd = (h, data)" by (cases hd)
  let ?r = "request_of env m h data"
  obtain code body where cb: "result_reply (handler_result (handler ?r)) = (code, body)"
    by (cases "result_reply (handler_result (handler ?r))")
  obtain w s1 where rep: "Server_Reply env h (rq_deadline ?r) code body (s\<lparr>sr_handled := sr_handled s + 1\<rparr>) = (w, s1)"
    by (cases "Server_Reply env h (rq_deadline ?r) code body (s\<lparr>sr_handled := sr_handled s + 1\<rparr>)")
  from Server_Reply_frame [OF rep] Some hd cb rep assms show ?thesis
    by (auto simp: Server_Serve_def verdict_def request_of_def Let_def split: if_splits)
qed

lemma serve_pass_spec:
  assumes "serve_pass handler b turns s = (xs, s')"
  shows "length xs \<le> b \<and> length xs \<le> length turns
    \<and> (\<forall>i < length xs. \<exists>m env. turns ! i = (False, Inr m, env) \<and> verdict m env (xs ! i))
    \<and> sr_handled s' = sr_handled s + word_of_nat (length (filter is_handled xs))
    \<and> sr_expired s' = sr_expired s + word_of_nat (length (filter is_expired xs))"
  using assms
proof (induction handler b turns s arbitrary: xs s' rule: serve_pass.induct)
  case (3 handler b is_closed rd env turns s)
  show ?case
  proof (cases "\<not> is_closed \<and> (\<exists>m. rd = Inr m)")
    case True
    then obtain m where m: "rd = Inr m" "\<not> is_closed" by blast
    obtain x s1 where x: "Server_Serve handler env m s = (x, s1)" by (cases "Server_Serve handler env m s")
    obtain ys s2 where ys: "serve_pass handler b turns s1 = (ys, s2)" by (cases "serve_pass handler b turns s1")
    from 3(2) m x ys have eq: "xs = x # ys" "s' = s2" by simp_all
    from 3(1) [OF m(2,1) x [symmetric] ys] Server_Serve_verdict [OF x] m eq
    show ?thesis by (auto simp: nth_Cons split: nat.split)
  next
    case False
    with 3(2) show ?thesis by (auto split: sum.splits)
  qed
qed auto

text \<open>
  One pass of \<open>ServePending\<close> is bounded and in order: it takes at most the requests it was asked
  for (or that were queued when it began), the requests it takes are the first ones that arrived, one after
  the other, each is dropped as malformed, dropped as expired exactly when its client's deadline has
  passed, or handed to the handler, and the number it returns is the number of handler runs, by which
  the handled count grew.
\<close>

theorem serve_pending_bounded_in_order:
  assumes "ServePending handler from_handler limit queued turns s = (Inr n, s')"
  shows "\<exists>xs. length xs \<le> serve_budget limit queued s \<and> length xs \<le> length turns
    \<and> (\<forall>i < length xs. \<exists>m env. turns ! i = (False, Inr m, env) \<and> verdict m env (xs ! i))
    \<and> n = length (filter is_handled xs)
    \<and> sr_handled s' = sr_handled s + word_of_nat n
    \<and> sr_expired s' = sr_expired s + word_of_nat (length (filter is_expired xs))"
proof -
  obtain xs s1 where xs: "serve_pass handler (serve_budget limit queued s) turns s = (xs, s1)"
    by (cases "serve_pass handler (serve_budget limit queued s) turns s")
  with assms have "n = length (filter is_handled xs)" "s' = s1"
    by (auto simp: ServePending_def split: if_splits)
  with serve_pass_spec [OF xs] show ?thesis by blast
qed

section \<open>Replies reach their client only\<close>

text \<open>
  \<open>topic_of\<close> is the topic a writer publishes on. A transport's \<open>CreateWriter\<close> returns a writer for the
  topic of the endpoint it was given.
\<close>

definition creates_on_topic :: "('w \<Rightarrow> topic_name) \<Rightarrow> 'w serve_env \<Rightarrow> bool" where
  "creates_on_topic topic_of env \<longleftrightarrow> (\<forall>ep w. v_create env ep = Inr w \<longrightarrow> topic_of w = ts_name (ep_topic ep))"

definition reply_topic :: "'w server \<Rightarrow> u64 \<Rightarrow> topic_name" where
  "reply_topic s cid = NamedValue (str (ts_name (ep_topic (sr_reply_base s))) @ ''/'' @ Hex16 cid)"

definition writers_ok :: "('w \<Rightarrow> topic_name) \<Rightarrow> 'w server \<Rightarrow> bool" where
  "writers_ok topic_of s \<longleftrightarrow> omap_ok (sr_reply_writers s)
     \<and> (\<forall>cid w last_used. omap_find (sr_reply_writers s) cid = Some (w, last_used) \<longrightarrow> topic_of w = reply_topic s cid)"

lemma ReplyEndpoint_topic: "ReplyEndpoint base cid = Inr ep \<Longrightarrow>
    ts_name (ep_topic ep) = NamedValue (str (ts_name (ep_topic base)) @ ''/'' @ Hex16 cid)"
  by (auto simp: ReplyEndpoint_def NamedValue_Create_ok)

lemma writers_ok_assign:
  assumes "writers_ok topic_of s" "topic_of w = reply_topic s cid"
  shows "writers_ok topic_of (s\<lparr>sr_reply_writers := omap_assign cid (w, t) (sr_reply_writers s)\<rparr>)"
  using assms by (simp add: writers_ok_def om.lookup_assign om.ok_assign reply_topic_def)

lemma ReplyWriterLocked_ok:
  assumes "ReplyWriterLocked env cid g s = (w, s')" "writers_ok topic_of s" "creates_on_topic topic_of env"
  shows "writers_ok topic_of s' \<and> (\<forall>x. w = Some x \<longrightarrow> topic_of x = reply_topic s cid)"
proof (cases "omap_find (sr_reply_writers s) cid")
  case (Some wl)
  obtain x l where "wl = (x, l)" by (cases wl)
  with Some assms(1) have "w = Some x"
    "s' = s\<lparr>sr_reply_writers := omap_assign cid (x, v_writer env) (sr_reply_writers s)\<rparr>"
    by (simp_all add: ReplyWriterLocked_def)
  moreover have "topic_of x = reply_topic s cid" using assms(2) Some \<open>wl = (x, l)\<close> by (simp add: writers_ok_def)
  ultimately show ?thesis using writers_ok_assign [OF assms(2)] by simp
next
  case None
  show ?thesis
  proof (cases "w = None")
    case True
    with assms(1,2) None show ?thesis
      by (simp add: ReplyWriterLocked_def split: sum.splits if_splits)
  next
    case False
    with assms(1) None obtain ep x where ep: "ReplyEndpoint (sr_reply_base s) cid = Inr ep" "v_create env ep = Inr x"
      and eq: "w = Some x" "s' = s\<lparr>sr_reply_writers := omap_assign cid (x, v_writer env) (sr_reply_writers s)\<rparr>"
      by (auto simp: ReplyWriterLocked_def omap_emplace_def split: sum.splits if_splits)
    have "topic_of x = reply_topic s cid"
      using ep assms(3) ReplyEndpoint_topic [OF ep(1)] by (simp add: creates_on_topic_def reply_topic_def)
    with writers_ok_assign [OF assms(2)] eq show ?thesis by simp
  qed
qed

lemma Server_Reply_ok:
  assumes "Server_Reply env h d code data s = (w, s')" "writers_ok topic_of s" "creates_on_topic topic_of env"
  shows "writers_ok topic_of s'
    \<and> (\<forall>x b. w = Some (x, b) \<longrightarrow> topic_of x = reply_topic s (h_client_id h) \<and> b = reply_message h code data)"
proof (cases "ReplyWriterLocked env (h_client_id h)
    (if d \<noteq> 0 then min (v_reply env + kReplyMatchTimeout) d else v_reply env + kReplyMatchTimeout) s")
  case (Pair w1 s1)
  from ReplyWriterLocked_ok [OF Pair assms(2,3)] Pair assms(1) show ?thesis
    by (auto simp: Server_Reply_def Let_def writers_ok_def reply_topic_def om.lookup_erase om.ok_erase
        split: option.splits if_splits)
qed

lemma Server_Serve_ok:
  assumes "Server_Serve handler env m s = (x, s')" "writers_ok topic_of s" "creates_on_topic topic_of env"
  shows "writers_ok topic_of s' \<and> (\<forall>r y b. x = Handled r (Some (y, b)) \<longrightarrow> topic_of y = reply_topic s (rq_client_id r)
    \<and> (\<exists>h data. Header_Decode (payload m) kRequestMagic = Some (h, data) \<and> r = request_of env m h data
         \<and> b = case_prod (reply_message h) (result_reply (handler_result (handler r)))))"
proof (cases "Header_Decode (payload m) kRequestMagic")
  case None
  with assms show ?thesis by (auto simp: Server_Serve_def)
next
  case (Some hd)
  obtain h data where hd: "hd = (h, data)" by (cases hd)
  let ?r = "request_of env m h data" and ?s = "s\<lparr>sr_handled := sr_handled s + 1\<rparr>"
  obtain code body where cb: "result_reply (handler_result (handler ?r)) = (code, body)"
    by (cases "result_reply (handler_result (handler ?r))")
  obtain w s1 where rep: "Server_Reply env h (rq_deadline ?r) code body ?s = (w, s1)"
    by (cases "Server_Reply env h (rq_deadline ?r) code body ?s")
  have "writers_ok topic_of ?s" using assms(2) by (simp add: writers_ok_def reply_topic_def)
  from Server_Reply_ok [OF rep this assms(3)] Some hd cb rep assms(1,2) show ?thesis
    by (auto simp: Server_Serve_def request_of_def Let_def writers_ok_def reply_topic_def split: if_splits)
qed

lemma result_reply_result:
  assumes "\<And>st. r = Inl st \<Longrightarrow> \<not> status_ok st" "result_reply r = (code, body)"
  shows "reply_result (h\<lparr>h_status := code\<rparr>) body = r"
proof (cases r)
  case (Inl st)
  then have "Status_Error (st_code st) (st_message st) = st" "code = st_code st" "code \<noteq> kOk"
    using assms by (auto simp: Status_Error_def result_reply_def status_ok_def)
  with Inl assms show ?thesis by (auto simp: reply_result_def result_reply_def comp_def FromStatus_def)
qed (use assms in \<open>auto simp: reply_result_def result_reply_def\<close>)

text \<open>
  C13. A call round trip: a request the client sent for a pending call, served and answered by the
  server, was handed to the handler with its payload, its answer was written on the reply topic of that client, and when
  the client's dispatcher reads it, it completes exactly that call, with exactly what the handler
  returned (an error with its code and message); to a client with another id the answer means nothing.
\<close>

theorem service_round_trip:
  assumes sent: "payload m = Header_Encode (Start_header c rid timeout) data" "in_int64 timeout"
    and pending: "omap_find (cl_pending c) rid = Some p"
    and served: "Server_Serve handler env m s = (Handled r (Some (y, b)), s')"
    and server: "writers_ok topic_of s" "creates_on_topic topic_of env"
    and errors: "\<And>st. handler_result (handler r) = Inl st \<Longrightarrow> \<not> status_ok st"
  shows "rq_payload r = data \<and> rq_client_id r = cl_client_id c \<and> topic_of y = reply_topic s (cl_client_id c)
    \<and> Dispatch_reply b c
       = ([(p_done p, handler_result (handler r))], c\<lparr>cl_pending := omap_erase rid (cl_pending c)\<rparr>)
    \<and> (\<forall>c'. cl_client_id c' \<noteq> cl_client_id c \<longrightarrow> Dispatch_reply b c' = ([], c'))"
proof -
  from Server_Serve_ok [OF served server] obtain h d where y: "topic_of y = reply_topic s (rq_client_id r)"
    and h: "Header_Decode (payload m) kRequestMagic = Some (h, d)" "r = request_of env m h d"
    and b: "b = case_prod (reply_message h) (result_reply (handler_result (handler r)))" by blast
  have "Header_Decode (payload m) kRequestMagic = Some (Start_header c rid timeout, data)"
    unfolding sent(1) by (rule Header_Decode_Encode) (use sent(2) in \<open>simp_all add: Start_header_def\<close>)
  with h(1) have hd: "h = Start_header c rid timeout" "d = data" by simp_all
  then have ids: "h_client_id h = cl_client_id c" "h_request_id h = rid" by (simp_all add: Start_header_def)
  obtain code body where cb: "result_reply (handler_result (handler r)) = (code, body)"
    by (cases "result_reply (handler_result (handler r))")
  let ?h = "\<lparr>h_magic = kReplyMagic, h_status = code, h_client_id = cl_client_id c, h_request_id = rid, h_budget_ns = 0\<rparr>"
  have dec: "Header_Decode b kReplyMagic = Some (?h, body)"
    unfolding b cb prod.case reply_message_def ids
    by (rule Header_Decode_Encode) (simp_all add: in_int64_def)
  have res: "reply_result ?h body = handler_result (handler r)"
    using result_reply_result [OF errors cb, of ?h] by simp
  from dec res pending y h(2) hd ids show ?thesis
    by (simp add: Dispatch_reply_def request_of_def)
qed

subsection \<open>Examples\<close>

definition ex_env :: "topic_name serve_env" where
  "ex_env = \<lparr>v_received = 5, v_check = 6, v_reply = 7, v_writer = 7,
     v_create = (\<lambda>ep. Inr (ts_name (ep_topic ep))), v_polls = [(Inr 1, 7, False)], v_write = (\<lambda>w b. Status_Ok)\<rparr>"

definition ex_server :: "topic_name server" where
  "ex_server = \<lparr>sr_spec = ex_service, sr_mode = kCaller, sr_reply_idle_timeout = 30000000000, sr_instance_id = 1,
     sr_reply_base = \<lparr>ep_topic = \<lparr>ts_name = NamedValue ''/add/reply'', ts_transport = kIpc,
        ts_message_policy = queued_policy 16, ts_lifetime = kReaderOwned\<rparr>, ep_message = sv_reply ex_service\<rparr>,
     sr_reply_writers = [], sr_closed = False, sr_handled = 0, sr_expired = 0, sr_heartbeat_sequence = 1\<rparr>"

definition ex_call_client :: "nat client" where
  "ex_call_client = ex_registered ex_seen"

definition ex_request :: message where
  "ex_request = \<lparr>payload = Header_Encode (Start_header ex_call_client 1 1000000000) [1, 2],
     metadata = \<lparr>sequence = 1, source_timestamp = 3, reception_timestamp = 4\<rparr>\<rparr>"

definition ex_handler :: "request \<Rightarrow> handler_outcome" where
  "ex_handler r = HReturns (Inr (rev (rq_payload r)))"

lemma ex_request_decode:
  "Header_Decode (payload ex_request) kRequestMagic = Some (Start_header ex_call_client 1 1000000000, [1, 2])"
  unfolding ex_request_def
  by (simp, rule Header_Decode_Encode) (simp_all add: Start_header_def in_int64_def)

lemma ex_reply_endpoint:
  "\<exists>ep. ReplyEndpoint (sr_reply_base ex_server) 7 = Inr ep \<and> ts_name (ep_topic ep) = NamedValue (''/add/reply/'' @ Hex16 7)"
proof -
  have "valid_name (''/add/reply/'' @ Hex16 7)"
    using Hex16_chars [of 7] hex_digits_ok by (auto simp: valid_name_def bad_name_char_def)
  then show ?thesis by (simp add: ReplyEndpoint_def ex_server_def NamedValue_Create_ok NamedValue_Create_def Let_def)
qed

lemma ex_served:
  "\<exists>r b s'. Server_Serve ex_handler ex_env ex_request ex_server = (Handled r (Some (NamedValue (''/add/reply/'' @ Hex16 7), b)), s')"
proof -
  obtain ep where ep: "ReplyEndpoint (sr_reply_base ex_server) 7 = Inr ep"
    "ts_name (ep_topic ep) = NamedValue (''/add/reply/'' @ Hex16 7)" using ex_reply_endpoint by blast
  have cid: "h_client_id (Start_header ex_call_client 1 1000000000) = 7"
    by (simp add: Start_header_def ex_call_client_def ex_registered_def ex_seen_def cl_init_def)
  have rep: "\<exists>s'. Server_Reply ex_env (Start_header ex_call_client 1 1000000000) d code body (ex_server\<lparr>sr_handled := n\<rparr>)
      = (Some (NamedValue (''/add/reply/'' @ Hex16 7), reply_message (Start_header ex_call_client 1 1000000000) code body), s')"
    for d code body n
    using ep cid
    by (simp add: Server_Reply_def ReplyWriterLocked_def ex_server_def ex_env_def matches_def Let_def)
  have fields: "v_check ex_env = 6" "h_budget_ns (Start_header ex_call_client 1 1000000000) = 1000000000"
    "reception_timestamp (metadata ex_request) = 4"
    by (simp_all add: ex_env_def Start_header_def ex_request_def)
  obtain s' where "Server_Reply ex_env (Start_header ex_call_client 1 1000000000) 1000000004 kOk [2, 1]
      (ex_server\<lparr>sr_handled := sr_handled ex_server + 1\<rparr>)
      = (Some (NamedValue (''/add/reply/'' @ Hex16 7), reply_message (Start_header ex_call_client 1 1000000000) kOk [2, 1]), s')"
    using rep by blast
  then show ?thesis
    by (simp add: Server_Serve_def ex_request_decode Let_def fields result_reply_def handler_result_def ex_handler_def)
qed

theorem service_round_trip_witness:
  "\<exists>b. Dispatch_reply b ex_call_client = ([(0, Inr [2, 1])], ex_call_client\<lparr>cl_pending := []\<rparr>)"
proof -
  obtain r b s' where served: "Server_Serve ex_handler ex_env ex_request ex_server
      = (Handled r (Some (NamedValue (''/add/reply/'' @ Hex16 7), b)), s')" using ex_served by blast
  have "payload ex_request = Header_Encode (Start_header ex_call_client 1 1000000000) [1, 2]" by (simp add: ex_request_def)
  moreover have p: "omap_find (cl_pending ex_call_client) 1
      = Some \<lparr>p_deadline = 1000000000, p_timeout = 1000000000, p_done = 0\<rparr>"
    by (simp add: ex_call_client_def ex_registered_def omap_find_def)
  moreover have "writers_ok (\<lambda>w. w) ex_server" "creates_on_topic (\<lambda>w. w) ex_env"
    by (simp_all add: writers_ok_def ex_server_def creates_on_topic_def ex_env_def)
  ultimately have "rq_payload r = [1, 2] \<and> Dispatch_reply b ex_call_client
      = ([(0, handler_result (ex_handler r))], ex_call_client\<lparr>cl_pending := omap_erase 1 (cl_pending ex_call_client)\<rparr>)"
    using service_round_trip [OF _ _ p served, of 1000000000 "[1, 2]" "\<lambda>w. w"]
    by (auto simp: in_int64_def handler_result_def ex_handler_def)
  then show ?thesis
    by (auto simp: handler_result_def ex_handler_def ex_call_client_def ex_registered_def omap_erase_def)
qed

theorem serve_pending_bounded_in_order_witness:
  "\<exists>s'. ServePending ex_handler False 0 (Inr 2) [(False, Inr ex_request, ex_env)] ex_server = (Inr 1, s')
     \<and> sr_handled s' = 1"
proof -
  obtain r b s' where served: "Server_Serve ex_handler ex_env ex_request ex_server
      = (Handled r (Some (NamedValue (''/add/reply/'' @ Hex16 7), b)), s')" using ex_served by blast
  have "ServePending ex_handler False 0 (Inr 2) [(False, Inr ex_request, ex_env)] ex_server = (Inr 1, s')"
    using served by (simp add: ServePending_def serve_budget_def numeral_2_eq_2) (simp add: ex_server_def)
  moreover have "sr_handled s' = sr_handled ex_server + word_of_nat 1"
    using serve_pending_bounded_in_order [OF calculation] by blast
  ultimately show ?thesis by (simp add: ex_server_def)
qed

end
