(* ===== verification/Component_Model.thy ===== *)
theory Component_Model
  imports Service_Protocol
begin

text \<open>
  What the runtime stores about components: parameters (\<open>runtime/parameters.h\<close>), component
  specifications (\<open>runtime/component.h\<close>), the lookups components use to find their endpoints and
  services (\<open>runtime/typed_endpoints.h\<close>, \<open>service/component_services.h\<close>), and the two registries
  (\<open>runtime/registry.h\<close>, \<open>transport/registry.h\<close>), which share one contract.
\<close>

section \<open>Parameters\<close>

type_synonym parameter_map = "(string, string) omap"

definition is_digit :: "char \<Rightarrow> bool" where
  "is_digit c \<longleftrightarrow> CHR ''0'' \<le> c \<and> c \<le> CHR ''9''"

definition digit_value :: "char \<Rightarrow> nat" where
  "digit_value c = of_char c - 48"

definition digits_value :: "string \<Rightarrow> nat" where
  "digits_value ds = foldl (\<lambda>acc c. 10 * acc + digit_value c) 0 ds"

definition is_space :: "char \<Rightarrow> bool" where
  "is_space c \<longleftrightarrow> c = CHR '' '' \<or> (9 \<le> (of_char c :: nat) \<and> (of_char c :: nat) \<le> 13)"

text \<open>
  \<open>strtoll\<close> and \<open>strtoull\<close> in base 10 on a text without leading space: an optional sign, then the
  longest run of digits. The result is the value and the number of characters used, none when there
  is no digit; a value out of range is cut to the limits and sets \<open>errno\<close>.
\<close>

definition strto_parts :: "string \<Rightarrow> bool \<times> string \<times> nat" where
  "strto_parts s =
     (let negative = (s \<noteq> [] \<and> hd s = CHR ''-'');
          rest = (if s \<noteq> [] \<and> (hd s = CHR ''-'' \<or> hd s = CHR ''+'') then tl s else s);
          ds = takeWhile is_digit rest in
      (negative, ds, if ds = [] then 0 else length s - length rest + length ds))"

definition strtoll :: "string \<Rightarrow> int \<times> nat \<times> bool" where
  "strtoll s = (case strto_parts s of (negative, ds, used) \<Rightarrow>
     let v = (if negative then - int (digits_value ds) else int (digits_value ds)) in
     if v < - (2 ^ 63) then (- (2 ^ 63), used, True)
     else if 2 ^ 63 - 1 < v then (2 ^ 63 - 1, used, True)
     else (v, used, False))"

definition strtoull :: "string \<Rightarrow> nat \<times> nat \<times> bool" where
  "strtoull s = (case strto_parts s of (negative, ds, used) \<Rightarrow>
     if 2 ^ 64 - 1 < digits_value ds then (2 ^ 64 - 1, used, True)
     else (if negative then (2 ^ 64 - digits_value ds) mod 2 ^ 64 else digits_value ds, used, False))"

definition invalid_parameter :: "string \<Rightarrow> string \<Rightarrow> string \<Rightarrow> 'a result" where
  "invalid_parameter key val expected =
     FromStatus (Status_InvalidArgument (''parameter '' @ key @ '' must be '' @ expected @ '', got \"'' @ val @ ''\"''))"

definition ConvertParameter_bool :: "string \<Rightarrow> string \<Rightarrow> bool result" where
  "ConvertParameter_bool key val =
     (if val = ''true'' then Inr True else if val = ''false'' then Inr False
      else invalid_parameter key val ''true or false'')"

text \<open>\<open>bits\<close> is the width of the integer type.\<close>

definition ConvertParameter_signed :: "nat \<Rightarrow> string \<Rightarrow> string \<Rightarrow> int result" where
  "ConvertParameter_signed bits key val =
     (if val = [] \<or> is_space (hd val) then invalid_parameter key val ''an integer''
      else case strtoll val of (v, used, range_error) \<Rightarrow>
        if used \<noteq> length val \<or> range_error \<or> v < - (2 ^ (bits - 1)) \<or> 2 ^ (bits - 1) - 1 < v
        then invalid_parameter key val ''an integer in range''
        else Inr v)"

definition ConvertParameter_unsigned :: "nat \<Rightarrow> string \<Rightarrow> string \<Rightarrow> nat result" where
  "ConvertParameter_unsigned bits key val =
     (if val = [] \<or> is_space (hd val) then invalid_parameter key val ''an integer''
      else if hd val = CHR ''-'' then invalid_parameter key val ''a non-negative integer''
      else case strtoull val of (v, used, range_error) \<Rightarrow>
        if used \<noteq> length val \<or> range_error \<or> 2 ^ bits - 1 < v
        then invalid_parameter key val ''a non-negative integer in range''
        else Inr v)"

text \<open>Access, for any of the conversions.\<close>

definition GetParameter :: "(string \<Rightarrow> string \<Rightarrow> 'a result) \<Rightarrow> parameter_map \<Rightarrow> string \<Rightarrow> 'a \<Rightarrow> 'a result" where
  "GetParameter convert parameters key fallback =
     (case omap_find parameters key of None \<Rightarrow> Inr fallback | Some val \<Rightarrow> convert key val)"

definition GetRequiredParameter :: "(string \<Rightarrow> string \<Rightarrow> 'a result) \<Rightarrow> parameter_map \<Rightarrow> string \<Rightarrow> 'a result" where
  "GetRequiredParameter convert parameters key =
     (case omap_find parameters key of
        None \<Rightarrow> FromStatus (Status_NotFound (''required parameter is not set: '' @ key))
      | Some val \<Rightarrow> convert key val)"

subsection \<open>Reading back numbers\<close>

lemma digit_char_props [simp]:
  assumes "d < 10"
  shows "is_digit (digit_char d)" "digit_value (digit_char d) = d" "\<not> is_space (digit_char d)"
    "digit_char d \<noteq> CHR ''-''" "digit_char d \<noteq> CHR ''+''"
proof -
  have oc: "(of_char (digit_char d) :: nat) = 48 + d" using assms by (simp add: digit_char_def)
  then show "is_digit (digit_char d)" "digit_value (digit_char d) = d"
    using assms by (simp_all add: is_digit_def digit_value_def less_eq_char_def)
  have ne: "digit_char d \<noteq> c" if "(of_char c :: nat) < 48" for c using oc that by auto
  then show "digit_char d \<noteq> CHR ''-''" "digit_char d \<noteq> CHR ''+''" by simp_all
  show "\<not> is_space (digit_char d)" using oc ne [of "CHR '' ''"] by (simp add: is_space_def)
qed

lemma decimal_digits: "\<forall>c \<in> set (decimal n). \<exists>d < 10. c = digit_char d"
proof (induction n rule: decimal.induct)
  case (1 n)
  then show ?case by (subst decimal.simps) (auto intro: exI [of _ "n mod 10"])
qed

lemma digits_value_decimal [simp]: "digits_value (decimal n) = n"
proof (induction n rule: decimal.induct)
  case (1 n)
  show ?case
  proof (cases "n < 10")
    case True
    then show ?thesis by (subst decimal.simps) (simp add: digits_value_def)
  next
    case False
    have "digits_value (decimal n) = 10 * digits_value (decimal (n div 10)) + n mod 10"
      using False by (subst decimal.simps) (simp add: digits_value_def)
    with 1 [OF False] show ?thesis by simp
  qed
qed

lemma takeWhile_decimal [simp]: "takeWhile is_digit (decimal n) = decimal n"
  using decimal_digits [of n] by (auto simp: takeWhile_eq_all_conv)

lemma hd_decimal: "\<not> is_space (hd (decimal n))" "hd (decimal n) \<noteq> CHR ''-''" "hd (decimal n) \<noteq> CHR ''+''"
proof -
  obtain d where "d < 10" "hd (decimal n) = digit_char d"
    using decimal_digits [of n] hd_in_set [OF decimal_nonempty [of n]] by blast
  then show "\<not> is_space (hd (decimal n))" "hd (decimal n) \<noteq> CHR ''-''" "hd (decimal n) \<noteq> CHR ''+''" by simp_all
qed

lemma strto_parts_decimal:
  "strto_parts (decimal n) = (False, decimal n, length (decimal n))"
  "strto_parts (''-'' @ decimal n) = (True, decimal n, length (''-'' @ decimal n))"
  using hd_decimal [of n] by (simp_all add: strto_parts_def Let_def)

lemma ConvertParameter_signed_to_string:
  assumes "0 < bits" "bits \<le> 64" "- (2 ^ (bits - 1)) \<le> i" "i < 2 ^ (bits - 1)"
  shows "ConvertParameter_signed bits key (std_to_string_int i) = Inr i"
proof -
  have "(2 :: int) ^ (bits - 1) \<le> 2 ^ 63" using assms(2) by (intro power_increasing) simp_all
  with assms have r: "- (2 ^ 63) \<le> i" "i < 2 ^ 63" by linarith+
  have "strtoll (std_to_string_int i) = (i, length (std_to_string_int i), False)"
    using r strto_parts_decimal(1) [of "nat i"] strto_parts_decimal(2) [of "nat (- i)"]
    by (auto simp: strtoll_def std_to_string_int_def Let_def)
  moreover have "std_to_string_int i \<noteq> []" "\<not> is_space (hd (std_to_string_int i))"
    using hd_decimal by (simp_all add: std_to_string_int_def is_space_def)
  ultimately show ?thesis using assms(3,4) by (simp add: ConvertParameter_signed_def)
qed

lemma ConvertParameter_unsigned_to_string:
  assumes "bits \<le> 64" "n < 2 ^ bits"
  shows "ConvertParameter_unsigned bits key (std_to_string n) = Inr n"
proof -
  have "(2 :: nat) ^ bits \<le> 2 ^ 64" using assms(1) by (intro power_increasing) simp_all
  with assms have "n < 2 ^ 64" by linarith
  then have "strtoull (std_to_string n) = (n, length (std_to_string n), False)"
    using strto_parts_decimal(1) [of n] by (simp add: strtoull_def std_to_string_def)
  moreover have "\<not> 2 ^ bits - 1 < n" using assms(2) by linarith
  ultimately show ?thesis
    using hd_decimal [of n] by (simp add: ConvertParameter_unsigned_def std_to_string_def)
qed

lemma ConvertParameter_signed_range:
  assumes "ConvertParameter_signed bits key val = Inr i"
  shows "- (2 ^ (bits - 1)) \<le> i \<and> i < 2 ^ (bits - 1)"
  using assms by (auto simp: ConvertParameter_signed_def invalid_parameter_def split: if_splits prod.splits)

lemma ConvertParameter_unsigned_range:
  assumes "ConvertParameter_unsigned bits key val = Inr n"
  shows "n < 2 ^ bits"
proof -
  from assms have "n \<le> 2 ^ bits - 1"
    by (auto simp: ConvertParameter_unsigned_def invalid_parameter_def split: if_splits prod.splits)
  moreover have "(1 :: nat) \<le> 2 ^ bits" by simp
  ultimately show ?thesis by linarith
qed

section \<open>Component specifications\<close>

datatype component_state = kCreated | kConfigured | kInitialized | kStarted | kStopped | kShutdown | kError

fun ComponentState_ToString :: "component_state \<Rightarrow> string" where
  "ComponentState_ToString kCreated = ''created''"
| "ComponentState_ToString kConfigured = ''configured''"
| "ComponentState_ToString kInitialized = ''initialized''"
| "ComponentState_ToString kStarted = ''started''"
| "ComponentState_ToString kStopped = ''stopped''"
| "ComponentState_ToString kShutdown = ''shutdown''"
| "ComponentState_ToString kError = ''error''"

record component_spec =
  cs_name :: component_name
  cs_description :: string
  cs_readers :: "endpoint_config list"
  cs_writers :: "endpoint_config list"
  cs_triggers :: "trigger_spec list"
  cs_parameters :: parameter_map
  cs_servers :: "service_spec list"
  cs_clients :: "service_spec list"

definition ValidateEndpoints :: "endpoint_config list \<Rightarrow> string \<Rightarrow> status" where
  "ValidateEndpoints endpoints kind =
     validate_each (\<lambda>e. let st = EndpointConfig_Validate e in
       if \<not> status_ok st then Status_InvalidArgument (kind @ '' endpoint is invalid: '' @ Status_ToString st)
       else Status_Ok) endpoints"

definition ComponentSpec_Validate :: "component_spec \<Rightarrow> status" where
  "ComponentSpec_Validate c =
     and_then (ValidateName ''component name'' (str (cs_name c)))
       (and_then (ValidateEndpoints (cs_readers c) ''reader'')
         (and_then (ValidateEndpoints (cs_writers c) ''writer'')
           (and_then (validate_each TriggerSpec_Validate (cs_triggers c))
             (validate_each ServiceSpec_Validate (cs_servers c @ cs_clients c)))))"

lemma status_ok_ValidateEndpoints:
  "status_ok (ValidateEndpoints es kind) \<longleftrightarrow> (\<forall>e \<in> set es. status_ok (EndpointConfig_Validate e))"
  by (auto simp: ValidateEndpoints_def Let_def)

lemma status_ok_ComponentSpec_Validate:
  "status_ok (ComponentSpec_Validate c) \<longleftrightarrow>
     valid_name (str (cs_name c))
     \<and> (\<forall>e \<in> set (cs_readers c @ cs_writers c). status_ok (EndpointConfig_Validate e))
     \<and> (\<forall>t \<in> set (cs_triggers c). status_ok (TriggerSpec_Validate t))
     \<and> (\<forall>s \<in> set (cs_servers c @ cs_clients c). status_ok (ServiceSpec_Validate s))"
  by (auto simp: ComponentSpec_Validate_def status_ok_ValidateEndpoints)

subsection \<open>Lookups in a specification\<close>

definition FindEndpointForType :: "message_descriptor \<Rightarrow> endpoint_config list \<Rightarrow> string \<Rightarrow> endpoint_config result" where
  "FindEndpointForType expected endpoints kind =
     (case dropWhile (\<lambda>e. ep_message e \<noteq> expected) endpoints of
        [] \<Rightarrow> FromStatus (Status_NotFound (''component has no '' @ kind @ '' for '' @ MessageDescriptor_ToString expected))
      | found # rest \<Rightarrow>
          (case find (\<lambda>e. ep_message e = expected) rest of
             Some again \<Rightarrow> FromStatus (Status_InvalidArgument (''component has several '' @ kind @ ''s for ''
               @ MessageDescriptor_ToString expected @ '' ('' @ str (ts_name (ep_topic found)) @ '', ''
               @ str (ts_name (ep_topic again)) @ ''); create them by topic instead''))
           | None \<Rightarrow> Inr found))"

lemma FindEndpointForType_unique:
  "FindEndpointForType d es kind = Inr e \<longleftrightarrow> filter (\<lambda>x. ep_message x = d) es = [e]"
proof (induction es)
  case Nil
  then show ?case by (simp add: FindEndpointForType_def)
next
  case (Cons x es)
  show ?case
  proof (cases "ep_message x = d")
    case True
    have "(find (\<lambda>e. ep_message e = d) es = None) = (filter (\<lambda>x. ep_message x = d) es = [])"
      by (auto simp: find_None_iff filter_empty_conv)
    with True show ?thesis by (auto simp: FindEndpointForType_def split: option.splits)
  next
    case False
    with Cons show ?thesis by (simp add: FindEndpointForType_def)
  qed
qed

definition FindServiceSpec :: "service_spec list \<Rightarrow> string \<Rightarrow> string \<Rightarrow> service_spec result" where
  "FindServiceSpec specs name kind =
     (case find (\<lambda>s. str (sv_name s) = name) specs of
        Some s \<Rightarrow> Inr s
      | None \<Rightarrow> FromStatus (Status_NotFound (''component declares no '' @ kind @ '' for service '' @ name)))"

text \<open>\<open>OptionsFor\<close>: whether the component serves the service in \<open>Execute\<close>.\<close>

definition OptionsFor_caller :: "component_spec \<Rightarrow> service_spec \<Rightarrow> bool" where
  "OptionsFor_caller c s =
     list_ex (\<lambda>t. tr_kind t = kService \<and> list_ex (\<lambda>n. n = sv_name s) (tr_service_dependencies t)) (cs_triggers c)"

section \<open>Registries\<close>

text \<open>
  The contract of both registries: entries are found under their key once registered, a key is taken
  once, a refused registration changes nothing, and removing an entry leaves the others.
\<close>

locale registry =
  fixes reg_key :: "'v \<Rightarrow> 'k"
    and valid :: "'v \<Rightarrow> bool"
    and ok :: "'m \<Rightarrow> bool"
    and register :: "'v \<Rightarrow> 'm \<Rightarrow> status \<times> 'm"
    and lookup :: "'m \<Rightarrow> 'k \<Rightarrow> 'v result"
    and unregister :: "'k \<Rightarrow> 'm \<Rightarrow> status \<times> 'm"
  assumes register_ok: "ok m \<Longrightarrow> status_ok (fst (register v m)) \<longleftrightarrow> valid v \<and> \<not> result_ok (lookup m (reg_key v))"
    and register_keeps: "ok m \<Longrightarrow> \<not> status_ok (fst (register v m)) \<Longrightarrow> snd (register v m) = m"
    and register_inv: "ok m \<Longrightarrow> ok (snd (register v m))"
    and lookup_register: "ok m \<Longrightarrow> status_ok (fst (register v m)) \<Longrightarrow>
      result_option (lookup (snd (register v m)) k) = (if k = reg_key v then Some v else result_option (lookup m k))"
    and unregister_ok: "ok m \<Longrightarrow> status_ok (fst (unregister k m)) \<longleftrightarrow> result_ok (lookup m k)"
    and unregister_inv: "ok m \<Longrightarrow> ok (snd (unregister k m))"
    and lookup_unregister: "ok m \<Longrightarrow>
      result_option (lookup (snd (unregister k m)) k') = (if k' = k then None else result_option (lookup m k'))"
begin

lemma register_twice: "ok m \<Longrightarrow> reg_key w = reg_key v \<Longrightarrow> status_ok (fst (register v m)) \<Longrightarrow>
    \<not> status_ok (fst (register w (snd (register v m))))"
  using lookup_register [of m v "reg_key w"] register_ok [of "snd (register v m)" w] register_inv [of m v]
  by (auto simp: result_option_def split: sum.splits if_splits)

lemma register_unregister:
  assumes "ok m" "status_ok (fst (register v m))"
  shows "result_option (lookup (snd (unregister (reg_key v) (snd (register v m)))) k) = result_option (lookup m k)"
  using assms lookup_unregister [of "snd (register v m)" "reg_key v" k] register_inv [of m v] lookup_register [of m v k]
    register_ok [of m v]
  by (auto simp: result_option_def split: sum.splits)

lemma found_was_registered:
  assumes "ok m" "lookup (snd (register v m)) k = Inr x"
  shows "x = v \<and> k = reg_key v \<or> lookup m k = Inr x"
proof (cases "status_ok (fst (register v m))")
  case True
  with lookup_register [OF assms(1) this, of k] assms(2) show ?thesis
    by (auto simp: result_option_def split: if_splits sum.splits)
next
  case False
  with register_keeps [OF assms(1)] assms(2) show ?thesis by simp
qed

end

subsection \<open>ComponentRegistry\<close>

type_synonym component_registry = "(string, component_spec) omap"

definition ComponentRegistry_Register :: "component_spec \<Rightarrow> component_registry \<Rightarrow> status \<times> component_registry" where
  "ComponentRegistry_Register spec m =
     (let st = ComponentSpec_Validate spec in
      if \<not> status_ok st then (st, m)
      else let key = str (cs_name spec) in
        if omap_find m key \<noteq> None then (Status_AlreadyExists (''component already registered: '' @ key), m)
        else (Status_Ok, omap_emplace key spec m))"

definition ComponentRegistry_Find :: "component_registry \<Rightarrow> component_name \<Rightarrow> component_spec result" where
  "ComponentRegistry_Find m name =
     (case omap_find m (str name) of
        None \<Rightarrow> FromStatus (Status_NotFound (''component is not registered: '' @ str name))
      | Some spec \<Rightarrow> Inr spec)"

definition ComponentRegistry_Unregister :: "component_name \<Rightarrow> component_registry \<Rightarrow> status \<times> component_registry" where
  "ComponentRegistry_Unregister name m =
     (if omap_find m (str name) = None
      then (Status_NotFound (''component is not registered: '' @ str name), m)
      else (Status_Ok, omap_erase (str name) m))"

definition ComponentRegistry_ListNames :: "component_registry \<Rightarrow> component_name list" where
  "ComponentRegistry_ListNames m = map (NamedValue \<circ> fst) m"

lemma str_inject: "str a = str b \<longleftrightarrow> a = b"
  by (cases a; cases b) simp

lemma omap_erase_absent: "omap_find m k = None \<Longrightarrow> omap_find (omap_erase k m) k' = omap_find m k'"
  by (simp add: omap_find_erase fun_upd_idem)

interpretation cr: registry cs_name "\<lambda>c. status_ok (ComponentSpec_Validate c)" omap_ok
    ComponentRegistry_Register ComponentRegistry_Find ComponentRegistry_Unregister
  by unfold_locales
    (auto simp: ComponentRegistry_Register_def ComponentRegistry_Find_def ComponentRegistry_Unregister_def Let_def
      omap_laws str_inject split: option.splits)

subsection \<open>TransportRegistry\<close>

text \<open>
  A transport pointer is the number of its object, or null; \<open>name\<close> is its \<open>Transport::name()\<close>.
\<close>

type_synonym transport_registry = "(string, nat) omap"

definition TransportRegistry_Register :: "(nat \<Rightarrow> transport_name) \<Rightarrow> nat option \<Rightarrow> transport_registry \<Rightarrow> status \<times> transport_registry" where
  "TransportRegistry_Register name ptr m =
     (case ptr of
        None \<Rightarrow> (Status_InvalidArgument ''transport must not be null'', m)
      | Some t \<Rightarrow>
          let key = str (name t) in
          if omap_find m key \<noteq> None then (Status_AlreadyExists (''transport already registered: '' @ key), m)
          else (Status_Ok, omap_emplace key t m))"

definition TransportRegistry_Find :: "transport_registry \<Rightarrow> transport_name \<Rightarrow> nat result" where
  "TransportRegistry_Find m name =
     (case omap_find m (str name) of
        None \<Rightarrow> FromStatus (Status_NotFound (''transport is not registered: '' @ str name))
      | Some t \<Rightarrow> Inr t)"

definition TransportRegistry_Unregister :: "transport_name \<Rightarrow> transport_registry \<Rightarrow> status \<times> transport_registry" where
  "TransportRegistry_Unregister name m =
     (if omap_find m (str name) = None
      then (Status_NotFound (''transport is not registered: '' @ str name), m)
      else (Status_Ok, omap_erase (str name) m))"

definition TransportRegistry_ListNames :: "transport_registry \<Rightarrow> transport_name list" where
  "TransportRegistry_ListNames m = map (NamedValue \<circ> fst) m"

interpretation tr: registry name "\<lambda>_. True" omap_ok
    "\<lambda>t. TransportRegistry_Register name (Some t)" TransportRegistry_Find TransportRegistry_Unregister for name
  by unfold_locales
    (auto simp: TransportRegistry_Register_def TransportRegistry_Find_def TransportRegistry_Unregister_def Let_def
      omap_laws str_inject split: option.splits)

text \<open>
  Integer parameters read back: a parameter stored as the decimal text of an integer of the requested
  width is returned as exactly that integer, and whatever text the configuration holds, a value
  that is returned lies in the range of the requested type.
\<close>

theorem integer_parameters_exact:
  assumes "0 < bits" "bits \<le> 64" "omap_find parameters key = Some val"
  shows "(\<forall>i. - (2 ^ (bits - 1)) \<le> i \<longrightarrow> i < 2 ^ (bits - 1) \<longrightarrow> val = std_to_string_int i \<longrightarrow>
            GetParameter (ConvertParameter_signed bits) parameters key fallback = Inr i)
    \<and> (\<forall>i. GetParameter (ConvertParameter_signed bits) parameters key fallback = Inr i \<longrightarrow>
            - (2 ^ (bits - 1)) \<le> i \<and> i < 2 ^ (bits - 1))
    \<and> (\<forall>n < 2 ^ bits. val = std_to_string n \<longrightarrow>
            GetParameter (ConvertParameter_unsigned bits) parameters key fallback' = Inr n)
    \<and> (\<forall>n. GetParameter (ConvertParameter_unsigned bits) parameters key fallback' = Inr n \<longrightarrow> n < 2 ^ bits)"
  using assms ConvertParameter_signed_to_string [OF assms(1,2)] ConvertParameter_signed_range
    ConvertParameter_unsigned_to_string [OF assms(2)] ConvertParameter_unsigned_range
  by (auto simp: GetParameter_def)

theorem integer_parameters_exact_witness:
  "GetParameter (ConvertParameter_signed 32) [(''rate'', ''-42'')] ''rate'' 7 = Inr (- 42)"
proof -
  have dec: "decimal 42 = ''42''"
    by code_simp
  have "''-42'' = std_to_string_int (- 42)" by (simp add: std_to_string_int_def dec)
  then show ?thesis
    using integer_parameters_exact [of 32 "[(''rate'', ''-42'')]" "''rate''" "''-42''" 7 7]
    by (simp add: omap_find_def)
qed

text \<open>
  \<open>FindEndpointForType\<close> resolves a message type to an endpoint of a component exactly when
  one and only one of the listed endpoints carries that descriptor, version included.
\<close>

theorem endpoint_for_type_unique:
  "FindEndpointForType d es kind = Inr e \<longleftrightarrow> filter (\<lambda>x. ep_message x = d) es = [e]"
  by (rule FindEndpointForType_unique)

end
