(* ===== verification/Runtime_Context.thy ===== *)
theory Runtime_Context
  imports Component_Model
begin

text \<open>
  \<open>RuntimeContext\<close> of \<open>src/runtime/context.cpp\<close>: its registries and transport table, opening and closing,
  the component lifecycle, endpoint creation, and the per-topic queue depth accounting of the readers it
  wraps. Transports are objects in a store, addressed by number; whether a transport opens or closes, what it
  creates, and what a component's callbacks do are parameters of the operations that call them.
\<close>

section \<open>State\<close>

fun transport_kind_value :: "transport_kind \<Rightarrow> nat" where
  "transport_kind_value kInMemory = 0"
| "transport_kind_value kFastDds = 1"
| "transport_kind_value kZmq = 2"
| "transport_kind_value kIpc = 3"

instantiation transport_kind :: linorder
begin

definition less_transport_kind :: "transport_kind \<Rightarrow> transport_kind \<Rightarrow> bool" where
  "less_transport_kind a b \<longleftrightarrow> transport_kind_value a < transport_kind_value b"

definition less_eq_transport_kind :: "transport_kind \<Rightarrow> transport_kind \<Rightarrow> bool" where
  "less_eq_transport_kind a b \<longleftrightarrow> transport_kind_value a \<le> transport_kind_value b"

instance
proof
  fix a b :: transport_kind
  show "a \<le> b \<Longrightarrow> b \<le> a \<Longrightarrow> a = b"
    by (cases a; cases b) (simp_all add: less_eq_transport_kind_def)
qed (auto simp: less_transport_kind_def less_eq_transport_kind_def)

end

record transport_object =
  to_name :: transport_name
  to_kind :: transport_kind
  to_open :: bool

record 'c runtime =
  rt_default_name :: transport_name
  rt_register_inmemory :: bool
  rt_open_registered :: bool
  rt_open :: bool
  rt_components :: component_registry
  rt_transports :: transport_registry
  rt_by_kind :: "(transport_kind, transport_name) omap"
  rt_instances :: "(string, 'c) omap"
  rt_states :: "(string, component_state) omap"
  rt_objects :: "(nat, transport_object) omap"

definition runtime_init :: "transport_name \<Rightarrow> bool \<Rightarrow> bool \<Rightarrow> (nat, transport_object) omap \<Rightarrow> 'c runtime" where
  "runtime_init default_name inmemory open_registered objects =
     \<lparr>rt_default_name = default_name, rt_register_inmemory = inmemory, rt_open_registered = open_registered,
      rt_open = False, rt_components = [], rt_transports = [], rt_by_kind = [], rt_instances = [], rt_states = [],
      rt_objects = objects\<rparr>"

section \<open>Transports\<close>

definition object_name :: "'c runtime \<Rightarrow> nat \<Rightarrow> transport_name" where
  "object_name rt t = (case omap_find (rt_objects rt) t of Some ob \<Rightarrow> to_name ob | None \<Rightarrow> NamedValue [])"

text \<open>\<open>Transport::Open\<close> answers with \<open>try_open\<close> and is open when that is ok.\<close>

definition OpenTransportIfNeeded :: "(nat \<Rightarrow> status) \<Rightarrow> nat option \<Rightarrow> 'c runtime \<Rightarrow> status \<times> 'c runtime" where
  "OpenTransportIfNeeded try_open ptr rt =
     (case ptr of
        None \<Rightarrow> (Status_InvalidArgument ''transport must not be null'', rt)
      | Some t \<Rightarrow>
          (case omap_find (rt_objects rt) t of
             None \<Rightarrow> (Status_InvalidArgument ''transport must not be null'', rt)
           | Some ob \<Rightarrow>
               if to_open ob then (Status_Ok, rt)
               else let st = try_open t in
                 (st, if status_ok st
                      then rt\<lparr>rt_objects := omap_assign t (ob\<lparr>to_open := True\<rparr>) (rt_objects rt)\<rparr> else rt)))"

definition RegisterTransport :: "(nat \<Rightarrow> status) \<Rightarrow> nat option \<Rightarrow> 'c runtime \<Rightarrow> status \<times> 'c runtime" where
  "RegisterTransport try_open ptr rt =
     (case Option.bind ptr (\<lambda>t. map_option (Pair t) (omap_find (rt_objects rt) t)) of
        None \<Rightarrow> (Status_InvalidArgument ''transport must not be null'', rt)
      | Some (t, ob) \<Rightarrow>
          if result_ok (TransportRegistry_Find (rt_transports rt) (to_name ob))
          then (Status_AlreadyExists (''transport already registered: '' @ str (to_name ob)), rt)
          else if (case omap_find (rt_by_kind rt) (to_kind ob) of None \<Rightarrow> False | Some n \<Rightarrow> n \<noteq> to_name ob)
          then (Status_AlreadyExists (''transport kind already registered: '' @ TransportKind_ToString (to_kind ob)), rt)
          else
            case (if rt_open rt \<or> rt_open_registered rt then OpenTransportIfNeeded try_open (Some t) rt
                  else (Status_Ok, rt)) of
              (st, rt1) \<Rightarrow>
                if \<not> status_ok st then (st, rt1)
                else (case TransportRegistry_Register (object_name rt1) (Some t) (rt_transports rt1) of
                  (st, ts) \<Rightarrow>
                    if \<not> status_ok st then (st, rt1)
                    else (Status_Ok, rt1\<lparr>rt_transports := ts,
                            rt_by_kind := omap_emplace (to_kind ob) (to_name ob) (rt_by_kind rt1)\<rparr>)))"

text \<open>\<open>fresh\<close> is the number of the in-memory transport \<open>make_shared\<close> allocates.\<close>

definition EnsureDefaultTransports :: "(nat \<Rightarrow> status) \<Rightarrow> nat \<Rightarrow> 'c runtime \<Rightarrow> status \<times> 'c runtime" where
  "EnsureDefaultTransports try_open fresh rt =
     (if \<not> rt_register_inmemory rt then (Status_Ok, rt)
      else if omap_find (rt_by_kind rt) kInMemory \<noteq> None then (Status_Ok, rt)
      else RegisterTransport try_open (Some fresh)
        (rt\<lparr>rt_objects := omap_assign fresh
              \<lparr>to_name = rt_default_name rt, to_kind = kInMemory, to_open = False\<rparr> (rt_objects rt)\<rparr>))"

definition FindTransport :: "'c runtime \<Rightarrow> transport_name \<Rightarrow> nat result" where
  "FindTransport rt name = TransportRegistry_Find (rt_transports rt) name"

definition FindTransport_kind :: "'c runtime \<Rightarrow> transport_kind \<Rightarrow> nat result" where
  "FindTransport_kind rt kind =
     (case omap_find (rt_by_kind rt) kind of
        None \<Rightarrow> FromStatus (Status_NotFound (''transport kind is not registered: '' @ TransportKind_ToString kind))
      | Some name \<Rightarrow> TransportRegistry_Find (rt_transports rt) name)"

definition ListTransportNames :: "'c runtime \<Rightarrow> transport_name list" where
  "ListTransportNames rt = TransportRegistry_ListNames (rt_transports rt)"

fun open_all :: "(nat \<Rightarrow> status) \<Rightarrow> transport_name list \<Rightarrow> 'c runtime \<Rightarrow> status \<times> 'c runtime" where
  "open_all try_open [] rt = (Status_Ok, rt)"
| "open_all try_open (name # names) rt =
     (case FindTransport rt name of
        Inl st \<Rightarrow> (st, rt)
      | Inr t \<Rightarrow>
          (case OpenTransportIfNeeded try_open (Some t) rt of
             (st, rt1) \<Rightarrow> if \<not> status_ok st then (st, rt1) else open_all try_open names rt1))"

definition Runtime_Open :: "(nat \<Rightarrow> status) \<Rightarrow> nat \<Rightarrow> 'c runtime \<Rightarrow> status \<times> 'c runtime" where
  "Runtime_Open try_open fresh rt =
     (let st = ValidateName ''default transport name'' (str (rt_default_name rt)) in
      if \<not> status_ok st then (st, rt)
      else case EnsureDefaultTransports try_open fresh rt of
        (st, rt1) \<Rightarrow>
          if \<not> status_ok st then (st, rt1)
          else case open_all try_open (ListTransportNames rt1) rt1 of
            (st, rt2) \<Rightarrow> if \<not> status_ok st then (st, rt2) else (Status_Ok, rt2\<lparr>rt_open := True\<rparr>))"

text \<open>\<open>Transport::Close\<close> answers with a status and whether the transport is still open.\<close>

fun close_all :: "(nat \<Rightarrow> status \<times> bool) \<Rightarrow> transport_name list \<Rightarrow> status \<Rightarrow> 'c runtime \<Rightarrow> status \<times> 'c runtime" where
  "close_all try_close [] res rt = (res, rt)"
| "close_all try_close (name # names) res rt =
     (case FindTransport rt name of
        Inl st \<Rightarrow> close_all try_close names res rt
      | Inr t \<Rightarrow>
          (case try_close t of
             (st, still_open) \<Rightarrow>
               close_all try_close names (if status_ok res \<and> \<not> status_ok st then st else res)
                 (case omap_find (rt_objects rt) t of
                    None \<Rightarrow> rt
                  | Some ob \<Rightarrow> rt\<lparr>rt_objects := omap_assign t (ob\<lparr>to_open := still_open\<rparr>) (rt_objects rt)\<rparr>)))"

definition Runtime_Close :: "(nat \<Rightarrow> status \<times> bool) \<Rightarrow> 'c runtime \<Rightarrow> status \<times> 'c runtime" where
  "Runtime_Close try_close rt =
     (case close_all try_close (ListTransportNames rt) Status_Ok rt of
        (res, rt1) \<Rightarrow> (res, rt1\<lparr>rt_open := False\<rparr>))"

section \<open>Components\<close>

definition RegisterComponent :: "component_spec \<Rightarrow> 'c runtime \<Rightarrow> status \<times> 'c runtime" where
  "RegisterComponent spec rt =
     (case ComponentRegistry_Register spec (rt_components rt) of
        (st, cs) \<Rightarrow> (st, rt\<lparr>rt_components := cs\<rparr>))"

definition RegisterComponentInstance :: "('c \<Rightarrow> component_spec) \<Rightarrow> 'c option \<Rightarrow> 'c runtime \<Rightarrow> status \<times> 'c runtime" where
  "RegisterComponentInstance describe ptr rt =
     (case ptr of
        None \<Rightarrow> (Status_InvalidArgument ''component must not be null'', rt)
      | Some c \<Rightarrow>
          let spec = describe c; st = ComponentSpec_Validate spec in
          if \<not> status_ok st then (st, rt)
          else case ComponentRegistry_Register spec (rt_components rt) of
            (st, cs) \<Rightarrow>
              if \<not> status_ok st then (st, rt)
              else (Status_Ok, rt\<lparr>rt_components := cs,
                      rt_instances := omap_emplace (str (cs_name spec)) c (rt_instances rt),
                      rt_states := omap_emplace (str (cs_name spec)) kCreated (rt_states rt)\<rparr>))"

definition FindComponentInstance :: "'c runtime \<Rightarrow> component_name \<Rightarrow> 'c result" where
  "FindComponentInstance rt name =
     (case omap_find (rt_instances rt) (str name) of
        None \<Rightarrow> FromStatus (Status_NotFound (''component instance is not registered: '' @ str name))
      | Some c \<Rightarrow> Inr c)"

definition GetComponentState :: "'c runtime \<Rightarrow> component_name \<Rightarrow> component_state result" where
  "GetComponentState rt name =
     (case omap_find (rt_states rt) (str name) of
        None \<Rightarrow> FromStatus (Status_NotFound (''component state is not registered: '' @ str name))
      | Some st \<Rightarrow> Inr st)"

definition SetComponentState :: "component_name \<Rightarrow> component_state \<Rightarrow> 'c runtime \<Rightarrow> status \<times> 'c runtime" where
  "SetComponentState name new rt =
     (case omap_find (rt_states rt) (str name) of
        None \<Rightarrow> (Status_NotFound (''component state is not registered: '' @ str name), rt)
      | Some _ \<Rightarrow> (Status_Ok, rt\<lparr>rt_states := omap_assign (str name) new (rt_states rt)\<rparr>))"

definition InvalidTransition :: "component_name \<Rightarrow> string \<Rightarrow> component_state \<Rightarrow> status" where
  "InvalidTransition name operation st =
     Status_FailedPrecondition (''cannot '' @ operation @ '' component '' @ str name @ '' from state ''
       @ ComponentState_ToString st)"

datatype life_op = Configure | Initialize | Start | Execute | Stop | Shutdown

text \<open>
  The part all six operations share: \<open>invoke\<close> is the component's callback, which may itself use the
  runtime, and \<open>next\<close> the state to store for its status, none when the state stays.
\<close>

definition run_lifecycle ::
    "('c \<Rightarrow> life_op \<Rightarrow> 'c runtime \<Rightarrow> status \<times> 'c runtime) \<Rightarrow> life_op \<Rightarrow> string \<Rightarrow> component_state list
      \<Rightarrow> (status \<Rightarrow> component_state option) \<Rightarrow> component_name \<Rightarrow> 'c runtime \<Rightarrow> status \<times> 'c runtime" where
  "run_lifecycle invoke op verb allowed new name rt =
     (case FindComponentInstance rt name of
        Inl st \<Rightarrow> (st, rt)
      | Inr c \<Rightarrow>
          (case GetComponentState rt name of
             Inl st \<Rightarrow> (st, rt)
           | Inr cur \<Rightarrow>
               if cur \<notin> set allowed then (InvalidTransition name verb cur, rt)
               else case invoke c op rt of
                 (st, rt1) \<Rightarrow>
                   (st, case new st of None \<Rightarrow> rt1 | Some s \<Rightarrow> snd (SetComponentState name s rt1))))"

definition or_error :: "component_state \<Rightarrow> status \<Rightarrow> component_state option" where
  "or_error s st = Some (if status_ok st then s else kError)"

text \<open>The states each operation is allowed from.\<close>

fun lifecycle_allowed :: "life_op \<Rightarrow> component_state list" where
  "lifecycle_allowed Configure = [kCreated, kStopped]"
| "lifecycle_allowed Initialize = [kConfigured]"
| "lifecycle_allowed Start = [kInitialized, kStopped]"
| "lifecycle_allowed Execute = [kStarted]"
| "lifecycle_allowed Stop = [kStarted]"
| "lifecycle_allowed Shutdown = [kCreated, kConfigured, kInitialized, kStopped, kError]"

definition ConfigureComponent where
  "ConfigureComponent invoke =
     run_lifecycle invoke Configure ''configure'' (lifecycle_allowed Configure) (or_error kConfigured)"

definition InitializeComponent where
  "InitializeComponent invoke =
     run_lifecycle invoke Initialize ''initialize'' (lifecycle_allowed Initialize) (or_error kInitialized)"

definition StartComponent where
  "StartComponent invoke = run_lifecycle invoke Start ''start'' (lifecycle_allowed Start) (or_error kStarted)"

definition ExecuteComponent where
  "ExecuteComponent invoke =
     run_lifecycle invoke Execute ''execute'' (lifecycle_allowed Execute)
       (\<lambda>st. if \<not> status_ok st then Some kError else None)"

definition StopComponent where
  "StopComponent invoke = run_lifecycle invoke Stop ''stop'' (lifecycle_allowed Stop) (or_error kStopped)"

definition ShutdownComponent where
  "ShutdownComponent invoke =
     run_lifecycle invoke Shutdown ''shutdown'' (lifecycle_allowed Shutdown) (or_error kShutdown)"

fun lifecycle_call where
  "lifecycle_call invoke Configure = ConfigureComponent invoke"
| "lifecycle_call invoke Initialize = InitializeComponent invoke"
| "lifecycle_call invoke Start = StartComponent invoke"
| "lifecycle_call invoke Execute = ExecuteComponent invoke"
| "lifecycle_call invoke Stop = StopComponent invoke"
| "lifecycle_call invoke Shutdown = ShutdownComponent invoke"

section \<open>Endpoints\<close>

text \<open>\<open>create\<close> is the transport's own operation, here for readers and writers alike.\<close>

definition Runtime_CreateReader :: "(nat \<Rightarrow> endpoint_config \<Rightarrow> 'e result) \<Rightarrow> endpoint_config \<Rightarrow> 'c runtime \<Rightarrow> 'e result" where
  "Runtime_CreateReader create endpoint rt =
     (if \<not> rt_open rt
      then FromStatus (Status_FailedPrecondition ''runtime context must be open before creating readers'')
      else result_bind (FindTransport_kind rt (ts_transport (ep_topic endpoint))) (\<lambda>t. create t endpoint))"

definition Runtime_CreateWriter :: "(nat \<Rightarrow> endpoint_config \<Rightarrow> 'e result) \<Rightarrow> endpoint_config \<Rightarrow> 'c runtime \<Rightarrow> 'e result" where
  "Runtime_CreateWriter create endpoint rt =
     (if \<not> rt_open rt
      then FromStatus (Status_FailedPrecondition ''runtime context must be open before creating writers'')
      else result_bind (FindTransport_kind rt (ts_transport (ep_topic endpoint))) (\<lambda>t. create t endpoint))"

section \<open>The transport table\<close>

text \<open>
  Every registered transport is an existing object, registered under its own name, and is the one
  its kind resolves to; every kind resolves to a registered transport of that kind.
\<close>

definition table_ok :: "'c runtime \<Rightarrow> bool" where
  "table_ok rt \<longleftrightarrow> omap_ok (rt_transports rt) \<and> omap_ok (rt_by_kind rt) \<and> omap_ok (rt_objects rt)
     \<and> (\<forall>n t. omap_find (rt_transports rt) n = Some t \<longrightarrow>
          (\<exists>ob. omap_find (rt_objects rt) t = Some ob \<and> str (to_name ob) = n
             \<and> omap_find (rt_by_kind rt) (to_kind ob) = Some (to_name ob)))
     \<and> (\<forall>k n. omap_find (rt_by_kind rt) k = Some n \<longrightarrow>
          (\<exists>t ob. omap_find (rt_transports rt) (str n) = Some t \<and> omap_find (rt_objects rt) t = Some ob \<and> to_kind ob = k))"

definition registered_open :: "'c runtime \<Rightarrow> bool" where
  "registered_open rt \<longleftrightarrow> (\<forall>n t ob. omap_find (rt_transports rt) n = Some t \<longrightarrow> omap_find (rt_objects rt) t = Some ob \<longrightarrow> to_open ob)"

definition transports_ok :: "'c runtime \<Rightarrow> bool" where
  "transports_ok rt \<longleftrightarrow> table_ok rt \<and> (rt_open rt \<longrightarrow> registered_open rt)"

lemma table_ok_transport:
  assumes "table_ok rt" "omap_find (rt_transports rt) n = Some t"
  obtains ob where "omap_find (rt_objects rt) t = Some ob" "str (to_name ob) = n"
    "omap_find (rt_by_kind rt) (to_kind ob) = Some (to_name ob)"
  using assms unfolding table_ok_def by blast

lemma table_ok_kind:
  assumes "table_ok rt" "omap_find (rt_by_kind rt) k = Some n"
  obtains t ob where "omap_find (rt_transports rt) (str n) = Some t" "omap_find (rt_objects rt) t = Some ob" "to_kind ob = k"
  using assms unfolding table_ok_def by blast

lemma table_ok_object:
  assumes "table_ok rt" "omap_find (rt_objects rt) t = Some ob"
  shows "table_ok (rt\<lparr>rt_objects := omap_assign t (ob\<lparr>to_open := b\<rparr>) (rt_objects rt)\<rparr>)"
proof -
  have ob: "omap_ok (rt_objects rt)" using assms(1) by (simp add: table_ok_def)
  have 1: "\<exists>ob'. omap_find (omap_assign t (ob\<lparr>to_open := b\<rparr>) (rt_objects rt)) t' = Some ob' \<and> str (to_name ob') = n
      \<and> omap_find (rt_by_kind rt) (to_kind ob') = Some (to_name ob')"
    if nt: "omap_find (rt_transports rt) n = Some t'" for n t'
  proof (rule table_ok_transport [OF assms(1) nt])
    fix ob' assume "omap_find (rt_objects rt) t' = Some ob'" "str (to_name ob') = n"
      "omap_find (rt_by_kind rt) (to_kind ob') = Some (to_name ob')"
    then show ?thesis using assms(2) ob by (cases "t' = t") (simp_all add: om.lookup_assign)
  qed
  have 2: "\<exists>t' ob'. omap_find (rt_transports rt) (str n) = Some t'
      \<and> omap_find (omap_assign t (ob\<lparr>to_open := b\<rparr>) (rt_objects rt)) t' = Some ob' \<and> to_kind ob' = k"
    if kn: "omap_find (rt_by_kind rt) k = Some n" for k n
  proof -
    from assms(1) kn obtain t' ob' where "omap_find (rt_transports rt) (str n) = Some t'"
      "omap_find (rt_objects rt) t' = Some ob'" "to_kind ob' = k" unfolding table_ok_def by blast
    then show ?thesis using assms(2) ob by (cases "t' = t") (auto simp: om.lookup_assign)
  qed
  show ?thesis using assms(1) 1 2 ob by (simp add: table_ok_def om.ok_assign)
qed

lemma table_ok_add:
  assumes tab: "table_ok rt" and new: "omap_find (rt_transports rt) (str (to_name ob)) = None"
    "omap_find (rt_by_kind rt) (to_kind ob) = None" and ob: "omap_find (rt_objects rt) t = Some ob"
  shows "table_ok (rt\<lparr>rt_transports := omap_emplace (str (to_name ob)) t (rt_transports rt),
    rt_by_kind := omap_emplace (to_kind ob) (to_name ob) (rt_by_kind rt)\<rparr>)" (is "table_ok ?rt")
proof -
  have ok: "omap_ok (rt_transports rt)" "omap_ok (rt_by_kind rt)" "omap_ok (rt_objects rt)"
    using tab by (simp_all add: table_ok_def)
  have tr: "omap_find (rt_transports ?rt) n = (if n = str (to_name ob) then Some t else omap_find (rt_transports rt) n)"
    and bk: "omap_find (rt_by_kind ?rt) k = (if k = to_kind ob then Some (to_name ob) else omap_find (rt_by_kind rt) k)" for n k
    using ok new by (simp_all add: omap_find_emplace)
  have 1: "\<exists>ob'. omap_find (rt_objects ?rt) t' = Some ob' \<and> str (to_name ob') = n
      \<and> omap_find (rt_by_kind ?rt) (to_kind ob') = Some (to_name ob')"
    if nt: "omap_find (rt_transports ?rt) n = Some t'" for n t'
  proof (cases "n = str (to_name ob)")
    case True
    with nt ob show ?thesis unfolding tr bk by simp
  next
    case False
    with nt have old: "omap_find (rt_transports rt) n = Some t'" unfolding tr by simp
    obtain ob' where ob': "omap_find (rt_objects rt) t' = Some ob'" "str (to_name ob') = n"
      "omap_find (rt_by_kind rt) (to_kind ob') = Some (to_name ob')" by (rule table_ok_transport [OF tab old])
    moreover from ob' new(2) have "to_kind ob' \<noteq> to_kind ob" by auto
    ultimately show ?thesis unfolding bk by simp
  qed
  have 2: "\<exists>t' ob'. omap_find (rt_transports ?rt) (str n) = Some t' \<and> omap_find (rt_objects ?rt) t' = Some ob' \<and> to_kind ob' = k"
    if kn: "omap_find (rt_by_kind ?rt) k = Some n" for k n
  proof (cases "k = to_kind ob")
    case True
    with kn ob show ?thesis unfolding tr bk by simp
  next
    case False
    with kn have old: "omap_find (rt_by_kind rt) k = Some n" unfolding bk by simp
    obtain t' ob' where "omap_find (rt_transports rt) (str n) = Some t'" "omap_find (rt_objects rt) t' = Some ob'" "to_kind ob' = k"
      by (rule table_ok_kind [OF tab old])
    with new(1) show ?thesis unfolding tr by (cases "str n = str (to_name ob)") auto
  qed
  show ?thesis unfolding table_ok_def using 1 2 ok by (simp add: omap_ok_emplace)
qed

lemma registered_open_object:
  assumes "omap_ok (rt_objects rt)" "registered_open rt"
  shows "registered_open (rt\<lparr>rt_objects := omap_assign t (ob\<lparr>to_open := True\<rparr>) (rt_objects rt)\<rparr>)"
  using assms by (auto simp: registered_open_def om.lookup_assign)

text \<open>What \<open>OpenTransportIfNeeded\<close> does to a state, in all cases.\<close>

lemma OpenTransportIfNeeded_cases:
  assumes "OpenTransportIfNeeded try_open (Some t) rt = (st, rt')" "table_ok rt"
  shows "table_ok rt' \<and> (registered_open rt \<longrightarrow> registered_open rt') \<and> rt_open rt' = rt_open rt
    \<and> rt_transports rt' = rt_transports rt \<and> rt_by_kind rt' = rt_by_kind rt
    \<and> (\<forall>t'. map_option to_name (omap_find (rt_objects rt') t') = map_option to_name (omap_find (rt_objects rt) t')
          \<and> map_option to_kind (omap_find (rt_objects rt') t') = map_option to_kind (omap_find (rt_objects rt) t'))
    \<and> (\<forall>t' ob. omap_find (rt_objects rt) t' = Some ob \<longrightarrow> to_open ob \<longrightarrow>
          (\<exists>ob'. omap_find (rt_objects rt') t' = Some ob' \<and> to_open ob'))
    \<and> (status_ok st \<longrightarrow> (\<forall>ob. omap_find (rt_objects rt) t = Some ob \<longrightarrow>
          (\<exists>ob'. omap_find (rt_objects rt') t = Some ob' \<and> to_open ob')))"
proof (cases "omap_find (rt_objects rt) t")
  case None
  with assms show ?thesis by (auto simp: OpenTransportIfNeeded_def)
next
  case (Some ob)
  have ok: "omap_ok (rt_objects rt)" using assms(2) by (simp add: table_ok_def)
  show ?thesis
  proof (cases "to_open ob \<or> \<not> status_ok (try_open t)")
    case True
    with assms Some show ?thesis by (auto simp: OpenTransportIfNeeded_def Let_def split: if_splits)
  next
    case False
    with assms(1) Some have rt': "rt' = rt\<lparr>rt_objects := omap_assign t (ob\<lparr>to_open := True\<rparr>) (rt_objects rt)\<rparr>"
      by (simp add: OpenTransportIfNeeded_def Let_def)
    show ?thesis
      unfolding rt' using table_ok_object [OF assms(2) Some] registered_open_object [OF ok] ok Some
      by (simp add: om.lookup_assign)
  qed
qed

lemma RegisterTransport_ok:
  assumes "RegisterTransport try_open ptr rt = (st, rt')" "transports_ok rt"
  shows "transports_ok rt' \<and> rt_open rt' = rt_open rt"
proof (cases "Option.bind ptr (\<lambda>t. map_option (Pair t) (omap_find (rt_objects rt) t))")
  case None
  with assms show ?thesis by (simp add: RegisterTransport_def)
next
  case (Some tob)
  obtain t ob where tob: "tob = (t, ob)" by (cases tob)
  with Some have ob: "omap_find (rt_objects rt) t = Some ob" by (auto simp: bind_eq_Some_conv)
  show ?thesis
  proof (cases "result_ok (TransportRegistry_Find (rt_transports rt) (to_name ob))
      \<or> (case omap_find (rt_by_kind rt) (to_kind ob) of None \<Rightarrow> False | Some n \<Rightarrow> n \<noteq> to_name ob)")
    case True
    with assms Some tob show ?thesis by (auto simp: RegisterTransport_def split: if_splits)
  next
    case False
    then have fresh: "omap_find (rt_transports rt) (str (to_name ob)) = None"
      by (auto simp: TransportRegistry_Find_def split: option.splits)
    have tab: "table_ok rt" using assms(2) by (simp add: transports_ok_def)
    have nokind: "omap_find (rt_by_kind rt) (to_kind ob) = None"
    proof (rule ccontr)
      assume "omap_find (rt_by_kind rt) (to_kind ob) \<noteq> None"
      then obtain n where n: "omap_find (rt_by_kind rt) (to_kind ob) = Some n" by blast
      with False have "n = to_name ob" by simp
      with table_ok_kind [OF tab n] fresh show False by simp
    qed
    obtain st1 rt1 where rt1: "(if rt_open rt \<or> rt_open_registered rt then OpenTransportIfNeeded try_open (Some t) rt
        else (Status_Ok, rt)) = (st1, rt1)" by (cases "if rt_open rt \<or> rt_open_registered rt
          then OpenTransportIfNeeded try_open (Some t) rt else (Status_Ok, rt)")
    have c: "table_ok rt1" "registered_open rt \<longrightarrow> registered_open rt1" "rt_open rt1 = rt_open rt"
        "rt_transports rt1 = rt_transports rt" "rt_by_kind rt1 = rt_by_kind rt"
        "map_option to_name (omap_find (rt_objects rt1) t) = map_option to_name (omap_find (rt_objects rt) t)"
        "map_option to_kind (omap_find (rt_objects rt1) t) = map_option to_kind (omap_find (rt_objects rt) t)"
        "status_ok st1 \<longrightarrow> rt_open rt \<longrightarrow> (\<exists>ob'. omap_find (rt_objects rt1) t = Some ob' \<and> to_open ob')"
    proof -
      consider "OpenTransportIfNeeded try_open (Some t) rt = (st1, rt1)" | "rt1 = rt" "\<not> rt_open rt"
        using rt1 by (auto split: if_splits)
      then have "table_ok rt1 \<and> (registered_open rt \<longrightarrow> registered_open rt1) \<and> rt_open rt1 = rt_open rt
          \<and> rt_transports rt1 = rt_transports rt \<and> rt_by_kind rt1 = rt_by_kind rt
          \<and> map_option to_name (omap_find (rt_objects rt1) t) = map_option to_name (omap_find (rt_objects rt) t)
          \<and> map_option to_kind (omap_find (rt_objects rt1) t) = map_option to_kind (omap_find (rt_objects rt) t)
          \<and> (status_ok st1 \<longrightarrow> rt_open rt \<longrightarrow> (\<exists>ob'. omap_find (rt_objects rt1) t = Some ob' \<and> to_open ob'))"
      proof cases
        case 1
        from OpenTransportIfNeeded_cases [OF 1 tab] ob show ?thesis by blast
      next
        case 2
        with tab show ?thesis by simp
      qed
      then show "table_ok rt1" "registered_open rt \<longrightarrow> registered_open rt1" "rt_open rt1 = rt_open rt"
        "rt_transports rt1 = rt_transports rt" "rt_by_kind rt1 = rt_by_kind rt"
        "map_option to_name (omap_find (rt_objects rt1) t) = map_option to_name (omap_find (rt_objects rt) t)"
        "map_option to_kind (omap_find (rt_objects rt1) t) = map_option to_kind (omap_find (rt_objects rt) t)"
        "status_ok st1 \<longrightarrow> rt_open rt \<longrightarrow> (\<exists>ob'. omap_find (rt_objects rt1) t = Some ob' \<and> to_open ob')" by blast+
    qed
    note r1 = c(1-5) c(6,7) [unfolded ob option.map] c(8)
    show ?thesis
    proof (cases "status_ok st1")
      case False
      with assms Some tob \<open>\<not> (_ \<or> _)\<close> rt1 r1 show ?thesis
        by (auto simp: RegisterTransport_def transports_ok_def)
    next
      case True
      obtain ob1 where ob1: "omap_find (rt_objects rt1) t = Some ob1" "to_name ob1 = to_name ob" "to_kind ob1 = to_kind ob"
        using r1(6,7) by auto
      let ?rt = "rt1\<lparr>rt_transports := omap_emplace (str (to_name ob)) t (rt_transports rt1),
        rt_by_kind := omap_emplace (to_kind ob) (to_name ob) (rt_by_kind rt1)\<rparr>"
      have eq: "rt' = ?rt"
        using assms(1) Some tob \<open>\<not> (_ \<or> _)\<close> rt1 True r1(4) fresh ob1
        by (simp add: RegisterTransport_def TransportRegistry_Register_def object_name_def Let_def)
      have "table_ok ?rt"
        using table_ok_add [OF r1(1), of ob1 t] fresh nokind ob1 r1(4,5) by simp
      moreover have "registered_open ?rt" if "rt_open rt"
        using that True r1 assms(2) ob1 fresh
        by (auto simp: registered_open_def transports_ok_def omap_laws table_ok_def split: if_splits)
      ultimately show ?thesis using eq r1(3) by (simp add: transports_ok_def)
    qed
  qed
qed

lemma table_ok_frame:
  assumes "table_ok rt" "rt_transports rt' = rt_transports rt" "rt_by_kind rt' = rt_by_kind rt" "omap_ok (rt_objects rt')"
    and keep: "\<And>n t. omap_find (rt_transports rt) n = Some t \<Longrightarrow> omap_find (rt_objects rt') t = omap_find (rt_objects rt) t"
  shows "table_ok rt'"
  unfolding table_ok_def assms(2,3)
proof (intro conjI allI impI)
  fix n t assume nt: "omap_find (rt_transports rt) n = Some t"
  obtain ob where "omap_find (rt_objects rt) t = Some ob" "str (to_name ob) = n"
    "omap_find (rt_by_kind rt) (to_kind ob) = Some (to_name ob)" by (rule table_ok_transport [OF assms(1) nt])
  with keep [OF nt] show "\<exists>ob. omap_find (rt_objects rt') t = Some ob \<and> str (to_name ob) = n
      \<and> omap_find (rt_by_kind rt) (to_kind ob) = Some (to_name ob)" by simp
next
  fix k n assume kn: "omap_find (rt_by_kind rt) k = Some n"
  obtain t ob where t: "omap_find (rt_transports rt) (str n) = Some t" "omap_find (rt_objects rt) t = Some ob" "to_kind ob = k"
    by (rule table_ok_kind [OF assms(1) kn])
  with keep [OF t(1)] show "\<exists>t ob. omap_find (rt_transports rt) (str n) = Some t \<and> omap_find (rt_objects rt') t = Some ob \<and> to_kind ob = k"
    by simp
qed (use assms in \<open>simp_all add: table_ok_def\<close>)

lemma table_ok_fresh:
  assumes "transports_ok rt" "omap_find (rt_objects rt) fresh = None"
  shows "transports_ok (rt\<lparr>rt_objects := omap_assign fresh ob (rt_objects rt)\<rparr>)"
proof -
  have tab: "table_ok rt" using assms(1) by (simp add: transports_ok_def)
  have ok: "omap_ok (rt_objects rt)" using tab by (simp add: table_ok_def)
  have keep: "omap_find (omap_assign fresh ob (rt_objects rt)) t = omap_find (rt_objects rt) t"
    if nt: "omap_find (rt_transports rt) n = Some t" for n t
  proof -
    obtain ob' where "omap_find (rt_objects rt) t = Some ob'" using table_ok_transport [OF tab nt] by blast
    with assms(2) have "t \<noteq> fresh" by auto
    then show ?thesis using ok by (simp add: om.lookup_assign)
  qed
  have "table_ok (rt\<lparr>rt_objects := omap_assign fresh ob (rt_objects rt)\<rparr>)"
    by (rule table_ok_frame [OF tab]) (use ok keep in \<open>simp_all add: om.ok_assign\<close>)
  moreover have "registered_open rt \<Longrightarrow> registered_open (rt\<lparr>rt_objects := omap_assign fresh ob (rt_objects rt)\<rparr>)"
    unfolding registered_open_def using keep by simp
  ultimately show ?thesis using assms(1) by (simp add: transports_ok_def)
qed

lemma EnsureDefaultTransports_ok:
  assumes "EnsureDefaultTransports try_open fresh rt = (st, rt')" "transports_ok rt" "omap_find (rt_objects rt) fresh = None"
  shows "transports_ok rt' \<and> rt_open rt' = rt_open rt"
proof -
  have "transports_ok (rt\<lparr>rt_objects := omap_assign fresh ob (rt_objects rt)\<rparr>)" for ob
    by (rule table_ok_fresh [OF assms(2,3)])
  from RegisterTransport_ok [OF _ this] assms(1,2) show ?thesis
    by (fastforce simp: EnsureDefaultTransports_def split: if_splits)
qed

lemma open_all_ok:
  assumes "open_all try_open names rt = (st, rt')" "table_ok rt"
  shows "table_ok rt' \<and> (registered_open rt \<longrightarrow> registered_open rt') \<and> rt_open rt' = rt_open rt
    \<and> rt_transports rt' = rt_transports rt
    \<and> (\<forall>t ob. omap_find (rt_objects rt) t = Some ob \<longrightarrow> to_open ob \<longrightarrow>
          (\<exists>ob'. omap_find (rt_objects rt') t = Some ob' \<and> to_open ob'))
    \<and> (status_ok st \<longrightarrow> (\<forall>name \<in> set names. \<forall>t. omap_find (rt_transports rt) (str name) = Some t \<longrightarrow>
          (\<exists>ob'. omap_find (rt_objects rt') t = Some ob' \<and> to_open ob')))"
  using assms
proof (induction try_open names rt rule: open_all.induct)
  case (1 try_open rt)
  then show ?case by auto
next
  case (2 try_open name names rt)
  show ?case
  proof (cases "FindTransport rt name")
    case (Inl e)
    with 2 show ?thesis by (auto simp: FindTransport_def TransportRegistry_Find_def split: option.splits)
  next
    case (Inr t)
    then have t: "omap_find (rt_transports rt) (str name) = Some t"
      by (auto simp: FindTransport_def TransportRegistry_Find_def split: option.splits)
    obtain st1 rt1 where o: "OpenTransportIfNeeded try_open (Some t) rt = (st1, rt1)"
      by (cases "OpenTransportIfNeeded try_open (Some t) rt")
    note c = OpenTransportIfNeeded_cases [OF o 2(3)]
    show ?thesis
    proof (cases "status_ok st1")
      case False
      with 2(2) Inr o have "rt' = rt1" "st = st1" by simp_all
      with c False show ?thesis by simp
    next
      case True
      with 2(2) Inr o have rest: "open_all try_open names rt1 = (st, rt')" by simp
      have tab1: "table_ok rt1" and tr1: "rt_transports rt1 = rt_transports rt" using c by simp_all
      note ih = 2(1) [OF Inr o [symmetric] _ rest tab1]
      obtain ob where "omap_find (rt_objects rt) t = Some ob" using table_ok_transport [OF 2(3) t] by blast
      with c True obtain ob1 where ob1: "omap_find (rt_objects rt1) t = Some ob1" "to_open ob1" by blast
      with ih True have "\<exists>ob'. omap_find (rt_objects rt') t = Some ob' \<and> to_open ob'" by blast
      with ih c True t tr1 show ?thesis by (auto; blast)
    qed
  qed
qed

lemma Runtime_Open_ok:
  assumes "Runtime_Open try_open fresh rt = (st, rt')" "transports_ok rt" "omap_find (rt_objects rt) fresh = None"
  shows "transports_ok rt' \<and> (status_ok st \<longrightarrow> rt_open rt')"
proof -
  obtain st1 rt1 where e: "EnsureDefaultTransports try_open fresh rt = (st1, rt1)"
    by (cases "EnsureDefaultTransports try_open fresh rt")
  obtain st2 rt2 where o: "open_all try_open (ListTransportNames rt1) rt1 = (st2, rt2)"
    by (cases "open_all try_open (ListTransportNames rt1) rt1")
  have ok1: "transports_ok rt1" using EnsureDefaultTransports_ok [OF e assms(2,3)] by simp
  then have tab1: "table_ok rt1" by (simp add: transports_ok_def)
  note a = open_all_ok [OF o tab1]
  have ok2: "transports_ok rt2" using a ok1 by (simp add: transports_ok_def)
  have "registered_open (rt2\<lparr>rt_open := True\<rparr>)" if "status_ok st2"
    unfolding registered_open_def
  proof (intro allI impI)
    fix n t ob
    assume nt: "omap_find (rt_transports (rt2\<lparr>rt_open := True\<rparr>)) n = Some t"
      and ob: "omap_find (rt_objects (rt2\<lparr>rt_open := True\<rparr>)) t = Some ob"
    from nt a have nt1: "omap_find (rt_transports rt1) n = Some t" by simp
    then have "NamedValue n \<in> set (ListTransportNames rt1)"
      by (force simp: ListTransportNames_def TransportRegistry_ListNames_def dest: omap_find_in)
    with a that nt1 have "\<exists>ob'. omap_find (rt_objects rt2) t = Some ob' \<and> to_open ob'" by fastforce
    with ob show "to_open ob" by auto
  qed
  then have "transports_ok (rt2\<lparr>rt_open := True\<rparr>)" if "status_ok st2"
    using that ok2 by (simp add: transports_ok_def table_ok_def)
  with assms(1,2) e o ok1 ok2 show ?thesis by (auto simp: Runtime_Open_def Let_def split: if_splits)
qed

lemma close_all_ok:
  assumes "close_all try_close names res rt = (st, rt')" "table_ok rt"
  shows "table_ok rt'"
  using assms
proof (induction try_close names res rt rule: close_all.induct)
  case (1 try_close res rt)
  then show ?case by simp
next
  case (2 try_close name names res rt)
  then show ?case
    by (auto simp: table_ok_object split: sum.splits prod.splits option.splits)
qed

lemma Runtime_Close_ok:
  assumes "Runtime_Close try_close rt = (st, rt')" "transports_ok rt"
  shows "transports_ok rt' \<and> \<not> rt_open rt'"
proof -
  obtain res rt1 where c: "close_all try_close (ListTransportNames rt) Status_Ok rt = (res, rt1)"
    by (cases "close_all try_close (ListTransportNames rt) Status_Ok rt")
  from close_all_ok [OF c] assms(2) have "table_ok rt1" by (simp add: transports_ok_def)
  with assms(1) c show ?thesis by (auto simp: Runtime_Close_def transports_ok_def table_ok_def)
qed

section \<open>Reachable runtimes\<close>

inductive rt_step :: "'c runtime \<Rightarrow> 'c runtime \<Rightarrow> bool" where
  new_object: "omap_find (rt_objects rt) t = None \<Longrightarrow> rt_step rt (rt\<lparr>rt_objects := omap_assign t ob (rt_objects rt)\<rparr>)"
| register_transport: "RegisterTransport try_open ptr rt = (st, rt') \<Longrightarrow> rt_step rt rt'"
| opened: "omap_find (rt_objects rt) fresh = None \<Longrightarrow> Runtime_Open try_open fresh rt = (st, rt') \<Longrightarrow> rt_step rt rt'"
| closed: "Runtime_Close try_close rt = (st, rt') \<Longrightarrow> rt_step rt rt'"
| component: "RegisterComponent spec rt = (st, rt') \<Longrightarrow> rt_step rt rt'"
| instance_: "RegisterComponentInstance describe c rt = (st, rt') \<Longrightarrow> rt_step rt rt'"
| state: "SetComponentState name new rt = (st, rt') \<Longrightarrow> rt_step rt rt'"

lemma transports_ok_components:
  "transports_ok (rt\<lparr>rt_components := a\<rparr>) = transports_ok rt"
  "transports_ok (rt\<lparr>rt_instances := b\<rparr>) = transports_ok rt"
  "transports_ok (rt\<lparr>rt_states := c\<rparr>) = transports_ok rt"
  by (simp_all add: transports_ok_def table_ok_def registered_open_def)

lemma transports_ok_step:
  assumes "rt_step rt rt'" "transports_ok rt"
  shows "transports_ok rt'"
  using assms
proof (cases rule: rt_step.cases)
  case (new_object t ob)
  then show ?thesis using table_ok_fresh [OF assms(2)] by simp
next
  case (register_transport try_open ptr st)
  then show ?thesis using RegisterTransport_ok assms(2) by blast
next
  case (opened fresh try_open st)
  then show ?thesis using Runtime_Open_ok assms(2) by blast
next
  case (closed try_close st)
  then show ?thesis using Runtime_Close_ok assms(2) by blast
next
  case (component spec st)
  then show ?thesis using assms(2) by (auto simp: RegisterComponent_def transports_ok_components split: prod.splits)
next
  case (instance_ describe c st)
  then show ?thesis using assms(2)
    by (auto simp: RegisterComponentInstance_def Let_def transports_ok_components split: prod.splits option.splits if_splits)
next
  case (state name new st)
  then show ?thesis using assms(2)
    by (auto simp: SetComponentState_def transports_ok_components split: option.splits)
qed

interpretation rts: transition_system "\<lambda>rt. \<exists>d i r. rt = runtime_init d i r []" rt_step transports_ok
proof
  fix rt :: "'a runtime" assume "\<exists>d i r. rt = runtime_init d i r []"
  then show "transports_ok rt" by (auto simp: runtime_init_def transports_ok_def table_ok_def)
qed (rule transports_ok_step)

lemma FindTransport_kind_open:
  assumes "transports_ok rt" "rt_open rt" "FindTransport_kind rt k = Inr t"
  shows "\<exists>ob. omap_find (rt_objects rt) t = Some ob \<and> to_kind ob = k \<and> to_open ob"
proof -
  from assms(3) obtain n where n: "omap_find (rt_by_kind rt) k = Some n" "omap_find (rt_transports rt) (str n) = Some t"
    by (auto simp: FindTransport_kind_def TransportRegistry_Find_def split: option.splits)
  have tab: "table_ok rt" using assms(1) by (simp add: transports_ok_def)
  obtain ob where ob: "omap_find (rt_objects rt) t = Some ob" "to_kind ob = k" using table_ok_kind [OF tab n(1)] n(2) by auto
  moreover have "to_open ob" using assms(1,2) n(2) ob(1) by (auto simp: transports_ok_def registered_open_def)
  ultimately show ?thesis by blast
qed

text \<open>
  C14. Endpoints are created on the right transport: in every state a runtime context reaches by
  registering transports and components, opening and closing, a reader or writer is only created while
  the context is open, and then by a registered transport of the topic's kind that is itself open; any
  two transports registered at the same time have different kinds.
\<close>

theorem endpoints_use_open_transport:
  assumes "rt_step\<^sup>*\<^sup>* (runtime_init d i r []) rt"
  shows "(Runtime_CreateReader create e rt = Inr x \<or> Runtime_CreateWriter create e rt = Inr x \<longrightarrow>
            rt_open rt \<and> (\<exists>t ob. FindTransport_kind rt (ts_transport (ep_topic e)) = Inr t \<and> create t e = Inr x
              \<and> omap_find (rt_objects rt) t = Some ob \<and> to_kind ob = ts_transport (ep_topic e) \<and> to_open ob))
    \<and> (\<forall>n n' t t' ob ob'. omap_find (rt_transports rt) n = Some t \<longrightarrow> omap_find (rt_transports rt) n' = Some t' \<longrightarrow>
            omap_find (rt_objects rt) t = Some ob \<longrightarrow> omap_find (rt_objects rt) t' = Some ob' \<longrightarrow>
            to_kind ob = to_kind ob' \<longrightarrow> n = n')"
proof -
  have ok: "transports_ok rt" using rts.inv_reachable [OF _ assms] by blast
  then have tab: "table_ok rt" by (simp add: transports_ok_def)
  have "n = n'" if "omap_find (rt_transports rt) n = Some t" "omap_find (rt_transports rt) n' = Some t'"
    "omap_find (rt_objects rt) t = Some ob" "omap_find (rt_objects rt) t' = Some ob'" "to_kind ob = to_kind ob'" for n n' t t' ob ob'
    using table_ok_transport [OF tab that(1)] table_ok_transport [OF tab that(2)] that(3-5)
    by (metis option.inject)
  then show ?thesis
    using FindTransport_kind_open [OF ok]
    by (auto simp: Runtime_CreateReader_def Runtime_CreateWriter_def split: if_splits)
qed

definition ex_runtime :: "nat runtime" where
  "ex_runtime = snd (Runtime_Open (\<lambda>_. Status_Ok) 0 (runtime_init (NamedValue ''inmemory'') True True []))"

lemma ex_runtime_run: "rt_step\<^sup>*\<^sup>* (runtime_init (NamedValue ''inmemory'') True True []) ex_runtime"
  unfolding ex_runtime_def
  by (rule r_into_rtranclp, rule rt_step.opened [where fresh = 0 and try_open = "\<lambda>_. Status_Ok"])
    (auto simp: runtime_init_def intro: prod_eqI)

theorem endpoints_use_open_transport_witness:
  "rt_open ex_runtime \<and> (\<exists>t ob. FindTransport_kind ex_runtime kInMemory = Inr t
     \<and> omap_find (rt_objects ex_runtime) t = Some ob \<and> to_kind ob = kInMemory \<and> to_open ob)"
proof -
  let ?e = "\<lparr>ep_topic = \<lparr>ts_name = NamedValue ''a'', ts_transport = kInMemory, ts_message_policy = MessagePolicy_default,
    ts_lifetime = kShared\<rparr>, ep_message = \<lparr>type_name = ''T'', encoding = ''raw'', version = 0\<rparr>\<rparr>"
  have "Runtime_CreateReader (\<lambda>t e. Inr t) ?e ex_runtime = Inr 0" by code_simp
  then show ?thesis
    using endpoints_use_open_transport [OF ex_runtime_run, of "\<lambda>t e. Inr t" ?e 0] by auto
qed

section \<open>The lifecycle\<close>

text \<open>
  The callbacks a component has received, newest first, each with whether it succeeded, and the state they
  leave it in. \<open>legal\<close> is the order the lifecycle allows.
\<close>

fun state_of_log :: "(life_op \<times> bool) list \<Rightarrow> component_state" where
  "state_of_log [] = kCreated"
| "state_of_log ((op, ok) # log) =
     (if \<not> ok then kError
      else case op of Configure \<Rightarrow> kConfigured | Initialize \<Rightarrow> kInitialized | Start \<Rightarrow> kStarted
        | Execute \<Rightarrow> kStarted | Stop \<Rightarrow> kStopped | Shutdown \<Rightarrow> kShutdown)"

fun legal :: "(life_op \<times> bool) list \<Rightarrow> bool" where
  "legal [] = True"
| "legal ((op, ok) # log) \<longleftrightarrow> legal log \<and>
     (case op of
        Configure \<Rightarrow> log = [] \<or> hd log = (Stop, True)
      | Initialize \<Rightarrow> log \<noteq> [] \<and> hd log = (Configure, True)
      | Start \<Rightarrow> log \<noteq> [] \<and> hd log \<in> {(Initialize, True), (Stop, True)}
      | Execute \<Rightarrow> log \<noteq> [] \<and> hd log \<in> {(Start, True), (Execute, True)}
      | Stop \<Rightarrow> log \<noteq> [] \<and> hd log \<in> {(Start, True), (Execute, True)}
      | Shutdown \<Rightarrow> log = [] \<or> hd log \<notin> {(Start, True), (Execute, True), (Shutdown, True)})"

lemma allowed_legal:
  assumes "legal log" "state_of_log log \<in> set (lifecycle_allowed op)"
  shows "legal ((op, ok) # log)"
proof (cases log)
  case Nil
  with assms show ?thesis by (cases op) auto
next
  case (Cons e rest)
  obtain op' ok' where "e = (op', ok')" by (cases e)
  with Cons assms show ?thesis by (cases op; cases op'; cases ok') auto
qed

text \<open>Callbacks may use the runtime; here they do not call lifecycle operations on the component itself.\<close>

definition leaves_component :: "('c \<Rightarrow> life_op \<Rightarrow> 'c runtime \<Rightarrow> status \<times> 'c runtime) \<Rightarrow> component_name \<Rightarrow> bool" where
  "leaves_component invoke name \<longleftrightarrow> (\<forall>c op rt.
     omap_ok (rt_states rt) \<longrightarrow> omap_ok (rt_states (snd (invoke c op rt)))
       \<and> omap_find (rt_states (snd (invoke c op rt))) (str name) = omap_find (rt_states rt) (str name)
       \<and> omap_find (rt_instances (snd (invoke c op rt))) (str name) = omap_find (rt_instances rt) (str name))"

text \<open>A lifecycle call on the component, and what it adds to its log.\<close>

inductive life_step :: "('c \<Rightarrow> life_op \<Rightarrow> 'c runtime \<Rightarrow> status \<times> 'c runtime) \<Rightarrow> component_name
    \<Rightarrow> 'c runtime \<times> (life_op \<times> bool) list \<Rightarrow> 'c runtime \<times> (life_op \<times> bool) list \<Rightarrow> bool" for invoke name where
  refused: "lifecycle_call invoke op name rt = (st, rt') \<Longrightarrow> GetComponentState rt name = Inr s \<Longrightarrow>
    s \<notin> set (lifecycle_allowed op) \<Longrightarrow> life_step invoke name (rt, log) (rt', log)"
| called: "lifecycle_call invoke op name rt = (st, rt') \<Longrightarrow> GetComponentState rt name = Inr s \<Longrightarrow>
    s \<in> set (lifecycle_allowed op) \<Longrightarrow> life_step invoke name (rt, log) (rt', (op, status_ok st) # log)"

definition life_inv :: "component_name \<Rightarrow> 'c runtime \<times> (life_op \<times> bool) list \<Rightarrow> bool" where
  "life_inv name = (\<lambda>(rt, log). omap_ok (rt_states rt) \<and> omap_find (rt_instances rt) (str name) \<noteq> None
     \<and> omap_find (rt_states rt) (str name) = Some (state_of_log log) \<and> legal log)"

lemma run_lifecycle_called:
  assumes "omap_find (rt_instances rt) (str name) = Some c" "omap_find (rt_states rt) (str name) = Some s"
    "run_lifecycle invoke op verb allowed new name rt = (st, rt')"
  shows "if s \<in> set allowed
    then st = fst (invoke c op rt) \<and> rt' = (case new st of None \<Rightarrow> snd (invoke c op rt)
       | Some s' \<Rightarrow> snd (SetComponentState name s' (snd (invoke c op rt))))
    else rt' = rt \<and> st_code st = kFailedPrecondition"
  using assms
  by (auto simp: run_lifecycle_def FindComponentInstance_def GetComponentState_def InvalidTransition_def case_prod_beta
      split: if_splits)

fun lifecycle_verb :: "life_op \<Rightarrow> string" where
  "lifecycle_verb Configure = ''configure''"
| "lifecycle_verb Initialize = ''initialize''"
| "lifecycle_verb Start = ''start''"
| "lifecycle_verb Execute = ''execute''"
| "lifecycle_verb Stop = ''stop''"
| "lifecycle_verb Shutdown = ''shutdown''"

definition lifecycle_new :: "life_op \<Rightarrow> status \<Rightarrow> component_state option" where
  "lifecycle_new op st = (if op = Execute \<and> status_ok st then None else Some (state_of_log [(op, status_ok st)]))"

lemma lifecycle_call_run:
  "lifecycle_call invoke op = run_lifecycle invoke op (lifecycle_verb op) (lifecycle_allowed op) (lifecycle_new op)"
proof -
  have "lifecycle_new Configure = or_error kConfigured" "lifecycle_new Initialize = or_error kInitialized"
    "lifecycle_new Start = or_error kStarted" "lifecycle_new Stop = or_error kStopped"
    "lifecycle_new Shutdown = or_error kShutdown"
    "lifecycle_new Execute = (\<lambda>st. if \<not> status_ok st then Some kError else None)"
    by (simp_all add: fun_eq_iff lifecycle_new_def or_error_def)
  then show ?thesis
    by (cases op) (simp_all add: ConfigureComponent_def InitializeComponent_def StartComponent_def ExecuteComponent_def
        StopComponent_def ShutdownComponent_def)
qed

lemma lifecycle_new_state:
  assumes "state_of_log log \<in> set (lifecycle_allowed op)"
  shows "(case lifecycle_new op st of None \<Rightarrow> state_of_log log | Some s' \<Rightarrow> s') = state_of_log ((op, status_ok st) # log)"
  using assms by (cases op) (auto simp: lifecycle_new_def)

lemma life_inv_call:
  assumes inv: "life_inv name (rt, log)" and cb: "leaves_component invoke name"
    and call: "lifecycle_call invoke op name rt = (st, rt')"
  shows "if state_of_log log \<in> set (lifecycle_allowed op) then life_inv name (rt', (op, status_ok st) # log) else rt' = rt"
proof -
  from inv obtain c where c: "omap_ok (rt_states rt)" "omap_find (rt_instances rt) (str name) = Some c"
    "omap_find (rt_states rt) (str name) = Some (state_of_log log)" "legal log" by (auto simp: life_inv_def)
  note r = run_lifecycle_called [OF c(2,3) call [unfolded lifecycle_call_run]]
  let ?rt = "snd (invoke c op rt)"
  have keep: "omap_ok (rt_states ?rt)" "omap_find (rt_states ?rt) (str name) = Some (state_of_log log)"
    "omap_find (rt_instances ?rt) (str name) = Some c"
    using cb c by (simp_all add: leaves_component_def)
  show ?thesis
  proof (cases "state_of_log log \<in> set (lifecycle_allowed op)")
    case True
    have leg: "legal ((op, status_ok st) # log)" by (rule allowed_legal [OF c(4) True])
    have rt': "rt' = (case lifecycle_new op st of None \<Rightarrow> ?rt | Some s' \<Rightarrow> snd (SetComponentState name s' ?rt))"
      using r True by simp
    have new: "(case lifecycle_new op st of None \<Rightarrow> state_of_log log | Some s' \<Rightarrow> s') = state_of_log ((op, status_ok st) # log)"
      by (rule lifecycle_new_state [OF True])
    have "life_inv name (rt', (op, status_ok st) # log)"
    proof (cases "lifecycle_new op st")
      case None
      then have "rt' = ?rt" "state_of_log ((op, status_ok st) # log) = state_of_log log" using rt' new by simp_all
      then show ?thesis
        unfolding life_inv_def prod.case using keep leg by (metis option.distinct(1))
    next
      case (Some s')
      then have "rt' = ?rt\<lparr>rt_states := omap_assign (str name) s' (rt_states ?rt)\<rparr>"
        using rt' keep(2) by (simp add: SetComponentState_def)
      moreover have "s' = state_of_log ((op, status_ok st) # log)" using Some new by simp
      ultimately show ?thesis
        unfolding life_inv_def prod.case using keep leg by (simp del: state_of_log.simps legal.simps add: om.lookup_assign om.ok_assign)
    qed
    with True show ?thesis by simp
  next
    case False
    with r show ?thesis by simp
  qed
qed

lemma life_inv_step:
  assumes step: "life_step invoke name x y" and inv: "life_inv name x" and cb: "leaves_component invoke name"
  shows "life_inv name y"
  using step
proof (cases rule: life_step.cases)
  case (refused op rt st rt' s log)
  with inv have "state_of_log log \<notin> set (lifecycle_allowed op)" by (auto simp: GetComponentState_def life_inv_def)
  with life_inv_call [OF _ cb refused(3), of log] inv refused(1,2) show ?thesis by simp
next
  case (called op rt st rt' s log)
  with inv have "state_of_log log \<in> set (lifecycle_allowed op)" by (auto simp: GetComponentState_def life_inv_def)
  with life_inv_call [OF _ cb called(3), of log] inv called(1,2) show ?thesis by simp
qed

interpretation lif: transition_system "\<lambda>x. life_inv name x \<and> snd x = []"
    "\<lambda>x y. leaves_component invoke name \<and> life_step invoke name x y" "life_inv name" for invoke name
  by unfold_locales (auto intro: life_inv_step)

text \<open>An instance is registered together with its state, under a name that is in the registry.\<close>

definition components_ok :: "'c runtime \<Rightarrow> bool" where
  "components_ok rt \<longleftrightarrow> omap_ok (rt_components rt) \<and> omap_ok (rt_instances rt) \<and> omap_ok (rt_states rt)
     \<and> dom (omap_find (rt_instances rt)) \<subseteq> dom (omap_find (rt_components rt))
     \<and> dom (omap_find (rt_states rt)) = dom (omap_find (rt_instances rt))"

lemma components_ok_transports:
  "components_ok (rt\<lparr>rt_objects := a\<rparr>) = components_ok rt" "components_ok (rt\<lparr>rt_transports := b\<rparr>) = components_ok rt"
  "components_ok (rt\<lparr>rt_by_kind := c\<rparr>) = components_ok rt" "components_ok (rt\<lparr>rt_open := d\<rparr>) = components_ok rt"
  by (simp_all add: components_ok_def)

lemma OpenTransportIfNeeded_components:
  "OpenTransportIfNeeded try_open p rt = (st, rt') \<Longrightarrow> components_ok rt' = components_ok rt"
  by (auto simp: OpenTransportIfNeeded_def Let_def components_ok_transports split: option.splits if_splits)

lemma RegisterTransport_components:
  assumes "RegisterTransport try_open p rt = (st, rt')"
  shows "components_ok rt' = components_ok rt"
proof (cases "Option.bind p (\<lambda>t. map_option (Pair t) (omap_find (rt_objects rt) t))")
  case None
  with assms show ?thesis by (simp add: RegisterTransport_def)
next
  case (Some tob)
  obtain t ob where "tob = (t, ob)" by (cases tob)
  with Some assms OpenTransportIfNeeded_components [of try_open "Some t" rt] show ?thesis
    by (auto simp: RegisterTransport_def components_ok_transports split: if_splits prod.splits)
qed

lemma open_all_components: "open_all try_open names rt = (st, rt') \<Longrightarrow> components_ok rt' = components_ok rt"
proof (induction try_open names rt rule: open_all.induct)
  case (2 try_open name names rt)
  show ?case
  proof (cases "FindTransport rt name")
    case (Inr t)
    obtain st1 rt1 where o: "OpenTransportIfNeeded try_open (Some t) rt = (st1, rt1)"
      by (cases "OpenTransportIfNeeded try_open (Some t) rt")
    with 2(1) [OF Inr o [symmetric]] 2(2) Inr OpenTransportIfNeeded_components [OF o] show ?thesis
      by (auto split: if_splits)
  qed (use 2(2) in simp)
qed simp

lemma close_all_components: "close_all try_close names res rt = (st, rt') \<Longrightarrow> components_ok rt' = components_ok rt"
  by (induction try_close names res rt rule: close_all.induct)
    (auto simp: components_ok_transports split: sum.splits prod.splits option.splits)

lemma Runtime_Open_components:
  assumes "Runtime_Open try_open fresh rt = (st, rt')"
  shows "components_ok rt' = components_ok rt"
proof -
  obtain st1 rt1 where e: "EnsureDefaultTransports try_open fresh rt = (st1, rt1)"
    by (cases "EnsureDefaultTransports try_open fresh rt")
  obtain st2 rt2 where o: "open_all try_open (ListTransportNames rt1) rt1 = (st2, rt2)"
    by (cases "open_all try_open (ListTransportNames rt1) rt1")
  have "components_ok rt1 = components_ok rt"
    using e by (auto simp: EnsureDefaultTransports_def components_ok_transports dest!: RegisterTransport_components split: if_splits)
  with assms e o open_all_components [OF o] show ?thesis
    by (auto simp: Runtime_Open_def Let_def components_ok_transports split: if_splits)
qed

lemma Register_components:
  assumes "ComponentRegistry_Register spec m = (st, m')" "omap_ok m"
  shows "omap_ok m' \<and> dom (omap_find m) \<subseteq> dom (omap_find m')
    \<and> (status_ok st \<longrightarrow> omap_find m (str (cs_name spec)) = None \<and> str (cs_name spec) \<in> dom (omap_find m'))"
  using assms by (auto simp: ComponentRegistry_Register_def Let_def omap_laws split: if_splits)

lemma instance_registered:
  assumes "RegisterComponentInstance describe (Some c) rt = (st, rt')" "status_ok st" "components_ok rt"
  shows "components_ok rt' \<and> omap_find (rt_instances rt') (str (cs_name (describe c))) = Some c
    \<and> omap_find (rt_states rt') (str (cs_name (describe c))) = Some kCreated"
proof -
  let ?n = "str (cs_name (describe c))"
  obtain st1 cs where r: "ComponentRegistry_Register (describe c) (rt_components rt) = (st1, cs)"
    by (cases "ComponentRegistry_Register (describe c) (rt_components rt)")
  with assms(1,2) have ok: "status_ok st1" and rt': "rt' = rt\<lparr>rt_components := cs,
      rt_instances := omap_emplace ?n c (rt_instances rt), rt_states := omap_emplace ?n kCreated (rt_states rt)\<rparr>"
    by (auto simp: RegisterComponentInstance_def Let_def split: if_splits)
  have oks: "omap_ok (rt_components rt)" "omap_ok (rt_instances rt)" "omap_ok (rt_states rt)"
    using assms(3) by (simp_all add: components_ok_def)
  note reg = Register_components [OF r oks(1)]
  have doms: "dom (omap_find (rt_instances rt)) \<subseteq> dom (omap_find (rt_components rt))"
      "dom (omap_find (rt_states rt)) = dom (omap_find (rt_instances rt))"
    using assms(3) by (simp_all add: components_ok_def)
  have "?n \<notin> dom (omap_find (rt_components rt))" using reg ok by (simp add: domIff)
  with doms have "?n \<notin> dom (omap_find (rt_instances rt))" "?n \<notin> dom (omap_find (rt_states rt))" by blast+
  then have new: "omap_find (rt_instances rt) ?n = None" "omap_find (rt_states rt) ?n = None" by (simp_all add: domIff)
  have i: "omap_find (rt_instances rt') = (omap_find (rt_instances rt))(?n \<mapsto> c)"
    and s: "omap_find (rt_states rt') = (omap_find (rt_states rt))(?n \<mapsto> kCreated)"
    using new oks by (simp_all add: rt' omap_emplace_def om.lookup_assign)
  have "components_ok rt'"
    using doms reg ok oks unfolding components_ok_def i s
    by (simp add: rt' omap_ok_emplace) blast
  with i s show ?thesis by simp
qed

lemma components_ok_step:
  assumes "rt_step rt rt'" "components_ok rt"
  shows "components_ok rt'"
  using assms
proof (cases rule: rt_step.cases)
  case (component spec st)
  obtain st1 cs where r: "ComponentRegistry_Register spec (rt_components rt) = (st1, cs)"
    by (cases "ComponentRegistry_Register spec (rt_components rt)")
  with component have "rt' = rt\<lparr>rt_components := cs\<rparr>" by (simp add: RegisterComponent_def)
  with Register_components [OF r] assms(2) show ?thesis
    unfolding components_ok_def by (simp del: domIff) blast
next
  case (instance_ describe c st)
  show ?thesis
  proof (cases "status_ok st")
    case True
    then obtain c' where "c = Some c'" using instance_ by (cases c) (auto simp: RegisterComponentInstance_def)
    with instance_registered [of describe c' rt st rt'] instance_ True assms(2) show ?thesis by simp
  next
    case False
    with instance_ assms(2) show ?thesis
      by (auto simp: RegisterComponentInstance_def Let_def split: option.splits prod.splits if_splits)
  qed
next
  case (state name new st)
  show ?thesis
  proof (cases "omap_find (rt_states rt) (str name)")
    case None
    with state assms(2) show ?thesis by (simp add: SetComponentState_def)
  next
    case (Some s)
    then have "str name \<in> dom (omap_find (rt_states rt))" by blast
    moreover have "rt' = rt\<lparr>rt_states := omap_assign (str name) new (rt_states rt)\<rparr>"
      using Some state by (simp add: SetComponentState_def)
    ultimately show ?thesis
      using assms(2) unfolding components_ok_def by (simp add: om.dom_assign om.ok_assign insert_absorb)
  qed
next
  case (closed try_close st)
  obtain res rt1 where c: "close_all try_close (ListTransportNames rt) Status_Ok rt = (res, rt1)"
    by (cases "close_all try_close (ListTransportNames rt) Status_Ok rt")
  with closed close_all_components [OF c] assms(2) show ?thesis by (auto simp: Runtime_Close_def components_ok_transports)
qed (use assms(2) in \<open>auto simp: components_ok_transports RegisterTransport_components Runtime_Open_components\<close>)

interpretation rtc: transition_system "\<lambda>rt. \<exists>d i r. rt = runtime_init d i r []" rt_step components_ok
proof
  fix rt :: "'a runtime" assume "\<exists>d i r. rt = runtime_init d i r []"
  then show "components_ok rt" by (auto simp: runtime_init_def components_ok_def dom_def)
qed (rule components_ok_step)


definition ex_component :: "nat \<Rightarrow> component_spec" where
  "ex_component c = \<lparr>cs_name = NamedValue ''cam'', cs_description = [], cs_readers = [], cs_writers = [], cs_triggers = [],
     cs_parameters = [], cs_servers = [], cs_clients = []\<rparr>"

definition ex_registered_runtime :: "component_state \<Rightarrow> nat runtime" where
  "ex_registered_runtime s = (runtime_init (NamedValue ''inmemory'') True True [])
     \<lparr>rt_components := [(''cam'', ex_component 1)], rt_instances := [(''cam'', 1)], rt_states := [(''cam'', s)]\<rparr>"

definition ex_invoke :: "nat \<Rightarrow> life_op \<Rightarrow> nat runtime \<Rightarrow> status \<times> nat runtime" where
  "ex_invoke c op rt = (if op = Initialize then Status_Internal ''no device'' else Status_Ok, rt)"

lemma ex_component_registered:
  "RegisterComponentInstance ex_component (Some 1) (runtime_init (NamedValue ''inmemory'') True True [])
     = (Status_Ok, ex_registered_runtime kCreated)"
  by (simp add: RegisterComponentInstance_def Let_def status_ok_ComponentSpec_Validate ComponentRegistry_Register_def
      omap_emplace_def runtime_init_def ex_registered_runtime_def ex_component_def valid_name_def bad_name_char_def)

lemma ex_life_step:
  assumes "s \<in> set (lifecycle_allowed op)" "op \<noteq> Execute"
  shows "life_step ex_invoke (NamedValue ''cam'') (ex_registered_runtime s, log)
    (ex_registered_runtime (state_of_log [(op, op \<noteq> Initialize)]), (op, op \<noteq> Initialize) # log)"
proof -
  have "lifecycle_call ex_invoke op (NamedValue ''cam'') (ex_registered_runtime s)
      = (fst (ex_invoke 1 op (ex_registered_runtime s)), ex_registered_runtime (state_of_log [(op, op \<noteq> Initialize)]))"
    using assms
    by (simp add: lifecycle_call_run run_lifecycle_def FindComponentInstance_def GetComponentState_def ex_registered_runtime_def
        omap_find_def ex_invoke_def SetComponentState_def lifecycle_new_def)
  from life_step.called [OF this, of s log] assms show ?thesis
    by (simp add: ex_invoke_def GetComponentState_def ex_registered_runtime_def omap_find_def split: if_splits)
qed


section \<open>Queue depths\<close>

text \<open>
  \<open>ReaderQueueDepths\<close>: the unread messages of every wrapped reader by topic, and the value last recorded
  with the observer for each topic.
\<close>

record queue_depths =
  qd_pending :: "(string, (nat, nat) omap) omap"
  qd_next_id :: nat
  qd_recorded :: "(string, nat) omap"

definition RecordQueueDepth :: "string \<Rightarrow> nat \<Rightarrow> queue_depths \<Rightarrow> queue_depths" where
  "RecordQueueDepth topic depth q = q\<lparr>qd_recorded := omap_assign topic depth (qd_recorded q)\<rparr>"

definition RecordTotal :: "string \<Rightarrow> (nat, nat) omap \<Rightarrow> queue_depths \<Rightarrow> queue_depths" where
  "RecordTotal topic readers q = RecordQueueDepth topic (foldl (\<lambda>total e. total + snd e) 0 readers) q"

definition Depths_Add :: "string \<Rightarrow> queue_depths \<Rightarrow> nat \<times> queue_depths" where
  "Depths_Add topic q =
     (let reader_id = qd_next_id q;
          readers = (case omap_find (qd_pending q) topic of None \<Rightarrow> [] | Some r \<Rightarrow> r) in
      (reader_id, q\<lparr>qd_next_id := reader_id + 1,
             qd_pending := omap_assign topic (omap_emplace reader_id 0 readers) (qd_pending q)\<rparr>))"

definition Depths_Update :: "string \<Rightarrow> nat \<Rightarrow> nat \<Rightarrow> queue_depths \<Rightarrow> queue_depths" where
  "Depths_Update topic reader_id pending_count q =
     (case omap_find (qd_pending q) topic of
        None \<Rightarrow> q
      | Some readers \<Rightarrow>
          (case omap_find readers reader_id of
             None \<Rightarrow> q
           | Some _ \<Rightarrow>
               let readers' = omap_assign reader_id pending_count readers in
               RecordTotal topic readers' (q\<lparr>qd_pending := omap_assign topic readers' (qd_pending q)\<rparr>)))"

definition Depths_Remove :: "string \<Rightarrow> nat \<Rightarrow> queue_depths \<Rightarrow> queue_depths" where
  "Depths_Remove topic reader_id q =
     (case omap_find (qd_pending q) topic of
        None \<Rightarrow> q
      | Some readers \<Rightarrow>
          if omap_find readers reader_id = None then q
          else let readers' = omap_erase reader_id readers in
            if readers' = []
            then RecordQueueDepth topic 0 (q\<lparr>qd_pending := omap_erase topic (qd_pending q)\<rparr>)
            else RecordTotal topic readers' (q\<lparr>qd_pending := omap_assign topic readers' (qd_pending q)\<rparr>))"

definition depths_init :: queue_depths where
  "depths_init = \<lparr>qd_pending = [], qd_next_id = 0, qd_recorded = []\<rparr>"

inductive depths_step :: "queue_depths \<Rightarrow> queue_depths \<Rightarrow> bool" where
  add: "Depths_Add topic q = (reader_id, q') \<Longrightarrow> depths_step q q'"
| update: "depths_step q (Depths_Update topic reader_id n q)"
| remove: "depths_step q (Depths_Remove topic reader_id q)"

definition topic_total :: "queue_depths \<Rightarrow> string \<Rightarrow> nat" where
  "topic_total q topic = (case omap_find (qd_pending q) topic of None \<Rightarrow> 0 | Some readers \<Rightarrow> sum_list (map snd readers))"

definition depths_ok :: "queue_depths \<Rightarrow> bool" where
  "depths_ok q \<longleftrightarrow> omap_ok (qd_pending q) \<and> omap_ok (qd_recorded q)
     \<and> (\<forall>topic readers. omap_find (qd_pending q) topic = Some readers \<longrightarrow>
          omap_ok readers \<and> readers \<noteq> [] \<and> (\<forall>i \<in> fst ` set readers. i < qd_next_id q))
     \<and> (\<forall>topic. (case omap_find (qd_recorded q) topic of None \<Rightarrow> 0 | Some n \<Rightarrow> n) = topic_total q topic)"

lemma foldl_total: "foldl (\<lambda>total e. total + snd e) n (readers :: (nat \<times> nat) list) = n + sum_list (map snd readers)"
  by (induction readers arbitrary: n) simp_all

lemma omap_assign_nonempty [simp]: "omap_assign k v m \<noteq> []"
  by (induction k v m rule: omap_assign.induct) simp_all

lemma depths_ok_add:
  assumes "depths_ok q" "Depths_Add topic q = (reader_id, q')"
  shows "depths_ok q'"
proof -
  define readers where "readers = (case omap_find (qd_pending q) topic of None \<Rightarrow> [] | Some r \<Rightarrow> r)"
  have r: "omap_ok readers" "\<forall>i \<in> fst ` set readers. i < qd_next_id q" "sum_list (map snd readers) = topic_total q topic"
  proof -
    have "omap_ok readers \<and> (\<forall>i \<in> fst ` set readers. i < qd_next_id q) \<and> sum_list (map snd readers) = topic_total q topic"
    proof (cases "omap_find (qd_pending q) topic")
      case None
      then show ?thesis by (simp add: readers_def topic_total_def)
    next
      case (Some rs)
      with assms(1) have "omap_ok rs \<and> (\<forall>i \<in> fst ` set rs. i < qd_next_id q)" unfolding depths_ok_def by blast
      with Some show ?thesis by (simp add: readers_def topic_total_def)
    qed
    then show "omap_ok readers" "\<forall>i \<in> fst ` set readers. i < qd_next_id q" "sum_list (map snd readers) = topic_total q topic"
      by blast+
  qed
  have none: "omap_find readers (qd_next_id q) = None"
    using r(2) by (auto simp: omap_find_def map_of_eq_None_iff)
  define readers' where "readers' = omap_emplace (qd_next_id q) 0 readers"
  have m: "mset readers' = add_mset (qd_next_id q, 0) (mset readers)"
    unfolding readers'_def by (rule mset_omap_emplace [OF none])
  have r': "omap_ok readers'" "readers' \<noteq> []" "\<forall>i \<in> fst ` set readers'. i < qd_next_id q + 1"
      "sum_list (map snd readers') = topic_total q topic"
  proof -
    show "omap_ok readers'" unfolding readers'_def by (rule omap_ok_emplace [OF r(1)])
    show "readers' \<noteq> []" using m by auto
    have "set readers' = insert (qd_next_id q, 0) (set readers)" using arg_cong [OF m, of set_mset] by simp
    with r(2) show "\<forall>i \<in> fst ` set readers'. i < qd_next_id q + 1" by force
    have "sum_mset (mset (map snd readers')) = sum_mset (mset (map snd readers))" unfolding mset_map m by simp
    then show "sum_list (map snd readers') = topic_total q topic" using r(3) by (simp only: sum_mset_sum_list)
  qed
  have q': "q' = q\<lparr>qd_next_id := qd_next_id q + 1, qd_pending := omap_assign topic readers' (qd_pending q)\<rparr>"
    using assms(2) by (auto simp: Depths_Add_def Let_def readers_def readers'_def)
  have ok: "omap_ok (qd_pending q)" using assms(1) by (simp add: depths_ok_def)
  have "topic_total q' t = topic_total q t" for t
    using r'(4) ok by (simp add: topic_total_def q' om.lookup_assign)
  moreover have "omap_ok rs \<and> rs \<noteq> [] \<and> (\<forall>i \<in> fst ` set rs. i < qd_next_id q')"
    if "omap_find (qd_pending q') t = Some rs" for t rs
    using that assms(1) ok r' by (fastforce simp: q' om.lookup_assign depths_ok_def split: if_splits)
  ultimately show ?thesis
    using assms(1) unfolding depths_ok_def by (simp add: q' om.ok_assign)
qed

lemma depths_ok_record:
  assumes "depths_ok q" "omap_ok readers" "readers \<noteq> []" "\<forall>i \<in> fst ` set readers. i < qd_next_id q"
  shows "depths_ok (RecordTotal topic readers (q\<lparr>qd_pending := omap_assign topic readers (qd_pending q)\<rparr>))"
  using assms
  by (auto simp: depths_ok_def RecordTotal_def RecordQueueDepth_def foldl_total topic_total_def om.lookup_assign om.ok_assign)

lemma depths_ok_step:
  assumes "depths_step q q'" "depths_ok q"
  shows "depths_ok q'"
  using assms
proof (cases rule: depths_step.cases)
  case (add topic reader_id)
  then show ?thesis using depths_ok_add assms(2) by blast
next
  case (update topic reader_id n)
  show ?thesis
  proof (cases "\<exists>readers c. omap_find (qd_pending q) topic = Some readers \<and> omap_find readers reader_id = Some c")
    case True
    then obtain readers c where r: "omap_find (qd_pending q) topic = Some readers" "omap_find readers reader_id = Some c" by blast
    from r assms(2) have ok: "omap_ok readers" "\<forall>i \<in> fst ` set readers. i < qd_next_id q" by (auto simp: depths_ok_def)
    have "reader_id \<in> fst ` set readers" using omap_find_in [OF r(2)] by force
    then have "\<forall>i \<in> fst ` set (omap_assign reader_id n readers). i < qd_next_id q"
      using ok(2) by (auto simp: set_omap_assign)
    from depths_ok_record [OF assms(2) om.ok_assign [OF ok(1)] omap_assign_nonempty this]
    show ?thesis using update r by (simp add: Depths_Update_def Let_def)
  next
    case False
    with update assms(2) show ?thesis by (auto simp: Depths_Update_def split: option.splits)
  qed
next
  case (remove topic reader_id)
  show ?thesis
  proof (cases "\<exists>readers c. omap_find (qd_pending q) topic = Some readers \<and> omap_find readers reader_id = Some c")
    case True
    then obtain readers c where r: "omap_find (qd_pending q) topic = Some readers" "omap_find readers reader_id = Some c" by blast
    from r assms(2) have ok: "omap_ok readers" "\<forall>i \<in> fst ` set readers. i < qd_next_id q" by (auto simp: depths_ok_def)
    let ?r = "omap_erase reader_id readers"
    show ?thesis
    proof (cases "?r = []")
      case True
      then show ?thesis
        using remove r assms(2)
        by (auto simp: Depths_Remove_def Let_def depths_ok_def RecordQueueDepth_def topic_total_def om.lookup_assign
            om.lookup_erase om.ok_assign om.ok_erase)
    next
      case False
      have "\<forall>i \<in> fst ` set ?r. i < qd_next_id q" using ok(2) by (auto simp: omap_erase_def)
      from depths_ok_record [OF assms(2) om.ok_erase [OF ok(1)] False this]
      show ?thesis using remove r False by (simp add: Depths_Remove_def Let_def)
    qed
  next
    case False
    with remove assms(2) show ?thesis by (auto simp: Depths_Remove_def split: option.splits)
  qed
qed

interpretation qdp: transition_system "\<lambda>q. q = depths_init" depths_step depths_ok
proof
  show "depths_ok q" if "q = depths_init" for q
    using that by (simp add: depths_init_def depths_ok_def topic_total_def)
  show "depths_ok q'" if "depths_step q q'" "depths_ok q" for q q'
    using depths_ok_step that by blast
qed

text \<open>
  C16. The queue depth metric is exact: whatever readers of a topic are created, report their unread
  messages and are destroyed, the depth last recorded for a topic is the sum over its live readers (zero
  when none was recorded), so a destroyed reader never leaves a stale contribution behind.
\<close>

theorem queue_depth_metric_exact:
  assumes "depths_step\<^sup>*\<^sup>* depths_init q"
  shows "(case omap_find (qd_recorded q) topic of None \<Rightarrow> 0 | Some n \<Rightarrow> n)
    = (case omap_find (qd_pending q) topic of None \<Rightarrow> 0 | Some readers \<Rightarrow> sum_list (map snd readers))"
  using qdp.inv_reachable [OF refl assms] by (simp add: depths_ok_def topic_total_def)

theorem queue_depth_metric_exact_witness:
  "(let q = Depths_Update ''a'' 0 5 (snd (Depths_Add ''a'' depths_init)) in
     (case omap_find (qd_recorded q) ''a'' of None \<Rightarrow> 0 | Some n \<Rightarrow> n) = 5)"
proof -
  let ?q1 = "snd (Depths_Add ''a'' depths_init)"
  have "depths_step depths_init ?q1" by (rule depths_step.add [where reader_id = 0]) (auto simp: Depths_Add_def depths_init_def)
  then have "depths_step\<^sup>*\<^sup>* depths_init (Depths_Update ''a'' 0 5 ?q1)"
    using depths_step.update by (metis r_into_rtranclp rtranclp.rtrancl_into_rtrancl)
  from queue_depth_metric_exact [OF this, of "''a''"] show ?thesis
    by (simp add: Let_def) (simp add: Depths_Update_def Depths_Add_def depths_init_def omap_find_def Let_def RecordTotal_def
        RecordQueueDepth_def omap_emplace_def)
qed

end
