(* ===== verification/Scheduler_Triggers.thy ===== *)
theory Scheduler_Triggers
  imports Runtime_Context
begin

text \<open>
  The trigger declarations of \<open>src/scheduler/scheduler.cpp\<close>: what the scheduler accepts of a
  component's triggers (\<open>ValidateTrigger\<close>, \<open>ValidateComponentSpec\<close>), the lookups of the endpoints
  and services a trigger names, the notification endpoint \<open>MakeTriggerEndpoint\<close> builds, and
  \<open>InstallTaskTriggers\<close>, which turns the task dependencies into dependents lists and refuses a
  cyclic dependency graph with Kahn's algorithm. The loop of that algorithm is a
  \<open>partial_function\<close>: that it returns, and that it visits every component exactly when the
  graph has no cycle, are theorems.
\<close>

section \<open>Validation of triggers\<close>

definition FindTrigger :: "component_spec \<Rightarrow> trigger_kind \<Rightarrow> trigger_spec option" where
  "FindTrigger spec kind = find (\<lambda>t. tr_kind t = kind) (cs_triggers spec)"

definition EffectiveDeadline :: "trigger_spec \<Rightarrow> nanoseconds" where
  "EffectiveDeadline t =
     (if tr_deadline t > 0 then tr_deadline t else if tr_kind t = kPeriodic then tr_period t else 0)"

definition FindReaderEndpoint :: "component_spec \<Rightarrow> topic_name \<Rightarrow> endpoint_config result" where
  "FindReaderEndpoint spec topic =
     (case dropWhile (\<lambda>e. ts_name (ep_topic e) \<noteq> topic) (cs_readers spec) of
        [] \<Rightarrow> FromStatus (Status_InvalidArgument
                (''data trigger topic has no matching reader endpoint: '' @ str topic))
      | found # rest \<Rightarrow>
          if find (\<lambda>e. ts_name (ep_topic e) = topic) rest \<noteq> None
          then FromStatus (Status_InvalidArgument
                 (''data trigger topic has multiple matching reader endpoints: '' @ str topic))
          else Inr found)"

definition FindServedService :: "component_spec \<Rightarrow> topic_name \<Rightarrow> service_spec result" where
  "FindServedService spec name =
     (case find (\<lambda>s. sv_name s = name) (cs_servers spec) of
        None \<Rightarrow> FromStatus (Status_InvalidArgument
                  (''service trigger names a service the component does not serve: '' @ str name))
      | Some s \<Rightarrow> Inr s)"

definition MakeTriggerEndpoint :: "endpoint_config \<Rightarrow> endpoint_config" where
  "MakeTriggerEndpoint e =
     e\<lparr>ep_topic := (ep_topic e)\<lparr>ts_message_policy := (ts_message_policy (ep_topic e))
         \<lparr>freshness := kLatest, retention := kKeepLast, overflow := kDropOldest, queue_depth := 1\<rparr>\<rparr>\<rparr>"

fun validate_data_topics :: "component_spec \<Rightarrow> topic_name list \<Rightarrow> topic_name list \<Rightarrow> status" where
  "validate_data_topics spec seen [] = Status_Ok"
| "validate_data_topics spec seen (topic # topics) =
     (if topic \<in> set seen
      then Status_InvalidArgument (''data trigger has duplicate topic dependency: '' @ str topic)
      else case FindReaderEndpoint spec topic of
          Inl st \<Rightarrow> st
        | Inr _ \<Rightarrow> validate_data_topics spec (topic # seen) topics)"

fun validate_services :: "component_spec \<Rightarrow> topic_name list \<Rightarrow> topic_name list \<Rightarrow> status" where
  "validate_services spec seen [] = Status_Ok"
| "validate_services spec seen (service # services) =
     (if service \<in> set seen
      then Status_InvalidArgument (''service trigger has duplicate service: '' @ str service)
      else case FindServedService spec service of
          Inl st \<Rightarrow> st
        | Inr _ \<Rightarrow> validate_services spec (service # seen) services)"

definition ValidateTrigger :: "component_spec \<Rightarrow> trigger_spec \<Rightarrow> status" where
  "ValidateTrigger spec t =
     and_then (TriggerSpec_Validate t)
      (and_then (if tr_kind t = kData
                 then if tr_data_dependencies t = []
                   then Status_InvalidArgument ''data trigger requires at least one topic dependency''
                   else validate_data_topics spec [] (tr_data_dependencies t)
                 else Status_Ok)
        (if tr_kind t = kTaskDependency \<and> tr_task_dependencies t = []
         then Status_InvalidArgument ''task dependency trigger requires at least one task dependency''
         else if tr_kind t = kService then validate_services spec [] (tr_service_dependencies t)
         else Status_Ok))"

text \<open>
  The two maps of \<open>ValidateComponentSpec\<close> remember which trigger claimed a topic or a service
  first; the message names both triggers.
\<close>

fun claim_names :: "(nat \<Rightarrow> topic_name \<Rightarrow> status) \<Rightarrow> nat \<Rightarrow> topic_name list \<Rightarrow> (topic_name, nat) omap
    \<Rightarrow> status \<times> (topic_name, nat) omap" where
  "claim_names shared index [] m = (Status_Ok, m)"
| "claim_names shared index (n # ns) m =
     (case omap_find m n of
        Some first \<Rightarrow> (shared first n, m)
      | None \<Rightarrow> claim_names shared index ns (omap_emplace n index m))"

definition shared_message :: "component_spec \<Rightarrow> string \<Rightarrow> nat \<Rightarrow> nat \<Rightarrow> topic_name \<Rightarrow> status" where
  "shared_message spec what index first n =
     Status_InvalidArgument (''component '' @ str (cs_name spec) @ '' triggers '' @ std_to_string first
       @ '' and '' @ std_to_string index @ '' share '' @ what @ '' '' @ str n)"

fun validate_triggers :: "component_spec \<Rightarrow> nat \<Rightarrow> trigger_spec list \<Rightarrow> (topic_name, nat) omap
    \<Rightarrow> (topic_name, nat) omap \<Rightarrow> status" where
  "validate_triggers spec index [] data services = Status_Ok"
| "validate_triggers spec index (t # ts) data services =
     (let st = ValidateTrigger spec t in
      if \<not> status_ok st then st
      else case (if tr_kind t = kData
          then claim_names (shared_message spec ''data topic'' index) index (tr_data_dependencies t) data
          else (Status_Ok, data)) of
        (st1, data') \<Rightarrow>
          if \<not> status_ok st1 then st1
          else case (if tr_kind t = kService
              then claim_names (shared_message spec ''service'' index) index (tr_service_dependencies t) services
              else (Status_Ok, services)) of
            (st2, services') \<Rightarrow>
              if \<not> status_ok st2 then st2 else validate_triggers spec (index + 1) ts data' services')"

definition ValidateComponentSpec :: "component_spec \<Rightarrow> status" where
  "ValidateComponentSpec spec =
     and_then (ComponentSpec_Validate spec) (validate_triggers spec 0 (cs_triggers spec) [] [])"

subsection \<open>What the scheduler accepts\<close>

definition topic_readers :: "component_spec \<Rightarrow> topic_name \<Rightarrow> endpoint_config list" where
  "topic_readers spec topic = filter (\<lambda>e. ts_name (ep_topic e) = topic) (cs_readers spec)"

definition data_topics :: "trigger_spec list \<Rightarrow> topic_name list" where
  "data_topics ts = concat (map tr_data_dependencies (filter (\<lambda>t. tr_kind t = kData) ts))"

definition trigger_services :: "trigger_spec list \<Rightarrow> topic_name list" where
  "trigger_services ts = concat (map tr_service_dependencies (filter (\<lambda>t. tr_kind t = kService) ts))"

lemma FindReaderEndpoint_unique: "FindReaderEndpoint spec topic = Inr e \<longleftrightarrow> topic_readers spec topic = [e]"
  unfolding FindReaderEndpoint_def topic_readers_def
proof (induction "cs_readers spec" arbitrary: spec)
  case Nil
  then show ?case by (simp add: Nil [symmetric])
next
  case (Cons x es)
  note x = Cons.hyps(2) [symmetric]
  have tail: "(find (\<lambda>e. ts_name (ep_topic e) = topic) es = None) = (filter (\<lambda>e. ts_name (ep_topic e) = topic) es = [])"
    by (auto simp: find_None_iff filter_empty_conv)
  from Cons.hyps(1) [of "spec\<lparr>cs_readers := es\<rparr>"] tail show ?case
    by (cases "ts_name (ep_topic x) = topic") (auto simp: x)
qed

lemma FindReaderEndpoint_error: "FindReaderEndpoint spec topic = Inl st \<Longrightarrow> \<not> status_ok st"
  by (auto simp: FindReaderEndpoint_def NormalizeError_def split: list.splits if_splits)

lemma FindServedService_error: "FindServedService spec n = Inl st \<Longrightarrow> \<not> status_ok st"
  by (auto simp: FindServedService_def NormalizeError_def split: option.splits)

lemma FindServedService_ok: "(\<exists>s. FindServedService spec n = Inr s) \<longleftrightarrow> n \<in> sv_name ` set (cs_servers spec)"
  by (auto simp: FindServedService_def find_None_iff split: option.splits dest: find_SomeD)

lemma status_ok_validate_data_topics:
  "status_ok (validate_data_topics spec seen ts) \<longleftrightarrow>
     distinct ts \<and> set ts \<inter> set seen = {} \<and> (\<forall>t \<in> set ts. \<exists>e. topic_readers spec t = [e])"
proof (induction ts arbitrary: seen)
  case Nil
  then show ?case by simp
next
  case (Cons t ts)
  then show ?case
    by (cases "FindReaderEndpoint spec t")
      (auto simp: FindReaderEndpoint_unique dest: FindReaderEndpoint_error simp flip: FindReaderEndpoint_unique)
qed

lemma status_ok_validate_services:
  "status_ok (validate_services spec seen ns) \<longleftrightarrow>
     distinct ns \<and> set ns \<inter> set seen = {} \<and> set ns \<subseteq> sv_name ` set (cs_servers spec)"
proof (induction ns arbitrary: seen)
  case Nil
  then show ?case by simp
next
  case (Cons n ns)
  show ?case
  proof (cases "FindServedService spec n")
    case (Inl st)
    then have "n \<notin> sv_name ` set (cs_servers spec)" by (simp flip: FindServedService_ok)
    with Inl show ?thesis using FindServedService_error [OF Inl] by simp
  next
    case (Inr s)
    then have "n \<in> sv_name ` set (cs_servers spec)" by (simp flip: FindServedService_ok)
    with Inr Cons show ?thesis by auto
  qed
qed

lemma status_ok_ValidateTrigger:
  "status_ok (ValidateTrigger spec t) \<longleftrightarrow>
     status_ok (TriggerSpec_Validate t)
     \<and> (tr_kind t = kData \<longrightarrow> tr_data_dependencies t \<noteq> [] \<and> distinct (tr_data_dependencies t)
          \<and> (\<forall>n \<in> set (tr_data_dependencies t). \<exists>e. topic_readers spec n = [e]))
     \<and> (tr_kind t = kTaskDependency \<longrightarrow> tr_task_dependencies t \<noteq> [])
     \<and> (tr_kind t = kService \<longrightarrow> distinct (tr_service_dependencies t)
          \<and> set (tr_service_dependencies t) \<subseteq> sv_name ` set (cs_servers spec))"
  by (auto simp: ValidateTrigger_def status_ok_validate_data_topics status_ok_validate_services)

text \<open>A pass over the names one trigger claims, and then over all triggers.\<close>

lemma claim_names_ok:
  assumes "omap_ok m" "\<And>first n. \<not> status_ok (shared first n)" "claim_names shared index ns m = (st, m')"
  shows "(status_ok st \<longleftrightarrow> distinct ns \<and> set ns \<inter> fst ` set m = {})
    \<and> omap_ok m' \<and> (status_ok st \<longrightarrow> fst ` set m' = fst ` set m \<union> set ns)"
  using assms(1,3)
proof (induction ns arbitrary: m)
  case Nil
  then show ?case by simp
next
  case (Cons n ns)
  have dom: "omap_find m n = None \<longleftrightarrow> n \<notin> fst ` set m" by (auto simp: omap_find_def map_of_eq_None_iff)
  show ?case
  proof (cases "omap_find m n")
    case None
    have keys: "fst ` set (omap_emplace n index m) = insert n (fst ` set m)"
      using None by (simp add: omap_emplace_def set_omap_assign)
    from None Cons.prems have "claim_names shared index ns (omap_emplace n index m) = (st, m')" by simp
    from Cons.IH [OF omap_ok_emplace [OF Cons.prems(1)] this] keys None dom show ?thesis by auto
  next
    case (Some first)
    then show ?thesis using Cons.prems dom assms(2) by auto
  qed
qed

lemma not_ok_shared_message [simp]: "\<not> status_ok (shared_message spec what index first n)"
  by (simp add: shared_message_def)

lemma status_ok_validate_triggers:
  assumes "omap_ok data" "omap_ok services"
  shows "status_ok (validate_triggers spec index ts data services) \<longleftrightarrow>
     (\<forall>t \<in> set ts. status_ok (ValidateTrigger spec t))
     \<and> distinct (data_topics ts) \<and> set (data_topics ts) \<inter> fst ` set data = {}
     \<and> distinct (trigger_services ts) \<and> set (trigger_services ts) \<inter> fst ` set services = {}"
  using assms
proof (induction ts arbitrary: index data services)
  case Nil
  then show ?case by (simp add: data_topics_def trigger_services_def)
next
  case (Cons t ts)
  define ds where "ds = (if tr_kind t = kData then tr_data_dependencies t else [])"
  define ss where "ss = (if tr_kind t = kService then tr_service_dependencies t else [])"
  obtain st1 data' where d: "claim_names (shared_message spec ''data topic'' index) index ds data = (st1, data')"
    by (rule prod.exhaust)
  obtain st2 services' where s: "claim_names (shared_message spec ''service'' index) index ss services = (st2, services')"
    by (rule prod.exhaust)
  have step: "status_ok (validate_triggers spec index (t # ts) data services) \<longleftrightarrow>
      status_ok (ValidateTrigger spec t) \<and> status_ok st1 \<and> status_ok st2
      \<and> status_ok (validate_triggers spec (index + 1) ts data' services')"
  proof -
    have "(if tr_kind t = kData
        then claim_names (shared_message spec ''data topic'' index) index (tr_data_dependencies t) data
        else (Status_Ok, data)) = (st1, data')"
      using d by (simp add: ds_def split: if_splits)
    moreover have "(if tr_kind t = kService
        then claim_names (shared_message spec ''service'' index) index (tr_service_dependencies t) services
        else (Status_Ok, services)) = (st2, services')"
      using s by (simp add: ss_def split: if_splits)
    ultimately show ?thesis by (simp add: Let_def)
  qed
  note d' = claim_names_ok [OF Cons.prems(1) not_ok_shared_message d]
  note s' = claim_names_ok [OF Cons.prems(2) not_ok_shared_message s]
  have topics: "data_topics (t # ts) = ds @ data_topics ts" "trigger_services (t # ts) = ss @ trigger_services ts"
    by (auto simp: data_topics_def trigger_services_def ds_def ss_def)
  show ?case
  proof (cases "status_ok st1 \<and> status_ok st2")
    case True
    with d' s' have ok: "omap_ok data'" "omap_ok services'" "fst ` set data' = fst ` set data \<union> set ds"
        "fst ` set services' = fst ` set services \<union> set ss" "distinct ds" "distinct ss"
        "set ds \<inter> fst ` set data = {}" "set ss \<inter> fst ` set services = {}" by simp_all
    have split: "distinct (xs @ ys) \<and> set (xs @ ys) \<inter> A = {} \<longleftrightarrow> distinct ys \<and> set ys \<inter> (A \<union> set xs) = {}"
      if "distinct xs" "set xs \<inter> A = {}" for xs ys :: "topic_name list" and A
      using that by auto
    show ?thesis
      unfolding step Cons.IH [OF ok(1,2)] topics ok(3,4)
      using True split [OF ok(5,7), of "data_topics ts"] split [OF ok(6,8), of "trigger_services ts"] by (simp only: list.set ball_simps) argo
  next
    case False
    with d' s' have "\<not> (distinct ds \<and> set ds \<inter> fst ` set data = {}) \<or> \<not> (distinct ss \<and> set ss \<inter> fst ` set services = {})"
      by simp
    with False show ?thesis unfolding step topics distinct_append set_append by blast
  qed
qed

text \<open>
  The scheduler accepts a component exactly when its specification is valid, every data trigger
  names distinct topics that each have exactly one reader endpoint, every task trigger has a dependency,
  every service trigger names distinct services the component serves, and no topic or service is
  named by two triggers.
\<close>

theorem scheduler_accepts_iff:
  "status_ok (ValidateComponentSpec spec) \<longleftrightarrow>
     status_ok (ComponentSpec_Validate spec)
     \<and> (\<forall>t. t \<in> set (cs_triggers spec) \<and> tr_kind t = kData \<longrightarrow> tr_data_dependencies t \<noteq> [])
     \<and> (\<forall>n. n \<in> set (data_topics (cs_triggers spec)) \<longrightarrow> length (topic_readers spec n) = 1)
     \<and> (\<forall>t. t \<in> set (cs_triggers spec) \<and> tr_kind t = kTaskDependency \<longrightarrow> tr_task_dependencies t \<noteq> [])
     \<and> set (trigger_services (cs_triggers spec)) \<subseteq> sv_name ` set (cs_servers spec)
     \<and> distinct (data_topics (cs_triggers spec)) \<and> distinct (trigger_services (cs_triggers spec))"
proof -
  have one: "length (topic_readers spec n) = 1 \<longleftrightarrow> (\<exists>e. topic_readers spec n = [e])" for n
    by (auto simp: length_Suc_conv)
  have dist: "distinct (tr_data_dependencies t)" if "distinct (data_topics ts)" "t \<in> set ts" "tr_kind t = kData" for t ts
    using that by (induction ts) (auto simp: data_topics_def split: if_splits)
  have dist': "distinct (tr_service_dependencies t)"
    if "distinct (trigger_services ts)" "t \<in> set ts" "tr_kind t = kService" for t ts
    using that by (induction ts) (auto simp: trigger_services_def split: if_splits)
  have triggers: "status_ok (validate_triggers spec 0 (cs_triggers spec) [] []) \<longleftrightarrow>
      (\<forall>t \<in> set (cs_triggers spec). status_ok (ValidateTrigger spec t))
      \<and> distinct (data_topics (cs_triggers spec)) \<and> distinct (trigger_services (cs_triggers spec))"
    by (simp add: status_ok_validate_triggers)
  have each: "\<forall>t \<in> set (cs_triggers spec). status_ok (TriggerSpec_Validate t)"
    if "status_ok (ComponentSpec_Validate spec)" using that by (simp add: status_ok_ComponentSpec_Validate)
  have data: "(\<forall>n. n \<in> set (data_topics (cs_triggers spec)) \<longrightarrow> (\<exists>e. topic_readers spec n = [e])) \<longleftrightarrow>
      (\<forall>t \<in> set (cs_triggers spec). tr_kind t = kData \<longrightarrow> (\<forall>n \<in> set (tr_data_dependencies t). \<exists>e. topic_readers spec n = [e]))"
    by (auto simp: data_topics_def)
  have services: "set (trigger_services (cs_triggers spec)) \<subseteq> sv_name ` set (cs_servers spec) \<longleftrightarrow>
      (\<forall>t \<in> set (cs_triggers spec). tr_kind t = kService \<longrightarrow> set (tr_service_dependencies t) \<subseteq> sv_name ` set (cs_servers spec))"
    by (auto simp: trigger_services_def)
  show ?thesis
    unfolding ValidateComponentSpec_def status_ok_and_then triggers status_ok_ValidateTrigger one data services
    using each dist [of "cs_triggers spec"] dist' [of "cs_triggers spec"]
    by (intro iffI conjI allI ballI impI; (elim conjE)?; blast)
qed

section \<open>Task dependencies\<close>

record trigger_state =
  tg_policy :: dependency_policy
  tg_ready :: "bool list"
  tg_priority :: int
  tg_deadline :: nanoseconds

record task_dependent =
  td_component :: string
  td_trigger_index :: nat
  td_dependency_index :: nat

record scheduled_component =
  sc_spec :: component_spec
  sc_data_trigger_readers :: "nat list"
  sc_data_triggers :: "trigger_state list"
  sc_task_triggers :: "trigger_state list"

type_synonym components = "(string, scheduled_component) omap"
type_synonym dependents = "(string, task_dependent list) omap"

text \<open>\<open>operator[]\<close> on a map: the value, or the default it would insert.\<close>

definition omap_at :: "'v \<Rightarrow> ('k, 'v) omap \<Rightarrow> 'k \<Rightarrow> 'v" where
  "omap_at d m k = (case omap_find m k of None \<Rightarrow> d | Some v \<Rightarrow> v)"

definition trigger_state_of :: "trigger_spec \<Rightarrow> nat \<Rightarrow> trigger_state" where
  "trigger_state_of t n = \<lparr>tg_policy = tr_dependency_policy t, tg_ready = replicate n False,
     tg_priority = tr_priority t, tg_deadline = EffectiveDeadline t\<rparr>"

record installing =
  in_dependents :: dependents
  in_states :: "(string, trigger_state list) omap"
  in_indegree :: "(string, nat) omap"

definition add_dependent :: "string \<Rightarrow> task_dependent \<Rightarrow> installing \<Rightarrow> installing" where
  "add_dependent upstream d acc =
     acc\<lparr>in_dependents := omap_assign upstream (omap_at [] (in_dependents acc) upstream @ [d]) (in_dependents acc),
         in_indegree := omap_assign (td_component d) (omap_at 0 (in_indegree acc) (td_component d) + 1) (in_indegree acc)\<rparr>"

fun install_dependencies :: "components \<Rightarrow> string \<Rightarrow> nat \<Rightarrow> nat \<Rightarrow> string list \<Rightarrow> task_name list \<Rightarrow> installing \<Rightarrow> installing result" where
  "install_dependencies comps name trigger_index index seen [] acc = Inr acc"
| "install_dependencies comps name trigger_index index seen (u # us) acc =
     (if str u = name \<or> str u \<in> set seen
      then Inl (Status_InvalidArgument (''self or duplicate task dependency: '' @ str u))
      else if omap_find comps (str u) = None
      then Inl (Status_InvalidArgument (''task dependency is not registered in scheduler: '' @ str u))
      else install_dependencies comps name trigger_index (index + 1) (str u # seen) us
        (add_dependent (str u) \<lparr>td_component = name, td_trigger_index = trigger_index, td_dependency_index = index\<rparr> acc))"

fun install_triggers :: "components \<Rightarrow> string \<Rightarrow> trigger_spec list \<Rightarrow> installing \<Rightarrow> installing result" where
  "install_triggers comps name [] acc = Inr acc"
| "install_triggers comps name (t # ts) acc =
     (if tr_kind t \<noteq> kTaskDependency then install_triggers comps name ts acc
      else if tr_task_dependencies t = []
      then Inl (Status_InvalidArgument ''task dependency trigger requires at least one task dependency'')
      else let states = omap_at [] (in_states acc) name in
        result_bind
          (install_dependencies comps name (length states) 0 [] (tr_task_dependencies t)
            (acc\<lparr>in_states := omap_assign name (states @ [trigger_state_of t (length (tr_task_dependencies t))]) (in_states acc)\<rparr>))
          (install_triggers comps name ts))"

fun install_components :: "components \<Rightarrow> components \<Rightarrow> installing \<Rightarrow> installing result" where
  "install_components comps [] acc = Inr acc"
| "install_components comps ((name, sc) # cs) acc =
     result_bind (install_triggers comps name (cs_triggers (sc_spec sc)) acc) (install_components comps cs)"

text \<open>
  The loop of Kahn's algorithm. \<open>dec_size\<close> is the decrement of a \<open>std::size_t\<close>, which wraps at zero;
  \<open>release\<close> is the inner loop over the dependents of one component, which \<open>succ\<close> looks up.
\<close>

definition dec_size :: "nat \<Rightarrow> nat" where
  "dec_size n = (if n = 0 then 2 ^ 64 - 1 else n - 1)"

fun release :: "string list \<Rightarrow> (string, nat) omap \<Rightarrow> string list \<Rightarrow> (string, nat) omap \<times> string list" where
  "release [] indegree ready = (indegree, ready)"
| "release (d # ds) indegree ready =
     (let n = dec_size (omap_at 0 indegree d) in
      release ds (omap_assign d n indegree) (if n = 0 then ready @ [d] else ready))"

partial_function (option) kahn :: "(string \<Rightarrow> string list) \<Rightarrow> string list \<Rightarrow> (string, nat) omap \<Rightarrow> nat \<Rightarrow> nat option" where
  "kahn succ ready indegree visited =
     (case ready of
        [] \<Rightarrow> Some visited
      | upstream # rest \<Rightarrow>
          (case release (succ upstream) indegree rest of
             (indegree', ready') \<Rightarrow> kahn succ ready' indegree' (visited + 1)))"

definition InstallTaskTriggers :: "components \<Rightarrow> (components \<times> dependents) result option" where
  "InstallTaskTriggers comps =
     (case install_components comps comps
         \<lparr>in_dependents = [], in_states = [], in_indegree = fold (\<lambda>e. omap_emplace (fst e) 0) comps []\<rparr> of
        Inl st \<Rightarrow> Some (Inl st)
      | Inr acc \<Rightarrow>
          do { visited \<leftarrow> kahn (\<lambda>u. map td_component (omap_at [] (in_dependents acc) u))
                 (map fst (filter (\<lambda>e. snd e = 0) (in_indegree acc))) (in_indegree acc) 0;
               if visited \<noteq> length comps
               then Some (Inl (Status_InvalidArgument ''task dependency graph contains a cycle''))
               else Some (Inr (map (\<lambda>(name, sc). (name, sc\<lparr>sc_task_triggers := omap_at [] (in_states acc) name\<rparr>)) comps,
                               in_dependents acc)) })"

subsection \<open>Kahn's algorithm on an abstract graph\<close>

lemma omap_at_assign: "omap_ok m \<Longrightarrow> omap_at d (omap_assign k v m) k' = (if k' = k then v else omap_at d m k')"
  by (simp add: omap_at_def om.lookup_assign)

lemma release_spec:
  assumes "omap_ok indegree" "\<forall>v. count (mset ds) v \<le> omap_at 0 indegree v"
    "release ds indegree ready = (indegree', ready')"
  shows "omap_ok indegree'
    \<and> (\<forall>v. omap_at 0 indegree' v = omap_at 0 indegree v - count (mset ds) v)
    \<and> (\<exists>ps. ready' = ready @ ps \<and> distinct ps
         \<and> set ps = {v \<in> set ds. omap_at 0 indegree v = count (mset ds) v})"
  using assms
proof (induction ds arbitrary: indegree ready)
  case Nil
  then show ?case by simp
next
  case (Cons d ds)
  define c where "c = d"
  let ?f = "omap_at 0 indegree" and ?n = "count (mset ds)"
  define m where "m = omap_assign c (?f c - 1) indegree"
  from Cons.prems(2) have le: "?n v + (if v = c then 1 else 0) \<le> ?f v" for v by (auto simp: c_def split: if_splits)
  have pos: "0 < ?f c" using le [of c] by simp
  then have dec: "dec_size (?f c) = ?f c - 1" by (simp add: dec_size_def)
  have at: "omap_at 0 m v = ?f v - (if v = c then 1 else 0)" for v
    unfolding m_def using Cons.prems(1) by (simp add: omap_at_assign)
  have ok: "omap_ok m" unfolding m_def using Cons.prems(1) by (rule om.ok_assign)
  define r where "r = (if ?f c - 1 = 0 then ready @ [c] else ready)"
  have run: "release ds m r = (indegree', ready')"
    using Cons.prems(3) by (simp only: release.simps Let_def c_def [symmetric] dec m_def r_def)
  have le': "\<forall>v. ?n v \<le> omap_at 0 m v" 
  proof
    fix v
    show "?n v \<le> omap_at 0 m v" using le [of v] by (simp add: at split: if_splits)
  qed
  from Cons.IH [OF ok le' run] obtain ps where ih: "omap_ok indegree'"
      "\<forall>v. omap_at 0 indegree' v = omap_at 0 m v - ?n v" "ready' = r @ ps" "distinct ps"
      "set ps = {v \<in> set ds. omap_at 0 m v = ?n v}" by blast
  have zero: "c \<notin> set ds" if "?f c - 1 = 0"
  proof -
    have "?n c = 0" using le [of c] that by (simp del: count_mset_0_iff)
    then show ?thesis by (metis count_mset_0_iff)
  qed
  have c0: "?n c = 0 \<longleftrightarrow> c \<notin> set ds" by (metis count_mset_0_iff)
  let ?ps = "if ?f c - 1 = 0 then c # ps else ps"
  have "ready' = ready @ ?ps" using ih(3) by (simp add: r_def)
  moreover have "distinct ?ps" using ih(4,5) zero by auto
  moreover have "set ?ps = {v \<in> set (d # ds). ?f v = count (mset (d # ds)) v}"
  proof (rule set_eqI)
    fix v
    have "v \<in> set ps \<longleftrightarrow> v \<in> set ds \<and> ?f v - (if v = c then 1 else 0) = ?n v" by (simp add: ih(5) at)
    moreover have "v \<in> {v \<in> set (d # ds). ?f v = count (mset (d # ds)) v} \<longleftrightarrow>
        (v = c \<or> v \<in> set ds) \<and> ?f v = ?n v + (if v = c then 1 else 0)" by (auto simp: c_def)
    ultimately show "v \<in> set ?ps \<longleftrightarrow> v \<in> {v \<in> set (d # ds). ?f v = count (mset (d # ds)) v}"
      using zero c0 pos le [of c] by (cases "v = c"; cases "?f c - 1 = 0") (simp_all, auto)
  qed
  moreover have "\<forall>v. omap_at 0 indegree' v = ?f v - count (mset (d # ds)) v"
    using ih(2) at by (auto simp: c_def)
  ultimately show ?case using ih(1) by blast
qed

text \<open>
  The graph: \<open>N\<close> the components, \<open>succ u\<close> the components that depend on \<open>u\<close>, once per dependency. \<open>finished\<close>
  are the components taken off the queue, in order.
\<close>

definition graph_edges :: "'a set \<Rightarrow> ('a \<Rightarrow> 'a list) \<Rightarrow> ('a \<times> 'a) set" where
  "graph_edges N succ = {(u, v). u \<in> N \<and> v \<in> set (succ u)}"

definition open_edges :: "'a set \<Rightarrow> ('a \<Rightarrow> 'a list) \<Rightarrow> 'a list \<Rightarrow> 'a \<Rightarrow> nat" where
  "open_edges N succ finished v = (\<Sum>u \<in> N - set finished. count (mset (succ u)) v)"

definition kahn_inv :: "'a set \<Rightarrow> ('a \<Rightarrow> 'a list) \<Rightarrow> 'a list \<Rightarrow> 'a list \<Rightarrow> ('a \<Rightarrow> nat) \<Rightarrow> bool" where
  "kahn_inv N succ finished ready f \<longleftrightarrow>
     distinct (finished @ ready) \<and> set (finished @ ready) \<subseteq> N
     \<and> f = open_edges N succ finished
     \<and> (\<forall>v \<in> N. v \<in> set (finished @ ready) \<longleftrightarrow> f v = 0)
     \<and> (\<forall>i < length finished. \<forall>u \<in> N. finished ! i \<in> set (succ u) \<longrightarrow> u \<in> set (take i finished))"

lemma open_edges_zero:
  assumes "finite N"
  shows "open_edges N succ finished v = 0 \<longleftrightarrow> (\<forall>u \<in> N - set finished. v \<notin> set (succ u))"
  using assms by (simp add: open_edges_def)

lemma open_edges_snoc:
  assumes "finite N" "u \<in> N" "u \<notin> set finished"
  shows "open_edges N succ finished v = count (mset (succ u)) v + open_edges N succ (finished @ [u]) v"
proof -
  have eq: "N - set finished = insert u (N - set (finished @ [u]))" using assms by auto
  show ?thesis unfolding open_edges_def eq by (subst sum.insert) (simp_all add: assms(1))
qed

lemma kahn_inv_step:
  assumes "finite N" "kahn_inv N succ finished (u # rest) f"
    and f': "\<forall>v. f' v = f v - count (mset (succ u)) v"
    and ps: "distinct ps" "set ps = {v \<in> set (succ u). f v = count (mset (succ u)) v}"
    and closed: "set (succ u) \<subseteq> N"
  shows "kahn_inv N succ (finished @ [u]) (rest @ ps) f'"
proof -
  from assms(2) have inv: "distinct (finished @ u # rest)" "set (finished @ u # rest) \<subseteq> N"
      "f = open_edges N succ finished" "\<forall>v \<in> N. v \<in> set (finished @ u # rest) \<longleftrightarrow> f v = 0"
      "\<forall>i < length finished. \<forall>w \<in> N. finished ! i \<in> set (succ w) \<longrightarrow> w \<in> set (take i finished)"
    unfolding kahn_inv_def by simp_all
  have u: "u \<in> N" "u \<notin> set finished" "f u = 0" using inv(1,2,4) by auto
  have snoc: "f v = count (mset (succ u)) v + open_edges N succ (finished @ [u]) v" for v
    unfolding inv(3) by (rule open_edges_snoc [OF assms(1) u(1,2)])
  have new: "f' = open_edges N succ (finished @ [u])" using f' snoc by (simp add: fun_eq_iff)
  have ps_pos: "0 < f v" if "v \<in> set ps" for v using that ps(2) by (auto simp: count_greater_zero_iff)
  have ps_N: "set ps \<subseteq> N" using ps(2) closed by auto
  have "distinct ((finished @ [u]) @ rest @ ps)"
  proof -
    have "v \<notin> set ps" if "v \<in> set (finished @ u # rest)" for v
    proof -
      have "f v = 0" using that inv(2,4) by blast
      then show ?thesis using ps_pos [of v] by auto
    qed
    with inv(1) ps(1) show ?thesis by auto
  qed
  moreover have "set ((finished @ [u]) @ rest @ ps) \<subseteq> N" using inv(2) ps_N by auto
  moreover have "v \<in> set ((finished @ [u]) @ rest @ ps) \<longleftrightarrow> f' v = 0" if v: "v \<in> N" for v
  proof -
    have "f' v = 0 \<longleftrightarrow> f v = count (mset (succ u)) v" using snoc [of v] f' by auto
    moreover have "f v = count (mset (succ u)) v \<longleftrightarrow> f v = 0 \<or> v \<in> set ps"
    proof -
      have "v \<in> set ps" if "f v = count (mset (succ u)) v" "f v \<noteq> 0"
        using that ps(2) by (metis (mono_tags, lifting) count_mset_0_iff mem_Collect_eq)
      moreover have "f v = count (mset (succ u)) v" if "f v = 0" using snoc [of v] that by simp
      moreover have "f v = count (mset (succ u)) v" if "v \<in> set ps" using ps(2) that by blast
      ultimately show ?thesis by blast
    qed
    ultimately show ?thesis using inv(4) v by auto
  qed
  moreover have "w \<in> set (take i (finished @ [u]))"
    if i: "i < length (finished @ [u])" "w \<in> N" "(finished @ [u]) ! i \<in> set (succ w)" for i w
  proof (cases "i < length finished")
    case True
    with i inv(5) show ?thesis by (simp add: nth_append)
  next
    case False
    with i have "u \<in> set (succ w)" "i = length finished" by (auto simp: nth_append less_Suc_eq)
    with u(3) i(2) inv(3) show ?thesis by (auto simp: open_edges_zero [OF assms(1)])
  qed
  ultimately show ?thesis unfolding kahn_inv_def new by blast
qed

lemma index_less: "u \<in> set (take i xs) \<Longrightarrow> length (takeWhile (\<lambda>x. x \<noteq> u) xs) < i"
proof (induction xs arbitrary: i)
  case Nil
  then show ?case by simp
next
  case (Cons x xs)
  then show ?case by (cases i) auto
qed

text \<open>When the queue is empty, every component was visited exactly if the graph has no cycle.\<close>

lemma kahn_inv_final:
  assumes "finite N" "kahn_inv N succ finished [] f" and closed: "\<forall>u \<in> N. set (succ u) \<subseteq> N"
  shows "length finished = card N \<longleftrightarrow> acyclic (graph_edges N succ)"
proof -
  from assms(2) have inv: "distinct finished" "set finished \<subseteq> N" "\<forall>v \<in> N. v \<in> set finished \<longleftrightarrow> open_edges N succ finished v = 0"
      "\<forall>i < length finished. \<forall>w \<in> N. finished ! i \<in> set (succ w) \<longrightarrow> w \<in> set (take i finished)"
    unfolding kahn_inv_def by simp_all
  have all: "length finished = card N \<longleftrightarrow> set finished = N"
    using inv(1,2) assms(1) by (metis card_subset_eq distinct_card)
  let ?r = "\<lambda>v. length (takeWhile (\<lambda>x. x \<noteq> v) finished)"
  have "acyclic (graph_edges N succ)" if "set finished = N"
  proof -
    have "?r u < ?r v" if e: "(u, v) \<in> graph_edges N succ" for u v
    proof -
      from e closed have "u \<in> N" "v \<in> set (succ u)" "v \<in> set finished" using \<open>set finished = N\<close> by (auto simp: graph_edges_def)
      then have "?r v < length finished" "finished ! ?r v = v"
        using index_less [of v "length finished" finished] nth_length_takeWhile [of "\<lambda>x. x \<noteq> v" finished] by auto
      with inv(4) \<open>u \<in> N\<close> \<open>v \<in> set (succ u)\<close> have "u \<in> set (take (?r v) finished)" by auto
      then show ?thesis by (rule index_less)
    qed
    then have "acyclic ((graph_edges N succ)\<inverse>)" by (intro acyclicI_order [where f = ?r]) simp
    then show ?thesis by simp
  qed
  moreover have "set finished = N" if a: "acyclic (graph_edges N succ)"
  proof (rule ccontr)
    assume "set finished \<noteq> N"
    then obtain x where x: "x \<in> N - set finished" using inv(2) by blast
    have "graph_edges N succ \<subseteq> N \<times> N" using closed by (auto simp: graph_edges_def)
    then have "wf (graph_edges N succ)"
      using a assms(1) by (meson finite_SigmaI finite_acyclic_wf rev_finite_subset)
    then obtain v where v: "v \<in> N - set finished" "\<forall>u. (u, v) \<in> graph_edges N succ \<longrightarrow> u \<notin> N - set finished"
      using x by (metis wfE_min)
    from v(1) inv(3) have "open_edges N succ finished v \<noteq> 0" by blast
    with v(2) show False unfolding open_edges_zero [OF assms(1)] by (auto simp: graph_edges_def)
  qed
  ultimately show ?thesis using all by blast
qed

lemma kahn_run:
  assumes "finite N" "omap_ok indegree" "kahn_inv N succ finished ready (omap_at 0 indegree)"
    and closed: "\<forall>u \<in> N. set (succ u) \<subseteq> N"
  shows "\<exists>finished' f. kahn succ ready indegree (length finished) = Some (length finished')
    \<and> kahn_inv N succ finished' [] f"
  using assms(2,3)
proof (induction "card N - length finished" arbitrary: finished ready indegree rule: less_induct)
  case less
  show ?case
  proof (cases ready)
    case Nil
    with less.prems(2) show ?thesis by (subst kahn.simps) auto
  next
    case (Cons u rest)
    from less.prems(2) have len: "distinct (finished @ ready)" "set (finished @ ready) \<subseteq> N"
      and u: "u \<in> N" "u \<notin> set finished" and f: "omap_at 0 indegree = open_edges N succ finished"
      unfolding kahn_inv_def Cons by auto
    obtain indegree' ready' where r: "release (succ u) indegree rest = (indegree', ready')" by fastforce
    have "\<forall>v. count (mset (succ u)) v \<le> omap_at 0 indegree v"
      unfolding f using open_edges_snoc [OF assms(1) u, of succ] by auto
    from release_spec [OF less.prems(1) this r] obtain ps where ps: "omap_ok indegree'" "ready' = rest @ ps" "distinct ps"
        "\<forall>v. omap_at 0 indegree' v = omap_at 0 indegree v - count (mset (succ u)) v"
        "set ps = {v \<in> set (succ u). omap_at 0 indegree v = count (mset (succ u)) v}"
      by auto
    have next_inv: "kahn_inv N succ (finished @ [u]) ready' (omap_at 0 indegree')"
      unfolding ps(2) using less.prems(2) closed u(1)
      by (intro kahn_inv_step [OF assms(1), where f = "omap_at 0 indegree"]) (simp_all add: Cons ps(3-5))
    have "length finished < card N"
    proof -
      have "length (finished @ [u]) \<le> card N"
        using len u assms(1) Cons by (metis append.assoc append_Cons append_Nil card_mono distinct_append distinct_card
            le_sup_iff set_append)
      then show ?thesis by simp
    qed
    then have "card N - length (finished @ [u]) < card N - length finished" by simp
    from less.hyps [OF this ps(1) next_inv] r show ?thesis by (subst kahn.simps) (simp add: Cons)
  qed
qed

text \<open>Put together: the loop on the graph of a list of edges, from the maps that the passes below build.\<close>

lemma sum_edges:
  assumes "finite N" "\<forall>e \<in> set es. fst e \<in> N"
  shows "(\<Sum>u \<in> N. count (mset (map snd (filter (\<lambda>e. fst e = u) es))) v) = length (filter (\<lambda>e. snd e = v) es)"
  using assms(2)
proof (induction es)
  case Nil
  then show ?case by simp
next
  case (Cons e es)
  have "(\<Sum>u \<in> N. count (mset (map snd (filter (\<lambda>x. fst x = u) (e # es)))) v)
      = (\<Sum>u \<in> N. count (mset (map snd (filter (\<lambda>x. fst x = u) es))) v
           + (if u = fst e then if snd e = v then 1 else 0 else 0))"
    by (rule sum.cong) auto
  also have "\<dots> = length (filter (\<lambda>x. snd x = v) (e # es))"
    using Cons assms(1) by (simp add: sum.distrib)
  finally show ?case .
qed

lemma kahn_decides:
  assumes ok: "omap_ok indegree" and keys: "fst ` set indegree = N" and es: "\<forall>(u, v) \<in> set es. u \<in> N \<and> v \<in> N"
    and succ: "\<And>u. succ u = map snd (filter (\<lambda>e. fst e = u) es)"
    and indegree: "\<And>v. omap_at 0 indegree v = length (filter (\<lambda>e. snd e = v) es)"
  shows "\<exists>visited. kahn succ (map fst (filter (\<lambda>e. snd e = 0) indegree)) indegree 0 = Some visited
    \<and> (visited = card N \<longleftrightarrow> acyclic (set es))"
proof -
  let ?ready = "map fst (filter (\<lambda>e. snd e = 0) indegree)"
  have "finite N" unfolding keys [symmetric] by simp
  have f: "omap_at 0 indegree = open_edges N succ []"
    using sum_edges [OF \<open>finite N\<close>, of es] es by (simp add: fun_eq_iff open_edges_def succ indegree split_beta)
  have "set ?ready = {v \<in> N. omap_at 0 indegree v = 0}"
    using omap_in_find [OF ok] unfolding keys [symmetric] by (force simp: omap_at_def)
  moreover have "distinct ?ready" using omap_ok_distinct [OF omap_ok_filter [OF ok]] .
  ultimately have inv: "kahn_inv N succ [] ?ready (omap_at 0 indegree)" using f unfolding kahn_inv_def by auto
  have closed: "\<forall>u \<in> N. set (succ u) \<subseteq> N" using es by (auto simp: succ)
  have graph: "graph_edges N succ = set es" using es by (force simp: graph_edges_def succ)
  from kahn_run [OF \<open>finite N\<close> ok inv closed] obtain finished g
    where k: "kahn succ ?ready indegree 0 = Some (length finished)" "kahn_inv N succ finished [] g" by auto
  from kahn_inv_final [OF \<open>finite N\<close> k(2) closed] k(1) graph show ?thesis by simp
qed

subsection \<open>What the passes over the declarations build\<close>

definition dependency_entries :: "string \<Rightarrow> nat \<Rightarrow> nat \<Rightarrow> task_name list \<Rightarrow> (string \<times> task_dependent) list" where
  "dependency_entries name trigger_index k us =
     map (\<lambda>(i, u). (str u, \<lparr>td_component = name, td_trigger_index = trigger_index, td_dependency_index = i\<rparr>)) (enumerate k us)"

fun trigger_entries :: "string \<Rightarrow> nat \<Rightarrow> trigger_spec list \<Rightarrow> (string \<times> task_dependent) list" where
  "trigger_entries name k [] = []"
| "trigger_entries name k (t # ts) =
     (if tr_kind t \<noteq> kTaskDependency then trigger_entries name k ts
      else dependency_entries name k 0 (tr_task_dependencies t) @ trigger_entries name (k + 1) ts)"

definition task_entries :: "components \<Rightarrow> (string \<times> task_dependent) list" where
  "task_entries comps = concat (map (\<lambda>(name, sc). trigger_entries name 0 (cs_triggers (sc_spec sc))) comps)"

definition task_states :: "trigger_spec list \<Rightarrow> trigger_state list" where
  "task_states ts = map (\<lambda>t. trigger_state_of t (length (tr_task_dependencies t))) (filter (\<lambda>t. tr_kind t = kTaskDependency) ts)"

definition dependencies_ok :: "components \<Rightarrow> string \<Rightarrow> trigger_spec \<Rightarrow> bool" where
  "dependencies_ok comps name t \<longleftrightarrow> tr_kind t = kTaskDependency \<longrightarrow>
     tr_task_dependencies t \<noteq> [] \<and> name \<notin> str ` set (tr_task_dependencies t)
     \<and> distinct (map str (tr_task_dependencies t))
     \<and> (\<forall>u \<in> set (tr_task_dependencies t). omap_find comps (str u) \<noteq> None)"

definition all_dependencies_ok :: "components \<Rightarrow> bool" where
  "all_dependencies_ok comps \<longleftrightarrow> (\<forall>(name, sc) \<in> set comps. \<forall>t \<in> set (cs_triggers (sc_spec sc)). dependencies_ok comps name t)"

definition installing_ok :: "installing \<Rightarrow> bool" where
  "installing_ok acc \<longleftrightarrow> omap_ok (in_dependents acc) \<and> omap_ok (in_states acc) \<and> omap_ok (in_indegree acc)"

abbreviation add_entries :: "(string \<times> task_dependent) list \<Rightarrow> installing \<Rightarrow> installing" where
  "add_entries es acc \<equiv> fold (\<lambda>(u, d). add_dependent u d) es acc"

lemma add_dependent_frame:
  "in_states (add_dependent u d acc) = in_states acc"
  "add_dependent u d (acc\<lparr>in_states := x\<rparr>) = (add_dependent u d acc)\<lparr>in_states := x\<rparr>"
  by (cases acc; simp add: add_dependent_def)+

lemma add_entries_frame:
  "in_states (add_entries es acc) = in_states acc"
  "add_entries es (acc\<lparr>in_states := x\<rparr>) = (add_entries es acc)\<lparr>in_states := x\<rparr>"
  by (induction es arbitrary: acc) (auto simp: add_dependent_frame)

lemma task_states_simps [simp]:
  "task_states [] = []"
  "task_states (t # ts) = (if tr_kind t = kTaskDependency
     then trigger_state_of t (length (tr_task_dependencies t)) # task_states ts else task_states ts)"
  by (simp_all add: task_states_def)

lemma add_entries_spec:
  assumes "installing_ok acc"
  shows "installing_ok (add_entries es acc)
    \<and> (\<forall>u. omap_at [] (in_dependents (add_entries es acc)) u
         = omap_at [] (in_dependents acc) u @ map snd (filter (\<lambda>e. fst e = u) es))
    \<and> (\<forall>v. omap_at 0 (in_indegree (add_entries es acc)) v
         = omap_at 0 (in_indegree acc) v + length (filter (\<lambda>e. td_component (snd e) = v) es))
    \<and> fst ` set (in_indegree (add_entries es acc)) = fst ` set (in_indegree acc) \<union> (td_component \<circ> snd) ` set es"
  using assms
proof (induction es arbitrary: acc)
  case Nil
  then show ?case by simp
next
  case (Cons e es)
  obtain u d where e: "e = (u, d)" by fastforce
  have ok: "installing_ok (add_dependent u d acc)"
    using Cons.prems by (simp add: installing_ok_def add_dependent_def om.ok_assign)
  from Cons.prems have at: "omap_at [] (in_dependents (add_dependent u d acc)) w
        = omap_at [] (in_dependents acc) w @ (if w = u then [d] else [])"
      "omap_at 0 (in_indegree (add_dependent u d acc)) v
        = omap_at 0 (in_indegree acc) v + (if v = td_component d then 1 else 0)"
      "fst ` set (in_indegree (add_dependent u d acc)) = insert (td_component d) (fst ` set (in_indegree acc))" for v w
    by (simp_all add: installing_ok_def add_dependent_def omap_at_assign set_omap_assign)
  show ?case using Cons.IH [OF ok] at by (simp add: e)
qed

definition names_ok :: "components \<Rightarrow> string \<Rightarrow> string list \<Rightarrow> string list \<Rightarrow> bool" where
  "names_ok comps name seen us \<longleftrightarrow> name \<notin> set us \<and> distinct us \<and> set us \<inter> set seen = {}
     \<and> (\<forall>u \<in> set us. omap_find comps u \<noteq> None)"

lemma names_ok_Cons:
  "names_ok comps name seen (u # us) \<longleftrightarrow>
     \<not> (u = name \<or> u \<in> set seen) \<and> omap_find comps u \<noteq> None \<and> names_ok comps name (u # seen) us"
  by (auto simp: names_ok_def)

lemma install_dependencies_eq:
  "names_ok comps name seen (map str us) \<Longrightarrow>
     install_dependencies comps name ti k seen us acc = Inr (add_entries (dependency_entries name ti k us) acc)"
  by (induction us arbitrary: k seen acc) (simp_all add: dependency_entries_def names_ok_Cons)

lemma install_dependencies_Inr:
  "install_dependencies comps name ti k seen us acc = Inr acc' \<Longrightarrow> names_ok comps name seen (map str us)"
proof (induction us arbitrary: k seen acc)
  case Nil
  then show ?case by (simp add: names_ok_def)
next
  case (Cons u us)
  then show ?case by (simp add: names_ok_Cons split: if_splits)
qed

lemma install_dependencies_cases:
  assumes "tr_kind t = kTaskDependency" "tr_task_dependencies t \<noteq> []"
  shows "dependencies_ok comps name t \<Longrightarrow>
      install_dependencies comps name ti 0 [] (tr_task_dependencies t) acc
      = Inr (add_entries (dependency_entries name ti 0 (tr_task_dependencies t)) acc)"
    and "install_dependencies comps name ti 0 [] (tr_task_dependencies t) acc = Inr acc' \<Longrightarrow> dependencies_ok comps name t"
  using install_dependencies_eq [of comps name "[]" "tr_task_dependencies t" ti 0 acc]
    install_dependencies_Inr [of comps name ti 0 "[]" "tr_task_dependencies t" acc acc'] assms
  by (simp_all add: dependencies_ok_def names_ok_def)

lemma install_triggers_spec:
  assumes "installing_ok acc" "\<forall>t \<in> set ts. dependencies_ok comps name t"
  shows "\<exists>acc'. install_triggers comps name ts acc = Inr acc' \<and> omap_ok (in_states acc')
    \<and> acc'\<lparr>in_states := []\<rparr>
      = (add_entries (trigger_entries name (length (omap_at [] (in_states acc) name)) ts) acc)\<lparr>in_states := []\<rparr>
    \<and> (\<forall>n. omap_at [] (in_states acc') n = omap_at [] (in_states acc) n @ (if n = name then task_states ts else []))"
  using assms
proof (induction ts arbitrary: acc)
  case Nil
  then show ?case by (simp add: installing_ok_def)
next
  case (Cons t ts)
  let ?sts = "omap_at [] (in_states acc) name"
  show ?case
  proof (cases "tr_kind t = kTaskDependency")
    case False
    with Cons.IH [OF Cons.prems(1)] Cons.prems(2) show ?thesis by (simp cong: if_cong)
  next
    case True
    with Cons.prems(2) have ne: "tr_task_dependencies t \<noteq> []" by (simp add: dependencies_ok_def)
    define new where "new = omap_assign name (?sts @ [trigger_state_of t (length (tr_task_dependencies t))]) (in_states acc)"
    let ?es = "dependency_entries name (length ?sts) 0 (tr_task_dependencies t)"
    define acc1 where "acc1 = add_entries ?es (acc\<lparr>in_states := new\<rparr>)"
    have oks: "omap_ok (in_states acc)" using Cons.prems(1) by (simp add: installing_ok_def)
    have ok1: "installing_ok (acc\<lparr>in_states := new\<rparr>)"
      using Cons.prems(1) by (simp add: installing_ok_def new_def om.ok_assign)
    have ok: "installing_ok acc1" unfolding acc1_def using add_entries_spec [OF ok1] by blast
    have at1: "omap_at [] (in_states acc1) n
        = omap_at [] (in_states acc) n @ (if n = name then [trigger_state_of t (length (tr_task_dependencies t))] else [])" for n
      using oks by (simp add: acc1_def add_entries_frame new_def omap_at_assign)
    from Cons.IH [OF ok] Cons.prems(2) obtain acc' where acc': "install_triggers comps name ts acc1 = Inr acc'"
        "omap_ok (in_states acc')"
        "acc'\<lparr>in_states := []\<rparr>
          = (add_entries (trigger_entries name (length (omap_at [] (in_states acc1) name)) ts) acc1)\<lparr>in_states := []\<rparr>"
        "\<forall>n. omap_at [] (in_states acc') n = omap_at [] (in_states acc1) n @ (if n = name then task_states ts else [])"
      by auto
    have "install_triggers comps name (t # ts) acc = Inr acc'"
      using True ne acc'(1) install_dependencies_cases(1) [OF True ne, of comps name "length ?sts"] Cons.prems(2)
      by (simp add: Let_def new_def acc1_def)
    moreover have "acc'\<lparr>in_states := []\<rparr>
        = (add_entries (trigger_entries name (length ?sts) (t # ts)) acc)\<lparr>in_states := []\<rparr>"
    proof -
      have "length (omap_at [] (in_states acc1) name) = Suc (length ?sts)" by (simp add: at1)
      then show ?thesis unfolding acc'(3) using True by (simp add: acc1_def add_entries_frame)
    qed
    moreover have "\<forall>n. omap_at [] (in_states acc') n
        = omap_at [] (in_states acc) n @ (if n = name then task_states (t # ts) else [])"
      using acc'(4) True by (simp add: at1)
    ultimately show ?thesis using acc'(2) by blast
  qed
qed

lemma install_triggers_Inr:
  "install_triggers comps name ts acc = Inr acc' \<Longrightarrow> \<forall>t \<in> set ts. dependencies_ok comps name t"
proof (induction ts arbitrary: acc)
  case Nil
  then show ?case by simp
next
  case (Cons t ts)
  show ?case
  proof (cases "tr_kind t = kTaskDependency")
    case False
    with Cons show ?thesis by (simp add: dependencies_ok_def)
  next
    case True
    with Cons.prems have ne: "tr_task_dependencies t \<noteq> []" by (auto split: if_splits)
    with True Cons.prems obtain acc1 acc2 where
      "install_dependencies comps name (length (omap_at [] (in_states acc) name)) 0 [] (tr_task_dependencies t) acc1 = Inr acc2"
      "install_triggers comps name ts acc2 = Inr acc'" by (auto simp: Let_def)
    with Cons.IH install_dependencies_cases(2) [OF True ne] show ?thesis by auto
  qed
qed

lemma entries_component: "e \<in> set (trigger_entries name k ts) \<Longrightarrow> td_component (snd e) = name"
  by (induction name k ts rule: trigger_entries.induct) (auto simp: dependency_entries_def split: if_splits)

lemma install_components_spec:
  assumes "installing_ok acc" "distinct (map fst cs)" "\<forall>(name, sc) \<in> set cs. omap_at [] (in_states acc) name = []"
    "\<forall>(name, sc) \<in> set cs. \<forall>t \<in> set (cs_triggers (sc_spec sc)). dependencies_ok comps name t"
  shows "\<exists>acc'. install_components comps cs acc = Inr acc' \<and> omap_ok (in_states acc')
    \<and> acc'\<lparr>in_states := []\<rparr> = (add_entries (task_entries cs) acc)\<lparr>in_states := []\<rparr>
    \<and> (\<forall>(name, sc) \<in> set cs. omap_at [] (in_states acc') name = task_states (cs_triggers (sc_spec sc)))
    \<and> (\<forall>n. n \<notin> fst ` set cs \<longrightarrow> omap_at [] (in_states acc') n = omap_at [] (in_states acc) n)"
  using assms
proof (induction cs arbitrary: acc)
  case Nil
  then show ?case by (simp add: task_entries_def installing_ok_def)
next
  case (Cons c cs)
  obtain name sc where c: "c = (name, sc)" by fastforce
  from install_triggers_spec [OF Cons.prems(1), of "cs_triggers (sc_spec sc)" comps name] Cons.prems(3,4)
  obtain acc1 where acc1: "install_triggers comps name (cs_triggers (sc_spec sc)) acc = Inr acc1" "omap_ok (in_states acc1)"
      "acc1\<lparr>in_states := []\<rparr> = (add_entries (trigger_entries name 0 (cs_triggers (sc_spec sc))) acc)\<lparr>in_states := []\<rparr>"
      "\<forall>n. omap_at [] (in_states acc1) n = omap_at [] (in_states acc) n @ (if n = name then task_states (cs_triggers (sc_spec sc)) else [])"
    by (auto simp: c)
  have "installing_ok (acc1\<lparr>in_states := []\<rparr>)"
    unfolding acc1(3) using add_entries_spec [OF Cons.prems(1)] by (simp add: installing_ok_def)
  with acc1(2) have ok: "installing_ok acc1" by (simp add: installing_ok_def)
  have fresh: "\<forall>(n, s) \<in> set cs. omap_at [] (in_states acc1) n = []"
  proof clarify
    fix n s assume n: "(n, s) \<in> set cs"
    then have "n \<noteq> name" using Cons.prems(2) by (auto simp: c image_iff)
    then show "omap_at [] (in_states acc1) n = []" using n Cons.prems(3) acc1(4) by (auto simp: c)
  qed
  from Cons.IH [OF ok _ fresh] Cons.prems(2,4) obtain acc' where acc': "install_components comps cs acc1 = Inr acc'"
      "omap_ok (in_states acc')" "acc'\<lparr>in_states := []\<rparr> = (add_entries (task_entries cs) acc1)\<lparr>in_states := []\<rparr>"
      "\<forall>(n, s) \<in> set cs. omap_at [] (in_states acc') n = task_states (cs_triggers (sc_spec s))"
      "\<forall>n. n \<notin> fst ` set cs \<longrightarrow> omap_at [] (in_states acc') n = omap_at [] (in_states acc1) n"
    by (auto simp: c)
  have "add_entries (task_entries cs) (acc1\<lparr>in_states := []\<rparr>)
      = add_entries (task_entries (c # cs)) (acc\<lparr>in_states := []\<rparr>)"
    unfolding acc1(3) by (simp add: task_entries_def c add_entries_frame)
  then have "acc'\<lparr>in_states := []\<rparr> = (add_entries (task_entries (c # cs)) acc)\<lparr>in_states := []\<rparr>"
    unfolding acc'(3) by (simp add: add_entries_frame)
  moreover have "omap_at [] (in_states acc') name = task_states (cs_triggers (sc_spec sc))"
    using acc'(5) acc1(4) Cons.prems(2,3) by (auto simp: c)
  moreover have "install_components comps (c # cs) acc = Inr acc'" using acc1(1) acc'(1) by (simp add: c)
  ultimately show ?case using acc'(2,4,5) acc1(4) by (auto simp: c)
qed

lemma install_components_Inr:
  "install_components comps cs acc = Inr acc' \<Longrightarrow>
     \<forall>(name, sc) \<in> set cs. \<forall>t \<in> set (cs_triggers (sc_spec sc)). dependencies_ok comps name t"
  by (induction comps cs acc rule: install_components.induct) (fastforce dest: install_triggers_Inr)+

text \<open>The dependency relation the declarations state: \<open>v\<close> has a task trigger on \<open>u\<close>.\<close>

definition task_edges :: "components \<Rightarrow> (string \<times> string) set" where
  "task_edges comps = {(u, v). \<exists>sc t. (v, sc) \<in> set comps \<and> t \<in> set (cs_triggers (sc_spec sc))
     \<and> tr_kind t = kTaskDependency \<and> u \<in> str ` set (tr_task_dependencies t)}"

lemma trigger_entries_sources:
  "fst ` set (trigger_entries name k ts) =
     {u. \<exists>t \<in> set ts. tr_kind t = kTaskDependency \<and> u \<in> str ` set (tr_task_dependencies t)}"
proof (induction name k ts rule: trigger_entries.induct)
  case (2 name k t ts)
  have "fst ` set (dependency_entries name k 0 us) = str ` set us" for us
  proof -
    have "map fst (dependency_entries name k 0 us) = map (str \<circ> snd) (enumerate 0 us)"
      by (simp add: dependency_entries_def case_prod_beta comp_def)
    also have "\<dots> = map str us" by (simp flip: map_map)
    finally show ?thesis by (metis list.set_map)
  qed
  with 2 show ?case by (auto simp: image_Un)
qed simp

lemma task_entries_edges: "(u, v) \<in> task_edges comps \<longleftrightarrow> (\<exists>d. (u, d) \<in> set (task_entries comps) \<and> td_component d = v)"
proof
  assume "(u, v) \<in> task_edges comps"
  then obtain sc where sc: "(v, sc) \<in> set comps" "u \<in> fst ` set (trigger_entries v 0 (cs_triggers (sc_spec sc)))"
    unfolding task_edges_def trigger_entries_sources by blast
  then obtain d where d: "(u, d) \<in> set (trigger_entries v 0 (cs_triggers (sc_spec sc)))" by auto
  with sc(1) show "\<exists>d. (u, d) \<in> set (task_entries comps) \<and> td_component d = v"
    using entries_component [OF d] by (force simp: task_entries_def)
next
  assume "\<exists>d. (u, d) \<in> set (task_entries comps) \<and> td_component d = v"
  then obtain d n sc where d: "(n, sc) \<in> set comps" "(u, d) \<in> set (trigger_entries n 0 (cs_triggers (sc_spec sc)))"
      "td_component d = v" by (auto simp: task_entries_def)
  then have "n = v" using entries_component [OF d(2)] by simp
  moreover have "u \<in> fst ` set (trigger_entries n 0 (cs_triggers (sc_spec sc)))" using d(2) by force
  ultimately show "(u, v) \<in> task_edges comps" using d(1) unfolding trigger_entries_sources task_edges_def by blast
qed

lemma initial_indegree:
  "omap_ok m \<Longrightarrow> \<forall>v. omap_at 0 m v = (0 :: nat) \<Longrightarrow>
     omap_ok (fold (\<lambda>e. omap_emplace (fst e) 0) cs m)
     \<and> (\<forall>v. omap_at 0 (fold (\<lambda>e. omap_emplace (fst e) 0) cs m) v = 0)
     \<and> fst ` set (fold (\<lambda>e. omap_emplace (fst e) 0) cs m) = fst ` set m \<union> fst ` set cs"
proof (induction cs arbitrary: m)
  case Nil
  then show ?case by simp
next
  case (Cons c cs)
  have keys: "fst ` set (omap_emplace (fst c) 0 m) = insert (fst c) (fst ` set m)"
    using omap_find_keys [of "fst c" m]
    by (auto simp: omap_emplace_def omap_keys_def set_omap_assign split: option.splits)
  have "\<forall>v. omap_at 0 (omap_emplace (fst c) 0 m) v = 0"
    using Cons.prems by (simp add: omap_at_def omap_find_emplace)
  from Cons.IH [OF omap_ok_emplace [OF Cons.prems(1)] this] show ?case by (simp add: keys)
qed

lemma install_acyclic:
  assumes comps: "omap_ok comps" and deps: "all_dependencies_ok comps"
    and acc: "acc\<lparr>in_states := []\<rparr> = (add_entries (task_entries comps)
      \<lparr>in_dependents = [], in_states = [], in_indegree = fold (\<lambda>e. omap_emplace (fst e) 0) comps []\<rparr>)\<lparr>in_states := []\<rparr>"
  shows "\<exists>visited. kahn (\<lambda>u. map td_component (omap_at [] (in_dependents acc) u)) (map fst (filter (\<lambda>e. snd e = 0) (in_indegree acc))) (in_indegree acc) 0 = Some visited
    \<and> (visited = length comps \<longleftrightarrow> acyclic (task_edges comps))"
proof -
  let ?acc0 = "\<lparr>in_dependents = [], in_states = [], in_indegree = fold (\<lambda>e. omap_emplace (fst e) 0) comps []\<rparr>"
  let ?es = "task_entries comps"
  let ?pairs = "map (\<lambda>(u, d). (u, td_component d)) ?es"
  define N where "N = fst ` set comps"
  have init: "omap_ok (in_indegree ?acc0)" "\<forall>v. omap_at 0 (in_indegree ?acc0) v = 0" "fst ` set (in_indegree ?acc0) = N"
    using initial_indegree [of "[]" comps] by (auto simp: N_def omap_at_def)
  have "installing_ok ?acc0" using init(1) by (simp add: installing_ok_def)
  note spec = add_entries_spec [OF this, of ?es]
  have fields: "in_dependents acc = in_dependents (add_entries ?es ?acc0)" "in_indegree acc = in_indegree (add_entries ?es ?acc0)"
    using arg_cong [OF acc, of in_dependents] arg_cong [OF acc, of in_indegree] by simp_all
  have edges: "(u, v) \<in> task_edges comps \<Longrightarrow> u \<in> N \<and> v \<in> N" for u v
  proof -
    assume "(u, v) \<in> task_edges comps"
    then obtain sc t x where t: "(v, sc) \<in> set comps" "t \<in> set (cs_triggers (sc_spec sc))" "tr_kind t = kTaskDependency"
        "x \<in> set (tr_task_dependencies t)" "u = str x" unfolding task_edges_def by blast
    with deps have "dependencies_ok comps v t" unfolding all_dependencies_ok_def by blast
    with t have "omap_find comps u \<noteq> None" by (simp add: dependencies_ok_def)
    then have "u \<in> N" unfolding omap_find_keys [symmetric] omap_keys_def N_def by simp
    moreover have "v \<in> N" using t(1) by (force simp: N_def)
    ultimately show ?thesis by blast
  qed
  have pairs: "set ?pairs = task_edges comps" by (force simp: task_entries_edges image_iff)
  have entry: "td_component (snd e) \<in> N" if "e \<in> set ?es" for e
    using edges [of "fst e" "td_component (snd e)"] that task_entries_edges [of "fst e" "td_component (snd e)" comps] by force
  have "omap_ok (in_indegree acc)" using spec unfolding fields(2) installing_ok_def by blast
  moreover have "fst ` set (in_indegree acc) = N" using spec init(3) entry unfolding fields(2) by auto
  moreover have "\<forall>(u, v) \<in> set ?pairs. u \<in> N \<and> v \<in> N" using edges unfolding pairs by blast
  moreover have "map td_component (omap_at [] (in_dependents acc) u) = map snd (filter (\<lambda>e. fst e = u) ?pairs)" for u
    using spec unfolding fields(1) by (simp add: omap_at_def filter_map comp_def split_beta)
  moreover have "omap_at 0 (in_indegree acc) v = length (filter (\<lambda>e. snd e = v) ?pairs)" for v
    using spec init(2) unfolding fields(2) by (simp add: filter_map comp_def split_beta)
  moreover have "card N = length comps"
    unfolding N_def using omap_ok_distinct [OF comps] by (metis distinct_card length_map list.set_map)
  ultimately show ?thesis using kahn_decides [of "in_indegree acc" N ?pairs] unfolding pairs by metis
qed

lemma install_errors:
  "install_dependencies comps name ti k seen us acc = Inl st \<Longrightarrow> st_code st = kInvalidArgument"
  "install_triggers comps name ts acc = Inl st \<Longrightarrow> st_code st = kInvalidArgument"
  "install_components comps cs acc = Inl st \<Longrightarrow> st_code st = kInvalidArgument"
proof -
  have d: "st_code st = kInvalidArgument" if "install_dependencies comps name ti k seen us acc = Inl st" for name ti k seen us acc
    using that by (induction us arbitrary: k seen acc) (auto split: if_splits)
  have t: "st_code st = kInvalidArgument" if "install_triggers comps name ts acc = Inl st" for name ts acc
    using that
  proof (induction ts arbitrary: acc)
    case (Cons t ts)
    then show ?case
      by (auto simp: Let_def result_bind_def split: if_splits sum.splits dest: d)
  qed simp
  have "st_code st = kInvalidArgument" if "install_components comps cs acc = Inl st" for cs acc
    using that
  proof (induction cs arbitrary: acc)
    case (Cons c cs)
    then show ?case by (cases c) (auto simp: result_bind_def split: sum.splits dest: t)
  qed simp
  with d t show "install_dependencies comps name ti k seen us acc = Inl st \<Longrightarrow> st_code st = kInvalidArgument"
    "install_triggers comps name ts acc = Inl st \<Longrightarrow> st_code st = kInvalidArgument"
    "install_components comps cs acc = Inl st \<Longrightarrow> st_code st = kInvalidArgument" by blast+
qed

lemma InstallTaskTriggers_cases:
  assumes "omap_ok comps"
  obtains (refused) st where "InstallTaskTriggers comps = Some (Inl st)" "st_code st = kInvalidArgument"
      "\<not> (all_dependencies_ok comps \<and> acyclic (task_edges comps))"
    | (installed) comps' dependents where "InstallTaskTriggers comps = Some (Inr (comps', dependents))"
      "all_dependencies_ok comps" "acyclic (task_edges comps)"
      "comps' = map (\<lambda>(name, sc). (name, sc\<lparr>sc_task_triggers := task_states (cs_triggers (sc_spec sc))\<rparr>)) comps"
      "omap_ok dependents" "\<forall>u. omap_at [] dependents u = map snd (filter (\<lambda>e. fst e = u) (task_entries comps))"
proof -
  let ?acc0 = "\<lparr>in_dependents = [], in_states = [], in_indegree = fold (\<lambda>e. omap_emplace (fst e) 0) comps []\<rparr>"
  have ok0: "installing_ok ?acc0" using initial_indegree [of "[]" comps] by (simp add: installing_ok_def omap_at_def)
  show thesis
  proof (cases "install_components comps comps ?acc0")
    case (Inl st)
    then have "\<not> all_dependencies_ok comps"
      using install_components_spec [OF ok0 omap_ok_distinct [OF assms], of comps]
      by (auto simp: all_dependencies_ok_def omap_at_def)
    with Inl install_errors(3) [OF Inl] show thesis by (intro refused [of st]) (simp_all add: InstallTaskTriggers_def)
  next
    case (Inr acc)
    then have deps: "all_dependencies_ok comps" using install_components_Inr by (simp add: all_dependencies_ok_def)
    then obtain acc1 where "install_components comps comps ?acc0 = Inr acc1"
        "acc1\<lparr>in_states := []\<rparr> = (add_entries (task_entries comps) ?acc0)\<lparr>in_states := []\<rparr>"
        "\<forall>(name, sc) \<in> set comps. omap_at [] (in_states acc1) name = task_states (cs_triggers (sc_spec sc))"
      using install_components_spec [OF ok0 omap_ok_distinct [OF assms], of comps]
      by (auto simp: all_dependencies_ok_def omap_at_def)
    with Inr have acc: "acc\<lparr>in_states := []\<rparr> = (add_entries (task_entries comps) ?acc0)\<lparr>in_states := []\<rparr>"
        "\<forall>(name, sc) \<in> set comps. omap_at [] (in_states acc) name = task_states (cs_triggers (sc_spec sc))" by auto
    from install_acyclic [OF assms deps acc(1)] obtain visited where
      v: "kahn (\<lambda>u. map td_component (omap_at [] (in_dependents acc) u)) (map fst (filter (\<lambda>e. snd e = 0) (in_indegree acc))) (in_indegree acc) 0 = Some visited"
        "visited = length comps \<longleftrightarrow> acyclic (task_edges comps)" by blast
    show thesis
    proof (cases "acyclic (task_edges comps)")
      case True
      let ?comps' = "map (\<lambda>(name, sc). (name, sc\<lparr>sc_task_triggers := omap_at [] (in_states acc) name\<rparr>)) comps"
      have "InstallTaskTriggers comps = Some (Inr (?comps', in_dependents acc))"
        using Inr v True by (simp add: InstallTaskTriggers_def)
      moreover have "?comps' = map (\<lambda>(name, sc). (name, sc\<lparr>sc_task_triggers := task_states (cs_triggers (sc_spec sc))\<rparr>)) comps"
        using acc(2) by (intro map_cong) auto
      moreover have "in_dependents acc = in_dependents (add_entries (task_entries comps) ?acc0)"
        using arg_cong [OF acc(1), of in_dependents] by simp
      ultimately show thesis
        using add_entries_spec [OF ok0, of "task_entries comps"] deps True
        by (intro installed) (auto simp: installing_ok_def omap_at_def)
    next
      case False
      with Inr v show thesis
        by (intro refused [of "Status_InvalidArgument ''task dependency graph contains a cycle''"])
          (simp_all add: InstallTaskTriggers_def)
    qed
  qed
qed

text \<open>
  C17. Installing the task triggers always returns. It succeeds exactly when every task trigger names
  registered components other than its own, each once, and the dependency graph has no cycle;
  otherwise it reports an invalid argument and installs nothing.
\<close>

theorem task_triggers_installed_iff_acyclic:
  assumes "omap_ok comps"
  shows "(\<exists>installed. InstallTaskTriggers comps = Some (Inr installed))
      \<and> all_dependencies_ok comps \<and> acyclic (task_edges comps)
    \<or> (\<exists>st. InstallTaskTriggers comps = Some (Inl st) \<and> st_code st = kInvalidArgument)
      \<and> \<not> (all_dependencies_ok comps \<and> acyclic (task_edges comps))"
  using assms by (rule InstallTaskTriggers_cases) blast+

text \<open>A consumer of topic \<open>/t\<close> that also runs after the component \<open>producer\<close>.\<close>

definition ex_trigger :: "trigger_kind \<Rightarrow> trigger_spec" where
  "ex_trigger kind = \<lparr>tr_kind = kind, tr_period = 0, tr_dependency_policy = kAll,
     tr_data_dependencies = (if kind = kData then [NamedValue ''/t''] else []),
     tr_task_dependencies = (if kind = kTaskDependency then [NamedValue ''producer''] else []),
     tr_priority = 0, tr_deadline = 0, tr_service_dependencies = []\<rparr>"

definition ex_consumer :: component_spec where
  "ex_consumer = \<lparr>cs_name = NamedValue ''consumer'', cs_description = [],
     cs_readers = [\<lparr>ep_topic = \<lparr>ts_name = NamedValue ''/t'', ts_transport = kInMemory,
         ts_message_policy = MessagePolicy_default, ts_lifetime = kShared\<rparr>,
       ep_message = \<lparr>type_name = ''T'', encoding = ''raw'', version = 1\<rparr>\<rparr>],
     cs_writers = [], cs_triggers = [ex_trigger kData, ex_trigger kTaskDependency], cs_parameters = [], cs_servers = [], cs_clients = []\<rparr>"

definition ex_producer :: component_spec where
  "ex_producer = ex_consumer\<lparr>cs_name := NamedValue ''producer'', cs_triggers := [ex_trigger kManual]\<rparr>"

definition ex_scheduled :: "component_spec \<Rightarrow> scheduled_component" where
  "ex_scheduled spec = \<lparr>sc_spec = spec, sc_data_trigger_readers = [], sc_data_triggers = [], sc_task_triggers = []\<rparr>"

definition ex_components :: components where
  "ex_components = [(''consumer'', ex_scheduled ex_consumer), (''producer'', ex_scheduled ex_producer)]"

theorem scheduler_accepts_iff_witness: "status_ok (ValidateComponentSpec ex_consumer)"
  unfolding scheduler_accepts_iff
  by (simp add: ex_consumer_def ex_trigger_def status_ok_ComponentSpec_Validate EndpointConfig_Validate_ok
      TriggerSpec_Validate_def MessagePolicy_default_def data_topics_def topic_readers_def trigger_services_def
      valid_name_def bad_name_char_def) auto

theorem task_triggers_installed_iff_acyclic_witness:
  "omap_ok ex_components \<and> (\<exists>installed. InstallTaskTriggers ex_components = Some (Inr installed))"
proof -
  have ok: "omap_ok ex_components" by (simp add: ex_components_def omap_ok_def)
  have deps: "all_dependencies_ok ex_components"
    by (simp add: all_dependencies_ok_def ex_components_def ex_scheduled_def ex_consumer_def ex_producer_def ex_trigger_def
        dependencies_ok_def omap_find_def)
  have "task_entries ex_components
      = [(''producer'', \<lparr>td_component = ''consumer'', td_trigger_index = 0, td_dependency_index = 0\<rparr>)]"
    by (simp add: task_entries_def ex_components_def ex_scheduled_def ex_consumer_def ex_producer_def ex_trigger_def
        dependency_entries_def)
  then have "task_edges ex_components \<subseteq> {(''producer'', ''consumer'')}"
    by (simp add: subset_iff split_paired_all task_entries_edges)
  moreover have "acyclic {(''producer'', ''consumer'')}"
    by (simp add: acyclic_insert wf_acyclic)
  ultimately have "acyclic (task_edges ex_components)" by (rule acyclic_subset [rotated])
  with task_triggers_installed_iff_acyclic [OF ok] ok deps show ?thesis by (simp only: simp_thms)
qed

end
