(* ===== verification/Scheduler.thy ===== *)
theory Scheduler
  imports Scheduler_Triggers
begin

text \<open>
  \<open>Scheduler::Impl\<close> of \<open>src/scheduler/scheduler.cpp\<close>: the event queue, the choice of the next event with
  priority aging, data, task, service, manual and periodic triggers, and the lifecycle.

  The state the scheduler's mutex guards is the record \<open>sched\<close>; each critical section is a function on
  it. A call of \<open>std::map::at\<close> or \<open>std::vector::at\<close> that throws makes the function return \<open>None\<close>. The
  threads (the workers in \<open>DispatchLoop\<close>, the thread in \<open>Start\<close> or \<open>Stop\<close>, the threads that deliver data
  callbacks) are the steps of \<open>sched_step\<close> on \<open>ssys\<close>, one critical section a step. Clock readings, the
  outcome of a component's execution and the answers of the runtime are inputs of the steps.
\<close>

section \<open>State\<close>

record scheduled_event =
  ev_component :: component_name
  ev_deadline :: nanoseconds
  ev_priority :: int
  ev_due_time :: time_point
  ev_queued_at :: time_point

record scheduler_options =
  so_worker_count :: nat
  so_priority_aging_interval :: nanoseconds

definition SchedulerOptions_Validate :: "scheduler_options \<Rightarrow> status" where
  "SchedulerOptions_Validate o1 =
     (if so_worker_count o1 = 0 then Status_InvalidArgument ''scheduler worker_count must be greater than zero''
      else if so_priority_aging_interval o1 < 0
      then Status_InvalidArgument ''scheduler priority_aging_interval must not be negative''
      else Status_Ok)"

record sched =
  sd_options :: scheduler_options
  sd_components :: components
  sd_task_dependents :: dependents
  sd_pending_events :: "scheduled_event list"
  sd_queued_components :: "string set"
  sd_executing_components :: "string set"
  sd_active_events :: nat
  sd_dispatched_events :: nat
  sd_coalesced_events :: nat
  sd_aged_dispatches :: nat
  sd_last_status :: status
  sd_running :: bool
  sd_starting :: bool
  sd_stopping :: bool

definition sched_init :: "scheduler_options \<Rightarrow> sched" where
  "sched_init opts = \<lparr>sd_options = opts, sd_components = [], sd_task_dependents = [], sd_pending_events = [],
     sd_queued_components = {}, sd_executing_components = {}, sd_active_events = 0, sd_dispatched_events = 0,
     sd_coalesced_events = 0, sd_aged_dispatches = 0, sd_last_status = Status_Ok, sd_running = False,
     sd_starting = False, sd_stopping = False\<rparr>"

definition RunningRequired :: status where
  "RunningRequired = Status_FailedPrecondition ''scheduler must be running before accepting trigger events''"

abbreviation event_name :: "scheduled_event \<Rightarrow> string" where
  "event_name e \<equiv> str (ev_component e)"

section \<open>Queueing\<close>

definition EffectivePriority :: "nanoseconds \<Rightarrow> scheduled_event \<Rightarrow> time_point \<Rightarrow> int" where
  "EffectivePriority interval e now =
     ev_priority e + (if 0 < interval \<and> ev_queued_at e < now
       then min ((now - ev_queued_at e) div interval) (2 ^ 40) else 0)"

definition QueueEvent :: "time_point \<Rightarrow> component_name \<Rightarrow> nanoseconds \<Rightarrow> int \<Rightarrow> sched \<Rightarrow> sched" where
  "QueueEvent now name deadline priority s =
     (if str name \<in> sd_queued_components s then s\<lparr>sd_coalesced_events := sd_coalesced_events s + 1\<rparr>
      else let due_time = (if 0 < deadline \<and> deadline < int64_max - now then now + deadline else int64_max) in
        s\<lparr>sd_queued_components := insert (str name) (sd_queued_components s),
          sd_pending_events := sd_pending_events s @ [\<lparr>ev_component = name, ev_deadline = deadline,
            ev_priority = priority, ev_due_time = due_time, ev_queued_at = now\<rparr>]\<rparr>)"

definition Enqueue :: "time_point \<Rightarrow> component_name \<Rightarrow> nanoseconds \<Rightarrow> int \<Rightarrow> sched \<Rightarrow> status \<times> sched" where
  "Enqueue now name deadline priority s =
     (if \<not> sd_running s \<or> sd_stopping s then (RunningRequired, s)
      else (Status_Ok, QueueEvent now name deadline priority s))"

text \<open>\<open>Trigger\<close> looks the manual trigger up under the lock and queues in a second critical section, in state \<open>s'\<close>.\<close>

definition Trigger_lookup :: "component_name \<Rightarrow> sched \<Rightarrow> trigger_spec result" where
  "Trigger_lookup name s =
     (if \<not> sd_running s \<or> sd_stopping s then Inl RunningRequired
      else case omap_find (sd_components s) (str name) of
        None \<Rightarrow> Inl (Status_NotFound (''component is not registered in scheduler: '' @ str name))
      | Some sc \<Rightarrow>
          (case FindTrigger (sc_spec sc) kManual of
             None \<Rightarrow> Inl (Status_FailedPrecondition (''component has no manual trigger: '' @ str name))
           | Some t \<Rightarrow> Inr t))"

definition Scheduler_Trigger :: "time_point \<Rightarrow> component_name \<Rightarrow> sched \<Rightarrow> sched \<Rightarrow> status \<times> sched" where
  "Scheduler_Trigger now name s s' =
     (case Trigger_lookup name s of
        Inl st \<Rightarrow> (st, s')
      | Inr t \<Rightarrow> Enqueue now name (EffectiveDeadline t) (tr_priority t) s')"

text \<open>One notification of a data or task trigger: whether it fires, and its flags afterwards.\<close>

definition mark_ready :: "nat \<Rightarrow> trigger_state \<Rightarrow> bool \<times> trigger_state" where
  "mark_ready index t =
     (if tg_policy t = kAny then (True, t)
      else let ready = (tg_ready t)[index := True] in
        if list_all id ready then (True, t\<lparr>tg_ready := map (\<lambda>_. False) ready\<rparr>)
        else (False, t\<lparr>tg_ready := ready\<rparr>))"

definition OnDataAvailable :: "time_point \<Rightarrow> component_name \<Rightarrow> nat \<Rightarrow> nat \<Rightarrow> sched \<Rightarrow> sched option" where
  "OnDataAvailable now name trigger_index topic_index s =
     (if \<not> sd_running s \<or> sd_stopping s then Some s
      else case omap_find (sd_components s) (str name) of
        None \<Rightarrow> None
      | Some sc \<Rightarrow>
          if length (sc_data_triggers sc) \<le> trigger_index then None
          else case mark_ready topic_index (sc_data_triggers sc ! trigger_index) of
            (enqueue, t) \<Rightarrow>
              let s' = s\<lparr>sd_components := omap_assign (str name)
                  (sc\<lparr>sc_data_triggers := (sc_data_triggers sc)[trigger_index := t]\<rparr>) (sd_components s)\<rparr> in
              Some (if enqueue then QueueEvent now name (tg_deadline t) (tg_priority t) s' else s'))"

section \<open>Dispatching\<close>

text \<open>
  The scan of \<open>DispatchLoop\<close> over the pending events: the position and event selected so far, its
  effective priority, and the highest declared priority among the eligible events.
\<close>

fun select_event :: "nanoseconds \<Rightarrow> time_point \<Rightarrow> string set \<Rightarrow> nat \<Rightarrow> scheduled_event list \<Rightarrow>
    (nat \<times> scheduled_event) option \<Rightarrow> int \<Rightarrow> int \<Rightarrow> (nat \<times> scheduled_event) option \<times> int" where
  "select_event interval now executing i [] selected selected_priority highest_declared = (selected, highest_declared)"
| "select_event interval now executing i (candidate # rest) selected selected_priority highest_declared =
     (if event_name candidate \<in> executing
      then select_event interval now executing (i + 1) rest selected selected_priority highest_declared
      else let highest = max highest_declared (ev_priority candidate);
               effective = EffectivePriority interval candidate now in
        if (case selected of None \<Rightarrow> True
            | Some (j, e) \<Rightarrow> selected_priority < effective
                \<or> effective = selected_priority \<and> ev_due_time candidate < ev_due_time e)
        then select_event interval now executing (i + 1) rest (Some (i, candidate)) effective highest
        else select_event interval now executing (i + 1) rest selected selected_priority highest)"

definition Dispatch_take :: "time_point \<Rightarrow> sched \<Rightarrow> (scheduled_event \<times> sched) option" where
  "Dispatch_take now s =
     (case select_event (so_priority_aging_interval (sd_options s)) now (sd_executing_components s) 0
         (sd_pending_events s) None 0 (- (2 ^ 63)) of
        (None, _) \<Rightarrow> None
      | (Some (i, e), highest_declared) \<Rightarrow>
          Some (e, s\<lparr>sd_aged_dispatches := sd_aged_dispatches s + (if ev_priority e < highest_declared then 1 else 0),
            sd_pending_events := take i (sd_pending_events s) @ drop (Suc i) (sd_pending_events s),
            sd_queued_components := sd_queued_components s - {event_name e},
            sd_executing_components := insert (event_name e) (sd_executing_components s),
            sd_active_events := sd_active_events s + 1\<rparr>))"

text \<open>After an execution: the bookkeeping, then every task trigger that waits for the component.\<close>

definition notify_dependent :: "time_point \<Rightarrow> task_dependent \<Rightarrow> sched \<Rightarrow> sched option" where
  "notify_dependent now d s =
     (case omap_find (sd_components s) (td_component d) of
        None \<Rightarrow> None
      | Some sc \<Rightarrow>
          if length (sc_task_triggers sc) \<le> td_trigger_index d then None
          else case mark_ready (td_dependency_index d) (sc_task_triggers sc ! td_trigger_index d) of
            (enqueue, t) \<Rightarrow>
              let s' = s\<lparr>sd_components := omap_assign (td_component d)
                  (sc\<lparr>sc_task_triggers := (sc_task_triggers sc)[td_trigger_index d := t]\<rparr>) (sd_components s)\<rparr> in
              Some (if enqueue then QueueEvent now (NamedValue (td_component d)) (tg_deadline t) (tg_priority t) s' else s'))"

fun notify_dependents :: "(time_point \<times> task_dependent) list \<Rightarrow> sched \<Rightarrow> sched option" where
  "notify_dependents [] s = Some s"
| "notify_dependents ((now, d) # ds) s = Option.bind (notify_dependent now d s) (notify_dependents ds)"

definition Dispatch_complete :: "(task_dependent \<Rightarrow> time_point) \<Rightarrow> scheduled_event \<Rightarrow> status \<Rightarrow> sched \<Rightarrow> sched option" where
  "Dispatch_complete clock e st s =
     (let s1 = s\<lparr>sd_last_status := (if \<not> status_ok st then st else sd_last_status s),
                 sd_dispatched_events := sd_dispatched_events s + 1,
                 sd_active_events := sd_active_events s - 1,
                 sd_executing_components := sd_executing_components s - {event_name e}\<rparr> in
      if status_ok st \<and> \<not> sd_stopping s1
      then notify_dependents (map (\<lambda>d. (clock d, d)) (omap_at [] (sd_task_dependents s1) (event_name e))) s1
      else Some s1)"

definition WaitIdle_ready :: "sched \<Rightarrow> bool" where
  "WaitIdle_ready s \<longleftrightarrow> sd_pending_events s = [] \<and> sd_active_events s = 0"

section \<open>Lifecycle\<close>

definition Scheduler_RegisterComponent :: "component_spec result \<Rightarrow> component_name \<Rightarrow> sched \<Rightarrow> status \<times> sched" where
  "Scheduler_RegisterComponent found name s =
     (case found of
        Inl st \<Rightarrow> (st, s)
      | Inr spec \<Rightarrow>
          let st = ValidateComponentSpec spec in
          if \<not> status_ok st then (st, s)
          else if sd_running s \<or> sd_stopping s
          then (Status_FailedPrecondition ''components must be registered before scheduler starts'', s)
          else if omap_find (sd_components s) (str name) \<noteq> None
          then (Status_AlreadyExists (''component already registered in scheduler: '' @ str name), s)
          else (Status_Ok, s\<lparr>sd_components := omap_emplace (str name)
            \<lparr>sc_spec = spec, sc_data_trigger_readers = [], sc_data_triggers = [], sc_task_triggers = []\<rparr> (sd_components s)\<rparr>))"

fun RegisterAllComponents :: "(component_name \<Rightarrow> component_spec result) \<Rightarrow> component_name list \<Rightarrow> sched \<Rightarrow> status \<times> sched" where
  "RegisterAllComponents find_component [] s = (Status_Ok, s)"
| "RegisterAllComponents find_component (name # names) s =
     (case Scheduler_RegisterComponent (find_component name) name s of
        (st, s') \<Rightarrow> if \<not> status_ok st \<and> st_code st \<noteq> kAlreadyExists then (st, s')
                   else RegisterAllComponents find_component names s')"

text \<open>The first critical section of \<open>Start\<close>: the status it returns with, or \<open>None\<close> when it goes on to start workers.\<close>

definition Start_begin :: "sched \<Rightarrow> (status option \<times> sched) option" where
  "Start_begin s =
     (if sd_starting s \<or> sd_stopping s
      then Some (Some (Status_FailedPrecondition ''scheduler lifecycle operation is in progress''), s)
      else if sd_running s then Some (Some Status_Ok, s)
      else let st = SchedulerOptions_Validate (sd_options s) in
        if \<not> status_ok st then Some (Some st, s)
        else case InstallTaskTriggers (sd_components s) of
          None \<Rightarrow> None
        | Some (Inl st) \<Rightarrow> Some (Some st, s)
        | Some (Inr (comps, deps)) \<Rightarrow>
            Some (None, s\<lparr>sd_components := comps, sd_task_dependents := deps, sd_stopping := False, sd_starting := True,
                          sd_running := True, sd_last_status := Status_Ok\<rparr>))"

definition finish_start :: "sched \<Rightarrow> sched" where
  "finish_start s = s\<lparr>sd_starting := False\<rparr>"

text \<open>The section of \<open>InstallDataTriggers\<close> that adds the state of one data trigger: its index.\<close>

definition install_data_state :: "component_name \<Rightarrow> trigger_spec \<Rightarrow> sched \<Rightarrow> (nat \<times> sched) option" where
  "install_data_state name t s =
     (case omap_find (sd_components s) (str name) of
        None \<Rightarrow> None
      | Some sc \<Rightarrow>
          Some (length (sc_data_triggers sc),
            s\<lparr>sd_components := omap_assign (str name)
                (sc\<lparr>sc_data_triggers := sc_data_triggers sc
                    @ [trigger_state_of t (length (tr_data_dependencies t))]\<rparr>) (sd_components s)\<rparr>))"

definition keep_reader :: "component_name \<Rightarrow> nat \<Rightarrow> sched \<Rightarrow> status \<times> sched" where
  "keep_reader name reader s =
     (case omap_find (sd_components s) (str name) of
        None \<Rightarrow> (Status_NotFound (''component is not registered in scheduler: '' @ str name), s)
      | Some sc \<Rightarrow>
          (Status_Ok, s\<lparr>sd_components := omap_assign (str name)
            (sc\<lparr>sc_data_trigger_readers := sc_data_trigger_readers sc @ [reader]\<rparr>) (sd_components s)\<rparr>))"

text \<open>
  The first critical section of \<open>Stop\<close>, once \<open>starting\<close> is false or the caller is \<open>Start\<close> itself: the
  status it returns with, or \<open>None\<close> when it goes on to join the threads. \<open>own_thread\<close> says what the
  caller is.
\<close>

datatype stop_caller = StopWorker | StopTimer | StopStarter | StopOther

definition Stop_begin :: "bool \<Rightarrow> stop_caller \<Rightarrow> sched \<Rightarrow> status option \<times> sched" where
  "Stop_begin from_start caller s =
     (if caller = StopWorker then (Some (Status_FailedPrecondition ''scheduler worker cannot stop itself''), s)
      else if caller = StopTimer then (Some (Status_FailedPrecondition ''scheduler timer cannot stop itself''), s)
      else if \<not> from_start \<and> sd_starting s \<and> caller = StopStarter
      then (Some (Status_FailedPrecondition ''scheduler cannot stop itself while starting''), s)
      else if sd_stopping s then (Some (Status_FailedPrecondition ''scheduler is already stopping''), s)
      else if \<not> sd_running s then (Some Status_Ok, s)
      else (None, s\<lparr>sd_stopping := True, sd_running := False\<rparr>))"

definition clear_triggers :: "components \<Rightarrow> components" where
  "clear_triggers = map (\<lambda>(name, sc). (name, sc\<lparr>sc_data_trigger_readers := [], sc_data_triggers := [], sc_task_triggers := []\<rparr>))"

definition Stop_end :: "sched \<Rightarrow> sched" where
  "Stop_end s = s\<lparr>sd_pending_events := [], sd_queued_components := {}, sd_active_events := 0,
     sd_components := clear_triggers (sd_components s), sd_task_dependents := [], sd_stopping := False\<rparr>"

section \<open>The choice of the next event\<close>

abbreviation eligible :: "string set \<Rightarrow> scheduled_event \<Rightarrow> bool" where
  "eligible executing e \<equiv> event_name e \<notin> executing"

text \<open>Event \<open>e\<close> at position \<open>i\<close> is at least as good as \<open>x\<close> at \<open>j\<close>: effective priority, then due time, then queue order.\<close>

definition goes_first :: "nanoseconds \<Rightarrow> time_point \<Rightarrow> nat \<Rightarrow> scheduled_event \<Rightarrow> nat \<Rightarrow> scheduled_event \<Rightarrow> bool" where
  "goes_first interval now i e j x \<longleftrightarrow>
     EffectivePriority interval x now < EffectivePriority interval e now
     \<or> EffectivePriority interval x now = EffectivePriority interval e now
       \<and> (ev_due_time e < ev_due_time x \<or> ev_due_time e = ev_due_time x \<and> i \<le> j)"

definition best_of :: "nanoseconds \<Rightarrow> time_point \<Rightarrow> string set \<Rightarrow> scheduled_event list \<Rightarrow> (nat \<times> scheduled_event) option \<Rightarrow> bool" where
  "best_of interval now executing es selected \<longleftrightarrow>
     (case selected of
        None \<Rightarrow> \<forall>x \<in> set es. \<not> eligible executing x
      | Some (i, e) \<Rightarrow> i < length es \<and> es ! i = e \<and> eligible executing e
          \<and> (\<forall>j < length es. eligible executing (es ! j) \<longrightarrow> goes_first interval now i e j (es ! j)))"

lemma goes_first_trans:
  "goes_first interval now i e j x \<Longrightarrow> goes_first interval now j x k y \<Longrightarrow> goes_first interval now i e k y"
  by (auto simp: goes_first_def)

lemma goes_first_refl: "goes_first interval now i e i e"
  by (simp add: goes_first_def)

lemma best_of_skip:
  assumes "best_of interval now executing es selected" "\<not> eligible executing c"
  shows "best_of interval now executing (es @ [c]) selected"
  using assms by (auto simp: best_of_def nth_append less_Suc_eq split: option.splits)

lemma best_of_keep:
  assumes "best_of interval now executing es (Some (i, e))" "goes_first interval now i e (length es) c"
  shows "best_of interval now executing (es @ [c]) (Some (i, e))"
  using assms by (auto simp: best_of_def nth_append less_Suc_eq)

lemma best_of_replace:
  assumes "best_of interval now executing es selected" "eligible executing c"
    and "\<And>i e. selected = Some (i, e) \<Longrightarrow> goes_first interval now (length es) c i e"
  shows "best_of interval now executing (es @ [c]) (Some (length es, c))"
proof -
  have "goes_first interval now (length es) c j (es ! j)" if j: "j < length es" "eligible executing (es ! j)" for j
  proof (cases selected)
    case None
    with assms(1) j show ?thesis by (auto simp: best_of_def)
  next
    case (Some s)
    then obtain i e where s: "selected = Some (i, e)" by (cases s) auto
    with assms(1) j have "goes_first interval now i e j (es ! j)" by (auto simp: best_of_def)
    with assms(3) [OF s] show ?thesis by (rule goes_first_trans)
  qed
  then show ?thesis
    using assms(2) by (auto simp: best_of_def nth_append less_Suc_eq goes_first_refl)
qed

lemma select_event_best:
  assumes "best_of interval now executing es selected"
    "\<And>i e. selected = Some (i, e) \<Longrightarrow> p = EffectivePriority interval e now"
    "select_event interval now executing (length es) cs selected p h = (result, h')"
  shows "best_of interval now executing (es @ cs) result
    \<and> (\<forall>x. x < h' \<longleftrightarrow> x < h \<or> (\<exists>c \<in> set cs. eligible executing c \<and> x < ev_priority c))"
  using assms
proof (induction cs arbitrary: es selected p h)
  case Nil
  then show ?case by simp
next
  case (Cons c cs)
  have len: "length es + 1 = length (es @ [c])" by simp
  show ?case
  proof (cases "eligible executing c")
    case False
    with Cons.prems(3) have "select_event interval now executing (length (es @ [c])) cs selected p h = (result, h')"
      by simp
    from Cons.IH [OF best_of_skip [OF Cons.prems(1) False] Cons.prems(2) this] False show ?thesis by simp
  next
    case True
    let ?eff = "EffectivePriority interval c now" and ?h = "max h (ev_priority c)"
    define better where "better \<longleftrightarrow> (case selected of None \<Rightarrow> True
      | Some (j, e) \<Rightarrow> p < ?eff \<or> ?eff = p \<and> ev_due_time c < ev_due_time e)"
    have run: "select_event interval now executing (length (es @ [c])) cs
        (if better then Some (length es, c) else selected) (if better then ?eff else p) ?h = (result, h')"
      using Cons.prems(3) True by (simp add: better_def [symmetric] Let_def split: if_splits)
    have best: "best_of interval now executing (es @ [c]) (if better then Some (length es, c) else selected)"
    proof (cases better)
      case b: True
      have "goes_first interval now (length es) c i e" if "selected = Some (i, e)" for i e
        using b that Cons.prems(2) by (auto simp: better_def goes_first_def)
      from best_of_replace [OF Cons.prems(1) True this] b show ?thesis by simp
    next
      case b: False
      then obtain i e where s: "selected = Some (i, e)" by (auto simp: better_def split: option.splits)
      with Cons.prems(1) have "i < length es" by (simp add: best_of_def)
      with b s Cons.prems(2) have "goes_first interval now i e (length es) c"
        by (auto simp: better_def goes_first_def)
      with b s Cons.prems(1) best_of_keep show ?thesis by simp
    qed
    have prio: "(if better then ?eff else p) = EffectivePriority interval e now"
      if "(if better then Some (length es, c) else selected) = Some (i, e)" for i e
      using that Cons.prems(2) by (auto split: if_splits)
    from Cons.IH [OF best prio run] True show ?thesis by auto
  qed
qed

lemma dispatch_best:
  assumes "Dispatch_take now s = Some (e, s')"
  shows "\<exists>i < length (sd_pending_events s). sd_pending_events s ! i = e
    \<and> event_name e \<notin> sd_executing_components s
    \<and> sd_pending_events s' = take i (sd_pending_events s) @ drop (Suc i) (sd_pending_events s)
    \<and> (\<forall>j < length (sd_pending_events s). event_name (sd_pending_events s ! j) \<notin> sd_executing_components s \<longrightarrow>
         goes_first (so_priority_aging_interval (sd_options s)) now i e j (sd_pending_events s ! j))"
proof -
  obtain i h where sel: "select_event (so_priority_aging_interval (sd_options s)) now (sd_executing_components s)
      (length ([] :: scheduled_event list)) (sd_pending_events s) None 0 (- (2 ^ 63)) = (Some (i, e), h)"
      "sd_pending_events s' = take i (sd_pending_events s) @ drop (Suc i) (sd_pending_events s)"
    using assms by (auto simp: Dispatch_take_def split: option.splits prod.splits)
  have "best_of (so_priority_aging_interval (sd_options s)) now (sd_executing_components s) [] None"
    by (simp add: best_of_def)
  from select_event_best [OF this _ sel(1)] sel(2) show ?thesis by (auto simp: best_of_def)
qed

text \<open>
  C18. A worker dispatches the best event: one whose component is not being executed, with the highest
  effective priority, among those the earliest due time, among those the one queued first. It finds
  none exactly when every pending event belongs to a component that is being executed, and it counts
  an aged dispatch exactly when an eligible event with a higher declared priority was passed over.
\<close>

theorem dispatch_takes_best_event:
  "case Dispatch_take now s of
     None \<Rightarrow> \<forall>x \<in> set (sd_pending_events s). event_name x \<in> sd_executing_components s
   | Some (e, s') \<Rightarrow>
       (\<exists>i < length (sd_pending_events s). sd_pending_events s ! i = e
         \<and> event_name e \<notin> sd_executing_components s
         \<and> sd_pending_events s' = take i (sd_pending_events s) @ drop (Suc i) (sd_pending_events s)
         \<and> (\<forall>j < length (sd_pending_events s). event_name (sd_pending_events s ! j) \<notin> sd_executing_components s \<longrightarrow>
              goes_first (so_priority_aging_interval (sd_options s)) now i e j (sd_pending_events s ! j)))
       \<and> (- (2 ^ 63) \<le> ev_priority e \<longrightarrow>
           (sd_aged_dispatches s' = sd_aged_dispatches s + 1 \<longleftrightarrow>
             (\<exists>x \<in> set (sd_pending_events s). event_name x \<notin> sd_executing_components s \<and> ev_priority e < ev_priority x)))"
proof -
  obtain selected h where sel: "select_event (so_priority_aging_interval (sd_options s)) now (sd_executing_components s)
      (length ([] :: scheduled_event list)) (sd_pending_events s) None 0 (- (2 ^ 63)) = (selected, h)" by fastforce
  have "best_of (so_priority_aging_interval (sd_options s)) now (sd_executing_components s) [] None"
    by (simp add: best_of_def)
  note best = select_event_best [OF this _ sel]
  show ?thesis
  proof (cases selected)
    case None
    with best sel show ?thesis by (simp add: Dispatch_take_def best_of_def)
  next
    case (Some r)
    then obtain i e where r: "selected = Some (i, e)" by (cases r) auto
    have "ev_priority e < h \<longleftrightarrow> (\<exists>x \<in> set (sd_pending_events s). event_name x \<notin> sd_executing_components s \<and> ev_priority e < ev_priority x)"
      if "- (2 ^ 63) \<le> ev_priority e" using best that by auto
    with best sel r show ?thesis by (auto simp: Dispatch_take_def best_of_def)
  qed
qed

section \<open>Aging and arithmetic\<close>

lemma boost_shift:
  fixes waited :: int
  assumes "0 < interval" "waited + n * interval \<le> waited'"
  shows "waited div interval + n \<le> waited' div interval"
proof -
  have "(waited + n * interval) div interval \<le> waited' div interval" using assms by (intro zdiv_mono1)
  then show ?thesis using assms(1) by simp
qed

text \<open>
  C19. Aging bounds how long higher-priority work can postpone an event: while \<open>x\<close> waits with its
  component idle, a worker only takes events that were queued less than one aging interval per level of
  declared priority difference, plus one, after \<open>x\<close>. Work that keeps arriving cannot starve \<open>x\<close>.
\<close>

theorem aging_prevents_starvation:
  assumes take: "Dispatch_take now s = Some (e, s')"
    and x: "x \<in> set (sd_pending_events s)" "event_name x \<notin> sd_executing_components s"
    and interval: "0 < so_priority_aging_interval (sd_options s)"
    and clock: "ev_queued_at x \<le> now" "ev_queued_at e \<le> now"
    and cap: "(now - ev_queued_at x) div so_priority_aging_interval (sd_options s) \<le> 2 ^ 40"
  shows "ev_queued_at e < ev_queued_at x
    + (ev_priority e - ev_priority x + 1) * so_priority_aging_interval (sd_options s)"
proof (rule ccontr)
  let ?I = "so_priority_aging_interval (sd_options s)"
  assume "\<not> ?thesis"
  then have "(now - ev_queued_at e) + (ev_priority e - ev_priority x + 1) * ?I \<le> now - ev_queued_at x" by linarith
  from boost_shift [OF interval this]
  have late: "(now - ev_queued_at e) div ?I + (ev_priority e - ev_priority x + 1) \<le> (now - ev_queued_at x) div ?I" .
  have eff_x: "EffectivePriority ?I x now = ev_priority x + (now - ev_queued_at x) div ?I"
    using cap interval clock(1) by (cases "ev_queued_at x = now") (auto simp: EffectivePriority_def)
  have eff_e: "EffectivePriority ?I e now \<le> ev_priority e + (now - ev_queued_at e) div ?I"
    using interval clock(2) by (auto simp: EffectivePriority_def pos_imp_zdiv_nonneg_iff)
  obtain j where "j < length (sd_pending_events s)" "sd_pending_events s ! j = x" using x(1) by (auto simp: in_set_conv_nth)
  with dispatch_best [OF take] x(2) have "EffectivePriority ?I x now \<le> EffectivePriority ?I e now"
    by (auto simp: goes_first_def)
  with eff_x eff_e late show False by linarith
qed

text \<open>
  The scheduler's time arithmetic stays within 64 bits: for clock readings of a steady clock and a
  32-bit priority, the wait, the effective priority, the room left before the end of time and the due time
  are representable, the due time is never before the time of queueing, and it is exactly the deadline
  after it unless that would pass the end of time.
\<close>

theorem scheduler_time_in_range:
  assumes clock: "0 \<le> ev_queued_at e" "ev_queued_at e \<le> now" "now \<le> int64_max"
    and prio: "in_int32 (ev_priority e)" and deadline: "in_int64 deadline"
    and fresh: "str name \<notin> sd_queued_components s"
  shows "in_int64 (now - ev_queued_at e) \<and> in_int64 (EffectivePriority interval e now)
    \<and> in_int64 (int64_max - now)
    \<and> (\<exists>new. sd_pending_events (QueueEvent now name deadline priority s) = sd_pending_events s @ [new]
        \<and> in_int64 (ev_due_time new) \<and> now \<le> ev_due_time new
        \<and> (0 < deadline \<and> now + deadline < int64_max \<longrightarrow> ev_due_time new = now + deadline))"
proof -
  have "0 \<le> (now - ev_queued_at e) div interval" if "0 < interval"
    using that clock(2) by (simp add: pos_imp_zdiv_nonneg_iff)
  then have "0 \<le> EffectivePriority interval e now - ev_priority e
      \<and> EffectivePriority interval e now - ev_priority e \<le> 2 ^ 40"
    by (simp add: EffectivePriority_def)
  with prio have "in_int64 (EffectivePriority interval e now)" by (simp add: in_int32_def in_int64_def)
  moreover have "in_int64 (now - ev_queued_at e)" "in_int64 (int64_max - now)"
    using clock by (simp_all add: in_int64_def int64_max_def)
  ultimately show ?thesis
    using clock fresh by (auto simp: QueueEvent_def Let_def in_int64_def int64_max_def)
qed

section \<open>Triggers that wait for all their dependencies\<close>

text \<open>
  The reference: a trigger on \<open>n\<close> dependencies fires at a notification exactly when, with it, every
  dependency has been notified since the trigger last fired.
\<close>

fun fires :: "nat \<Rightarrow> nat set \<Rightarrow> nat list \<Rightarrow> bool list" where
  "fires n since [] = []"
| "fires n since (i # is) =
     (if {0..<n} \<subseteq> insert i since then True # fires n {} is else False # fires n (insert i since) is)"

fun run_marks :: "trigger_state \<Rightarrow> nat list \<Rightarrow> bool list" where
  "run_marks t [] = []"
| "run_marks t (i # is) = (case mark_ready i t of (fired, t') \<Rightarrow> fired # run_marks t' is)"

lemma run_marks_fires:
  assumes "tg_policy t = kAll" "\<forall>i \<in> set is. i < n" "length (tg_ready t) = n"
    "\<forall>i < n. tg_ready t ! i \<longleftrightarrow> i \<in> since"
  shows "run_marks t is = fires n since is"
  using assms
proof (induction "is" arbitrary: t since)
  case Nil
  then show ?case by simp
next
  case (Cons i "is")
  have "list_all id ((tg_ready t)[i := True]) \<longleftrightarrow> {0..<n} \<subseteq> insert i since"
    using Cons.prems(2-4) by (auto simp: list_all_length nth_list_update subset_iff)
  moreover have "run_marks (t\<lparr>tg_ready := map (\<lambda>_. False) ((tg_ready t)[i := True])\<rparr>) is = fires n {} is"
    using Cons.prems by (intro Cons.IH) simp_all
  moreover have "run_marks (t\<lparr>tg_ready := (tg_ready t)[i := True]\<rparr>) is = fires n (insert i since) is"
    using Cons.prems by (intro Cons.IH) (auto simp: nth_list_update)
  ultimately show ?case using Cons.prems(1) by (simp add: mark_ready_def Let_def)
qed

text \<open>
  C20. A data or task trigger that waits for all of its dependencies fires exactly at the notifications
  that complete a round: every dependency notified at least once since the last firing, in any order and
  with any repetitions. A trigger that waits for any of them fires at every notification.
\<close>

theorem trigger_fires_when_complete:
  assumes "\<forall>i \<in> set notifications. i < n"
  shows "run_marks (trigger_state_of t n) notifications =
    (if tr_dependency_policy t = kAll then fires n {} notifications else map (\<lambda>_. True) notifications)"
proof (cases "tr_dependency_policy t")
  case kAll
  then show ?thesis using assms by (simp add: run_marks_fires trigger_state_of_def)
next
  case kAny
  then have "tg_policy u = kAny \<Longrightarrow> run_marks u ns = map (\<lambda>_. True) ns" for u ns
    by (induction ns arbitrary: u) (simp_all add: mark_ready_def)
  with kAny show ?thesis by (simp add: trigger_state_of_def)
qed

section \<open>Witnesses\<close>

text \<open>An old event of low priority and a new one of high priority, with an aging interval of ten.\<close>

definition ex_old :: scheduled_event where
  "ex_old = \<lparr>ev_component = NamedValue ''old'', ev_deadline = 0, ev_priority = 0, ev_due_time = int64_max, ev_queued_at = 0\<rparr>"

definition ex_new :: scheduled_event where
  "ex_new = \<lparr>ev_component = NamedValue ''new'', ev_deadline = 0, ev_priority = 5, ev_due_time = int64_max, ev_queued_at = 95\<rparr>"

definition ex_queue :: sched where
  "ex_queue = (sched_init \<lparr>so_worker_count = 1, so_priority_aging_interval = 10\<rparr>)
     \<lparr>sd_running := True, sd_queued_components := {''new'', ''old''}, sd_pending_events := [ex_new, ex_old]\<rparr>"

definition ex_taken :: sched where
  "ex_taken = ex_queue\<lparr>sd_aged_dispatches := 1, sd_pending_events := [ex_new], sd_queued_components := {''new''},
     sd_executing_components := {''old''}, sd_active_events := 1\<rparr>"

lemma ex_take: "Dispatch_take 100 ex_queue = Some (ex_old, ex_taken)"
  by (simp add: Dispatch_take_def ex_queue_def sched_init_def ex_old_def ex_new_def EffectivePriority_def ex_taken_def insert_Diff_if)

theorem dispatch_takes_best_event_witness:
  "(\<exists>x \<in> set (sd_pending_events ex_queue). event_name x \<notin> sd_executing_components ex_queue \<and> ev_priority ex_old < ev_priority x)
    \<and> sd_aged_dispatches ex_taken = sd_aged_dispatches ex_queue + 1"
  using dispatch_takes_best_event [where now = 100 and s = ex_queue] unfolding ex_take
  by (simp add: ex_queue_def sched_init_def ex_old_def ex_new_def ex_taken_def)

theorem aging_prevents_starvation_witness:
  "Dispatch_take 100 ex_queue = Some (ex_old, ex_taken) \<and> ex_new \<in> set (sd_pending_events ex_queue)
    \<and> ev_queued_at ex_old < ev_queued_at ex_new + (ev_priority ex_old - ev_priority ex_new + 1) * 10"
proof -
  have *: "ex_new \<in> set (sd_pending_events ex_queue)" "event_name ex_new \<notin> sd_executing_components ex_queue"
      "0 < so_priority_aging_interval (sd_options ex_queue)" "ev_queued_at ex_new \<le> 100" "ev_queued_at ex_old \<le> 100"
      "(100 - ev_queued_at ex_new) div so_priority_aging_interval (sd_options ex_queue) \<le> 2 ^ 40"
    by (simp_all add: ex_queue_def sched_init_def ex_new_def ex_old_def)
  from aging_prevents_starvation [OF ex_take *] ex_take *(1) show ?thesis by (simp add: ex_queue_def sched_init_def)
qed

theorem scheduler_time_in_range_witness:
  "in_int64 (EffectivePriority 10 ex_old 100)
    \<and> (\<exists>new. sd_pending_events (QueueEvent 100 (NamedValue ''third'') 50 0 ex_queue) = sd_pending_events ex_queue @ [new]
        \<and> ev_due_time new = 150)"
proof -
  have *: "0 \<le> ev_queued_at ex_old" "ev_queued_at ex_old \<le> 100" "(100 :: int) \<le> int64_max" "in_int32 (ev_priority ex_old)"
      "in_int64 50" "str (NamedValue ''third'') \<notin> sd_queued_components ex_queue"
    by (simp_all add: ex_old_def int64_max_def in_int32_def in_int64_def ex_queue_def)
  from scheduler_time_in_range [OF *, of 10 0] show ?thesis by (auto simp: int64_max_def)
qed

theorem trigger_fires_when_complete_witness:
  "run_marks (trigger_state_of (ex_trigger kData) 2) [0, 0, 1, 1, 0] = [False, False, True, False, True]"
proof -
  have "\<forall>i \<in> set [0, 0, 1, 1, 0 :: nat]. i < 2" by simp
  from trigger_fires_when_complete [OF this, of "ex_trigger kData"] show ?thesis
    by (simp add: ex_trigger_def atLeastLessThan_upt upt_rec)
qed

end
