(* ===== verification/Scheduler_Runs.thy ===== *)
theory Scheduler_Runs
  imports Scheduler
begin

text \<open>
  Runs of the scheduler: its threads as a step relation over the critical sections of \<open>Scheduler\<close>, the
  invariant of its reachable states and what follows from it: components run serially, no event is
  lost, and no index the triggers use is out of range.
\<close>

section \<open>Threads\<close>

datatype worker = WIdle | WExecuting scheduled_event | WExited

text \<open>
  \<open>y_callbacks\<close> are the data callbacks registered with readers the scheduler holds. \<open>y_accepted\<close> counts the
  events that were queued and \<open>y_discarded\<close> those that \<open>Stop\<close> removed from the queue.
\<close>

record ssys =
  y_sched :: sched
  y_workers :: "worker list"
  y_callbacks :: "(string \<times> nat \<times> nat) set"
  y_accepted :: nat
  y_discarded :: nat

definition ssys_init :: "scheduler_options \<Rightarrow> ssys" where
  "ssys_init opts = \<lparr>y_sched = sched_init opts, y_workers = [], y_callbacks = {}, y_accepted = 0, y_discarded = 0\<rparr>"

text \<open>The system after a critical section that may have queued events.\<close>

definition queued :: "sched \<Rightarrow> ssys \<Rightarrow> ssys" where
  "queued s y = y\<lparr>y_sched := s,
     y_accepted := y_accepted y + (length (sd_pending_events s) - length (sd_pending_events (y_sched y)))\<rparr>"

text \<open>The index pair of a callback names a flag of a data trigger; that of a dependent a flag of a task trigger.\<close>

definition data_ref :: "components \<Rightarrow> string \<times> nat \<times> nat \<Rightarrow> bool" where
  "data_ref comps = (\<lambda>(n, ti, di). \<exists>sc. omap_find comps n = Some sc \<and> ti < length (sc_data_triggers sc)
     \<and> di < length (tg_ready (sc_data_triggers sc ! ti)))"

definition task_ref :: "components \<Rightarrow> task_dependent \<Rightarrow> bool" where
  "task_ref comps d \<longleftrightarrow> (\<exists>sc. omap_find comps (td_component d) = Some sc \<and> td_trigger_index d < length (sc_task_triggers sc)
     \<and> td_dependency_index d < length (tg_ready (sc_task_triggers sc ! td_trigger_index d)))"

text \<open>
  The steps. \<open>install\<close>, \<open>subscribe\<close> and \<open>keep\<close> are the sections of \<open>InstallDataTriggers\<close>: a callback is
  registered for a trigger whose state was just added. \<open>enqueue\<close> is the second section of \<open>Trigger\<close>, a
  periodic timer or a service callback.
\<close>

inductive sched_step :: "ssys \<Rightarrow> ssys \<Rightarrow> bool" where
  register: "Scheduler_RegisterComponent found name (y_sched y) = (st, s) \<Longrightarrow> sched_step y (y\<lparr>y_sched := s\<rparr>)"
| start: "Start_begin (y_sched y) = Some (None, s) \<Longrightarrow> sched_step y (y\<lparr>y_sched := s\<rparr>)"
| spawn: "sd_starting (y_sched y) \<Longrightarrow> sd_running (y_sched y) \<Longrightarrow>
    length (y_workers y) < so_worker_count (sd_options (y_sched y)) \<Longrightarrow>
    sched_step y (y\<lparr>y_workers := y_workers y @ [WIdle]\<rparr>)"
| install: "sd_starting (y_sched y) \<Longrightarrow> sd_running (y_sched y) \<Longrightarrow>
    install_data_state name t (y_sched y) = Some (ti, s) \<Longrightarrow> sched_step y (y\<lparr>y_sched := s\<rparr>)"
| subscribe: "sd_starting (y_sched y) \<Longrightarrow> sd_running (y_sched y) \<Longrightarrow>
    data_ref (sd_components (y_sched y)) (n, ti, di) \<Longrightarrow>
    sched_step y (y\<lparr>y_callbacks := insert (n, ti, di) (y_callbacks y)\<rparr>)"
| keep: "sd_starting (y_sched y) \<Longrightarrow> sd_running (y_sched y) \<Longrightarrow>
    keep_reader name reader (y_sched y) = (st, s) \<Longrightarrow> sched_step y (y\<lparr>y_sched := s\<rparr>)"
| finish: "sd_starting (y_sched y) \<Longrightarrow> sched_step y (y\<lparr>y_sched := finish_start (y_sched y)\<rparr>)"
| data: "(str name, ti, di) \<in> y_callbacks y \<Longrightarrow> OnDataAvailable now name ti di (y_sched y) = Some s \<Longrightarrow>
    sched_step y (queued s y)"
| enqueue: "Enqueue now name deadline priority (y_sched y) = (st, s) \<Longrightarrow> sched_step y (queued s y)"
| dispatch: "y_workers y = ws1 @ WIdle # ws2 \<Longrightarrow> Dispatch_take now (y_sched y) = Some (e, s) \<Longrightarrow>
    sched_step y (y\<lparr>y_sched := s, y_workers := ws1 @ WExecuting e # ws2\<rparr>)"
| complete: "y_workers y = ws1 @ WExecuting e # ws2 \<Longrightarrow> Dispatch_complete clock e st (y_sched y) = Some s \<Longrightarrow>
    sched_step y ((queued s y)\<lparr>y_workers := ws1 @ WIdle # ws2\<rparr>)"
| exit: "y_workers y = ws1 @ WIdle # ws2 \<Longrightarrow> sd_stopping (y_sched y) \<Longrightarrow> sd_pending_events (y_sched y) = [] \<Longrightarrow>
    sched_step y (y\<lparr>y_workers := ws1 @ WExited # ws2\<rparr>)"
| stop: "from_start \<or> \<not> sd_starting (y_sched y) \<Longrightarrow> Stop_begin from_start caller (y_sched y) = (None, s) \<Longrightarrow>
    sched_step y (y\<lparr>y_sched := s\<rparr>)"
| stopped: "sd_stopping (y_sched y) \<Longrightarrow> \<forall>w \<in> set (y_workers y). w = WExited \<Longrightarrow>
    sched_step y (y\<lparr>y_sched := Stop_end (y_sched y), y_workers := [], y_callbacks := {},
      y_discarded := y_discarded y + length (sd_pending_events (y_sched y))\<rparr>)"

section \<open>The invariant\<close>

fun running_event :: "worker \<Rightarrow> scheduled_event list" where
  "running_event (WExecuting e) = [e]"
| "running_event WIdle = []"
| "running_event WExited = []"

abbreviation running_names :: "worker list \<Rightarrow> string list" where
  "running_names ws \<equiv> map event_name (concat (map running_event ws))"

definition queue_inv :: "sched \<Rightarrow> bool" where
  "queue_inv s \<longleftrightarrow> distinct (map event_name (sd_pending_events s))
     \<and> sd_queued_components s = event_name ` set (sd_pending_events s)"

definition workers_inv :: "ssys \<Rightarrow> bool" where
  "workers_inv y \<longleftrightarrow> distinct (running_names (y_workers y))
     \<and> sd_executing_components (y_sched y) = set (running_names (y_workers y))
     \<and> sd_active_events (y_sched y) = length (running_names (y_workers y))"

definition count_inv :: "ssys \<Rightarrow> bool" where
  "count_inv y \<longleftrightarrow> y_accepted y = sd_dispatched_events (y_sched y) + sd_active_events (y_sched y)
     + length (sd_pending_events (y_sched y)) + y_discarded y"

definition phase_inv :: "ssys \<Rightarrow> bool" where
  "phase_inv y \<longleftrightarrow> \<not> (sd_running (y_sched y) \<and> sd_stopping (y_sched y))
     \<and> (WExited \<in> set (y_workers y) \<longrightarrow> sd_stopping (y_sched y) \<and> sd_pending_events (y_sched y) = [])
     \<and> (\<not> sd_running (y_sched y) \<and> \<not> sd_stopping (y_sched y) \<longrightarrow>
          y_workers y = [] \<and> y_callbacks y = {} \<and> sd_pending_events (y_sched y) = [])"

definition refs_inv :: "ssys \<Rightarrow> bool" where
  "refs_inv y \<longleftrightarrow> omap_ok (sd_components (y_sched y))
     \<and> (\<forall>c \<in> y_callbacks y. data_ref (sd_components (y_sched y)) c)
     \<and> (\<forall>u. \<forall>d \<in> set (omap_at [] (sd_task_dependents (y_sched y)) u). task_ref (sd_components (y_sched y)) d)"

definition sched_inv :: "ssys \<Rightarrow> bool" where
  "sched_inv y \<longleftrightarrow> queue_inv (y_sched y) \<and> workers_inv y \<and> count_inv y \<and> phase_inv y \<and> refs_inv y"

subsection \<open>Changes that keep the shape of the trigger tables\<close>

definition trigger_shape :: "trigger_state list \<Rightarrow> nat list" where
  "trigger_shape ts = map (length \<circ> tg_ready) ts"

definition shape_le :: "components \<Rightarrow> components \<Rightarrow> bool" where
  "shape_le comps comps' \<longleftrightarrow> (\<forall>n sc. omap_find comps n = Some sc \<longrightarrow> (\<exists>sc'. omap_find comps' n = Some sc'
     \<and> trigger_shape (sc_task_triggers sc') = trigger_shape (sc_task_triggers sc)
     \<and> (\<exists>extra. trigger_shape (sc_data_triggers sc') = trigger_shape (sc_data_triggers sc) @ extra)))"

lemma shape_le_refl: "shape_le comps comps"
  by (simp add: shape_le_def)

lemma shape_le_trans: "shape_le a b \<Longrightarrow> shape_le b c \<Longrightarrow> shape_le a c"
  unfolding shape_le_def by (metis append.assoc)

lemma shape_nth:
  assumes "trigger_shape ts' = trigger_shape ts @ extra" "i < length ts"
  shows "i < length ts' \<and> length (tg_ready (ts' ! i)) = length (tg_ready (ts ! i))"
proof -
  have len: "length ts' = length ts + length extra"
    using arg_cong [OF assms(1), of length] by (simp add: trigger_shape_def)
  moreover have "trigger_shape ts' ! i = trigger_shape ts ! i"
    using assms by (simp add: nth_append trigger_shape_def)
  ultimately show ?thesis using assms(2) by (simp add: trigger_shape_def)
qed

lemma shape_leE:
  assumes "shape_le comps comps'" "omap_find comps n = Some sc"
  obtains sc' extra where "omap_find comps' n = Some sc'"
    "trigger_shape (sc_task_triggers sc') = trigger_shape (sc_task_triggers sc)"
    "trigger_shape (sc_data_triggers sc') = trigger_shape (sc_data_triggers sc) @ extra"
  using assms unfolding shape_le_def by meson

lemma shape_le_data_ref:
  assumes "shape_le comps comps'" "data_ref comps c"
  shows "data_ref comps' c"
proof -
  obtain n ti di sc where c: "c = (n, ti, di)" "omap_find comps n = Some sc" "ti < length (sc_data_triggers sc)"
      "di < length (tg_ready (sc_data_triggers sc ! ti))" using assms(2) by (auto simp: data_ref_def)
  from assms(1) c(2) obtain sc' extra where sc': "omap_find comps' n = Some sc'"
      "trigger_shape (sc_data_triggers sc') = trigger_shape (sc_data_triggers sc) @ extra" by (rule shape_leE)
  from shape_nth [OF sc'(2) c(3)] sc'(1) c show ?thesis by (simp add: data_ref_def)
qed

lemma shape_le_task_ref:
  assumes "shape_le comps comps'" "task_ref comps d"
  shows "task_ref comps' d"
proof -
  obtain sc where c: "omap_find comps (td_component d) = Some sc" "td_trigger_index d < length (sc_task_triggers sc)"
      "td_dependency_index d < length (tg_ready (sc_task_triggers sc ! td_trigger_index d))"
    using assms(2) by (auto simp: task_ref_def)
  from assms(1) c(1) obtain sc' where sc': "omap_find comps' (td_component d) = Some sc'"
      "trigger_shape (sc_task_triggers sc') = trigger_shape (sc_task_triggers sc) @ []" by (rule shape_leE) simp
  from shape_nth [OF sc'(2) c(2)] sc'(1) c show ?thesis by (simp add: task_ref_def)
qed

lemma shape_le_assign:
  assumes "omap_ok comps" "omap_find comps n = Some sc"
    "trigger_shape (sc_task_triggers sc') = trigger_shape (sc_task_triggers sc)"
    "trigger_shape (sc_data_triggers sc') = trigger_shape (sc_data_triggers sc) @ extra"
  shows "shape_le comps (omap_assign n sc' comps)"
  using assms by (auto simp: shape_le_def om.lookup_assign)

lemma trigger_shape_mark:
  assumes "mark_ready i t = (fired, t')" "t = ts ! k"
  shows "trigger_shape (ts[k := t']) = trigger_shape ts"
proof -
  have "length (tg_ready t') = length (tg_ready t)"
    using assms(1) by (auto simp: mark_ready_def Let_def split: if_splits)
  with assms(2) show ?thesis
    by (cases "k < length ts") (simp_all add: trigger_shape_def map_update list_update_same_conv list_update_beyond)
qed

text \<open>What the sections that may queue events have in common.\<close>

definition queue_step :: "sched \<Rightarrow> sched \<Rightarrow> bool" where
  "queue_step s s' \<longleftrightarrow>
     (sd_executing_components s', sd_active_events s', sd_dispatched_events s', sd_running s', sd_starting s',
       sd_stopping s', sd_task_dependents s')
     = (sd_executing_components s, sd_active_events s, sd_dispatched_events s, sd_running s, sd_starting s,
       sd_stopping s, sd_task_dependents s)
     \<and> (queue_inv s \<longrightarrow> queue_inv s') \<and> (\<exists>new. sd_pending_events s' = sd_pending_events s @ new)
     \<and> (omap_ok (sd_components s) \<longrightarrow> omap_ok (sd_components s') \<and> shape_le (sd_components s) (sd_components s'))"

lemma queue_step_refl: "queue_step s s"
  by (simp add: queue_step_def shape_le_refl)

lemma queue_step_trans:
  assumes "queue_step a b" "queue_step b c" shows "queue_step a c"
proof -
  obtain n1 n2 where "sd_pending_events b = sd_pending_events a @ n1" "sd_pending_events c = sd_pending_events b @ n2"
    using assms unfolding queue_step_def by blast
  then have "\<exists>new. sd_pending_events c = sd_pending_events a @ new" by simp
  moreover have "omap_ok (sd_components c) \<and> shape_le (sd_components a) (sd_components c)" if "omap_ok (sd_components a)"
    using assms that shape_le_trans unfolding queue_step_def by meson
  moreover have "queue_inv c" if "queue_inv a" using assms that unfolding queue_step_def by meson
  ultimately show ?thesis using assms unfolding queue_step_def by simp
qed

lemma queue_step_QueueEvent: "queue_step s (QueueEvent now name deadline priority s)"
proof -
  have "queue_inv (QueueEvent now name deadline priority s)" if q: "queue_inv s"
  proof (cases "str name \<in> sd_queued_components s")
    case True
    with q show ?thesis by (simp add: QueueEvent_def queue_inv_def)
  next
    case False
    with q have "str name \<notin> event_name ` set (sd_pending_events s)" by (simp add: queue_inv_def)
    with q False show ?thesis by (simp add: QueueEvent_def queue_inv_def Let_def)
  qed
  then show ?thesis by (simp add: queue_step_def QueueEvent_def Let_def shape_le_refl)
qed

lemma queue_step_components:
  assumes "omap_ok (sd_components s) \<Longrightarrow> omap_ok comps \<and> shape_le (sd_components s) comps"
  shows "queue_step s (s\<lparr>sd_components := comps\<rparr>)"
  using assms by (simp add: queue_step_def queue_inv_def)

lemma queue_step_OnDataAvailable:
  assumes "OnDataAvailable now name ti di s = Some s'"
  shows "queue_step s s'"
proof (cases "\<not> sd_running s \<or> sd_stopping s")
  case True
  with assms show ?thesis by (auto simp: OnDataAvailable_def queue_step_refl)
next
  case False
  then obtain sc fired t where sc: "omap_find (sd_components s) (str name) = Some sc"
      "mark_ready di (sc_data_triggers sc ! ti) = (fired, t)"
    and s': "s' = (let s1 = s\<lparr>sd_components := omap_assign (str name)
        (sc\<lparr>sc_data_triggers := (sc_data_triggers sc)[ti := t]\<rparr>) (sd_components s)\<rparr> in
      if fired then QueueEvent now name (tg_deadline t) (tg_priority t) s1 else s1)"
    using assms by (auto simp: OnDataAvailable_def Let_def split: option.splits if_splits prod.splits)
  have "queue_step s (s\<lparr>sd_components := omap_assign (str name)
      (sc\<lparr>sc_data_triggers := (sc_data_triggers sc)[ti := t]\<rparr>) (sd_components s)\<rparr>)"
    using sc trigger_shape_mark [OF sc(2) refl]
    by (intro queue_step_components conjI om.ok_assign shape_le_assign [where extra = "[]"]) simp_all
  with s' show ?thesis by (auto simp: Let_def intro: queue_step_trans queue_step_QueueEvent)
qed

lemma queue_step_notify_dependent:
  assumes "notify_dependent now d s = Some s'"
  shows "queue_step s s'"
proof -
  obtain sc fired t where sc: "omap_find (sd_components s) (td_component d) = Some sc"
      "mark_ready (td_dependency_index d) (sc_task_triggers sc ! td_trigger_index d) = (fired, t)"
    and s': "s' = (let s1 = s\<lparr>sd_components := omap_assign (td_component d)
        (sc\<lparr>sc_task_triggers := (sc_task_triggers sc)[td_trigger_index d := t]\<rparr>) (sd_components s)\<rparr> in
      if fired then QueueEvent now (NamedValue (td_component d)) (tg_deadline t) (tg_priority t) s1 else s1)"
    using assms by (auto simp: notify_dependent_def Let_def split: option.splits if_splits prod.splits)
  have "queue_step s (s\<lparr>sd_components := omap_assign (td_component d)
      (sc\<lparr>sc_task_triggers := (sc_task_triggers sc)[td_trigger_index d := t]\<rparr>) (sd_components s)\<rparr>)"
    using sc trigger_shape_mark [OF sc(2) refl]
    by (intro queue_step_components conjI om.ok_assign shape_le_assign [where extra = "[]"]) simp_all
  with s' show ?thesis by (auto simp: Let_def intro: queue_step_trans queue_step_QueueEvent)
qed

lemma queue_step_notify_dependents: "notify_dependents ds s = Some s' \<Longrightarrow> queue_step s s'"
proof (induction ds s rule: notify_dependents.induct)
  case (1 s)
  then show ?case by (simp add: queue_step_refl)
next
  case (2 now d ds s)
  then show ?case by (auto split: bind_splits intro: queue_step_trans queue_step_notify_dependent)
qed

subsection \<open>Every step keeps the invariant\<close>

lemma refs_inv_shape:
  assumes "refs_inv y" "omap_ok comps" "shape_le (sd_components (y_sched y)) comps"
    "sd_components s = comps" "sd_task_dependents s = sd_task_dependents (y_sched y)"
  shows "refs_inv (y\<lparr>y_sched := s\<rparr>)"
  using assms shape_le_data_ref [OF assms(3)] shape_le_task_ref [OF assms(3)] unfolding refs_inv_def by simp

lemma sched_invD:
  assumes "sched_inv y"
  shows "queue_inv (y_sched y)" "workers_inv y" "count_inv y" "phase_inv y" "refs_inv y"
    "omap_ok (sd_components (y_sched y))"
  using assms by (simp_all add: sched_inv_def, simp add: refs_inv_def)

lemma sched_inv_queued:
  assumes inv: "sched_inv y" and qs: "queue_step (y_sched y) s"
    and quiet: "sd_pending_events s = sd_pending_events (y_sched y) \<or> sd_running (y_sched y)"
  shows "sched_inv (queued s y)"
proof -
  note inv = sched_invD [OF inv]
  from qs have same: "sd_executing_components s = sd_executing_components (y_sched y)"
      "sd_active_events s = sd_active_events (y_sched y)" "sd_dispatched_events s = sd_dispatched_events (y_sched y)"
      "sd_running s = sd_running (y_sched y)" "sd_stopping s = sd_stopping (y_sched y)"
      "sd_task_dependents s = sd_task_dependents (y_sched y)"
    unfolding queue_step_def by simp_all
  have q: "queue_inv s" and comps: "omap_ok (sd_components s)" "shape_le (sd_components (y_sched y)) (sd_components s)"
    using qs inv(1,6) unfolding queue_step_def by blast+
  obtain new where new: "sd_pending_events s = sd_pending_events (y_sched y) @ new"
    using qs unfolding queue_step_def by blast
  have "workers_inv (queued s y) = workers_inv y" by (simp add: same workers_inv_def queued_def)
  moreover have "count_inv (queued s y) = count_inv y" by (simp add: same new count_inv_def queued_def add.assoc)
  moreover have "phase_inv (queued s y)"
  proof (cases "sd_running (y_sched y)")
    case True
    with inv(4) have "\<not> sd_stopping (y_sched y)" "WExited \<notin> set (y_workers y)" unfolding phase_inv_def by blast+
    with True show ?thesis by (simp add: phase_inv_def queued_def same)
  next
    case False
    with quiet have "sd_pending_events s = sd_pending_events (y_sched y)" by blast
    then have "phase_inv (queued s y) = phase_inv y" by (simp add: phase_inv_def queued_def same)
    with inv(4) show ?thesis by blast
  qed
  moreover have "refs_inv (queued s y)"
  proof -
    have "refs_inv (y\<lparr>y_sched := s\<rparr>)" by (rule refs_inv_shape [OF inv(5) comps refl same(6)])
    then show ?thesis by (simp add: refs_inv_def queued_def)
  qed
  ultimately show ?thesis using q inv(2,3) by (simp add: sched_inv_def) (simp add: queued_def)
qed

text \<open>A section that only changes the trigger tables.\<close>

lemma sched_inv_components:
  assumes "sched_inv y" "omap_ok comps" "shape_le (sd_components (y_sched y)) comps"
  shows "sched_inv (y\<lparr>y_sched := (y_sched y)\<lparr>sd_components := comps\<rparr>\<rparr>)"
proof -
  let ?y = "y\<lparr>y_sched := (y_sched y)\<lparr>sd_components := comps\<rparr>\<rparr>"
  have "refs_inv ?y" by (rule refs_inv_shape [OF sched_invD(5) [OF assms(1)] assms(2,3)]) simp_all
  moreover have "queue_inv (y_sched ?y) = queue_inv (y_sched y)" by (simp add: queue_inv_def)
  moreover have "workers_inv ?y = workers_inv y" by (simp add: workers_inv_def)
  moreover have "count_inv ?y = count_inv y" by (simp add: count_inv_def)
  moreover have "phase_inv ?y = phase_inv y" by (simp add: phase_inv_def)
  ultimately show ?thesis using sched_invD(1-4) [OF assms(1)] unfolding sched_inv_def by blast
qed

lemma step_register:
  assumes "sched_inv y" "Scheduler_RegisterComponent found name (y_sched y) = (st, s)"
  shows "sched_inv (y\<lparr>y_sched := s\<rparr>)"
proof -
  note ok = sched_invD(6) [OF assms(1)]
  show ?thesis
  proof (cases "s = y_sched y")
    case True
    with assms(1) show ?thesis by simp
  next
    case False
    then obtain sc where sc: "omap_find (sd_components (y_sched y)) (str name) = None"
        "s = (y_sched y)\<lparr>sd_components := omap_emplace (str name) sc (sd_components (y_sched y))\<rparr>"
      using assms(2) by (simp add: Scheduler_RegisterComponent_def Let_def split: sum.splits if_splits) blast
    have "shape_le (sd_components (y_sched y)) (omap_emplace (str name) sc (sd_components (y_sched y)))"
      unfolding shape_le_def using sc(1) ok by (auto simp: omap_find_emplace)
    then show ?thesis unfolding sc(2) using assms(1) by (intro sched_inv_components omap_ok_emplace ok)
  qed
qed

lemma step_install:
  assumes "sched_inv y" "install_data_state name t (y_sched y) = Some (ti, s)"
  shows "sched_inv (y\<lparr>y_sched := s\<rparr>)"
proof -
  have ok: "omap_ok (sd_components (y_sched y))" using assms(1) by (simp add: sched_inv_def refs_inv_def)
  obtain sc where sc: "omap_find (sd_components (y_sched y)) (str name) = Some sc"
      "s = (y_sched y)\<lparr>sd_components := omap_assign (str name) (sc\<lparr>sc_data_triggers := sc_data_triggers sc
         @ [trigger_state_of t (length (tr_data_dependencies t))]\<rparr>) (sd_components (y_sched y))\<rparr>"
    using assms(2) by (auto simp: install_data_state_def split: option.splits)
  show ?thesis unfolding sc(2) using ok sc(1)
    by (intro sched_inv_components assms(1) om.ok_assign shape_le_assign) (simp_all add: trigger_shape_def)
qed

lemma step_keep:
  assumes "sched_inv y" "keep_reader name reader (y_sched y) = (st, s)"
  shows "sched_inv (y\<lparr>y_sched := s\<rparr>)"
proof (cases "omap_find (sd_components (y_sched y)) (str name)")
  case None
  with assms(2) have "s = y_sched y" by (auto simp: keep_reader_def)
  with assms(1) show ?thesis by simp
next
  case (Some sc)
  have ok: "omap_ok (sd_components (y_sched y))" using assms(1) by (simp add: sched_inv_def refs_inv_def)
  from Some assms(2) have s: "s = (y_sched y)\<lparr>sd_components := omap_assign (str name)
      (sc\<lparr>sc_data_trigger_readers := sc_data_trigger_readers sc @ [reader]\<rparr>) (sd_components (y_sched y))\<rparr>"
    by (simp add: keep_reader_def)
  show ?thesis unfolding s using ok Some
    by (intro sched_inv_components assms(1) om.ok_assign shape_le_assign [where extra = "[]"]) simp_all
qed

text \<open>The dependents lists that \<open>Start\<close> installs point into the tables it installs.\<close>

lemma trigger_entries_ref:
  assumes "(u, d) \<in> set (trigger_entries name k ts)"
  shows "td_component d = name \<and> k \<le> td_trigger_index d \<and> td_trigger_index d - k < length (task_states ts)
    \<and> td_dependency_index d < length (tg_ready (task_states ts ! (td_trigger_index d - k)))"
  using assms
proof (induction name k ts rule: trigger_entries.induct)
  case (1 name k)
  then show ?case by simp
next
  case (2 name k t ts)
  show ?case
  proof (cases "tr_kind t = kTaskDependency")
    case False
    with 2 show ?thesis by simp
  next
    case True
    then consider "(u, d) \<in> set (dependency_entries name k 0 (tr_task_dependencies t))"
      | "(u, d) \<in> set (trigger_entries name (k + 1) ts)" using 2(3) by auto
    then show ?thesis
    proof cases
      case 1
      then have "td_component d = name" "td_trigger_index d = k" "td_dependency_index d < length (tr_task_dependencies t)"
        by (auto simp: dependency_entries_def in_set_enumerate_eq)
      with True show ?thesis by (simp add: trigger_state_of_def)
    next
      case 2
      from \<open>\<lbrakk>\<not> tr_kind t \<noteq> kTaskDependency; (u, d) \<in> set (trigger_entries name (k + 1) ts)\<rbrakk> \<Longrightarrow> _\<close> True this
      have "td_component d = name \<and> k + 1 \<le> td_trigger_index d \<and> td_trigger_index d - (k + 1) < length (task_states ts)
        \<and> td_dependency_index d < length (tg_ready (task_states ts ! (td_trigger_index d - (k + 1))))" by simp
      moreover from this have "td_trigger_index d - k = Suc (td_trigger_index d - (k + 1))" by linarith
      ultimately show ?thesis using True by simp
    qed
  qed
qed

lemma omap_find_map: "omap_find (map (\<lambda>(n, v). (n, f n v)) m) n = map_option (f n) (omap_find m n)"
  by (induction m) (auto simp: omap_find_def)

lemma omap_ok_map: "omap_ok (map (\<lambda>(n, v). (n, f n v)) m) \<longleftrightarrow> omap_ok m"
  by (simp add: omap_ok_def case_prod_beta comp_def)

lemma step_start:
  assumes inv: "sched_inv y" and start: "Start_begin (y_sched y) = Some (None, s)"
  shows "sched_inv (y\<lparr>y_sched := s\<rparr>)"
proof -
  let ?s = "y_sched y"
  have ok: "omap_ok (sd_components ?s)" using inv by (simp add: sched_inv_def refs_inv_def)
  from start obtain comps deps where idle: "\<not> sd_starting ?s" "\<not> sd_stopping ?s" "\<not> sd_running ?s"
    and inst: "InstallTaskTriggers (sd_components ?s) = Some (Inr (comps, deps))"
    and s: "s = ?s\<lparr>sd_components := comps, sd_task_dependents := deps, sd_stopping := False, sd_starting := True,
      sd_running := True, sd_last_status := Status_Ok\<rparr>"
    by (auto simp: Start_begin_def Let_def split: if_splits option.splits sum.splits)
  from ok inst have comps: "comps = map (\<lambda>(name, sc). (name, sc\<lparr>sc_task_triggers := task_states (cs_triggers (sc_spec sc))\<rparr>)) (sd_components ?s)"
    and deps: "\<forall>u. omap_at [] deps u = map snd (filter (\<lambda>e. fst e = u) (task_entries (sd_components ?s)))"
    by (auto elim!: InstallTaskTriggers_cases)
  have "task_ref comps d" if "d \<in> set (omap_at [] deps u)" for u d
  proof -
    from that deps obtain n sc where n: "(n, sc) \<in> set (sd_components ?s)" "(u, d) \<in> set (trigger_entries n 0 (cs_triggers (sc_spec sc)))"
      by (auto simp: task_entries_def)
    have "omap_find comps n = Some (sc\<lparr>sc_task_triggers := task_states (cs_triggers (sc_spec sc))\<rparr>)"
      unfolding comps omap_find_map using omap_in_find [OF ok n(1)] by simp
    with trigger_entries_ref [OF n(2)] show ?thesis by (simp add: task_ref_def)
  qed
  moreover have "omap_ok comps" unfolding comps omap_ok_map by (rule ok)
  moreover have "y_workers y = [] \<and> y_callbacks y = {} \<and> sd_pending_events ?s = []"
    using inv idle by (simp add: sched_inv_def phase_inv_def)
  ultimately show ?thesis
    using sched_invD(1-3) [OF inv]
    by (simp add: s sched_inv_def queue_inv_def workers_inv_def count_inv_def phase_inv_def refs_inv_def)
qed

lemma distinct_remove_nth:
  assumes "distinct (map f xs)" "i < length xs"
  shows "distinct (map f (take i xs @ drop (Suc i) xs)) \<and> f ` set (take i xs @ drop (Suc i) xs) = f ` set xs - {f (xs ! i)}"
proof -
  have "map f xs = map f (take i xs) @ f (xs ! i) # map f (drop (Suc i) xs)"
    using assms(2) by (metis id_take_nth_drop list.simps(9) map_append)
  moreover have "f ` set xs = set (map f xs)" by simp
  ultimately show ?thesis using assms(1) by auto
qed

lemma step_dispatch:
  assumes inv: "sched_inv y" and ws: "y_workers y = ws1 @ WIdle # ws2"
    and take: "Dispatch_take now (y_sched y) = Some (e, s)"
  shows "sched_inv (y\<lparr>y_sched := s, y_workers := ws1 @ WExecuting e # ws2\<rparr>)"
proof -
  let ?s = "y_sched y" and ?y = "y\<lparr>y_sched := s, y_workers := ws1 @ WExecuting e # ws2\<rparr>"
  note inv = sched_invD [OF inv]
  from dispatch_best [OF take] obtain i where i: "i < length (sd_pending_events ?s)" "sd_pending_events ?s ! i = e"
      "event_name e \<notin> sd_executing_components ?s"
      "sd_pending_events s = take i (sd_pending_events ?s) @ drop (Suc i) (sd_pending_events ?s)" by blast
  from take have f: "sd_queued_components s = sd_queued_components ?s - {event_name e}"
      "sd_executing_components s = insert (event_name e) (sd_executing_components ?s)"
      "sd_active_events s = sd_active_events ?s + 1" "sd_dispatched_events s = sd_dispatched_events ?s"
      "sd_running s = sd_running ?s" "sd_stopping s = sd_stopping ?s" "sd_components s = sd_components ?s"
      "sd_task_dependents s = sd_task_dependents ?s"
    by (auto simp: Dispatch_take_def split: option.splits prod.splits)
  have "queue_inv s"
    using inv(1) distinct_remove_nth [OF _ i(1), of event_name] unfolding queue_inv_def i(2,4) f(1) by simp
  moreover have "workers_inv ?y" using inv(2) i(3) ws by (auto simp: workers_inv_def f)
  moreover have "length (sd_pending_events ?s) = Suc (length (sd_pending_events s))" using i(1,4) by simp
  then have "count_inv ?y" using inv(3) by (simp add: count_inv_def f)
  moreover have "phase_inv ?y"
  proof -
    have "sd_pending_events ?s \<noteq> []" using i(1) by auto
    with inv(4) ws have "WExited \<notin> set (y_workers y)" "sd_running ?s \<or> sd_stopping ?s" "\<not> (sd_running ?s \<and> sd_stopping ?s)"
      unfolding phase_inv_def by blast+
    with ws show ?thesis by (simp add: phase_inv_def f)
  qed
  moreover have "refs_inv ?y = refs_inv y" by (simp add: refs_inv_def f)
  ultimately show ?thesis using inv(5) by (simp add: sched_inv_def)
qed

lemma step_complete:
  assumes inv: "sched_inv y" and ws: "y_workers y = ws1 @ WExecuting e # ws2"
    and complete: "Dispatch_complete clock e st (y_sched y) = Some s"
  shows "sched_inv ((queued s y)\<lparr>y_workers := ws1 @ WIdle # ws2\<rparr>)"
proof -
  let ?s = "y_sched y"
  define s1 where "s1 = ?s\<lparr>sd_last_status := (if \<not> status_ok st then st else sd_last_status ?s),
      sd_dispatched_events := sd_dispatched_events ?s + 1, sd_active_events := sd_active_events ?s - 1,
      sd_executing_components := sd_executing_components ?s - {event_name e}\<rparr>"
  define y1 where "y1 = y\<lparr>y_sched := s1, y_workers := ws1 @ WIdle # ws2\<rparr>"
  note inv = sched_invD [OF inv]
  have pend: "sd_pending_events s1 = sd_pending_events ?s" by (simp add: s1_def)
  have active: "0 < sd_active_events ?s" using inv(2) ws by (simp add: workers_inv_def)
  have "queue_inv s1 = queue_inv ?s" by (simp add: queue_inv_def s1_def)
  moreover have "workers_inv y1" using inv(2) ws by (auto simp: workers_inv_def y1_def s1_def)
  moreover have "count_inv y1" using inv(3) active by (simp add: count_inv_def y1_def s1_def)
  moreover have "phase_inv y1" using inv(4) ws by (simp add: phase_inv_def y1_def s1_def)
  moreover have "refs_inv y1 = refs_inv y" by (simp add: refs_inv_def y1_def s1_def)
  ultimately have inv1: "sched_inv y1" using inv(1,5) by (simp add: sched_inv_def y1_def)
  have run: "s = s1 \<or> \<not> sd_stopping ?s \<and> queue_step s1 s"
    using complete queue_step_notify_dependents unfolding Dispatch_complete_def s1_def [symmetric] Let_def
    by (auto simp: s1_def split: if_splits)
  have "queue_step s1 s" using run queue_step_refl by blast
  moreover have "sd_pending_events s = sd_pending_events s1 \<or> sd_running s1"
  proof (cases "sd_stopping ?s")
    case True
    with run show ?thesis by blast
  next
    case False
    have "sd_running ?s" using inv(4) ws False unfolding phase_inv_def by auto
    then show ?thesis by (simp add: s1_def)
  qed
  ultimately have "sched_inv (queued s y1)" using sched_inv_queued [OF inv1, of s] by (simp add: y1_def)
  moreover have "queued s y1 = (queued s y)\<lparr>y_workers := ws1 @ WIdle # ws2\<rparr>"
    by (simp add: queued_def y1_def pend)
  ultimately show ?thesis by simp
qed

lemma step_stop:
  assumes "sched_inv y" "Stop_begin from_start caller (y_sched y) = (None, s)"
  shows "sched_inv (y\<lparr>y_sched := s\<rparr>)"
proof -
  from assms(2) have s: "\<not> sd_stopping (y_sched y)" "sd_running (y_sched y)" "s = (y_sched y)\<lparr>sd_stopping := True, sd_running := False\<rparr>"
    by (auto simp: Stop_begin_def split: if_splits)
  note inv = sched_invD [OF assms(1)]
  have "WExited \<notin> set (y_workers y)" using inv(4) s(1) unfolding phase_inv_def by blast
  then have "phase_inv (y\<lparr>y_sched := s\<rparr>)" by (simp add: phase_inv_def s(3))
  with inv(1-3,5) show ?thesis
    by (simp add: sched_inv_def queue_inv_def workers_inv_def count_inv_def refs_inv_def s(3))
qed

lemma all_exited_idle: "\<forall>w \<in> set ws. w = WExited \<Longrightarrow> running_names ws = []"
  by (induction ws) auto

lemma step_stopped:
  assumes "sched_inv y" "\<forall>w \<in> set (y_workers y). w = WExited"
  shows "sched_inv (y\<lparr>y_sched := Stop_end (y_sched y), y_workers := [], y_callbacks := {},
      y_discarded := y_discarded y + length (sd_pending_events (y_sched y))\<rparr>)"
proof -
  note inv = sched_invD [OF assms(1)]
  have "sd_active_events (y_sched y) = 0" "sd_executing_components (y_sched y) = {}"
    using inv(2) all_exited_idle [OF assms(2)] by (simp_all add: workers_inv_def)
  moreover have "omap_ok (clear_triggers (sd_components (y_sched y)))"
    unfolding clear_triggers_def omap_ok_map by (rule inv(6))
  ultimately show ?thesis
    using inv(3) by (simp add: sched_inv_def queue_inv_def workers_inv_def count_inv_def phase_inv_def refs_inv_def
        Stop_end_def omap_at_def)
qed

lemma running_no_exit: "phase_inv y \<Longrightarrow> sd_running (y_sched y) \<Longrightarrow> \<not> sd_stopping (y_sched y) \<and> WExited \<notin> set (y_workers y)"
  unfolding phase_inv_def by blast

lemma sched_inv_step:
  assumes "sched_inv y" "sched_step y y'"
  shows "sched_inv y'"
  using assms(2)
proof (cases rule: sched_step.cases)
  case (register found name st s)
  then show ?thesis using step_register [OF assms(1)] by blast
next
  case (start s)
  then show ?thesis using step_start [OF assms(1)] by blast
next
  case spawn
  have "phase_inv (y\<lparr>y_workers := y_workers y @ [WIdle]\<rparr>)"
    using running_no_exit [OF sched_invD(4) [OF assms(1)] spawn(3)] spawn(3) by (simp add: phase_inv_def)
  then show ?thesis unfolding spawn(1) using sched_invD(1-3,5) [OF assms(1)]
    by (simp add: sched_inv_def workers_inv_def count_inv_def refs_inv_def)
next
  case (install name t ti s)
  then show ?thesis using step_install [OF assms(1)] by blast
next
  case (subscribe n ti di)
  have "phase_inv (y\<lparr>y_callbacks := insert (n, ti, di) (y_callbacks y)\<rparr>)"
    using running_no_exit [OF sched_invD(4) [OF assms(1)] subscribe(3)] subscribe(3) by (simp add: phase_inv_def)
  then show ?thesis unfolding subscribe(1) using sched_invD(1-3,5) [OF assms(1)] subscribe(4)
    by (simp add: sched_inv_def workers_inv_def count_inv_def refs_inv_def)
next
  case (keep name reader st s)
  then show ?thesis using step_keep [OF assms(1)] by blast
next
  case finish
  have "sched_inv y' = sched_inv y"
    unfolding finish(1)
    by (simp add: sched_inv_def queue_inv_def workers_inv_def count_inv_def phase_inv_def refs_inv_def finish_start_def)
  with assms(1) show ?thesis by blast
next
  case (data name ti di now s)
  have "s = y_sched y \<or> sd_running (y_sched y)" using data(3) by (auto simp: OnDataAvailable_def split: if_splits)
  then show ?thesis unfolding data(1)
    by (intro sched_inv_queued [OF assms(1) queue_step_OnDataAvailable [OF data(3)]]) auto
next
  case (enqueue now name deadline priority st s)
  then have "s = y_sched y \<or> sd_running (y_sched y) \<and> s = QueueEvent now name deadline priority (y_sched y)"
    by (auto simp: Enqueue_def split: if_splits)
  then have "queue_step (y_sched y) s" "s = y_sched y \<or> sd_running (y_sched y)"
    using queue_step_refl queue_step_QueueEvent by auto
  then show ?thesis unfolding enqueue(1) by (intro sched_inv_queued [OF assms(1)]) auto
next
  case (dispatch ws1 ws2 now e s)
  then show ?thesis using step_dispatch [OF assms(1)] by blast
next
  case (complete ws1 e ws2 clock st s)
  then show ?thesis using step_complete [OF assms(1)] by blast
next
  case (exit ws1 ws2)
  have "phase_inv y'" using sched_invD(4) [OF assms(1)] exit unfolding phase_inv_def by simp
  then show ?thesis using sched_invD(1-3,5) [OF assms(1)] exit
    by (simp add: sched_inv_def workers_inv_def count_inv_def refs_inv_def)
next
  case (stop from_start caller s)
  then show ?thesis using step_stop [OF assms(1)] by blast
next
  case stopped
  then show ?thesis using step_stopped [OF assms(1)] by blast
qed

interpretation sch: transition_system "\<lambda>y. y = ssys_init opts" sched_step sched_inv
proof
  show "sched_inv y" if "y = ssys_init opts" for y
    using that by (simp add: sched_inv_def ssys_init_def sched_init_def queue_inv_def workers_inv_def count_inv_def
        phase_inv_def refs_inv_def omap_at_def)
  show "sched_inv z" if "sched_inv y" "sched_step y z" for y z
    using that by (rule sched_inv_step)
qed

section \<open>Properties of the runs\<close>

text \<open>
  C21. Components run serially: in every reachable state no component is executed by two workers, none
  has two events in the queue, and the sets and counters the scheduler keeps are exactly the components
  queued and executing.
\<close>

theorem components_run_serially:
  assumes "sched_step\<^sup>*\<^sup>* (ssys_init opts) y"
  shows "distinct (running_names (y_workers y)) \<and> distinct (map event_name (sd_pending_events (y_sched y)))
    \<and> sd_executing_components (y_sched y) = set (running_names (y_workers y))
    \<and> sd_queued_components (y_sched y) = event_name ` set (sd_pending_events (y_sched y))
    \<and> sd_active_events (y_sched y) = length (running_names (y_workers y))"
  using sched_invD(1,2) [OF sch.inv_reachable [OF refl assms]] unfolding queue_inv_def workers_inv_def by blast

text \<open>
  C22. No event is lost: every event accepted was dispatched, is executing, is in the queue, or was
  discarded by \<open>Stop\<close>; and no step discards an event while the scheduler has a worker, so \<open>Stop\<close> drains
  the queue before it clears it.
\<close>

theorem scheduler_loses_no_event:
  assumes "sched_step\<^sup>*\<^sup>* (ssys_init opts) y" "sched_step y y'" "y_workers y \<noteq> []"
  shows "y_accepted y = sd_dispatched_events (y_sched y) + sd_active_events (y_sched y)
      + length (sd_pending_events (y_sched y)) + y_discarded y
    \<and> y_discarded y' = y_discarded y"
proof -
  note inv = sched_invD [OF sch.inv_reachable [OF refl assms(1)]]
  have "y_discarded y' = y_discarded y" using assms(2)
  proof (cases rule: sched_step.cases)
    case stopped
    then have "WExited \<in> set (y_workers y)" using assms(3) by (metis last_in_set)
    then have "sd_pending_events (y_sched y) = []" using inv(4) unfolding phase_inv_def by blast
    then show ?thesis unfolding stopped(1) by simp
  qed (simp_all add: queued_def)
  then show ?thesis using inv(3) unfolding count_inv_def by blast
qed

lemma notify_dependents_defined:
  "\<forall>(now, d) \<in> set ds. task_ref (sd_components s) d \<Longrightarrow> omap_ok (sd_components s) \<Longrightarrow> notify_dependents ds s \<noteq> None"
proof (induction ds s rule: notify_dependents.induct)
  case (1 s)
  then show ?case by simp
next
  case (2 now d ds s)
  then have "task_ref (sd_components s) d" by simp
  then obtain s' where s': "notify_dependent now d s = Some s'"
    by (auto simp: task_ref_def notify_dependent_def Let_def case_prod_beta)
  from queue_step_notify_dependent [OF s'] 2(3)
  have "omap_ok (sd_components s')" "shape_le (sd_components s) (sd_components s')" unfolding queue_step_def by blast+
  with 2(1) [OF s'] 2(2) s' shape_le_task_ref show ?case by fastforce
qed


definition ex_options :: scheduler_options where
  "ex_options = \<lparr>so_worker_count = 1, so_priority_aging_interval = 0\<rparr>"

definition ex_sched1 :: sched where
  "ex_sched1 = (sched_init ex_options)\<lparr>sd_components := [(''producer'', ex_scheduled ex_producer)]\<rparr>"

definition ex_sched2 :: sched where
  "ex_sched2 = ex_sched1\<lparr>sd_starting := True, sd_running := True\<rparr>"

declare kahn.simps [code]

lemma ex_register: "Scheduler_RegisterComponent (Inr ex_producer) (NamedValue ''producer'') (sched_init ex_options) = (Status_Ok, ex_sched1)"
  by code_simp

lemma ex_start: "Start_begin ex_sched1 = Some (None, ex_sched2)"
  by code_simp

text \<open>A component is registered, the scheduler starts with one worker, and a manual trigger runs the component.\<close>

definition ex_event :: scheduled_event where
  "ex_event = \<lparr>ev_component = NamedValue ''producer'', ev_deadline = 0, ev_priority = 0, ev_due_time = int64_max, ev_queued_at = 5\<rparr>"

definition ex_running :: ssys where
  "ex_running = \<lparr>y_sched = ex_sched2\<lparr>sd_executing_components := {''producer''}, sd_active_events := 1\<rparr>,
     y_workers = [WExecuting ex_event], y_callbacks = {}, y_accepted = 1, y_discarded = 0\<rparr>"

lemma ex_run: "sched_step\<^sup>*\<^sup>* (ssys_init ex_options) ex_running"
proof -
  let ?y1 = "(ssys_init ex_options)\<lparr>y_sched := ex_sched1\<rparr>" and ?y2 = "(ssys_init ex_options)\<lparr>y_sched := ex_sched2\<rparr>"
  let ?y3 = "?y2\<lparr>y_workers := [WIdle]\<rparr>"
  let ?s = "ex_sched2\<lparr>sd_queued_components := {''producer''}, sd_pending_events := [ex_event]\<rparr>"
  have 1: "sched_step (ssys_init ex_options) ?y1"
    using sched_step.register [of "Inr ex_producer" "NamedValue ''producer''" "ssys_init ex_options"] ex_register
    by (simp add: ssys_init_def)
  have 2: "sched_step ?y1 ?y2" using sched_step.start [of ?y1 ex_sched2] ex_start by simp
  have 3: "sched_step ?y2 ?y3"
    using sched_step.spawn [of ?y2] by (simp add: ex_sched2_def ex_sched1_def sched_init_def ex_options_def ssys_init_def)
  let ?y4 = "?y3\<lparr>y_sched := ?s, y_accepted := 1\<rparr>"
  have "Enqueue 5 (NamedValue ''producer'') 0 0 (y_sched ?y3) = (Status_Ok, ?s)"
    by (simp add: Enqueue_def QueueEvent_def ex_sched2_def ex_sched1_def sched_init_def ex_event_def)
  from sched_step.enqueue [OF this] have 4: "sched_step ?y3 ?y4"
    by (simp add: queued_def ssys_init_def ex_sched2_def ex_sched1_def sched_init_def)
  have "Dispatch_take 9 (y_sched ?y4) = Some (ex_event, y_sched ex_running)"
    by (simp add: Dispatch_take_def ex_sched2_def ex_sched1_def sched_init_def ex_running_def ex_event_def)
  from sched_step.dispatch [OF _ this, of "[]" "[]"] have 5: "sched_step ?y4 ex_running"
    by (simp add: ex_running_def ssys_init_def)
  show ?thesis using 1 2 3 4 5 by (meson rtranclp.rtrancl_into_rtrancl rtranclp.rtrancl_refl)
qed

theorem components_run_serially_witness:
  "sd_executing_components (y_sched ex_running) = {''producer''} \<and> sd_active_events (y_sched ex_running) = 1"
  using components_run_serially [OF ex_run] by (simp add: ex_running_def ex_event_def)


theorem scheduler_loses_no_event_witness:
  "\<exists>y'. sched_step ex_running y' \<and> y_workers ex_running \<noteq> [] \<and> y_accepted ex_running = 1 \<and> y_discarded y' = y_discarded ex_running"
proof -
  have step: "sched_step ex_running (ex_running\<lparr>y_sched := finish_start (y_sched ex_running)\<rparr>)"
    by (rule sched_step.finish) (simp add: ex_running_def ex_sched2_def)
  have "y_workers ex_running \<noteq> []" by (simp add: ex_running_def)
  from scheduler_loses_no_event [OF ex_run step this] step this show ?thesis by (auto simp: ex_running_def)
qed

end
