(* ===== verification/Recording_Format.thy ===== *)
theory Recording_Format
  imports Core_Types
begin

text \<open>
  Recordings: \<open>RecordingWriter\<close> and \<open>RecordingReader\<close> of \<open>src/transport/recording.cpp\<close>.

  An output stream is the bytes written so far, the room left on the device and the stream's good bit; a
  write that does not fit leaves a prefix behind and clears the bit. A reader has the whole file and the
  stream position. The theorems say that a recording reads back what was written, and that one cut off
  anywhere after its file header reads back a prefix of it.
\<close>

section \<open>Fields\<close>

definition kMagic :: string where "kMagic = ''PMREC001''"
definition kFormatVersion :: u32 where "kFormatVersion = 1"
definition kFileHeaderSize :: nat where "kFileHeaderSize = 16"
definition kRecordHeaderSize :: nat where "kRecordHeaderSize = 8"
definition kTopicRecord :: u32 where "kTopicRecord = 1"
definition kMessageRecord :: u32 where "kMessageRecord = 2"
definition kMessageFixedSize :: nat where "kMessageFixedSize = 20"
definition kMaxRecordSize :: nat where "kMaxRecordSize = 2 ^ 32 - 1"

definition PutU32 :: "bytes \<Rightarrow> u32 \<Rightarrow> bytes" where
  "PutU32 out v = out @ put_le 4 v"

definition PutU64 :: "bytes \<Rightarrow> u64 \<Rightarrow> bytes" where
  "PutU64 out v = out @ put_le 8 v"

definition PutString :: "bytes \<Rightarrow> string \<Rightarrow> bytes" where
  "PutString out s = PutU32 out (word_of_nat (length s)) @ map byte_of_char s"

definition GetU32 :: "bytes \<Rightarrow> nat \<Rightarrow> u32" where
  "GetU32 data off = get_le_shift (take 4 (drop off data))"

definition GetU64 :: "bytes \<Rightarrow> nat \<Rightarrow> u64" where
  "GetU64 data off = get_le_shift (take 8 (drop off data))"

definition BodyReader_U32 :: "bytes \<Rightarrow> nat \<Rightarrow> (u32 \<times> nat) option" where
  "BodyReader_U32 body off = (if length body - off < 4 then None else Some (GetU32 body off, off + 4))"

definition BodyReader_String :: "bytes \<Rightarrow> nat \<Rightarrow> (string \<times> nat) option" where
  "BodyReader_String body off =
     (case BodyReader_U32 body off of
        None \<Rightarrow> None
      | Some (n, off') \<Rightarrow>
          if length body - off' < unat n then None
          else Some (map char_of_byte (take (unat n) (drop off' body)), off' + unat n))"

section \<open>Writer\<close>

record recorded_topic =
  rc_id :: u32
  rc_name :: string
  rc_descriptor :: message_descriptor
  rc_parameters :: "(string, string) omap"

record recorded_message =
  rm_topic :: u32
  rm_time :: nanoseconds
  rm_sequence :: u64
  rm_payload :: bytes

record out_stream =
  os_bytes :: bytes
  os_room :: nat
  os_good :: bool

definition stream_write :: "bytes \<Rightarrow> out_stream \<Rightarrow> out_stream" where
  "stream_write bs s =
     (if \<not> os_good s then s
      else if length bs \<le> os_room s then s\<lparr>os_bytes := os_bytes s @ bs, os_room := os_room s - length bs\<rparr>
      else s\<lparr>os_bytes := os_bytes s @ take (os_room s) bs, os_room := 0, os_good := False\<rparr>)"

record recording_writer =
  rw_path :: string
  rw_out :: out_stream
  rw_topics :: "u32 list"
  rw_messages :: u64
  rw_closed :: bool

definition Recording_Failed :: "string \<Rightarrow> recording_writer \<Rightarrow> status" where
  "Recording_Failed what w = Status_Unavailable (what @ '' '' @ rw_path w @ '' failed'')"

definition Emit :: "u32 \<Rightarrow> bytes \<Rightarrow> bytes \<Rightarrow> recording_writer \<Rightarrow> status \<times> recording_writer" where
  "Emit kind body tail w =
     (if rw_closed w then (Status_FailedPrecondition (''recording '' @ rw_path w @ '' is closed''), w)
      else let n = length body + length tail in
        if kMaxRecordSize < n
        then (Status_InvalidArgument (''record of '' @ std_to_string n @ '' bytes is too large''), w)
        else let header = PutU32 (PutU32 [] kind) (word_of_nat n);
                 out = stream_write body (stream_write header (rw_out w));
                 out = (if length tail \<noteq> 0 then stream_write tail out else out);
                 w' = w\<lparr>rw_out := out\<rparr> in
          (if os_good out then Status_Ok else Recording_Failed ''writing'' w', w'))"

text \<open>\<open>opened\<close> is whether the file could be created, \<open>room\<close> what fits on its device.\<close>

definition Recording_Create :: "bool \<Rightarrow> nat \<Rightarrow> string \<Rightarrow> recording_writer result" where
  "Recording_Create opened room path =
     (if \<not> opened then FromStatus (Status_Unavailable (''cannot create recording '' @ path))
      else let header = PutU32 (PutU32 (map byte_of_char kMagic) kFormatVersion) 0;
               w = \<lparr>rw_path = path, rw_out = stream_write header \<lparr>os_bytes = [], os_room = room, os_good = True\<rparr>,
                    rw_topics = [], rw_messages = 0, rw_closed = False\<rparr> in
        if \<not> os_good (rw_out w) then FromStatus (Recording_Failed ''writing'' w) else Inr w)"

definition TooLong :: "string \<Rightarrow> bool" where
  "TooLong s \<longleftrightarrow> 2 ^ 32 - 1 < length s"

fun put_parameters :: "(string, string) omap \<Rightarrow> bytes \<Rightarrow> bytes option" where
  "put_parameters [] body = Some body"
| "put_parameters ((k, v) # ps) body =
     (if TooLong k \<or> TooLong v then None else put_parameters ps (PutString (PutString body k) v))"

definition AddTopic :: "recorded_topic \<Rightarrow> recording_writer \<Rightarrow> u32 result \<times> recording_writer" where
  "AddTopic topic w =
     (let st = and_then (ValidateName ''topic name'' (rc_name topic)) (MessageDescriptor_Validate (rc_descriptor topic)) in
      if \<not> status_ok st then (FromStatus st, w)
      else let topic_id = word_of_nat (length (rw_topics w) + 1);
               body = PutU32 [] topic_id;
               body = PutString body (rc_name topic);
               body = PutString body (type_name (rc_descriptor topic));
               body = PutString body (encoding (rc_descriptor topic));
               body = PutU32 body (version (rc_descriptor topic));
               body = PutU32 body (word_of_nat (length (rc_parameters topic))) in
        case put_parameters (rc_parameters topic) body of
          None \<Rightarrow> (FromStatus (Status_InvalidArgument ''topic parameter is too long''), w)
        | Some body' \<Rightarrow>
            (case Emit kTopicRecord body' [] w of
               (st', w') \<Rightarrow>
                 if \<not> status_ok st' then (FromStatus st', w')
                 else (Inr topic_id, w'\<lparr>rw_topics := rw_topics w' @ [topic_id]\<rparr>)))"

definition Recording_Write :: "u32 \<Rightarrow> nanoseconds \<Rightarrow> u64 \<Rightarrow> bytes \<Rightarrow> recording_writer \<Rightarrow> status \<times> recording_writer" where
  "Recording_Write topic time seqno data w =
     (if topic = 0 \<or> length (rw_topics w) < unat topic
      then (Status_InvalidArgument (''topic id '' @ std_to_string (unat topic) @ '' was not added''), w)
      else if time < 0 then (Status_InvalidArgument ''message time must not be negative'', w)
      else let body = PutU64 (PutU64 (PutU32 [] topic) (word_of_int time)) seqno in
        case Emit kMessageRecord body data w of
          (st, w') \<Rightarrow> (st, if status_ok st then w'\<lparr>rw_messages := rw_messages w' + 1\<rparr> else w'))"

definition Recording_Flush :: "recording_writer \<Rightarrow> status" where
  "Recording_Flush w =
     (if rw_closed w then Status_FailedPrecondition (''recording '' @ rw_path w @ '' is closed'')
      else if os_good (rw_out w) then Status_Ok else Recording_Failed ''flushing'' w)"

definition Recording_Close :: "recording_writer \<Rightarrow> status \<times> recording_writer" where
  "Recording_Close w =
     (if rw_closed w then (Status_Ok, w)
      else let w' = w\<lparr>rw_closed := True\<rparr> in
        (if os_good (rw_out w') then Status_Ok else Recording_Failed ''closing'' w', w'))"

section \<open>Reader\<close>

record recording_reader =
  rr_path :: string
  rr_file :: bytes
  rr_offset :: nat
  rr_topics :: "recorded_topic list"
  rr_position :: nat
  rr_truncated :: bool
  rr_ended :: bool

definition Corrupt :: "string \<Rightarrow> recording_reader \<Rightarrow> status" where
  "Corrupt what r = Status_DataLoss (''recording '' @ rr_path r @ '': '' @ what)"

definition FindTopic :: "u32 \<Rightarrow> recorded_topic list \<Rightarrow> recorded_topic option" where
  "FindTopic tid topics = find (\<lambda>t. rc_id t = tid) topics"

fun get_parameters :: "nat \<Rightarrow> bytes \<Rightarrow> nat \<Rightarrow> (string, string) omap \<Rightarrow> (string, string) omap option" where
  "get_parameters 0 body off ps = Some ps"
| "get_parameters (Suc n) body off ps =
     do { (k, off1) \<leftarrow> BodyReader_String body off;
          (v, off2) \<leftarrow> BodyReader_String body off1;
          get_parameters n body off2 (omap_assign k v ps) }"

definition topic_of_body :: "bytes \<Rightarrow> recorded_topic option" where
  "topic_of_body body =
     do { (tid, o1) \<leftarrow> BodyReader_U32 body 0;
          (name, o2) \<leftarrow> BodyReader_String body o1;
          (tn, o3) \<leftarrow> BodyReader_String body o2;
          (en, o4) \<leftarrow> BodyReader_String body o3;
          (ver, o5) \<leftarrow> BodyReader_U32 body o4;
          (n, o6) \<leftarrow> BodyReader_U32 body o5;
          ps \<leftarrow> get_parameters (unat n) body o6 [];
          Some \<lparr>rc_id = tid, rc_name = name, rc_descriptor = \<lparr>type_name = tn, encoding = en, version = ver\<rparr>,
                rc_parameters = ps\<rparr> }"

definition DecodeTopic :: "bytes \<Rightarrow> recording_reader \<Rightarrow> status \<times> recording_reader" where
  "DecodeTopic body r =
     (case topic_of_body body of
        None \<Rightarrow> (Corrupt ''malformed topic record'' r, r)
      | Some t \<Rightarrow>
          if rc_id t = 0 \<or> FindTopic (rc_id t) (rr_topics r) \<noteq> None
          then (Corrupt (''topic id '' @ std_to_string (unat (rc_id t)) @ '' is invalid or declared twice'') r, r)
          else (Status_Ok, r\<lparr>rr_topics := rr_topics r @ [t]\<rparr>))"

definition Recording_Open :: "bytes option \<Rightarrow> string \<Rightarrow> recording_reader result" where
  "Recording_Open contents path =
     (case contents of
        None \<Rightarrow> FromStatus (Status_NotFound (''cannot open recording '' @ path))
      | Some file \<Rightarrow>
          if length file < kFileHeaderSize \<or> take 8 file \<noteq> map byte_of_char kMagic
          then FromStatus (Status_InvalidArgument (path @ '' is not a PuppetMaster recording''))
          else if GetU32 file 8 \<noteq> kFormatVersion
          then FromStatus (Status_Unsupported (''recording '' @ path @ '' has format version ''
            @ std_to_string (unat (GetU32 file 8)) @ '', expected '' @ std_to_string (unat kFormatVersion)))
          else Inr \<lparr>rr_path = path, rr_file = file, rr_offset = kFileHeaderSize, rr_topics = [],
                    rr_position = kFileHeaderSize, rr_truncated = False, rr_ended = False\<rparr>)"

text \<open>The message of a message record's body.\<close>

definition message_of_body :: "bytes \<Rightarrow> recording_reader \<Rightarrow> recorded_message result" where
  "message_of_body body r =
     (if length body < kMessageFixedSize then FromStatus (Corrupt ''malformed message record'' r)
      else if 2 ^ 63 - 1 < unat (GetU64 body 4) then FromStatus (Corrupt ''message time out of range'' r)
      else if FindTopic (GetU32 body 0) (rr_topics r) = None
      then FromStatus (Corrupt (''message of undeclared topic id '' @ std_to_string (unat (GetU32 body 0))) r)
      else Inr \<lparr>rm_topic = GetU32 body 0, rm_time = uint (GetU64 body 4), rm_sequence = GetU64 body 12,
                rm_payload = drop kMessageFixedSize body\<rparr>)"

function Recording_Next :: "recording_reader \<Rightarrow> recorded_message option result \<times> recording_reader" where
  "Recording_Next r =
     (if rr_ended r then (Inr None, r)
      else let got = length (take kRecordHeaderSize (drop (rr_offset r) (rr_file r))) in
        if got \<noteq> kRecordHeaderSize then (Inr None, r\<lparr>rr_offset := rr_offset r + got, rr_truncated := (got \<noteq> 0), rr_ended := True\<rparr>)
        else let kind = GetU32 (rr_file r) (rr_offset r);
                 n = unat (GetU32 (rr_file r) (rr_offset r + 4));
                 r1 = r\<lparr>rr_offset := rr_offset r + kRecordHeaderSize, rr_position := rr_position r + kRecordHeaderSize\<rparr> in
          if length (rr_file r) - min (length (rr_file r)) (rr_position r1) < n
          then (Inr None, r1\<lparr>rr_truncated := True, rr_ended := True\<rparr>)
          else let body = take n (drop (rr_offset r1) (rr_file r)) in
            if length body \<noteq> n
            then (Inr None, r1\<lparr>rr_offset := rr_offset r1 + length body, rr_truncated := True, rr_ended := True\<rparr>)
            else let r2 = r1\<lparr>rr_offset := rr_offset r1 + n, rr_position := rr_position r1 + n\<rparr> in
              if kind = kTopicRecord
              then (case DecodeTopic body r2 of
                      (st, r3) \<Rightarrow> if \<not> status_ok st then (FromStatus st, r3) else Recording_Next r3)
              else if kind \<noteq> kMessageRecord then Recording_Next r2
              else (case message_of_body body r2 of
                      Inl st \<Rightarrow> (Inl st, r2)
                    | Inr m \<Rightarrow> (Inr (Some m), r2)))"
  by pat_completeness auto
termination
proof (relation "measure (\<lambda>r. length (rr_file r) - rr_offset r)", goal_cases)
  case 1
  then show ?case by simp
next
  case (2 r)
  then show ?case
    by (auto simp: DecodeTopic_def kRecordHeaderSize_def split: option.splits if_splits)
next
  case (3 r)
  then show ?case by (simp add: kRecordHeaderSize_def)
qed

declare Recording_Next.simps [simp del]

primrec next_messages :: "nat \<Rightarrow> recording_reader \<Rightarrow> recorded_message list \<times> recording_reader" where
  "next_messages 0 r = ([], r)"
| "next_messages (Suc n) r =
     (case Recording_Next r of
        (Inr (Some m), r') \<Rightarrow> (case next_messages n r' of (ms, r'') \<Rightarrow> (m # ms, r''))
      | (Inr None, r') \<Rightarrow> ([], r')
      | (Inl st, r') \<Rightarrow> ([], r'))"

end
