(* ===== verification/Recording_Properties.thy ===== *)
theory Recording_Properties
  imports Recording_Format
begin

text \<open>
  What a recording reads back.

  A file is seen as a file header, a sequence of whole records and, where the writer or the device stopped
  in the middle of one, the beginning of another record. The writer's operations keep a file of that shape
  (\<open>log_inv\<close>), and so does cutting the file anywhere behind its header; the reader returns the messages of
  the whole records and reports the rest as truncated.
\<close>

section \<open>Fields read back\<close>

definition string_bytes :: "string \<Rightarrow> bytes" where
  "string_bytes s = put_le 4 (word_of_nat (length s) :: u32) @ map byte_of_char s"

lemma PutString_eq: "PutString out s = out @ string_bytes s"
  by (simp add: PutString_def PutU32_def string_bytes_def)

lemma length_string_bytes [simp]: "length (string_bytes s) = 4 + length s"
  by (simp add: string_bytes_def)

lemma GetU32_put: "drop off b = put_le 4 v @ rest \<Longrightarrow> GetU32 b off = v"
  by (simp add: GetU32_def get_put_le)

lemma GetU64_put: "drop off b = put_le 8 v @ rest \<Longrightarrow> GetU64 b off = v"
  by (simp add: GetU64_def get_put_le)

lemma length_drop_append: "drop off b = xs @ ys \<Longrightarrow> length b - off = length xs + length ys"
  by (metis length_append length_drop)

interpretation u32: field_codec "put_le 4" BodyReader_U32 "\<lambda>_. True"
proof
  fix v :: u32 and off b rest
  assume d: "drop off b = put_le 4 v @ rest"
  show "BodyReader_U32 b off = Some (v, off + length (put_le 4 v))"
    by (simp add: BodyReader_U32_def GetU32_put [OF d] length_drop_append [OF d])
qed

interpretation str: field_codec string_bytes BodyReader_String "\<lambda>s. length s < 2 ^ 32"
proof
  fix s :: string and off b rest
  assume s: "length s < 2 ^ 32" and off: "off \<le> length b" and d: "drop off b = string_bytes s @ rest"
  let ?n = "word_of_nat (length s) :: u32"
  have d4: "drop off b = put_le 4 ?n @ map byte_of_char s @ rest" using d by (simp add: string_bytes_def)
  have r: "BodyReader_U32 b off = Some (?n, off + 4)"
    using u32.read_enc [OF TrueI off d4] by simp
  have n: "unat ?n = length s" using s by (simp add: unat_of_nat)
  have d': "drop (off + 4) b = map byte_of_char s @ rest" using drop_after [OF d4] by simp
  show "BodyReader_String b off = Some (s, off + length (string_bytes s))"
    by (simp add: BodyReader_String_def r n d' length_drop_append [OF d'] comp_def)
qed

section \<open>Records\<close>

datatype record_entry = TopicEntry recorded_topic | MessageEntry recorded_message

definition parameter_bytes :: "string \<times> string \<Rightarrow> bytes" where
  "parameter_bytes e = string_bytes (fst e) @ string_bytes (snd e)"

definition topic_body :: "recorded_topic \<Rightarrow> bytes" where
  "topic_body t = put_le 4 (rc_id t) @ string_bytes (rc_name t) @ string_bytes (type_name (rc_descriptor t))
     @ string_bytes (encoding (rc_descriptor t)) @ put_le 4 (version (rc_descriptor t))
     @ put_le 4 (word_of_nat (length (rc_parameters t)) :: u32) @ concat (map parameter_bytes (rc_parameters t))"

definition message_head :: "recorded_message \<Rightarrow> bytes" where
  "message_head m = put_le 4 (rm_topic m) @ put_le 8 (word_of_int (rm_time m) :: u64) @ put_le 8 (rm_sequence m)"

definition raw_record :: "u32 \<Rightarrow> bytes \<Rightarrow> bytes" where
  "raw_record kind body = put_le 4 kind @ put_le 4 (word_of_nat (length body) :: u32) @ body"

fun entry_kind :: "record_entry \<Rightarrow> u32" where
  "entry_kind (TopicEntry t) = kTopicRecord"
| "entry_kind (MessageEntry m) = kMessageRecord"

fun entry_body :: "record_entry \<Rightarrow> bytes" where
  "entry_body (TopicEntry t) = topic_body t"
| "entry_body (MessageEntry m) = message_head m @ rm_payload m"

definition entry_bytes :: "record_entry \<Rightarrow> bytes" where
  "entry_bytes e = raw_record (entry_kind e) (entry_body e)"

definition entries_bytes :: "record_entry list \<Rightarrow> bytes" where
  "entries_bytes es = concat (map entry_bytes es)"

lemma entries_bytes_simps [simp]:
  "entries_bytes [] = []" "entries_bytes (e # es) = entry_bytes e @ entries_bytes es"
  "entries_bytes (es @ fs) = entries_bytes es @ entries_bytes fs"
  by (simp_all add: entries_bytes_def)

fun entry_topics :: "record_entry list \<Rightarrow> recorded_topic list" where
  "entry_topics [] = []"
| "entry_topics (TopicEntry t # es) = t # entry_topics es"
| "entry_topics (MessageEntry m # es) = entry_topics es"

fun entry_messages :: "record_entry list \<Rightarrow> recorded_message list" where
  "entry_messages [] = []"
| "entry_messages (TopicEntry t # es) = entry_messages es"
| "entry_messages (MessageEntry m # es) = m # entry_messages es"

lemma entry_topics_append [simp]: "entry_topics (es @ fs) = entry_topics es @ entry_topics fs"
  by (induction es rule: entry_topics.induct) simp_all

lemma entry_messages_append [simp]: "entry_messages (es @ fs) = entry_messages es @ entry_messages fs"
  by (induction es rule: entry_messages.induct) simp_all

definition kFileHeader :: bytes where
  "kFileHeader = PutU32 (PutU32 (map byte_of_char kMagic) kFormatVersion) 0"

lemma length_kFileHeader [simp]: "length kFileHeader = 16"
  by (simp add: kFileHeader_def PutU32_def kMagic_def)

lemma length_raw_record [simp]: "length (raw_record k b) = 8 + length b"
  by (simp add: raw_record_def)

text \<open>The entries a reader that knows the topics \<open>ts\<close> accepts, one after the other.\<close>

fun entries_ok :: "recorded_topic list \<Rightarrow> record_entry list \<Rightarrow> bool" where
  "entries_ok ts [] \<longleftrightarrow> True"
| "entries_ok ts (TopicEntry t # es) \<longleftrightarrow>
     length (topic_body t) < 2 ^ 32 \<and> omap_ok (rc_parameters t) \<and> rc_id t \<noteq> 0
     \<and> FindTopic (rc_id t) ts = None \<and> entries_ok (ts @ [t]) es"
| "entries_ok ts (MessageEntry m # es) \<longleftrightarrow>
     20 + length (rm_payload m) < 2 ^ 32 \<and> 0 \<le> rm_time m \<and> rm_time m < 2 ^ 63
     \<and> FindTopic (rm_topic m) ts \<noteq> None \<and> entries_ok ts es"

lemma entries_ok_append:
  "entries_ok ts (es @ fs) \<longleftrightarrow> entries_ok ts es \<and> entries_ok (ts @ entry_topics es) fs"
  by (induction ts es rule: entries_ok.induct) auto

lemma entries_ok_length: "entries_ok ts es \<Longrightarrow> e \<in> set es \<Longrightarrow> length (entry_body e) < 2 ^ 32"
  by (induction ts es rule: entries_ok.induct) (auto simp: message_head_def)

section \<open>Reading one record\<close>

lemma omap_assign_last: "\<forall>x \<in> fst ` set m. x < k \<Longrightarrow> omap_assign k v m = m @ [(k, v)]"
  by (induction m) (auto simp: not_less_iff_gr_or_eq)

lemma get_parameters_bytes:
  assumes "omap_ok (ps @ qs)" "\<forall>e \<in> set qs. length (parameter_bytes e) < 2 ^ 32"
    "off \<le> length b" "drop off b = concat (map parameter_bytes qs) @ rest"
  shows "get_parameters (length qs) b off ps = Some (ps @ qs)"
  using assms
proof (induction qs arbitrary: ps off)
  case Nil
  then show ?case by simp
next
  case (Cons e qs)
  obtain k v where e: "e = (k, v)" by (cases e)
  have len: "length k < 2 ^ 32" "length v < 2 ^ 32" using Cons.prems(2) e by (simp_all add: parameter_bytes_def)
  have d: "drop off b = string_bytes k @ string_bytes v @ concat (map parameter_bytes qs) @ rest"
    using Cons.prems(4) by (simp add: e parameter_bytes_def [of "(k, v)"])
  note d1 = drop_after [OF d]
  note d2 = drop_after [OF d1]
  have o1: "off + length (string_bytes k) \<le> length b" using length_after [OF d Cons.prems(3)] by simp
  have o2: "off + length (string_bytes k) + length (string_bytes v) \<le> length b"
    using length_after [OF d1 o1] by simp
  have k: "\<forall>x \<in> fst ` set ps. x < k" using Cons.prems(1) e by (auto simp: omap_ok_def sorted_wrt_append)
  have "get_parameters (length qs) b (off + length (string_bytes k) + length (string_bytes v)) (ps @ [(k, v)])
      = Some ((ps @ [(k, v)]) @ qs)"
    using Cons.prems(1,2) e d2 o2 by (intro Cons.IH) simp_all
  then show ?case
    by (simp add: e str.read_enc [OF len(1) Cons.prems(3) d] str.read_enc [OF len(2) o1 d1]
      omap_assign_last [OF k] del: length_string_bytes)
qed

lemma length_parameter_member: "e \<in> set ps \<Longrightarrow> length (parameter_bytes e) \<le> length (concat (map parameter_bytes ps))"
  by (induction ps) auto

lemma length_parameters: "8 * length ps \<le> length (concat (map parameter_bytes ps))"
  by (induction ps) (simp_all add: parameter_bytes_def)

lemma topic_of_body_bytes:
  assumes "length (topic_body t) < 2 ^ 32" "omap_ok (rc_parameters t)"
  shows "topic_of_body (topic_body t) = Some t"
proof -
  let ?d = "rc_descriptor t" and ?ps = "rc_parameters t"
  let ?n = "word_of_nat (length ?ps) :: u32" and ?b = "topic_body t"
  have d0: "drop 0 ?b = put_le 4 (rc_id t) @ string_bytes (rc_name t) @ string_bytes (type_name ?d)
     @ string_bytes (encoding ?d) @ put_le 4 (version ?d) @ put_le 4 ?n @ concat (map parameter_bytes ?ps)"
    by (simp add: topic_body_def)
  have len: "length (rc_name t) < 2 ^ 32" "length (type_name ?d) < 2 ^ 32" "length (encoding ?d) < 2 ^ 32"
    "length (concat (map parameter_bytes ?ps)) < 2 ^ 32"
    using assms(1) by (simp_all add: topic_body_def)
  note d1 = drop_after [OF d0] and o0 = le0 [of "length ?b"]
  note d2 = drop_after [OF d1] and o1 = eq_imp_le [OF length_after [OF d0 o0], THEN add_leD1]
  note d3 = drop_after [OF d2] and o2 = eq_imp_le [OF length_after [OF d1 o1], THEN add_leD1]
  note d4 = drop_after [OF d3] and o3 = eq_imp_le [OF length_after [OF d2 o2], THEN add_leD1]
  note d5 = drop_after [OF d4] and o4 = eq_imp_le [OF length_after [OF d3 o3], THEN add_leD1]
  note d6 = drop_after [OF d5] and o5 = eq_imp_le [OF length_after [OF d4 o4], THEN add_leD1]
  note o6 = eq_imp_le [OF length_after [OF d5 o5], THEN add_leD1]
  have "unat ?n = length ?ps" using len(4) length_parameters [of ?ps] by (simp add: unat_of_nat)
  moreover have "get_parameters (length ?ps) ?b (0 + length (put_le 4 (rc_id t)) + length (string_bytes (rc_name t))
      + length (string_bytes (type_name ?d)) + length (string_bytes (encoding ?d)) + length (put_le 4 (version ?d))
      + length (put_le 4 ?n)) [] = Some ([] @ ?ps)"
    using assms(2) d6 o6 len(4) by (intro get_parameters_bytes) (auto dest: length_parameter_member)
  moreover note u32.read_enc [OF TrueI o0 d0] str.read_enc [OF len(1) o1 d1] str.read_enc [OF len(2) o2 d2]
    str.read_enc [OF len(3) o3 d3] u32.read_enc [OF TrueI o4 d4] u32.read_enc [OF TrueI o5 d5]
  ultimately show ?thesis
    by (simp add: topic_of_body_def del: length_put_le length_string_bytes)
qed

lemma GetU32_append [simp]: "GetU32 (put_le 4 v @ rest) 0 = v"
  by (rule GetU32_put) simp

lemma GetU32_8 [simp]: "length pre = 8 \<Longrightarrow> GetU32 (pre @ put_le 4 v @ rest) 8 = v"
  by (rule GetU32_put) simp

lemma message_of_body_bytes:
  assumes "0 \<le> rm_time m" "rm_time m < 2 ^ 63" "FindTopic (rm_topic m) (rr_topics r) \<noteq> None"
  shows "message_of_body (message_head m @ rm_payload m) r = Inr m"
proof -
  let ?b = "message_head m @ rm_payload m" and ?t = "word_of_int (rm_time m) :: u64"
  have d: "drop 0 ?b = put_le 4 (rm_topic m) @ put_le 8 ?t @ put_le 8 (rm_sequence m) @ rm_payload m"
    by (simp add: message_head_def)
  have d4: "drop 4 ?b = put_le 8 ?t @ put_le 8 (rm_sequence m) @ rm_payload m"
    using drop_after [OF d] by simp
  have d12: "drop 12 ?b = put_le 8 (rm_sequence m) @ rm_payload m" using drop_after [OF d4] by simp
  have d20: "drop 20 ?b = rm_payload m" using drop_after [OF d12] by simp
  have u: "uint ?t = rm_time m" using assms by (simp add: uint_word_of_int)
  then have "unat ?t \<le> 2 ^ 63 - 1" using assms by (simp add: unat_eq_nat_uint nat_le_iff)
  moreover have "length ?b = 20 + length (rm_payload m)" by (simp add: message_head_def)
  ultimately show ?thesis
    using assms(3) u
    by (simp add: message_of_body_def GetU32_put [OF d] GetU64_put [OF d4] GetU64_put [OF d12]
      d20 kMessageFixedSize_def del: drop_append)
qed

section \<open>Reading a file\<close>

text \<open>The reader stands at the beginning of \<open>rest\<close>, before the end of the file.\<close>

definition reader_at :: "bytes \<Rightarrow> recording_reader \<Rightarrow> bool" where
  "reader_at rest r \<longleftrightarrow> \<not> rr_ended r \<and> rr_position r = rr_offset r \<and> rr_offset r \<le> length (rr_file r)
     \<and> drop (rr_offset r) (rr_file r) = rest"

definition past_record :: "nat \<Rightarrow> recording_reader \<Rightarrow> recording_reader" where
  "past_record n r = r\<lparr>rr_offset := rr_offset r + kRecordHeaderSize + n, rr_position := rr_position r + kRecordHeaderSize + n\<rparr>"

lemma reader_at_past:
  assumes "reader_at (raw_record k b @ rest) r"
  shows "reader_at rest (past_record (length b) r)"
  using drop_after [of "rr_offset r" "rr_file r" "raw_record k b" rest]
    length_after [of "rr_offset r" "rr_file r" "raw_record k b" rest] assms
  by (simp add: reader_at_def past_record_def kRecordHeaderSize_def add.assoc)

lemma Recording_Next_record:
  assumes at: "reader_at (raw_record k b @ rest) r" and b: "length b < 2 ^ 32"
  shows "Recording_Next r =
     (if k = kTopicRecord
      then (case DecodeTopic b (past_record (length b) r) of
              (st, r3) \<Rightarrow> if \<not> status_ok st then (FromStatus st, r3) else Recording_Next r3)
      else if k \<noteq> kMessageRecord then Recording_Next (past_record (length b) r)
      else (case message_of_body b (past_record (length b) r) of
              Inl st \<Rightarrow> (Inl st, past_record (length b) r)
            | Inr m \<Rightarrow> (Inr (Some m), past_record (length b) r)))"
proof -
  let ?n = "word_of_nat (length b) :: u32"
  have d: "drop (rr_offset r) (rr_file r) = put_le 4 k @ put_le 4 ?n @ b @ rest"
    using at by (simp add: reader_at_def raw_record_def)
  have d4: "drop (rr_offset r + 4) (rr_file r) = put_le 4 ?n @ b @ rest" using drop_after [OF d] by simp
  have d8: "drop (rr_offset r + 8) (rr_file r) = b @ rest" using drop_after [OF d4] by (simp add: add.assoc)
  have n: "unat ?n = length b" using b by (simp add: unat_of_nat)
  have len: "length (rr_file r) = rr_offset r + 8 + length b + length rest"
    using length_after [OF d] at by (simp add: reader_at_def)
  have at': "\<not> rr_ended r" "rr_position r = rr_offset r" using at by (simp_all add: reader_at_def)
  have got: "length (take 8 (drop (rr_offset r) (rr_file r))) = 8" using len by simp
  show ?thesis
    apply (subst Recording_Next.simps)
    using at' len n
    by (simp add: Let_def kRecordHeaderSize_def GetU32_put [OF d] GetU32_put [OF d4] d8 past_record_def
      del: drop_drop cong: sum.case_cong)
qed

lemma Recording_Next_topic:
  assumes at: "reader_at (entry_bytes (TopicEntry t) @ rest) r" and ok: "entries_ok (rr_topics r) [TopicEntry t]"
  shows "\<exists>r'. Recording_Next r = Recording_Next r' \<and> reader_at rest r' \<and> rr_topics r' = rr_topics r @ [t]"
proof -
  let ?r = "past_record (length (topic_body t)) r"
  let ?r' = "?r\<lparr>rr_topics := rr_topics r @ [t]\<rparr>"
  note at' = at [unfolded entry_bytes_def, simplified]
  have "DecodeTopic (topic_body t) ?r = (Status_Ok, ?r')"
    using ok by (simp add: DecodeTopic_def topic_of_body_bytes past_record_def)
  then have "Recording_Next r = Recording_Next ?r'"
    using Recording_Next_record [OF at'] ok by simp
  moreover have "reader_at rest ?r'" using reader_at_past [OF at'] by (simp add: reader_at_def)
  ultimately show ?thesis by (intro exI [of _ ?r']) simp
qed

lemma Recording_Next_message:
  assumes at: "reader_at (entry_bytes (MessageEntry m) @ rest) r" and ok: "entries_ok (rr_topics r) [MessageEntry m]"
  shows "\<exists>r'. Recording_Next r = (Inr (Some m), r') \<and> reader_at rest r' \<and> rr_topics r' = rr_topics r"
proof -
  let ?b = "message_head m @ rm_payload m"
  let ?r = "past_record (length ?b) r"
  note at' = at [unfolded entry_bytes_def entry_kind.simps entry_body.simps]
  have "message_of_body ?b ?r = Inr m"
    using ok by (intro message_of_body_bytes) (simp_all add: past_record_def)
  moreover have "length ?b < 2 ^ 32" using ok by (simp add: message_head_def)
  ultimately have "Recording_Next r = (Inr (Some m), ?r)"
    using Recording_Next_record [OF at'] by (simp add: kTopicRecord_def kMessageRecord_def)
  with reader_at_past [OF at'] show ?thesis by (intro exI [of _ ?r]) (simp add: past_record_def)
qed

text \<open>The beginning of a record that does not go on to its end.\<close>

definition cut_record :: "bytes \<Rightarrow> bool" where
  "cut_record part \<longleftrightarrow> (\<exists>k b j. length b < 2 ^ 32 \<and> j < 8 + length b \<and> part = take j (raw_record k b))"

lemma cut_record_Nil [simp]: "cut_record []"
  unfolding cut_record_def by (rule exI [of _ 0], rule exI [of _ "[]"], rule exI [of _ 0]) simp

lemma Recording_Next_cut:
  assumes at: "reader_at part r" and cut: "cut_record part"
  shows "\<exists>r'. Recording_Next r = (Inr None, r') \<and> rr_ended r' \<and> (rr_truncated r' \<longleftrightarrow> part \<noteq> []) \<and> rr_topics r' = rr_topics r"
proof -
  from cut obtain k b j where b: "length b < 2 ^ 32" and j: "j < 8 + length b" and part: "part = take j (raw_record k b)"
    by (auto simp: cut_record_def)
  have d: "drop (rr_offset r) (rr_file r) = part" and at': "\<not> rr_ended r" "rr_position r = rr_offset r"
    using at by (simp_all add: reader_at_def)
  have len: "length (rr_file r) = rr_offset r + length part"
    using at by (auto simp: reader_at_def)
  show ?thesis
  proof (cases "j < 8")
    case True
    then have "length part < 8" using part by simp
    then have "Recording_Next r = (Inr None, r\<lparr>rr_offset := rr_offset r + length part,
        rr_truncated := (length part \<noteq> 0), rr_ended := True\<rparr>)"
      using at' by (subst Recording_Next.simps) (simp add: d kRecordHeaderSize_def)
    then show ?thesis by simp
  next
    case False
    let ?n = "word_of_nat (length b) :: u32"
    have j': "length part = j" using part j by simp
    have p: "drop (rr_offset r) (rr_file r) = put_le 4 k @ put_le 4 ?n @ take (j - 8) b"
      using False d part by (simp add: raw_record_def)
    have p4: "drop (rr_offset r + 4) (rr_file r) = put_le 4 ?n @ take (j - 8) b" using drop_after [OF p] by simp
    have "unat ?n = length b" "b \<noteq> []" using b j False by (auto simp: unat_of_nat)
    then have "Recording_Next r = (Inr None, r\<lparr>rr_offset := rr_offset r + 8,
        rr_position := rr_position r + 8, rr_truncated := True, rr_ended := True\<rparr>)"
      using False at' len j j' by (subst Recording_Next.simps) (simp add: kRecordHeaderSize_def Let_def GetU32_put [OF p4])
    moreover have "part \<noteq> []" using j' False by auto
    ultimately show ?thesis by simp
  qed
qed

theorem next_messages_entries:
  assumes "entries_ok (rr_topics r) es" "cut_record part" "reader_at (entries_bytes es @ part) r"
    "length (entry_messages es) < n"
  shows "\<exists>r'. next_messages n r = (entry_messages es, r') \<and> rr_topics r' = rr_topics r @ entry_topics es
     \<and> rr_ended r' \<and> (rr_truncated r' \<longleftrightarrow> part \<noteq> [])"
  using assms
proof (induction es arbitrary: r n)
  case Nil
  then obtain n' where n: "n = Suc n'" by (cases n) simp_all
  from Recording_Next_cut [of part r] Nil show ?case by (auto simp: n)
next
  case (Cons e es)
  from Cons.prems(4) obtain n' where n: "n = Suc n'" by (cases n) simp_all
  have ok: "entries_ok (rr_topics r) [e]" "entries_ok (rr_topics r @ entry_topics [e]) es"
    using Cons.prems(1) entries_ok_append [of "rr_topics r" "[e]" es] by simp_all
  have at: "reader_at (entry_bytes e @ entries_bytes es @ part) r" using Cons.prems(3) by simp
  show ?case
  proof (cases e)
    case (TopicEntry t)
    from Recording_Next_topic [of t _ r] at ok TopicEntry obtain r1
      where r1: "Recording_Next r = Recording_Next r1" "reader_at (entries_bytes es @ part) r1"
        "rr_topics r1 = rr_topics r @ [t]" by auto
    have "next_messages n r = next_messages n r1" by (simp add: n r1(1))
    with Cons.IH [of r1 n] Cons.prems(2,4) r1 ok TopicEntry show ?thesis by simp
  next
    case (MessageEntry m)
    from Recording_Next_message [of m _ r] at ok MessageEntry obtain r1
      where r1: "Recording_Next r = (Inr (Some m), r1)" "reader_at (entries_bytes es @ part) r1"
        "rr_topics r1 = rr_topics r" by auto
    with Cons.IH [of r1 n'] Cons.prems(2,4) ok MessageEntry n show ?thesis by auto
  qed
qed

section \<open>What the writer leaves in the file\<close>

lemma stream_write_append: "stream_write b (stream_write a s) = stream_write (a @ b) s"
  by (simp add: stream_write_def)

lemma stream_write_Nil [simp]: "stream_write [] s = s"
  by (simp add: stream_write_def)

lemma stream_write_bytes:
  "os_bytes (stream_write bs s) = os_bytes s @ (if \<not> os_good s then [] else take (os_room s) bs)"
  "os_good (stream_write bs s) \<longleftrightarrow> os_good s \<and> length bs \<le> os_room s"
  by (auto simp: stream_write_def)

lemma Emit_eq:
  "Emit kind body tail w =
     (if rw_closed w then (Status_FailedPrecondition (''recording '' @ rw_path w @ '' is closed''), w)
      else if 2 ^ 32 - 1 < length body + length tail
      then (Status_InvalidArgument (''record of '' @ std_to_string (length body + length tail) @ '' bytes is too large''), w)
      else let w' = w\<lparr>rw_out := stream_write (raw_record kind (body @ tail)) (rw_out w)\<rparr> in
        (if os_good (rw_out w') then Status_Ok else Recording_Failed ''writing'' w', w'))"
  by (cases "tail = []")
    (simp_all add: Emit_def Let_def kMaxRecordSize_def PutU32_def stream_write_append raw_record_def
      Recording_Failed_def)

text \<open>
  The operations of a client: declare a topic, write a message, close. \<open>record_op\<close> runs one and returns the
  entry that a successful one adds.
\<close>

datatype recording_op =
    OpTopic recorded_topic
  | OpWrite u32 nanoseconds u64 bytes
  | OpClose

fun record_op :: "recording_op \<Rightarrow> recording_writer \<Rightarrow> record_entry list \<times> recording_writer" where
  "record_op (OpTopic t) w =
     (case AddTopic t w of
        (Inr i, w') \<Rightarrow> ([TopicEntry (t\<lparr>rc_id := i\<rparr>)], w')
      | (Inl st, w') \<Rightarrow> ([], w'))"
| "record_op (OpWrite topic time sq data) w =
     (case Recording_Write topic time sq data w of
        (st, w') \<Rightarrow> (if status_ok st
          then [MessageEntry \<lparr>rm_topic = topic, rm_time = time, rm_sequence = sq, rm_payload = data\<rparr>] else [], w'))"
| "record_op OpClose w = ([], snd (Recording_Close w))"

fun record_ops :: "recording_op list \<Rightarrow> recording_writer \<Rightarrow> record_entry list \<times> recording_writer" where
  "record_ops [] w = ([], w)"
| "record_ops (p # ps) w =
     (case record_op p w of (es, w1) \<Rightarrow> case record_ops ps w1 of (fs, w2) \<Rightarrow> (es @ fs, w2))"

fun op_typed :: "recording_op \<Rightarrow> bool" where
  "op_typed (OpTopic t) \<longleftrightarrow> omap_ok (rc_parameters t)"
| "op_typed (OpWrite topic time sq data) \<longleftrightarrow> in_int64 time"
| "op_typed OpClose \<longleftrightarrow> True"

text \<open>The first \<open>n\<close> topics of a recording have the ids 1 to \<open>n\<close>.\<close>

definition log_inv :: "record_entry list \<Rightarrow> recording_writer \<Rightarrow> bool" where
  "log_inv es w \<longleftrightarrow> entries_ok [] es
     \<and> rw_topics w = map rc_id (entry_topics es)
     \<and> map rc_id (entry_topics es) = map (\<lambda>i. word_of_nat (Suc i)) [0..<length (entry_topics es)]
     \<and> (\<exists>part. os_bytes (rw_out w) = kFileHeader @ entries_bytes es @ part \<and> cut_record part
          \<and> (os_good (rw_out w) \<longrightarrow> part = []))"

lemma FindTopic_None: "FindTopic i ts = None \<longleftrightarrow> i \<notin> rc_id ` set ts"
  by (auto simp: FindTopic_def find_None_iff)

lemma log_inv_ids:
  assumes "log_inv es w"
  shows "i \<in> rc_id ` set (entry_topics es) \<longleftrightarrow> (\<exists>n < length (rw_topics w). i = word_of_nat (Suc n))"
proof -
  from assms have ids: "rw_topics w = map rc_id (entry_topics es)"
    and nos: "map rc_id (entry_topics es) = map (\<lambda>i. word_of_nat (Suc i)) [0..<length (entry_topics es)]"
    unfolding log_inv_def by blast+
  have "rc_id ` set (entry_topics es) = set (map rc_id (entry_topics es))" by simp
  also have "\<dots> = (\<lambda>i. word_of_nat (Suc i)) ` {0..<length (entry_topics es)}" unfolding nos by simp
  also have "length (entry_topics es) = length (rw_topics w)" unfolding ids by simp
  finally show ?thesis by auto
qed

lemma Emit_log:
  assumes inv: "log_inv es w" and e: "Emit kind body tail w = (st, w')"
    and entry: "entry_kind e = kind" "entry_body e = body @ tail"
  shows "rw_topics w' = rw_topics w"
    and "\<not> status_ok st \<Longrightarrow> log_inv es w'"
    and "status_ok st \<Longrightarrow> os_bytes (rw_out w') = kFileHeader @ entries_bytes (es @ [e]) \<and> length (entry_body e) < 2 ^ 32"
proof -
  let ?raw = "raw_record kind (body @ tail)"
  obtain part where part: "os_bytes (rw_out w) = kFileHeader @ entries_bytes es @ part" "cut_record part"
    "os_good (rw_out w) \<Longrightarrow> part = []"
    using inv by (auto simp: log_inv_def)
  from e show "rw_topics w' = rw_topics w" by (auto simp: Emit_eq Let_def split: if_splits)
  show "log_inv es w'" if nok: "\<not> status_ok st"
  proof (cases "w' = w")
    case True
    with inv show ?thesis by simp
  next
    case False
    with e nok have w': "w' = w\<lparr>rw_out := stream_write ?raw (rw_out w)\<rparr>" and n: "length (body @ tail) < 2 ^ 32"
      and bad: "\<not> os_good (stream_write ?raw (rw_out w))"
      by (auto simp: Emit_eq Let_def split: if_splits)
    let ?p = "part @ (if os_good (rw_out w) then take (os_room (rw_out w)) ?raw else [])"
    have "cut_record ?p"
    proof (cases "os_good (rw_out w)")
      case True
      with bad have "os_room (rw_out w) < 8 + length (body @ tail)" by (simp add: stream_write_bytes)
      with True n part(3) show ?thesis unfolding cut_record_def by fastforce
    qed (use part in simp)
    moreover have "os_bytes (rw_out w') = kFileHeader @ entries_bytes es @ ?p"
      by (simp add: w' stream_write_bytes part(1))
    ultimately show ?thesis
      using inv bad unfolding log_inv_def w' by auto
  qed
  show "os_bytes (rw_out w') = kFileHeader @ entries_bytes (es @ [e]) \<and> length (entry_body e) < 2 ^ 32" if "status_ok st"
    using that e entry part(1,3)
    by (auto simp: Emit_eq Let_def Recording_Failed_def stream_write_bytes entry_bytes_def split: if_splits)
qed

lemma put_parameters_eq:
  "put_parameters ps body = Some body' \<Longrightarrow> body' = body @ concat (map parameter_bytes ps)"
  by (induction ps body rule: put_parameters.induct)
    (auto simp: PutString_eq parameter_bytes_def split: if_splits)

lemma FromStatus_not_Inr: "(FromStatus st, w) \<noteq> (Inr i, w')"
  by simp

lemma AddTopic_body:
  assumes "put_parameters (rc_parameters t)
      (PutU32 (PutU32 (PutString (PutString (PutString (PutU32 [] i) (rc_name t)) (type_name (rc_descriptor t)))
         (encoding (rc_descriptor t))) (version (rc_descriptor t))) (word_of_nat (length (rc_parameters t)))) = Some body"
  shows "body = entry_body (TopicEntry (t\<lparr>rc_id := i\<rparr>))"
  using put_parameters_eq [OF assms] by (simp add: PutString_eq PutU32_def topic_body_def)

lemma AddTopic_cases:
  assumes "AddTopic t w = (res, w')"
  obtains (refused) st where "res = FromStatus st" "w' = w"
  | (emitted) st w1 i where "i = word_of_nat (length (rw_topics w) + 1)"
      "Emit kTopicRecord (entry_body (TopicEntry (t\<lparr>rc_id := i\<rparr>))) [] w = (st, w1)"
      "(res, w') = (if status_ok st then (Inr i, w1\<lparr>rw_topics := rw_topics w1 @ [i]\<rparr>) else (FromStatus st, w1))"
proof -
  let ?st = "and_then (ValidateName ''topic name'' (rc_name t)) (MessageDescriptor_Validate (rc_descriptor t))"
  let ?i = "word_of_nat (length (rw_topics w) + 1) :: u32"
  let ?body = "PutU32 (PutU32 (PutString (PutString (PutString (PutU32 [] ?i) (rc_name t)) (type_name (rc_descriptor t)))
         (encoding (rc_descriptor t))) (version (rc_descriptor t))) (word_of_nat (length (rc_parameters t)))"
  show thesis
  proof (cases "status_ok ?st")
    case False
    with assms refused show thesis unfolding AddTopic_def Let_def by auto
  next
    case True
    show thesis
    proof (cases "put_parameters (rc_parameters t) ?body")
      case None
      with True assms have "res = FromStatus (Status_InvalidArgument ''topic parameter is too long'')" "w' = w"
        unfolding AddTopic_def Let_def by simp_all
      with refused show thesis by blast
    next
      case (Some body)
      obtain st w1 where em: "Emit kTopicRecord body [] w = (st, w1)" by fastforce
      with True Some assms have "(res, w') = (if status_ok st then (Inr ?i, w1\<lparr>rw_topics := rw_topics w1 @ [?i]\<rparr>)
          else (FromStatus st, w1))"
        unfolding AddTopic_def Let_def by (simp split: if_splits)
      with em AddTopic_body [OF Some] emitted show thesis by blast
    qed
  qed
qed

lemma word_id_fresh:
  assumes "log_inv es w" "length (rw_topics w) + 1 < 2 ^ 32"
  shows "word_of_nat (length (rw_topics w) + 1) \<notin> rc_id ` set (entry_topics es)"
    and "word_of_nat (length (rw_topics w) + 1) \<noteq> (0 :: u32)"
proof -
  have inj: "word_of_nat m = (word_of_nat n :: u32) \<longleftrightarrow> m = n" if "m < 2 ^ 32" "n < 2 ^ 32" for m n :: nat
  proof -
    have "unat (word_of_nat m :: u32) = m" "unat (word_of_nat n :: u32) = n" using that by (simp_all add: unat_of_nat)
    then show ?thesis by metis
  qed
  show "word_of_nat (length (rw_topics w) + 1) \<noteq> (0 :: u32)"
    using inj [of "length (rw_topics w) + 1" 0] assms(2) by simp
  show "word_of_nat (length (rw_topics w) + 1) \<notin> rc_id ` set (entry_topics es)"
    unfolding log_inv_ids [OF assms(1)]
  proof
    assume "\<exists>n < length (rw_topics w). word_of_nat (length (rw_topics w) + 1) = (word_of_nat (Suc n) :: u32)"
    then obtain n where n: "n < length (rw_topics w)"
      "word_of_nat (length (rw_topics w) + 1) = (word_of_nat (Suc n) :: u32)" by blast
    with inj [of "length (rw_topics w) + 1" "Suc n"] assms(2) show False by linarith
  qed
qed

lemma AddTopic_log:
  assumes inv: "log_inv es w" and op: "AddTopic t w = (res, w')" and ps: "omap_ok (rc_parameters t)"
    and n: "length (rw_topics w) + 1 < 2 ^ 32"
  shows "log_inv (es @ (case res of Inr i \<Rightarrow> [TopicEntry (t\<lparr>rc_id := i\<rparr>)] | Inl st \<Rightarrow> [])) w'"
  using op
proof (cases rule: AddTopic_cases)
  case (refused st)
  with inv show ?thesis by (auto simp: FromStatus_def)
next
  case (emitted st w1 i)
  note log = Emit_log [OF inv emitted(2), of "TopicEntry (t\<lparr>rc_id := i\<rparr>)"]
  show ?thesis
  proof (cases "status_ok st")
    case False
    with emitted(3) log(2) show ?thesis by (auto simp: FromStatus_def)
  next
    case True
    then have res: "res = Inr i" "w' = w1\<lparr>rw_topics := rw_topics w @ [i]\<rparr>" using emitted(3) log(1) by auto
    have l: "length (rw_topics w) = length (entry_topics es)" using inv unfolding log_inv_def by (metis length_map)
    have "entries_ok [] (es @ [TopicEntry (t\<lparr>rc_id := i\<rparr>)])"
      using inv log(3) True ps word_id_fresh [OF inv n] emitted(1)
      by (simp add: entries_ok_append FindTopic_None log_inv_def)
    moreover have "rw_topics w = map rc_id (entry_topics es)"
      "map rc_id (entry_topics es) = map (\<lambda>i. word_of_nat (Suc i)) [0..<length (entry_topics es)]"
      using inv unfolding log_inv_def by blast+
    ultimately show ?thesis
      unfolding log_inv_def using res log(3) True emitted(1) l by (simp del: entries_ok.simps)
  qed
qed

lemma Write_log:
  assumes inv: "log_inv es w" and op: "Recording_Write topic time sq data w = (st, w')" and t: "in_int64 time"
    and n: "length (rw_topics w) < 2 ^ 32"
  shows "log_inv (es @ (if status_ok st
    then [MessageEntry \<lparr>rm_topic = topic, rm_time = time, rm_sequence = sq, rm_payload = data\<rparr>] else [])) w'"
proof (cases "w' = w \<and> \<not> status_ok st")
  case True
  with inv show ?thesis by simp
next
  case False
  let ?m = "\<lparr>rm_topic = topic, rm_time = time, rm_sequence = sq, rm_payload = data\<rparr>"
  obtain st1 w1 where em: "Emit kMessageRecord (message_head ?m) data w = (st1, w1)" by fastforce
  have body: "PutU64 (PutU64 (PutU32 [] topic) (word_of_int time)) sq = message_head ?m"
    by (simp add: PutU64_def PutU32_def message_head_def)
  from op False have ok: "topic \<noteq> 0" "unat topic \<le> length (rw_topics w)" "0 \<le> time" "st = st1"
    "w' = (if status_ok st then w1\<lparr>rw_messages := rw_messages w1 + 1\<rparr> else w1)"
    unfolding Recording_Write_def Let_def body em by (auto split: if_splits)
  note log = Emit_log [OF inv em, of "MessageEntry ?m"]
  show ?thesis
  proof (cases "status_ok st")
    case False
    with log(2) ok show ?thesis by simp
  next
    case True
    have pos: "0 < unat topic" using ok(1) by (simp add: unat_gt_0)
    then have "topic = word_of_nat (Suc (unat topic - 1))" by simp
    moreover have "unat topic - 1 < length (rw_topics w)" using pos ok(2) by linarith
    ultimately have "topic \<in> rc_id ` set (entry_topics es)"
      unfolding log_inv_ids [OF inv] by blast
    then have "entries_ok [] (es @ [MessageEntry ?m])"
      using inv ok t log(3) True by (simp add: log_inv_def entries_ok_append FindTopic_None in_int64_def message_head_def)
    with True log ok inv show ?thesis unfolding log_inv_def by simp
  qed
qed

lemma record_op_log:
  assumes inv: "log_inv es w" and op: "record_op p w = (fs, w')" and p: "op_typed p"
    and n: "length (rw_topics w) + 1 < 2 ^ 32"
  shows "log_inv (es @ fs) w' \<and> length (rw_topics w') \<le> length (rw_topics w) + 1"
proof -
  have log: "log_inv (es @ fs) w'"
  proof (cases p)
    case (OpTopic t)
    obtain res w1 where "AddTopic t w = (res, w1)" by fastforce
    with AddTopic_log [OF inv this _ n] op p OpTopic show ?thesis by (auto split: sum.splits)
  next
    case (OpWrite topic time sq data)
    obtain st w1 where "Recording_Write topic time sq data w = (st, w1)" by fastforce
    with Write_log [OF inv this] op p OpWrite n show ?thesis by auto
  next
    case OpClose
    with inv op show ?thesis by (auto simp: log_inv_def Recording_Close_def Let_def)
  qed
  have "length (rw_topics v) = length (entry_topics es)" if "log_inv es v" for es v
    using that unfolding log_inv_def by (metis length_map)
  from this [OF log] this [OF inv] have "length (rw_topics w') = length (rw_topics w) + length (entry_topics fs)"
    by simp
  moreover have "length (entry_topics fs) \<le> 1"
    using op by (cases p) (auto split: sum.splits prod.splits if_splits)
  ultimately show ?thesis using log by simp
qed

lemma record_ops_log:
  "log_inv es w \<Longrightarrow> record_ops ps w = (fs, w') \<Longrightarrow> list_all op_typed ps
     \<Longrightarrow> length (rw_topics w) + length ps < 2 ^ 32 \<Longrightarrow> log_inv (es @ fs) w'"
proof (induction ps arbitrary: es w fs)
  case Nil
  then show ?case by simp
next
  case (Cons p ps)
  from Cons.prems(2) obtain fs1 w1 fs2 where r: "record_op p w = (fs1, w1)" "record_ops ps w1 = (fs2, w')" "fs = fs1 @ fs2"
    by (auto split: prod.splits)
  from record_op_log [OF Cons.prems(1) r(1)] Cons.prems(3,4)
  have "log_inv (es @ fs1) w1" "length (rw_topics w1) \<le> length (rw_topics w) + 1" by simp_all
  with Cons.IH [of "es @ fs1" w1 fs2] r Cons.prems(3,4) show ?case by simp
qed

lemma log_inv_Create: "Recording_Create opened room path = Inr w \<Longrightarrow> log_inv [] w \<and> rw_topics w = []"
  by (auto simp: Recording_Create_def log_inv_def Let_def stream_write_bytes stream_write_def
      kFileHeader_def [symmetric] Recording_Failed_def split: if_splits)

lemma Recording_Open_header:
  "\<exists>r. Recording_Open (Some (kFileHeader @ rest)) path = Inr r \<and> reader_at rest r \<and> rr_topics r = []"
proof -
  have m: "length (map byte_of_char kMagic) = 8" by (simp add: kMagic_def)
  have h: "kFileHeader = map byte_of_char kMagic @ put_le 4 kFormatVersion @ put_le 4 (0 :: u32)"
    by (simp add: kFileHeader_def PutU32_def)
  have "take 8 (kFileHeader @ rest) = map byte_of_char kMagic" unfolding h using m by simp
  moreover have "GetU32 (kFileHeader @ rest) 8 = kFormatVersion"
    by (rule GetU32_put [of _ _ _ "put_le 4 (0 :: u32) @ rest"]) (use m in \<open>simp add: h\<close>)
  moreover have "length (kFileHeader @ rest) = 16 + length rest" by simp
  ultimately show ?thesis
    by (simp add: Recording_Open_def kFileHeaderSize_def reader_at_def del: take_append)
qed

text \<open>What a file of that shape, wherever it is cut, still holds: the entries that lie before the cut.\<close>

lemma take_entries:
  "list_all (\<lambda>e. length (entry_body e) < 2 ^ 32) es \<Longrightarrow> cut_record part \<Longrightarrow>
   \<exists>fs gs part'. es = fs @ gs \<and> take k (entries_bytes es @ part) = entries_bytes fs @ part' \<and> cut_record part'
     \<and> (gs = [] \<or> k < length (entries_bytes (fs @ [hd gs])))"
proof (induction es arbitrary: k)
  case Nil
  then obtain kd b j where b: "length b < 2 ^ 32" "j < 8 + length b" "part = take j (raw_record kd b)"
    by (auto simp: cut_record_def)
  then have "cut_record (take k part)"
    unfolding cut_record_def by (intro exI [of _ kd] exI [of _ b] exI [of _ "min k j"]) simp
  then show ?case by simp
next
  case (Cons e es)
  show ?case
  proof (cases "k < length (entry_bytes e)")
    case True
    with Cons.prems have "cut_record (take k (entry_bytes e))"
      unfolding cut_record_def entry_bytes_def by (intro exI [of _ "entry_kind e"] exI [of _ "entry_body e"] exI [of _ k]) simp
    with True show ?thesis by (intro exI [of _ "[]"] exI [of _ "e # es"] exI [of _ "take k (entry_bytes e)"]) simp
  next
    case False
    from Cons.prems have "list_all (\<lambda>e. length (entry_body e) < 2 ^ 32) es" by simp
    from Cons.IH [OF this Cons.prems(2), of "k - length (entry_bytes e)"] obtain fs gs p
      where ih: "es = fs @ gs" "take (k - length (entry_bytes e)) (entries_bytes es @ part) = entries_bytes fs @ p" "cut_record p"
        "gs = [] \<or> k - length (entry_bytes e) < length (entries_bytes (fs @ [hd gs]))"
      by blast
    from False ih(4) have "gs = [] \<or> k < length (entries_bytes ((e # fs) @ [hd gs]))" by auto
    with False ih show ?thesis by (intro exI [of _ "e # fs"] exI [of _ gs] exI [of _ p]) simp
  qed
qed

lemma log_inv_take:
  assumes "log_inv es w" "16 \<le> k"
  shows "\<exists>fs gs part. es = fs @ gs \<and> take k (os_bytes (rw_out w)) = kFileHeader @ entries_bytes fs @ part
    \<and> cut_record part \<and> entries_ok [] fs \<and> (gs = [] \<or> k < 16 + length (entries_bytes (fs @ [hd gs])))"
proof -
  from assms(1) obtain part where ok: "entries_ok [] es" and cut: "cut_record part"
    and w: "os_bytes (rw_out w) = kFileHeader @ entries_bytes es @ part"
    unfolding log_inv_def by blast
  have "list_all (\<lambda>e. length (entry_body e) < 2 ^ 32) es"
    using ok by (auto simp: list_all_iff dest: entries_ok_length)
  from take_entries [OF this cut, of "k - 16"] obtain fs gs part'
    where "es = fs @ gs" "take (k - 16) (entries_bytes es @ part) = entries_bytes fs @ part'" "cut_record part'"
      "gs = [] \<or> k - 16 < length (entries_bytes (fs @ [hd gs]))" by blast
  moreover have "take k (os_bytes (rw_out w)) = kFileHeader @ take (k - 16) (entries_bytes es @ part)"
    using assms(2) by (simp only: w take_append length_kFileHeader) simp
  moreover have "entries_ok [] fs" if "es = fs @ gs" using ok that by (simp add: entries_ok_append)
  moreover have "gs = [] \<or> k < 16 + length (entries_bytes (fs @ [hd gs]))"
    if "gs = [] \<or> k - 16 < length (entries_bytes (fs @ [hd gs]))"
    using that assms(2) by linarith
  ultimately show ?thesis by metis
qed

section \<open>The properties\<close>


text \<open>
  C34. A recording cut off anywhere behind its file header (a crash of the recording process, a copy that
  stopped) reads back the messages and topics of the records that lie whole before the cut, all of them and
  in order, and ends without an error.
\<close>

theorem recording_cut_reads_prefix:
  assumes "Recording_Create opened room path = Inr w0" "list_all op_typed ops" "length ops < 2 ^ 32"
    and "record_ops ops w0 = (es, w)" "length (entry_messages es) < n" "16 \<le> k"
  shows "\<exists>r r' fs gs. Recording_Open (Some (take k (os_bytes (rw_out w)))) path' = Inr r
    \<and> es = fs @ gs \<and> (gs = [] \<or> k < 16 + length (entries_bytes (fs @ [hd gs])))
    \<and> next_messages n r = (entry_messages fs, r') \<and> rr_topics r' = entry_topics fs \<and> rr_ended r'"
proof -
  from log_inv_Create [OF assms(1)] have "log_inv [] w0" "length (rw_topics w0) = 0" by simp_all
  with record_ops_log [of "[]" w0 ops es w] assms have "log_inv es w" by simp
  from log_inv_take [OF this assms(6)] obtain fs gs part where f: "es = fs @ gs"
    "gs = [] \<or> k < 16 + length (entries_bytes (fs @ [hd gs]))" "entries_ok [] fs" "cut_record part"
    and w: "take k (os_bytes (rw_out w)) = kFileHeader @ entries_bytes fs @ part" by blast
  from Recording_Open_header obtain r where r: "Recording_Open (Some (take k (os_bytes (rw_out w)))) path' = Inr r"
    "reader_at (entries_bytes fs @ part) r" "rr_topics r = []" unfolding w by blast
  from next_messages_entries [of r fs part n] r f assms(5)
  obtain r' where "next_messages n r = (entry_messages fs, r')" "rr_topics r' = entry_topics fs" "rr_ended r'" by auto
  with r(1) f(1,2) show ?thesis by blast
qed

section \<open>A recording of one topic\<close>

definition ex_rec_topic :: recorded_topic where
  "ex_rec_topic = \<lparr>rc_id = 0, rc_name = ''pose'', rc_descriptor = \<lparr>type_name = ''P'', encoding = ''raw'', version = 1\<rparr>,
     rc_parameters = [(''rate'', ''10'')]\<rparr>"

definition ex_rec_ops :: "recording_op list" where
  "ex_rec_ops = [OpWrite 1 0 0 [7], OpTopic ex_rec_topic, OpWrite 1 5 0 [1, 2], OpWrite 1 (-3) 1 [3], OpWrite 1 9 1 [], OpClose,
     OpWrite 1 10 2 [4]]"

definition ex_rec_writer :: recording_writer where
  "ex_rec_writer = \<lparr>rw_path = ''f'', rw_out = stream_write kFileHeader \<lparr>os_bytes = [], os_room = 500, os_good = True\<rparr>,
     rw_topics = [], rw_messages = 0, rw_closed = False\<rparr>"

definition ex_rec_entries :: "record_entry list" where
  "ex_rec_entries = [TopicEntry (ex_rec_topic\<lparr>rc_id := 1\<rparr>), MessageEntry \<lparr>rm_topic = 1, rm_time = 5, rm_sequence = 0, rm_payload = [1, 2]\<rparr>,
     MessageEntry \<lparr>rm_topic = 1, rm_time = 9, rm_sequence = 1, rm_payload = []\<rparr>]"

lemma ex_rec_create: "Recording_Create True 500 ''f'' = Inr ex_rec_writer"
  by (simp add: Recording_Create_def ex_rec_writer_def kFileHeader_def [symmetric] stream_write_def)

lemma ex_rec_run: "fst (record_ops ex_rec_ops ex_rec_writer) = ex_rec_entries"
  by (simp add: ex_rec_ops_def ex_rec_writer_def ex_rec_entries_def ex_rec_topic_def AddTopic_def Recording_Write_def Recording_Close_def
    Emit_eq Let_def stream_write_def PutU32_def PutU64_def PutString_eq valid_name_def bad_name_char_def TooLong_def
    MessageDescriptor_Validate_def)

lemma ex_rec_typed: "list_all op_typed ex_rec_ops"
  by code_simp

lemma ex_rec_record_ops: "record_ops ex_rec_ops ex_rec_writer = (ex_rec_entries, snd (record_ops ex_rec_ops ex_rec_writer))"
  by (simp add: ex_rec_run [symmetric])


theorem recording_cut_reads_prefix_witness:
  "\<exists>r r' fs gs. Recording_Open (Some (take 100 (os_bytes (rw_out (snd (record_ops ex_rec_ops ex_rec_writer)))))) ''g'' = Inr r
    \<and> ex_rec_entries = fs @ gs \<and> (gs = [] \<or> 100 < 16 + length (entries_bytes (fs @ [hd gs])))
    \<and> next_messages 3 r = (entry_messages fs, r') \<and> rr_topics r' = entry_topics fs \<and> rr_ended r'"
proof -
  have "length ex_rec_ops < 2 ^ 32" "length (entry_messages ex_rec_entries) < 3" "16 \<le> (100 :: nat)"
    by (simp_all add: ex_rec_ops_def ex_rec_entries_def)
  from recording_cut_reads_prefix [OF ex_rec_create ex_rec_typed this(1) ex_rec_record_ops this(2,3), of "''g''"]
  show ?thesis .
qed

end
