(* ===== verification/Shm_Segment.thy ===== *)
theory Shm_Segment
  imports Service_Protocol
begin

text \<open>
  The shared-memory segment of one topic: \<open>src/transport/shm/segment.h\<close> and \<open>segment.cpp\<close>, with the object names of
  \<open>platform_common.cpp\<close>.

  The first part is the layout: the size arithmetic keeps its 64-bit width, and \<open>Segment_Open\<close> writes or checks
  the header of the mapped region, which is an argument (the region comes from the operating system). The second
  part is the ring as one process uses it undisturbed: \<open>Segment_PublishWith\<close> and \<open>Segment_TryRead\<close> on the slots. The theory
  \<open>Shm_Seqlock\<close> takes the same operations apart into their memory accesses.
\<close>

section \<open>Layout\<close>

definition kSegmentMagic :: u64 where "kSegmentMagic = 0x3130304d48534d50"
definition kLayoutVersion :: u32 where "kLayoutVersion = 1"
definition kNameCapacity :: nat where "kNameCapacity = 256"
definition kWritingBit :: u64 where "kWritingBit = push_bit 63 1"
definition kSlotAlignment :: u64 where "kSlotAlignment = 64"
definition kSegmentRetired :: u32 where "kSegmentRetired = 1"
definition kMaxParticipants :: nat where "kMaxParticipants = 64"
definition kSlotPayloadOffset :: u64 where "kSlotPayloadOffset = kSlotAlignment"

text \<open>\<open>std::numeric_limits<std::size_t>::max()\<close>.\<close>

definition size_max :: u64 where "size_max = - 1"

record segment_geometry =
  sg_payload_size :: u64
  sg_slot_count :: u64

definition AlignUp :: "u64 \<Rightarrow> u64" where
  "AlignUp v =
     (if size_max - (kSlotAlignment - 1) < v then 0
      else (v + kSlotAlignment - 1) div kSlotAlignment * kSlotAlignment)"

definition SlotStride :: "u64 \<Rightarrow> u64" where
  "SlotStride slot_payload_size =
     (if size_max - kSlotPayloadOffset < slot_payload_size then 0 else AlignUp (kSlotPayloadOffset + slot_payload_size))"

text \<open>
  \<open>sizeof(SegmentHeader)\<close>: 40 bytes of words, three names of 256 bytes, padding to the 64-byte line of
  \<open>write_seq\<close> (832), 16 bytes of words, 64 bytes of lock storage and 64 participants of 16 bytes (1936), rounded up
  to the alignment of the structure.
\<close>

definition sizeof_SegmentHeader :: u64 where "sizeof_SegmentHeader = 1984"

definition HeaderSize :: u64 where "HeaderSize = AlignUp sizeof_SegmentHeader"

definition SegmentSize :: "segment_geometry \<Rightarrow> u64" where
  "SegmentSize g =
     (let stride = SlotStride (sg_payload_size g) in
      if stride = 0 \<or> sg_slot_count g = 0 then 0
      else let hdr = HeaderSize in
        if (size_max - hdr) div stride < sg_slot_count g then 0
        else hdr + sg_slot_count g * stride)"

text \<open>The offset of a sequence's slot from the start of the region, as \<open>SlotAt\<close> computes the address.\<close>

definition SlotAt :: "segment_geometry \<Rightarrow> u64 \<Rightarrow> u64" where
  "SlotAt g sequence_no = HeaderSize + (sequence_no mod sg_slot_count g) * SlotStride (sg_payload_size g)"

definition ClampCursor :: "u64 \<Rightarrow> u64 \<Rightarrow> u64 \<Rightarrow> u64" where
  "ClampCursor cursor newest depth =
     (let oldest_kept = (if depth \<le> newest then newest - depth + 1 else 1) in max cursor oldest_kept)"

section \<open>Names\<close>

definition Fnv1a64 :: "string \<Rightarrow> u64" where
  "Fnv1a64 s = fold (\<lambda>c hash. (hash XOR ucast (byte_of_char c)) * 0x100000001b3) s 0xcbf29ce484222325"

text \<open>On Linux; \<open>Hex16\<close> is what the format \<open>%016llx\<close> prints.\<close>

definition ObjectName :: "nat \<Rightarrow> string \<Rightarrow> string \<Rightarrow> string" where
  "ObjectName domain topic suffix =
     ''/pm.'' @ std_to_string domain @ ''.'' @ Hex16 (Fnv1a64 topic) @ (if suffix \<noteq> [] then ''.'' @ suffix else [])"

definition FitsName :: "string \<Rightarrow> bool" where
  "FitsName v \<longleftrightarrow> length v < kNameCapacity"

definition StoreName :: "string \<Rightarrow> string \<Rightarrow> string" where
  "StoreName field v = v @ [CHR 0x00] @ drop (length v + 1) field"

definition memchr_nul :: "string \<Rightarrow> nat option" where
  "memchr_nul field = (if CHR 0x00 \<in> set field then Some (length (takeWhile (\<lambda>c. c \<noteq> CHR 0x00) field)) else None)"

definition NameEquals :: "string \<Rightarrow> string \<Rightarrow> bool" where
  "NameEquals field v =
     (case memchr_nul field of None \<Rightarrow> False | Some n \<Rightarrow> n = length v \<and> take n field = v)"

definition LoadName :: "string \<Rightarrow> string" where
  "LoadName field = (case memchr_nul field of None \<Rightarrow> field | Some n \<Rightarrow> take n field)"

definition RemoveHint :: "string \<Rightarrow> string" where
  "RemoveHint name = '' (segment '' @ name @ ''; remove it with shm::RemoveSegment if it is stale)''"

section \<open>Opening a segment\<close>

record segment_header =
  sh_magic :: u64
  sh_layout_version :: u32
  sh_header_size :: u32
  sh_slot_payload_size :: u64
  sh_slot_stride :: u64
  sh_slot_count :: u32
  sh_message_version :: u32
  sh_topic_name :: string
  sh_type_name :: string
  sh_encoding :: string
  sh_write_seq :: u64
  sh_flags :: u32

definition StoredDescriptor :: "segment_header \<Rightarrow> message_descriptor" where
  "StoredDescriptor h = \<lparr>type_name = LoadName (sh_type_name h), encoding = LoadName (sh_encoding h), version = sh_message_version h\<rparr>"

record segment_identity =
  si_topic :: string
  si_descriptor :: message_descriptor

record shared_region =
  rg_size :: u64
  rg_created :: bool
  rg_header :: segment_header

text \<open>A mapped region is zero-filled.\<close>

definition zero_header :: segment_header where
  "zero_header = \<lparr>sh_magic = 0, sh_layout_version = 0, sh_header_size = 0, sh_slot_payload_size = 0, sh_slot_stride = 0,
     sh_slot_count = 0, sh_message_version = 0, sh_topic_name = replicate kNameCapacity (CHR 0x00),
     sh_type_name = replicate kNameCapacity (CHR 0x00), sh_encoding = replicate kNameCapacity (CHR 0x00),
     sh_write_seq = 0, sh_flags = 0\<rparr>"

text \<open>What the creator of a segment writes into its header, the magic last.\<close>

definition init_header :: "segment_identity \<Rightarrow> segment_geometry \<Rightarrow> segment_header \<Rightarrow> segment_header" where
  "init_header identity g h =
     h\<lparr>sh_layout_version := kLayoutVersion, sh_header_size := ucast HeaderSize,
       sh_slot_payload_size := sg_payload_size g, sh_slot_stride := SlotStride (sg_payload_size g),
       sh_slot_count := ucast (sg_slot_count g),
       sh_topic_name := StoreName (sh_topic_name h) (si_topic identity),
       sh_type_name := StoreName (sh_type_name h) (type_name (si_descriptor identity)),
       sh_encoding := StoreName (sh_encoding h) (encoding (si_descriptor identity)),
       sh_message_version := version (si_descriptor identity)\<rparr>"

definition publish_header :: "segment_header \<Rightarrow> segment_header" where
  "publish_header h = h\<lparr>sh_write_seq := 0, sh_flags := 0, sh_magic := kSegmentMagic\<rparr>"

text \<open>
  What an opener of an existing segment checks. \<open>published\<close> is whether the magic appeared before the deadline.
\<close>

definition check_header :: "string \<Rightarrow> segment_identity \<Rightarrow> segment_geometry \<Rightarrow> bool \<Rightarrow> shared_region \<Rightarrow> status" where
  "check_header name identity g published rg =
     (let h = rg_header rg in
      if rg_size rg < HeaderSize
      then Status_FailedPrecondition (''shm segment is smaller than its header'' @ RemoveHint name)
      else if \<not> published
      then Status_FailedPrecondition (''shm segment was never initialized'' @ RemoveHint name)
      else if sh_layout_version h \<noteq> kLayoutVersion \<or> ucast (sh_header_size h) \<noteq> HeaderSize
      then Status_FailedPrecondition (''shm segment has an incompatible layout version'' @ RemoveHint name)
      else if \<not> NameEquals (sh_topic_name h) (si_topic identity)
      then Status_FailedPrecondition (''shm segment name collides with another topic'' @ RemoveHint name)
      else if sh_slot_payload_size h \<noteq> sg_payload_size g \<or> ucast (sh_slot_count h) \<noteq> sg_slot_count g
        \<or> sh_slot_stride h \<noteq> SlotStride (sg_payload_size g)
      then Status_FailedPrecondition (''shm topic '' @ si_topic identity @ '' exists with slot size ''
        @ std_to_string (unat (sh_slot_payload_size h)) @ '' x '' @ std_to_string (unat (sh_slot_count h))
        @ '' slots; this process requested '' @ std_to_string (unat (sg_payload_size g)) @ '' x ''
        @ std_to_string (unat (sg_slot_count g)) @ RemoveHint name)
      else if \<not> NameEquals (sh_type_name h) (type_name (si_descriptor identity))
        \<or> \<not> NameEquals (sh_encoding h) (encoding (si_descriptor identity))
        \<or> sh_message_version h \<noteq> version (si_descriptor identity)
      then Status_InvalidArgument (''shm topic '' @ si_topic identity @ '' carries ''
        @ MessageDescriptor_ToString (StoredDescriptor h) @ '', not ''
        @ MessageDescriptor_ToString (si_descriptor identity) @ RemoveHint name)
      else if rg_size rg < SegmentSize g
      then Status_FailedPrecondition (''shm segment is smaller than its declared geometry'' @ RemoveHint name)
      else if (sh_flags h AND kSegmentRetired) \<noteq> 0
      then Status_NotFound (''shm topic '' @ si_topic identity @ '' was closed by its reader'')
      else Status_Ok)"

record segment =
  seg_name :: string
  seg_geometry :: segment_geometry
  seg_stride :: u64

text \<open>
  \<open>Segment::Open\<close>. \<open>open_region\<close> is \<open>SharedRegion::CreateOrOpen\<close> for a name and a size, \<open>lock_init\<close> and \<open>lock_open\<close> the
  outcomes of the writer lock. The result comes with the header as the call leaves it in the region; when the
  lock cannot be initialised the name of the new region is removed as well.
\<close>

definition Segment_Open :: "nat \<Rightarrow> segment_identity \<Rightarrow> segment_geometry \<Rightarrow> (string \<Rightarrow> u64 \<Rightarrow> shared_region result)
    \<Rightarrow> bool \<Rightarrow> status \<Rightarrow> status \<Rightarrow> segment result \<times> segment_header option" where
  "Segment_Open domain identity g open_region published lock_init lock_open =
     (if \<not> FitsName (si_topic identity) \<or> \<not> FitsName (type_name (si_descriptor identity))
        \<or> \<not> FitsName (encoding (si_descriptor identity))
      then (FromStatus (Status_InvalidArgument ''shm topic, type name, and encoding must each be shorter than 256 bytes''), None)
      else let n = SegmentSize g in
        if n = 0 \<or> 2 ^ 32 - 1 < sg_slot_count g
        then (FromStatus (Status_InvalidArgument ''shm segment geometry is too large''), None)
        else let name = ObjectName domain (si_topic identity) [] in
          case open_region name n of
            Inl st \<Rightarrow>
              (if st_code st = kNotFound
               then FromStatus (Status_NotFound (''shm topic '' @ si_topic identity @ '' does not exist''))
               else FromStatus st, None)
          | Inr rg \<Rightarrow>
              let hdr = (if rg_created rg then init_header identity g (rg_header rg) else rg_header rg);
                  checked = (if rg_created rg then lock_init else check_header name identity g published rg);
                  hdr' = (if rg_created rg \<and> status_ok lock_init then publish_header hdr else hdr) in
                if \<not> status_ok checked then (FromStatus checked, Some hdr')
                else if \<not> status_ok lock_open then (FromStatus lock_open, Some hdr')
                else (Inr \<lparr>seg_name = name, seg_geometry = g, seg_stride = SlotStride (sg_payload_size g)\<rparr>, Some hdr'))"

section \<open>The ring\<close>

record slot =
  sl_seq :: u64
  sl_timestamp :: time_point
  sl_size :: u64
  sl_payload :: bytes

record ring =
  rb_payload_size :: u64
  rb_slots :: "slot list"
  rb_write_seq :: u64

definition slot_index :: "ring \<Rightarrow> u64 \<Rightarrow> nat" where
  "slot_index r s = unat s mod length (rb_slots r)"

definition upd_slot :: "u64 \<Rightarrow> (slot \<Rightarrow> slot) \<Rightarrow> ring \<Rightarrow> ring" where
  "upd_slot s f r = r\<lparr>rb_slots := (rb_slots r)[slot_index r s := f (rb_slots r ! slot_index r s)]\<rparr>"

definition slot_of :: "u64 \<Rightarrow> ring \<Rightarrow> slot" where
  "slot_of s r = rb_slots r ! slot_index r s"

text \<open>A fill function leaves \<open>buf\<close> in the first bytes of the slot's payload.\<close>

definition fill_payload :: "nat \<Rightarrow> bytes \<Rightarrow> slot \<Rightarrow> slot" where
  "fill_payload capacity buf sl = sl\<lparr>sl_payload := take capacity buf @ drop (length (take capacity buf)) (sl_payload sl)\<rparr>"

definition Segment_PublishWith :: "status \<Rightarrow> nat \<Rightarrow> (nat \<Rightarrow> fill_outcome) \<Rightarrow> time_point \<Rightarrow> ring \<Rightarrow> u64 result \<times> ring" where
  "Segment_PublishWith locked capacity fill source r =
     (if unat (rb_payload_size r) < capacity
      then (FromStatus (Status_OutOfRange (''payload of '' @ std_to_string capacity @ '' bytes exceeds the shm slot size of ''
             @ std_to_string (unat (rb_payload_size r)))), r)
      else if \<not> status_ok locked then (FromStatus locked, r)
      else let s = rb_write_seq r + 1;
               r1 = upd_slot s (\<lambda>sl. sl\<lparr>sl_seq := s OR kWritingBit\<rparr>) r in
        case InvokeFill fill capacity of
          (used, buf) \<Rightarrow>
            let r2 = upd_slot s (fill_payload capacity buf) r1 in
            (case used of
               Inl st \<Rightarrow> (FromStatus st, r2)
             | Inr n \<Rightarrow>
                 let r3 = upd_slot s (\<lambda>sl. sl\<lparr>sl_size := word_of_nat n, sl_timestamp := source\<rparr>) r2;
                     r4 = upd_slot s (\<lambda>sl. sl\<lparr>sl_seq := s\<rparr>) r3 in
                 (Inr s, r4\<lparr>rb_write_seq := s\<rparr>)))"

definition Segment_Publish :: "status \<Rightarrow> bytes \<Rightarrow> time_point \<Rightarrow> ring \<Rightarrow> u64 result \<times> ring" where
  "Segment_Publish locked data source r =
     Segment_PublishWith locked (length data) (\<lambda>_. FillUses (length data) data) source r"

definition effective_depth :: "u64 \<Rightarrow> ring \<Rightarrow> u64" where
  "effective_depth depth r = max 1 (min depth (word_of_nat (length (rb_slots r))))"

definition slot_message :: "u64 \<Rightarrow> slot \<Rightarrow> message" where
  "slot_message s sl = \<lparr>payload = take (unat (sl_size sl)) (sl_payload sl),
     metadata = \<lparr>sequence = s, source_timestamp = sl_timestamp sl, reception_timestamp = 0\<rparr>\<rparr>"

text \<open>
  \<open>Segment::TryRead\<close> with no writer active: what it returns, how many messages it skipped, the new cursor. The
  first argument counts the passes that are left.
\<close>

fun TryRead_passes :: "nat \<Rightarrow> u64 \<Rightarrow> ring \<Rightarrow> u64 \<Rightarrow> u64 \<Rightarrow> message option \<times> u64 \<times> u64" where
  "TryRead_passes 0 depth r cursor dropped = (None, dropped, cursor)"
| "TryRead_passes (Suc n) depth r cursor dropped =
     (let newest = rb_write_seq r in
      if newest < cursor then (None, dropped, cursor)
      else let clamped = ClampCursor cursor newest depth;
               dropped = dropped + (clamped - cursor);
               sl = slot_of clamped r in
        if sl_seq sl \<noteq> clamped \<or> \<not> sl_size sl \<le> rb_payload_size r
        then TryRead_passes n depth r (clamped + 1) (dropped + 1)
        else (Some (slot_message clamped sl), dropped, clamped + 1))"

definition Segment_TryRead :: "u64 \<Rightarrow> u64 \<Rightarrow> ring \<Rightarrow> message option \<times> u64 \<times> u64" where
  "Segment_TryRead cursor depth r =
     TryRead_passes (length (rb_slots r) + 16) (effective_depth depth r) r cursor 0"

definition Segment_Pending :: "u64 \<Rightarrow> u64 \<Rightarrow> ring \<Rightarrow> u64" where
  "Segment_Pending cursor depth r =
     (if rb_write_seq r < cursor then 0
      else rb_write_seq r - ClampCursor cursor (rb_write_seq r) (effective_depth depth r) + 1)"

text \<open>The slots of a segment that was just created.\<close>

definition new_ring :: "segment_geometry \<Rightarrow> ring" where
  "new_ring g = \<lparr>rb_payload_size = sg_payload_size g,
     rb_slots = replicate (unat (sg_slot_count g))
       \<lparr>sl_seq = 0, sl_timestamp = 0, sl_size = 0, sl_payload = replicate (unat (sg_payload_size g)) 0\<rparr>,
     rb_write_seq = 0\<rparr>"

end
