(* ===== verification/Shm_Layout.thy ===== *)
theory Shm_Layout
  imports Shm_Segment
begin

text \<open>
  The layout of a shared-memory segment: the size arithmetic does not wrap when it succeeds, and every slot
  lies inside the segment, aligned and apart from the others. Whoever opens a segment either created it with its
  own geometry and descriptor or found exactly them in the header.
\<close>

section \<open>Size arithmetic\<close>

lemma unat_size_max: "unat size_max = 2 ^ 64 - 1"
  by (simp add: size_max_def unsigned_minus_1_eq_mask mask_eq_exp_minus_1)

lemma unat_size_max_minus: "unat (size_max - x) = 2 ^ 64 - 1 - unat x"
proof -
  have "x \<le> size_max" by (simp add: size_max_def)
  then show ?thesis by (simp add: unat_sub unat_size_max)
qed

lemma AlignUp_unat:
  "unat (AlignUp v) = (if 2 ^ 64 - 64 < unat v then 0 else (unat v + 63) div 64 * 64)"
proof (cases "2 ^ 64 - 64 < unat v")
  case True
  then have "size_max - (kSlotAlignment - 1) < v"
    by (simp add: word_less_nat_alt unat_size_max_minus kSlotAlignment_def)
  with True show ?thesis by (simp add: AlignUp_def)
next
  case False
  then have guard: "\<not> size_max - (kSlotAlignment - 1) < v"
    by (simp add: word_less_nat_alt unat_size_max_minus kSlotAlignment_def)
  have "unat (v + 63) = unat v + 63"
    using False by (subst unat_add_lem [THEN iffD1]) simp_all
  moreover have "unat ((v + 63) div 64 * 64) = unat ((v + 63) div 64) * 64"
  proof -
    have "unat ((v + 63) div 64) * 64 \<le> unat (v + 63)" by (simp add: unat_div_distrib)
    also have "\<dots> < 2 ^ 64" using unsigned_less [of "v + 63", where ?'a = nat] by simp
    finally show ?thesis by (subst unat_mult_lem [THEN iffD1]) simp_all
  qed
  moreover have "AlignUp v = (v + 63) div 64 * 64"
    using guard by (simp add: AlignUp_def kSlotAlignment_def algebra_simps)
  ultimately show ?thesis using False by (simp add: unat_div_distrib)
qed

lemma HeaderSize_eq: "HeaderSize = 1984"
proof -
  have "unat HeaderSize = unat (1984 :: u64)" by (simp add: HeaderSize_def AlignUp_unat sizeof_SegmentHeader_def)
  then show ?thesis by (simp only: unsigned_word_eqI)
qed

lemma SlotStride_unat:
  "unat (SlotStride n) = (if 2 ^ 64 - 128 < unat n then 0 else (unat n + 127) div 64 * 64)"
proof (cases "2 ^ 64 - 65 < unat n")
  case True
  then have "size_max - kSlotPayloadOffset < n"
    by (simp add: word_less_nat_alt unat_size_max_minus kSlotPayloadOffset_def kSlotAlignment_def)
  with True show ?thesis by (simp add: SlotStride_def)
next
  case False
  then have guard: "\<not> size_max - kSlotPayloadOffset < n"
    by (simp add: word_less_nat_alt unat_size_max_minus kSlotPayloadOffset_def kSlotAlignment_def)
  have "unat (64 + n) = 64 + unat n"
    using False by (subst unat_add_lem [THEN iffD1]) simp_all
  with guard show ?thesis
    by (simp add: SlotStride_def kSlotPayloadOffset_def kSlotAlignment_def AlignUp_unat) arith
qed

lemma stride_holds_slot:
  assumes "SlotStride n \<noteq> 0"
  shows "64 + unat n \<le> unat (SlotStride n)" and "unat (SlotStride n) mod 64 = 0"
proof -
  from assms have "unat (SlotStride n) \<noteq> 0" by (simp add: unat_eq_0)
  then have n: "\<not> 2 ^ 64 - 128 < unat n" by (auto simp: SlotStride_unat)
  then show "unat (SlotStride n) mod 64 = 0" by (simp add: SlotStride_unat)
  have "64 + m \<le> (m + 127) div 64 * 64" for m :: nat by presburger
  with n show "64 + unat n \<le> unat (SlotStride n)" by (simp add: SlotStride_unat)
qed

lemma SegmentSize_nonzero:
  assumes "SegmentSize g \<noteq> 0"
  shows "SlotStride (sg_payload_size g) \<noteq> 0" and "sg_slot_count g \<noteq> 0"
    and "1984 + unat (sg_slot_count g) * unat (SlotStride (sg_payload_size g)) < 2 ^ 64"
    and "unat (SegmentSize g) = 1984 + unat (sg_slot_count g) * unat (SlotStride (sg_payload_size g))"
proof -
  let ?st = "SlotStride (sg_payload_size g)" and ?n = "sg_slot_count g"
  from assms show st: "?st \<noteq> 0" and "?n \<noteq> 0" by (auto simp: SegmentSize_def Let_def)
  from assms have le: "?n \<le> (size_max - HeaderSize) div ?st"
    by (auto simp: SegmentSize_def Let_def not_less split: if_splits)
  have "0 < unat ?st" using st by (simp add: unat_gt_0)
  have "unat ?n \<le> (2 ^ 64 - 1985) div unat ?st"
    using le by (simp add: word_le_nat_alt unat_div_distrib unat_size_max_minus HeaderSize_eq)
  then have "unat ?n * unat ?st \<le> 2 ^ 64 - 1985"
    using \<open>0 < unat ?st\<close> by (simp add: less_eq_div_iff_mult_less_eq)
  then show fits: "1984 + unat ?n * unat ?st < 2 ^ 64" by simp
  then have "unat (?n * ?st) = unat ?n * unat ?st" by (subst unat_mult_lem [THEN iffD1]) simp_all
  moreover have "SegmentSize g = 1984 + ?n * ?st"
    using assms by (auto simp: SegmentSize_def Let_def HeaderSize_eq split: if_splits)
  ultimately show "unat (SegmentSize g) = 1984 + unat ?n * unat ?st"
    using fits by (simp add: unat_add_lem [THEN iffD1])
qed

lemma SlotAt_unat:
  assumes "SegmentSize g \<noteq> 0"
  shows "unat (SlotAt g s) = 1984 + unat s mod unat (sg_slot_count g) * unat (SlotStride (sg_payload_size g))"
    and "unat s mod unat (sg_slot_count g) < unat (sg_slot_count g)"
proof -
  let ?st = "SlotStride (sg_payload_size g)" and ?n = "sg_slot_count g"
  note nz = SegmentSize_nonzero [OF assms]
  show lt: "unat s mod unat ?n < unat ?n" using nz(2) by (simp add: unat_gt_0)
  then have "unat s mod unat ?n * unat ?st \<le> unat ?n * unat ?st" by simp
  with nz(3) have fits: "1984 + unat s mod unat ?n * unat ?st < 2 ^ 64" by linarith
  then have "unat ((s mod ?n) * ?st) = unat s mod unat ?n * unat ?st"
    by (subst unat_mult_lem [THEN iffD1]) (simp_all add: unat_mod_distrib)
  with fits show "unat (SlotAt g s) = 1984 + unat s mod unat ?n * unat ?st"
    by (simp add: SlotAt_def HeaderSize_eq unat_add_lem [THEN iffD1])
qed

text \<open>
  C35. When \<open>SegmentSize\<close> returns a size, nothing of the 64-bit arithmetic has wrapped: the size is the header and the
  slots, every slot (its 64-byte header and its payload) lies between the segment header and the end of the
  segment at a 64-byte aligned offset, and the slots of sequences that do not share a slot do not overlap.
\<close>

theorem segment_layout_in_bounds:
  assumes "SegmentSize g \<noteq> 0"
  shows "unat (SegmentSize g) = 1984 + unat (sg_slot_count g) * unat (SlotStride (sg_payload_size g))
    \<and> 1984 \<le> unat (SlotAt g s) \<and> unat (SlotAt g s) mod 64 = 0
    \<and> unat (SlotAt g s) + 64 + unat (sg_payload_size g) \<le> unat (SegmentSize g)
    \<and> (unat s mod unat (sg_slot_count g) < unat t mod unat (sg_slot_count g) \<longrightarrow>
         unat (SlotAt g s) + 64 + unat (sg_payload_size g) \<le> unat (SlotAt g t))"
proof -
  let ?st = "unat (SlotStride (sg_payload_size g))" and ?n = "unat (sg_slot_count g)"
  note nz = SegmentSize_nonzero [OF assms] and stride = stride_holds_slot [OF SegmentSize_nonzero(1) [OF assms]]
  have nxt: "i * ?st + ?st \<le> j * ?st" if "i < j" for i j
    using that by (metis Suc_leI add.commute mult_Suc mult_le_mono1)
  have "unat (SlotAt g s) mod 64 = 0"
    using stride(2) by (simp add: SlotAt_unat [OF assms] mod_0_imp_dvd dvd_imp_mod_0 dvd_add)
  moreover have "unat (SlotAt g s) + 64 + unat (sg_payload_size g) \<le> unat (SegmentSize g)"
    using nxt [OF SlotAt_unat(2) [OF assms, of s]] stride(1) by (simp add: SlotAt_unat [OF assms] nz(4))
  moreover have "unat (SlotAt g s) + 64 + unat (sg_payload_size g) \<le> unat (SlotAt g t)"
    if "unat s mod ?n < unat t mod ?n"
    using nxt [OF that] stride(1) by (simp add: SlotAt_unat [OF assms])
  ultimately show ?thesis by (simp add: nz(4) SlotAt_unat(1) [OF assms])
qed

theorem segment_layout_in_bounds_witness:
  "unat (SlotAt \<lparr>sg_payload_size = 100, sg_slot_count = 4\<rparr> 7) + 64 + 100
     \<le> unat (SegmentSize \<lparr>sg_payload_size = 100, sg_slot_count = 4\<rparr>)
   \<and> unat (SlotAt \<lparr>sg_payload_size = 100, sg_slot_count = 4\<rparr> 5) + 64 + 100
     \<le> unat (SlotAt \<lparr>sg_payload_size = 100, sg_slot_count = 4\<rparr> 7)"
proof -
  let ?g = "\<lparr>sg_payload_size = 100, sg_slot_count = 4\<rparr> :: segment_geometry"
  have "SegmentSize ?g \<noteq> 0" by code_simp
  from segment_layout_in_bounds [OF this, of 7 7] segment_layout_in_bounds [OF this, of 5 7] show ?thesis by simp
qed

section \<open>Attaching to a segment\<close>

definition nul_free :: "segment_identity \<Rightarrow> bool" where
  "nul_free i \<longleftrightarrow> CHR 0x00 \<notin> set (si_topic i) \<and> CHR 0x00 \<notin> set (type_name (si_descriptor i))
     \<and> CHR 0x00 \<notin> set (encoding (si_descriptor i))"

lemma NameEquals_StoreName: "CHR 0x00 \<notin> set v \<Longrightarrow> NameEquals (StoreName field v) v' \<longleftrightarrow> v' = v"
proof -
  assume nul: "CHR 0x00 \<notin> set v"
  then have "takeWhile (\<lambda>c. c \<noteq> CHR 0x00) (StoreName field v) = v"
    by (simp add: StoreName_def takeWhile_append)
  moreover have "CHR 0x00 \<in> set (StoreName field v)" by (simp add: StoreName_def)
  ultimately show ?thesis by (auto simp: NameEquals_def memchr_nul_def StoreName_def)
qed

lemma ucast_slot_count: "n \<le> 2 ^ 32 - 1 \<Longrightarrow> ucast (ucast n :: u32) = (n :: u64)"
proof -
  assume "n \<le> 2 ^ 32 - 1"
  then have "unat n < 2 ^ 32" by (simp add: word_le_nat_alt)
  then have "unat (ucast (ucast n :: u32) :: u64) = unat n"
    by (simp add: unsigned_ucast_eq unsigned_take_bit_eq take_bit_nat_eq_self)
  then show ?thesis by (simp only: unsigned_word_eqI)
qed

lemma check_header_ok:
  "status_ok (check_header name i g published rg) \<longleftrightarrow>
     \<not> rg_size rg < HeaderSize \<and> published
     \<and> sh_layout_version (rg_header rg) = kLayoutVersion \<and> ucast (sh_header_size (rg_header rg)) = HeaderSize
     \<and> NameEquals (sh_topic_name (rg_header rg)) (si_topic i)
     \<and> sh_slot_payload_size (rg_header rg) = sg_payload_size g \<and> ucast (sh_slot_count (rg_header rg)) = sg_slot_count g
     \<and> sh_slot_stride (rg_header rg) = SlotStride (sg_payload_size g)
     \<and> NameEquals (sh_type_name (rg_header rg)) (type_name (si_descriptor i))
     \<and> NameEquals (sh_encoding (rg_header rg)) (encoding (si_descriptor i))
     \<and> sh_message_version (rg_header rg) = version (si_descriptor i)
     \<and> \<not> rg_size rg < SegmentSize g \<and> sh_flags (rg_header rg) AND kSegmentRetired = 0"
  by (simp add: check_header_def Let_def) argo

lemma check_header_init:
  assumes "nul_free i" "sg_slot_count g \<le> 2 ^ 32 - 1" "SegmentSize g \<noteq> 0"
  shows "status_ok (check_header name i' g' True \<lparr>rg_size = SegmentSize g, rg_created = False,
      rg_header = (publish_header (init_header i g h))\<lparr>sh_write_seq := w, sh_flags := f\<rparr>\<rparr>)
    \<longleftrightarrow> i' = i \<and> g' = g \<and> f AND kSegmentRetired = 0"
proof -
  have hs: "ucast (ucast (HeaderSize :: u64) :: u32) = HeaderSize"
    by (rule ucast_slot_count) (simp add: HeaderSize_eq)
  have "\<not> SegmentSize g < HeaderSize"
    using SegmentSize_nonzero(4) [OF assms(3)] by (simp add: word_less_nat_alt HeaderSize_eq)
  moreover have "i' = i \<longleftrightarrow> si_topic i' = si_topic i \<and> type_name (si_descriptor i') = type_name (si_descriptor i)
      \<and> encoding (si_descriptor i') = encoding (si_descriptor i) \<and> version (si_descriptor i') = version (si_descriptor i)"
    by (cases i, cases i', cases "si_descriptor i", cases "si_descriptor i'") auto
  moreover have "g' = g \<longleftrightarrow> sg_payload_size g' = sg_payload_size g \<and> sg_slot_count g' = sg_slot_count g"
    by (cases g, cases g') auto
  ultimately show ?thesis
    using assms(1)
    by (simp add: check_header_ok init_header_def publish_header_def nul_free_def NameEquals_StoreName
      ucast_slot_count [OF assms(2)] hs) auto
qed

text \<open>
  A process that created a segment can be joined exactly by those that ask for the same topic, message
  descriptor and geometry, whatever has been written since, until the segment is retired: any other opener is refused.
\<close>

theorem segment_attach_iff:
  assumes "Segment_Open domain i g (\<lambda>_ n. Inr \<lparr>rg_size = n, rg_created = True, rg_header = zero_header\<rparr>) p l1 l2 = (Inr seg, Some h)"
    and "nul_free i"
  shows "result_ok (fst (Segment_Open domain i' g'
      (\<lambda>_ _. Inr \<lparr>rg_size = SegmentSize g, rg_created = False, rg_header = h\<lparr>sh_write_seq := w, sh_flags := f\<rparr>\<rparr>) True l3 Status_Ok))
    \<longleftrightarrow> i' = i \<and> g' = g \<and> f AND kSegmentRetired = 0"
proof -
  from assms(1) have g: "SegmentSize g \<noteq> 0" "\<not> 2 ^ 32 - 1 < sg_slot_count g" and l1: "status_ok l1"
    and fits: "FitsName (si_topic i)" "FitsName (type_name (si_descriptor i))" "FitsName (encoding (si_descriptor i))"
    and h: "h = publish_header (init_header i g zero_header)"
    by (auto simp: Segment_Open_def Let_def split: if_splits)
  have "sg_slot_count g \<le> 2 ^ 32 - 1" using g(2) by (simp add: not_less)
  note check = check_header_init [OF assms(2) this g(1), where i' = i' and g' = g' and h = zero_header and w = w and f = f]
  have "\<not> status_ok (check_header name i' g' True \<lparr>rg_size = SegmentSize g, rg_created = False,
      rg_header = h\<lparr>sh_write_seq := w, sh_flags := f\<rparr>\<rparr>)" if "\<not> (i' = i \<and> g' = g \<and> f AND kSegmentRetired = 0)" for name
    using check [where name = name] that unfolding h by blast
  moreover have "result_ok (fst (Segment_Open domain i g
      (\<lambda>_ _. Inr \<lparr>rg_size = SegmentSize g, rg_created = False, rg_header = h\<lparr>sh_write_seq := w, sh_flags := f\<rparr>\<rparr>) True l3 Status_Ok))"
    if "i' = i" "g' = g" "f AND kSegmentRetired = 0"
    using check [where name = "ObjectName domain (si_topic i) []"] that g fits unfolding h by (simp add: Segment_Open_def Let_def)
  moreover have "status_ok (check_header (ObjectName domain (si_topic i') []) i' g' True \<lparr>rg_size = SegmentSize g,
      rg_created = False, rg_header = h\<lparr>sh_write_seq := w, sh_flags := f\<rparr>\<rparr>)"
    if "result_ok (fst (Segment_Open domain i' g'
      (\<lambda>_ _. Inr \<lparr>rg_size = SegmentSize g, rg_created = False, rg_header = h\<lparr>sh_write_seq := w, sh_flags := f\<rparr>\<rparr>) True l3 Status_Ok))"
    using that by (auto simp: Segment_Open_def Let_def split: if_splits)
  ultimately show ?thesis by blast
qed

definition ex_identity :: segment_identity where
  "ex_identity = \<lparr>si_topic = ''pose'', si_descriptor = \<lparr>type_name = ''P'', encoding = ''raw'', version = 1\<rparr>\<rparr>"

definition ex_geometry :: segment_geometry where
  "ex_geometry = \<lparr>sg_payload_size = 100, sg_slot_count = 4\<rparr>"

theorem segment_attach_iff_witness:
  "\<exists>seg h. Segment_Open 0 ex_identity ex_geometry (\<lambda>_ n. Inr \<lparr>rg_size = n, rg_created = True, rg_header = zero_header\<rparr>)
      True Status_Ok Status_Ok = (Inr seg, Some h)
    \<and> result_ok (fst (Segment_Open 0 ex_identity ex_geometry
        (\<lambda>_ _. Inr \<lparr>rg_size = SegmentSize ex_geometry, rg_created = False, rg_header = h\<lparr>sh_write_seq := 9, sh_flags := 0\<rparr>\<rparr>)
        True Status_Ok Status_Ok))
    \<and> \<not> result_ok (fst (Segment_Open 0 ex_identity (ex_geometry\<lparr>sg_slot_count := 8\<rparr>)
        (\<lambda>_ _. Inr \<lparr>rg_size = SegmentSize ex_geometry, rg_created = False, rg_header = h\<lparr>sh_write_seq := 9, sh_flags := 0\<rparr>\<rparr>)
        True Status_Ok Status_Ok))"
proof -
  have g: "SegmentSize ex_geometry \<noteq> 0" by code_simp
  have i: "nul_free ex_identity" by (simp add: nul_free_def ex_identity_def)
  have "FitsName (si_topic ex_identity)" "FitsName (type_name (si_descriptor ex_identity))"
    "FitsName (encoding (si_descriptor ex_identity))" "\<not> 2 ^ 32 - 1 < sg_slot_count ex_geometry"
    by (simp_all add: FitsName_def kNameCapacity_def ex_identity_def ex_geometry_def)
  with g obtain seg h where o: "Segment_Open 0 ex_identity ex_geometry
      (\<lambda>_ n. Inr \<lparr>rg_size = n, rg_created = True, rg_header = zero_header\<rparr>) True Status_Ok Status_Ok = (Inr seg, Some h)"
    by (simp add: Segment_Open_def Let_def)
  from o segment_attach_iff [OF o i, of ex_identity ex_geometry 0 9 Status_Ok]
    segment_attach_iff [OF o i, of ex_identity "ex_geometry\<lparr>sg_slot_count := 8\<rparr>" 0 9 Status_Ok]
  show ?thesis by (simp add: ex_geometry_def)
qed

end
