(* ===== verification/Shm_Seqlock.thy ===== *)
theory Shm_Seqlock
  imports Shm_Layout
begin

text \<open>
  The seqlock protocol of a shared-memory ring, access by access.

  Writers of all processes are serialised by the writer lock, so the state has one writer, the one that holds the
  lock; it may die after any of its stores, and the lock then passes on. Readers never write. A step is one access
  to shared memory: \<open>writer_step\<close> takes \<open>PublishWith\<close> apart (the fill function stores bytes in any order),
  \<open>reader_access\<close> takes \<open>TryRead\<close> apart (the copy loads one byte at a time). \<open>sm_log\<close> is not part of the program: it records
  the messages that were committed, in order. Accesses are sequentially consistent; the fences of the code order them
  as written.
\<close>

section \<open>Writers\<close>

datatype writer_pc =
    WFree
  | WLocked nat time_point
  | WLoaded u64 nat time_point
  | WFilling u64 nat time_point
  | WSized u64 bytes time_point
  | WStamped u64 bytes time_point
  | WSlotCommitted u64 bytes time_point
  | WCommitted u64

type_synonym entry = "bytes \<times> time_point"

inductive writer_step :: "ring \<times> writer_pc \<times> entry list \<Rightarrow> ring \<times> writer_pc \<times> entry list \<Rightarrow> bool" where
  w_lock: "capacity \<le> unat (rb_payload_size r) \<Longrightarrow>
    writer_step (r, WFree, log) (r, WLocked capacity source, log)"
| w_load: "writer_step (r, WLocked capacity source, log) (r, WLoaded (rb_write_seq r + 1) capacity source, log)"
| w_mark: "writer_step (r, WLoaded s capacity source, log)
    (upd_slot s (\<lambda>sl. sl\<lparr>sl_seq := s OR kWritingBit\<rparr>) r, WFilling s capacity source, log)"
| w_fill: "i < capacity \<Longrightarrow> writer_step (r, WFilling s capacity source, log)
    (upd_slot s (\<lambda>sl. sl\<lparr>sl_payload := (sl_payload sl)[i := b]\<rparr>) r, WFilling s capacity source, log)"
| w_fill_fails: "writer_step (r, WFilling s capacity source, log) (r, WFree, log)"
| w_size: "used \<le> capacity \<Longrightarrow> writer_step (r, WFilling s capacity source, log)
    (upd_slot s (\<lambda>sl. sl\<lparr>sl_size := word_of_nat used\<rparr>) r, WSized s (take used (sl_payload (slot_of s r))) source, log)"
| w_stamp: "writer_step (r, WSized s data source, log)
    (upd_slot s (\<lambda>sl. sl\<lparr>sl_timestamp := source\<rparr>) r, WStamped s data source, log)"
| w_slot: "writer_step (r, WStamped s data source, log)
    (upd_slot s (\<lambda>sl. sl\<lparr>sl_seq := s\<rparr>) r, WSlotCommitted s data source, log)"
| w_commit: "writer_step (r, WSlotCommitted s data source, log)
    (r\<lparr>rb_write_seq := s\<rparr>, WCommitted s, log @ [(data, source)])"
| w_unlock: "writer_step (r, WCommitted s, log) (r, WFree, log)"
| w_dies: "writer_step (r, w, log) (r, WFree, log)"

section \<open>Readers\<close>

text \<open>
  \<open>RPass\<close> is about to load \<open>write_seq\<close>, \<open>RBefore\<close> the slot's sequence, \<open>RSize\<close> and \<open>RTime\<close> its header fields, \<open>RCopy\<close> the
  next byte, \<open>RAfter\<close> the sequence again. They carry the passes left, the messages skipped so far and what was loaded.
  \<open>rd_got\<close> and \<open>rd_lost\<close> accumulate the outcomes of all calls since the reader was created at \<open>rd_start\<close>.
\<close>

datatype reader_pc =
    RIdle
  | RPass nat u64
  | RBefore nat u64
  | RSize nat u64
  | RTime nat u64 u64
  | RCopy nat u64 u64 time_point bytes
  | RAfter nat u64 time_point "bytes option"

record shm_reader =
  rd_pc :: reader_pc
  rd_cursor :: u64
  rd_depth :: u64
  rd_got :: "(u64 \<times> entry) list"
  rd_lost :: nat
  rd_start :: nat

definition reader_skip :: "nat \<Rightarrow> u64 \<Rightarrow> shm_reader \<Rightarrow> shm_reader" where
  "reader_skip n dropped rd = rd\<lparr>rd_pc := RPass n (dropped + 1), rd_cursor := rd_cursor rd + 1\<rparr>"

definition reader_done :: "u64 \<Rightarrow> (u64 \<times> entry) list \<Rightarrow> shm_reader \<Rightarrow> shm_reader" where
  "reader_done dropped got rd = rd\<lparr>rd_pc := RIdle, rd_lost := rd_lost rd + unat dropped, rd_got := rd_got rd @ got\<rparr>"

definition reader_access :: "ring \<Rightarrow> shm_reader \<Rightarrow> shm_reader" where
  "reader_access r rd =
     (let sl = slot_of (rd_cursor rd) r in
      case rd_pc rd of
        RIdle \<Rightarrow> rd\<lparr>rd_pc := RPass (length (rb_slots r) + 16) 0\<rparr>
      | RPass 0 dropped \<Rightarrow> reader_done dropped [] rd
      | RPass (Suc n) dropped \<Rightarrow>
          (let newest = rb_write_seq r in
           if newest < rd_cursor rd then reader_done dropped [] rd
           else let clamped = ClampCursor (rd_cursor rd) newest (effective_depth (rd_depth rd) r) in
             rd\<lparr>rd_pc := RBefore n (dropped + (clamped - rd_cursor rd)), rd_cursor := clamped\<rparr>)
      | RBefore n dropped \<Rightarrow>
          if sl_seq sl \<noteq> rd_cursor rd then reader_skip n dropped rd else rd\<lparr>rd_pc := RSize n dropped\<rparr>
      | RSize n dropped \<Rightarrow> rd\<lparr>rd_pc := RTime n dropped (sl_size sl)\<rparr>
      | RTime n dropped sz \<Rightarrow>
          rd\<lparr>rd_pc := (if sz \<le> rb_payload_size r then RCopy n dropped sz (sl_timestamp sl) []
                      else RAfter n dropped (sl_timestamp sl) None)\<rparr>
      | RCopy n dropped sz ts buf \<Rightarrow>
          rd\<lparr>rd_pc := (if length buf < unat sz then RCopy n dropped sz ts (buf @ [sl_payload sl ! length buf])
                      else RAfter n dropped ts (Some buf))\<rparr>
      | RAfter n dropped ts None \<Rightarrow> reader_skip n dropped rd
      | RAfter n dropped ts (Some buf) \<Rightarrow>
          if sl_seq sl \<noteq> rd_cursor rd then reader_skip n dropped rd
          else reader_done dropped [(rd_cursor rd, (buf, ts))] (rd\<lparr>rd_cursor := rd_cursor rd + 1\<rparr>))"

text \<open>A new reader starts behind the newest committed message.\<close>

definition new_reader :: "u64 \<Rightarrow> ring \<Rightarrow> shm_reader" where
  "new_reader depth r = \<lparr>rd_pc = RIdle, rd_cursor = rb_write_seq r + 1, rd_depth = depth, rd_got = [], rd_lost = 0,
     rd_start = unat (rb_write_seq r + 1)\<rparr>"

section \<open>The system\<close>

record shm_system =
  sm_ring :: ring
  sm_writer :: writer_pc
  sm_log :: "entry list"
  sm_readers :: "shm_reader list"

inductive shm_step :: "shm_system \<Rightarrow> shm_system \<Rightarrow> bool" where
  shm_writes: "writer_step (sm_ring s, sm_writer s, sm_log s) (r, w, log) \<Longrightarrow>
    shm_step s (s\<lparr>sm_ring := r, sm_writer := w, sm_log := log\<rparr>)"
| shm_reads: "i < length (sm_readers s) \<Longrightarrow>
    shm_step s (s\<lparr>sm_readers := (sm_readers s)[i := reader_access (sm_ring s) (sm_readers s ! i)]\<rparr>)"
| shm_attaches: "shm_step s (s\<lparr>sm_readers := sm_readers s @ [new_reader depth (sm_ring s)]\<rparr>)"

inductive_cases shm_stepE: "shm_step s t"

definition shm_init :: "segment_geometry \<Rightarrow> shm_system" where
  "shm_init g = \<lparr>sm_ring = new_ring g, sm_writer = WFree, sm_log = [], sm_readers = []\<rparr>"

section \<open>Invariant of the ring\<close>

definition slot_entry :: "slot \<Rightarrow> entry" where
  "slot_entry sl = (take (unat (sl_size sl)) (sl_payload sl), sl_timestamp sl)"

definition slot_ok :: "nat \<Rightarrow> u64 \<Rightarrow> entry list \<Rightarrow> nat \<Rightarrow> slot \<Rightarrow> bool" where
  "slot_ok n cap log j sl \<longleftrightarrow> length (sl_payload sl) = unat cap \<and>
     (bit (sl_seq sl) 63 \<or> sl_seq sl = 0 \<or>
      unat (sl_seq sl) mod n = j \<and> unat (sl_seq sl) \<le> length log + 1 \<and>
      (unat (sl_seq sl) \<le> length log \<longrightarrow> sl_size sl \<le> cap \<and> slot_entry sl = log ! (unat (sl_seq sl) - 1)))"

fun writer_ok :: "ring \<Rightarrow> entry list \<Rightarrow> writer_pc \<Rightarrow> bool" where
  "writer_ok r log WFree \<longleftrightarrow> True"
| "writer_ok r log (WLocked c source) \<longleftrightarrow> c \<le> unat (rb_payload_size r)"
| "writer_ok r log (WLoaded s c source) \<longleftrightarrow> unat s = length log + 1 \<and> c \<le> unat (rb_payload_size r)"
| "writer_ok r log (WFilling s c source) \<longleftrightarrow> unat s = length log + 1 \<and> c \<le> unat (rb_payload_size r)
     \<and> bit (sl_seq (slot_of s r)) 63"
| "writer_ok r log (WSized s data source) \<longleftrightarrow> unat s = length log + 1 \<and> bit (sl_seq (slot_of s r)) 63
     \<and> sl_size (slot_of s r) \<le> rb_payload_size r \<and> fst (slot_entry (slot_of s r)) = data"
| "writer_ok r log (WStamped s data source) \<longleftrightarrow> unat s = length log + 1 \<and> bit (sl_seq (slot_of s r)) 63
     \<and> sl_size (slot_of s r) \<le> rb_payload_size r \<and> slot_entry (slot_of s r) = (data, source)"
| "writer_ok r log (WSlotCommitted s data source) \<longleftrightarrow> unat s = length log + 1 \<and> sl_seq (slot_of s r) = s
     \<and> sl_size (slot_of s r) \<le> rb_payload_size r \<and> slot_entry (slot_of s r) = (data, source)"
| "writer_ok r log (WCommitted s) \<longleftrightarrow> True"

definition ring_ok :: "ring \<Rightarrow> writer_pc \<Rightarrow> entry list \<Rightarrow> bool" where
  "ring_ok r w log \<longleftrightarrow> rb_slots r \<noteq> [] \<and> length (rb_slots r) < 2 ^ 63 \<and> unat (rb_write_seq r) = length log \<and> writer_ok r log w
     \<and> (\<forall>j < length (rb_slots r). slot_ok (length (rb_slots r)) (rb_payload_size r) log j (rb_slots r ! j))"

lemma upd_slot_simps [simp]:
  "rb_payload_size (upd_slot s f r) = rb_payload_size r" "rb_write_seq (upd_slot s f r) = rb_write_seq r"
  "length (rb_slots (upd_slot s f r)) = length (rb_slots r)" "slot_index (upd_slot s f r) = slot_index r"
  by (auto simp: upd_slot_def slot_index_def fun_eq_iff)

lemma slot_index_less: "rb_slots r \<noteq> [] \<Longrightarrow> slot_index r s < length (rb_slots r)"
  by (simp add: slot_index_def)

lemma slot_of_upd: "rb_slots r \<noteq> [] \<Longrightarrow>
  slot_of c (upd_slot s f r) = (if slot_index r c = slot_index r s then f (slot_of s r) else slot_of c r)"
  by (auto simp: slot_of_def slot_index_less) (auto simp: upd_slot_def slot_index_less)

lemma slot_ok_at: "ring_ok r w log \<Longrightarrow>
  slot_ok (length (rb_slots r)) (rb_payload_size r) log (slot_index r s) (slot_of s r)"
  by (simp add: ring_ok_def slot_of_def slot_index_less)

lemma ring_ok_upd:
  assumes "ring_ok r w log" "writer_ok (upd_slot s f r) log w'"
    and "slot_ok (length (rb_slots r)) (rb_payload_size r) log (slot_index r s) (f (slot_of s r))"
  shows "ring_ok (upd_slot s f r) w' log"
proof -
  have "slot_ok (length (rb_slots r)) (rb_payload_size r) log j (rb_slots (upd_slot s f r) ! j)"
    if "j < length (rb_slots r)" for j
    using assms(1,3) that by (auto simp: ring_ok_def upd_slot_def nth_list_update slot_of_def slot_index_less)
  moreover have "rb_slots (upd_slot s f r) \<noteq> []" using assms(1) by (auto simp: ring_ok_def upd_slot_def)
  ultimately show ?thesis using assms(1,2) by (simp add: ring_ok_def)
qed

lemma bit_writing [simp]: "bit (s OR kWritingBit) 63"
  by (simp add: kWritingBit_def bit_simps)

lemma not_bit_small: "unat (w :: u64) < 2 ^ 63 \<Longrightarrow> \<not> bit w 63"
proof -
  assume "unat w < 2 ^ 63"
  then have "\<not> bit (unat w) 63" by (simp add: bit_iff_odd)
  then show ?thesis by (simp add: bit_unsigned_iff)
qed

lemma slot_ok_payload: "slot_ok n cap log j sl \<Longrightarrow> length (sl_payload sl) = unat cap"
  by (simp add: slot_ok_def)

lemma slot_ok_writing: "length (sl_payload sl) = unat cap \<Longrightarrow> bit (sl_seq sl) 63 \<Longrightarrow> slot_ok n cap log j sl"
  by (simp add: slot_ok_def)

lemma slot_ok_snoc:
  assumes "slot_ok n cap log j sl" "\<not> bit (sl_seq sl) 63 \<Longrightarrow> unat (sl_seq sl) = length log + 1 \<Longrightarrow>
    sl_size sl \<le> cap \<and> slot_entry sl = e"
  shows "slot_ok n cap (log @ [e]) j sl"
proof (cases "bit (sl_seq sl) 63 \<or> sl_seq sl = 0")
  case True
  with assms(1) show ?thesis by (auto simp: slot_ok_def)
next
  case False
  then have "0 < unat (sl_seq sl)" by (simp add: unat_gt_0)
  with False assms(1,2) show ?thesis
    by (cases "unat (sl_seq sl) = length log + 1") (auto simp: slot_ok_def nth_append)
qed

lemma ring_ok_commit:
  assumes ok: "ring_ok r (WSlotCommitted s data source) log" and len: "length log < 2 ^ 63 - 1"
  shows "ring_ok (r\<lparr>rb_write_seq := s\<rparr>) (WCommitted s) (log @ [(data, source)])"
proof -
  from ok have w: "unat s = length log + 1" "sl_seq (slot_of s r) = s" "sl_size (slot_of s r) \<le> rb_payload_size r"
    "slot_entry (slot_of s r) = (data, source)" and nz: "rb_slots r \<noteq> []" by (auto simp: ring_ok_def)
  have "slot_ok (length (rb_slots r)) (rb_payload_size r) (log @ [(data, source)]) j (rb_slots r ! j)"
    if j: "j < length (rb_slots r)" for j
  proof (rule slot_ok_snoc)
    show okj: "slot_ok (length (rb_slots r)) (rb_payload_size r) log j (rb_slots r ! j)" using ok j by (simp add: ring_ok_def)
    assume "\<not> bit (sl_seq (rb_slots r ! j)) 63" and eq: "unat (sl_seq (rb_slots r ! j)) = length log + 1"
    with okj have "unat (sl_seq (rb_slots r ! j)) mod length (rb_slots r) = j" by (auto simp: slot_ok_def)
    with eq w(1) have "rb_slots r ! j = slot_of s r" by (simp add: slot_of_def slot_index_def)
    with w show "sl_size (rb_slots r ! j) \<le> rb_payload_size r \<and> slot_entry (rb_slots r ! j) = (data, source)" by simp
  qed
  with ok w(1) show ?thesis by (simp add: ring_ok_def)
qed

lemma unat_next: "unat w < 2 ^ 63 - 1 \<Longrightarrow> unat (w + 1 :: u64) = unat w + 1"
  by (subst unat_add_lem [THEN iffD1]) simp_all

text \<open>
  What a writer's step does to what readers see: a slot that carries a committed sequence after the step carried it
  before, with the same contents, and the log only grows.
\<close>

definition keeps_slots :: "nat \<Rightarrow> ring \<Rightarrow> ring \<Rightarrow> bool" where
  "keeps_slots n r r' \<longleftrightarrow> rb_payload_size r' = rb_payload_size r \<and> length (rb_slots r') = length (rb_slots r)
     \<and> (\<forall>c. unat c \<le> n \<longrightarrow> c \<noteq> 0 \<longrightarrow> sl_seq (slot_of c r') = c \<longrightarrow> slot_of c r' = slot_of c r)"

lemma keeps_slots_refl [simp]: "keeps_slots n r r"
  by (simp add: keeps_slots_def)

lemma keeps_slots_write_seq [simp]: "keeps_slots n r (r\<lparr>rb_write_seq := s\<rparr>)"
  by (simp add: keeps_slots_def slot_of_def slot_index_def)

lemma keeps_slots_upd:
  assumes "rb_slots r \<noteq> []" "bit (sl_seq (f (slot_of s r))) 63 \<or> n < unat (sl_seq (f (slot_of s r)))" "n < 2 ^ 63"
  shows "keeps_slots n r (upd_slot s f r)"
  using assms not_bit_small [of "sl_seq (f (slot_of s r))"]
  by (auto simp: keeps_slots_def slot_of_upd)

lemma writing_upd:
  assumes "ring_ok r w log" "length log < 2 ^ 63 - 1" "bit (sl_seq (f (slot_of s r))) 63"
    "length (sl_payload (f (slot_of s r))) = length (sl_payload (slot_of s r))" "writer_ok (upd_slot s f r) log w'"
  shows "ring_ok (upd_slot s f r) w' log \<and> keeps_slots (length log) r (upd_slot s f r)"
proof -
  have "slot_ok (length (rb_slots r)) (rb_payload_size r) log (slot_index r s) (f (slot_of s r))"
    using assms(3,4) slot_ok_payload [OF slot_ok_at [OF assms(1), of s]] by (simp add: slot_ok_writing)
  with ring_ok_upd [OF assms(1,5)] show ?thesis
    using assms(1-3) by (auto intro!: keeps_slots_upd simp: ring_ok_def)
qed

lemma ring_okD: "ring_ok r w log \<Longrightarrow> rb_slots r \<noteq> [] \<and> writer_ok r log w \<and> unat (rb_write_seq r) = length log"
  by (simp add: ring_ok_def)

lemma ring_ok_pc: "ring_ok r w log \<Longrightarrow> writer_ok r log w' \<Longrightarrow> ring_ok r w' log"
  by (simp add: ring_ok_def)

lemma writer_step_ok:
  assumes "writer_step (r, w, log) (r', w', log')" "ring_ok r w log" "length log < 2 ^ 63 - 1"
  shows "ring_ok r' w' log' \<and> keeps_slots (length log) r r' \<and> (\<exists>es. log' = log @ es)"
  using assms(1)
proof (cases rule: writer_step.cases)
  case (w_mark s capacity source)
  have "ring_ok r' w' log \<and> keeps_slots (length log) r r'"
    unfolding w_mark using ring_okD [OF assms(2)] assms(3)
    by (intro writing_upd [OF assms(2)]) (simp_all add: w_mark slot_of_upd)
  then show ?thesis by (simp add: w_mark)
next
  case (w_fill i capacity s source b)
  have "ring_ok r' w' log \<and> keeps_slots (length log) r r'"
    unfolding w_fill using ring_okD [OF assms(2)] assms(3)
    by (intro writing_upd [OF assms(2)]) (simp_all add: w_fill slot_of_upd)
  then show ?thesis by (simp add: w_fill)
next
  case (w_size used capacity s source)
  have "used \<le> unat (rb_payload_size r)" using ring_okD [OF assms(2)] w_size by auto
  moreover from this have "unat (word_of_nat used :: u64) = used"
    using unsigned_less [of "rb_payload_size r", where ?'a = nat] by (simp add: unat_of_nat)
  ultimately have "ring_ok r' w' log \<and> keeps_slots (length log) r r'"
    unfolding w_size using ring_okD [OF assms(2)] assms(3)
    by (intro writing_upd [OF assms(2)]) (simp_all add: w_size slot_of_upd slot_entry_def word_le_nat_alt)
  then show ?thesis by (simp add: w_size)
next
  case (w_stamp s data source)
  have "ring_ok r' w' log \<and> keeps_slots (length log) r r'"
    unfolding w_stamp using ring_okD [OF assms(2)] assms(3)
    by (intro writing_upd [OF assms(2)]) (simp_all add: w_stamp slot_of_upd slot_entry_def)
  then show ?thesis by (simp add: w_stamp)
next
  case (w_slot s data source)
  have w: "unat s = length log + 1" "sl_size (slot_of s r) \<le> rb_payload_size r" "slot_entry (slot_of s r) = (data, source)"
    and nz: "rb_slots r \<noteq> []" using ring_okD [OF assms(2)] by (simp_all add: w_slot)
  have "slot_ok (length (rb_slots r)) (rb_payload_size r) log (slot_index r s) ((slot_of s r)\<lparr>sl_seq := s\<rparr>)"
    using w slot_ok_payload [OF slot_ok_at [OF assms(2), of s]] by (simp add: slot_ok_def slot_index_def)
  moreover have "writer_ok r' log w'" using w nz by (simp add: w_slot slot_of_upd slot_entry_def)
  ultimately have "ring_ok r' w' log" unfolding w_slot using ring_ok_upd [OF assms(2)] by (simp add: w_slot)
  moreover have "keeps_slots (length log) r r'"
    unfolding w_slot using w nz assms(3) by (intro keeps_slots_upd) simp_all
  ultimately show ?thesis by (simp add: w_slot)
next
  case (w_commit s data source)
  with assms ring_ok_commit [of r s data source log] show ?thesis by simp
next
  case (w_load capacity source)
  with assms(3) ring_okD [OF assms(2)] ring_ok_pc [OF assms(2), of w'] show ?thesis by (simp add: unat_next)
next
  case (w_lock capacity source)
  with ring_ok_pc [OF assms(2), of w'] show ?thesis by simp
qed (use ring_ok_pc [OF assms(2), of w'] in simp_all)

section \<open>Invariant of a reader\<close>

fun pc_dropped :: "reader_pc \<Rightarrow> u64" where
  "pc_dropped RIdle = 0"
| "pc_dropped (RPass n d) = d"
| "pc_dropped (RBefore n d) = d"
| "pc_dropped (RSize n d) = d"
| "pc_dropped (RTime n d sz) = d"
| "pc_dropped (RCopy n d sz ts buf) = d"
| "pc_dropped (RAfter n d ts res) = d"

text \<open>
  What a reader has loaded from a slot is the slot's contents, as long as the slot still carries the sequence the
  reader is after.
\<close>

fun pc_ok :: "u64 \<Rightarrow> slot \<Rightarrow> u64 \<Rightarrow> reader_pc \<Rightarrow> bool" where
  "pc_ok cap sl c (RTime n d sz) \<longleftrightarrow> (sl_seq sl = c \<longrightarrow> sl_size sl = sz)"
| "pc_ok cap sl c (RCopy n d sz ts buf) \<longleftrightarrow> sz \<le> cap \<and> length buf \<le> unat sz \<and>
     (sl_seq sl = c \<longrightarrow> sl_size sl = sz \<and> sl_timestamp sl = ts \<and> take (length buf) (sl_payload sl) = buf)"
| "pc_ok cap sl c (RAfter n d ts (Some buf)) \<longleftrightarrow> (sl_seq sl = c \<longrightarrow> slot_entry sl = (buf, ts))"
| "pc_ok cap sl c pc \<longleftrightarrow> True"

fun pc_started :: "reader_pc \<Rightarrow> bool" where
  "pc_started RIdle \<longleftrightarrow> False"
| "pc_started (RPass n d) \<longleftrightarrow> False"
| "pc_started pc \<longleftrightarrow> True"

definition reader_ok :: "ring \<Rightarrow> entry list \<Rightarrow> shm_reader \<Rightarrow> bool" where
  "reader_ok r log rd \<longleftrightarrow>
     1 \<le> unat (rd_cursor rd) \<and> unat (rd_cursor rd) \<le> length log + 1
     \<and> (pc_started (rd_pc rd) \<longrightarrow> unat (rd_cursor rd) \<le> length log)
     \<and> rd_start rd + length (rd_got rd) + rd_lost rd + unat (pc_dropped (rd_pc rd)) = unat (rd_cursor rd)
     \<and> sorted_wrt (<) (map fst (rd_got rd))
     \<and> (\<forall>(c, e) \<in> set (rd_got rd). 1 \<le> unat c \<and> c < rd_cursor rd \<and> unat c \<le> length log \<and> e = log ! (unat c - 1))
     \<and> pc_ok (rb_payload_size r) (slot_of (rd_cursor rd) r) (rd_cursor rd) (rd_pc rd)"

lemma pc_ok_vacuous: "pc_ok cap sl c pc \<Longrightarrow> sl_seq sl' \<noteq> c \<Longrightarrow> pc_ok cap sl' c pc"
  by (cases "(cap, sl, c, pc)" rule: pc_ok.cases) auto

lemma reader_ok_writer:
  assumes "reader_ok r log rd" "keeps_slots (length log) r r'"
  shows "reader_ok r' (log @ es) rd"
proof -
  let ?c = "rd_cursor rd"
  have pc: "pc_ok (rb_payload_size r') (slot_of ?c r') ?c (rd_pc rd)"
  proof (cases "pc_started (rd_pc rd)")
    case True
    with assms(1) have "unat ?c \<le> length log" "?c \<noteq> 0" by (auto simp: reader_ok_def)
    with assms show ?thesis
      by (cases "sl_seq (slot_of ?c r') = ?c") (auto simp: reader_ok_def keeps_slots_def intro: pc_ok_vacuous)
  next
    case False
    then show ?thesis by (cases "rd_pc rd") auto
  qed
  moreover have "\<forall>(c, e) \<in> set (rd_got rd). 1 \<le> unat c \<and> c < ?c \<and> unat c \<le> length (log @ es) \<and> e = (log @ es) ! (unat c - 1)"
    using assms(1) by (fastforce simp: reader_ok_def nth_append)
  moreover have "pc_started (rd_pc rd) \<longrightarrow> unat ?c \<le> length (log @ es)" "unat ?c \<le> length (log @ es) + 1"
    using assms(1) by (auto simp: reader_ok_def)
  ultimately show ?thesis using assms(1) unfolding reader_ok_def by blast
qed

lemma unat_diff: "(b :: u64) \<le> a \<Longrightarrow> unat (a - b) = unat a - unat b"
  by (simp add: unat_sub)

lemma ClampCursor_bounds:
  assumes "cursor \<le> newest" "1 \<le> depth"
  shows "cursor \<le> ClampCursor cursor newest depth" and "ClampCursor cursor newest depth \<le> newest \<or> newest = 0"
proof -
  show "cursor \<le> ClampCursor cursor newest depth" by (simp add: ClampCursor_def Let_def)
  show "ClampCursor cursor newest depth \<le> newest \<or> newest = 0"
  proof (cases "depth \<le> newest")
    case True
    have d: "1 \<le> unat depth" using assms(2) by (simp add: word_le_nat_alt)
    have "unat (newest - depth) = unat newest - unat depth" using True by (rule unat_diff)
    moreover from True d have "unat newest - unat depth + 1 \<le> unat newest" by (simp add: word_le_nat_alt)
    moreover have "unat newest < 2 ^ 64" using unsigned_less [of newest, where ?'a = nat] by simp
    ultimately have "unat (newest - depth + 1) = unat newest - unat depth + 1"
      by (subst unat_add_lem [THEN iffD1]) simp_all
    with \<open>unat newest - unat depth + 1 \<le> unat newest\<close> have "newest - depth + 1 \<le> newest" by (simp add: word_le_nat_alt)
    with True assms(1) show ?thesis by (simp add: ClampCursor_def Let_def)
  next
    case False
    have "1 \<le> newest" if "newest \<noteq> 0" using that by (simp add: word_le_nat_alt unat_gt_0 Suc_le_eq)
    with False assms(1) show ?thesis by (auto simp: ClampCursor_def Let_def)
  qed
qed

lemma effective_depth_pos: "1 \<le> effective_depth depth r"
  by (simp add: effective_depth_def)

lemma reader_okD:
  assumes "reader_ok r log rd" "length log < 2 ^ 63 - 1"
  shows "unat (rd_cursor rd) < 2 ^ 63" and "unat (pc_dropped (rd_pc rd)) < 2 ^ 63"
  using assms by (auto simp: reader_ok_def)

lemma reader_done_ok:
  assumes "reader_ok r log rd" "pc_dropped (rd_pc rd) = d"
  shows "reader_ok r log (reader_done d [] rd)"
  using assms by (simp add: reader_ok_def reader_done_def)

lemma got_mono:
  assumes "\<forall>(c, e) \<in> set got. 1 \<le> unat c \<and> c < cursor \<and> unat c \<le> n \<and> e = f c" "cursor \<le> cursor'"
  shows "\<forall>(c, e) \<in> set got. 1 \<le> unat c \<and> c < cursor' \<and> unat c \<le> n \<and> e = f c"
  using assms by (auto dest: order_less_le_trans)

lemma less_next: "unat (w :: u64) < 2 ^ 63 - 1 \<Longrightarrow> w < w + 1"
  by (simp add: word_less_nat_alt unat_next)

lemma reader_skip_ok:
  assumes "reader_ok r log rd" "pc_started (rd_pc rd)" "pc_dropped (rd_pc rd) = d" "length log < 2 ^ 63 - 1"
  shows "reader_ok r log (reader_skip n d rd)"
proof -
  have c: "unat (rd_cursor rd) \<le> length log" using assms(1,2) by (simp add: reader_ok_def)
  then have c1: "unat (rd_cursor rd + 1) = unat (rd_cursor rd) + 1" using assms(4) by (intro unat_next) simp
  have "unat d \<le> unat (rd_cursor rd)" using assms(1,3) by (auto simp: reader_ok_def)
  with c assms(4) have d1: "unat (d + 1) = unat d + 1" by (intro unat_next) simp
  have le: "rd_cursor rd \<le> rd_cursor rd + 1" using less_next [of "rd_cursor rd"] c assms(4) by simp
  show ?thesis
    using assms(1,3) c c1 d1 got_mono [OF _ le, of "rd_got rd" "length log" "\<lambda>c. log ! (unat c - 1)"]
    by (simp add: reader_ok_def reader_skip_def)
qed

lemma reader_deliver_ok:
  assumes ok: "reader_ok r log rd" and pc: "rd_pc rd = RAfter n d ts (Some buf)"
    and sq: "sl_seq (slot_of (rd_cursor rd) r) = rd_cursor rd" and ring: "ring_ok r w log" and len: "length log < 2 ^ 63 - 1"
  shows "reader_ok r log (reader_done d [(rd_cursor rd, (buf, ts))] (rd\<lparr>rd_cursor := rd_cursor rd + 1\<rparr>))"
proof -
  let ?c = "rd_cursor rd" and ?sl = "slot_of (rd_cursor rd) r"
  have c: "1 \<le> unat ?c" "unat ?c \<le> length log" using ok pc by (simp_all add: reader_ok_def)
  then have c1: "unat (?c + 1) = unat ?c + 1" using len by (intro unat_next) simp
  have lt: "?c < ?c + 1" using c len by (intro less_next) simp
  have "\<not> bit ?c 63" using c(2) len by (intro not_bit_small) simp
  moreover have "?c \<noteq> 0" using c(1) by auto
  ultimately have "slot_entry ?sl = log ! (unat ?c - 1)"
    using slot_ok_at [OF ring, of ?c] sq c(2) by (simp add: slot_ok_def)
  moreover have "slot_entry ?sl = (buf, ts)" using ok pc sq by (simp add: reader_ok_def)
  ultimately have e: "(buf, ts) = log ! (unat ?c - 1)" by simp
  have got: "\<forall>(c, e) \<in> set (rd_got rd). 1 \<le> unat c \<and> c < ?c \<and> unat c \<le> length log \<and> e = log ! (unat c - 1)"
    using ok unfolding reader_ok_def by blast
  then have "\<forall>(c, e) \<in> set (rd_got rd @ [(?c, (buf, ts))]). 1 \<le> unat c \<and> c < ?c + 1 \<and> unat c \<le> length log \<and> e = log ! (unat c - 1)"
    using lt c e by (auto dest: order_less_trans)
  moreover have "sorted_wrt (<) (map fst (rd_got rd @ [(?c, (buf, ts))]))"
    using ok got by (auto simp: reader_ok_def sorted_wrt_append)
  ultimately show ?thesis
    using ok pc c c1 by (simp add: reader_ok_def reader_done_def)
qed

lemma reader_clamp_ok:
  assumes ok: "reader_ok r log rd" and pc: "rd_pc rd = RPass (Suc n) d"
    and le: "rd_cursor rd \<le> rb_write_seq r" and ring: "ring_ok r w log" and len: "length log < 2 ^ 63 - 1"
    and cl: "cl = ClampCursor (rd_cursor rd) (rb_write_seq r) (effective_depth (rd_depth rd) r)"
  shows "reader_ok r log (rd\<lparr>rd_pc := RBefore n (d + (cl - rd_cursor rd)), rd_cursor := cl\<rparr>)"
proof -
  have w: "unat (rb_write_seq r) = length log" using ring by (simp add: ring_ok_def)
  have "1 \<le> unat (rd_cursor rd)" using ok by (simp add: reader_ok_def)
  then have nz: "rb_write_seq r \<noteq> 0" using le by (auto simp: word_le_nat_alt)
  note b = ClampCursor_bounds [OF le effective_depth_pos, of "rd_depth rd" r, folded cl]
  have cl': "unat cl \<le> length log" "unat (rd_cursor rd) \<le> unat cl"
    using b nz w by (auto simp: word_le_nat_alt)
  have "unat (cl - rd_cursor rd) = unat cl - unat (rd_cursor rd)" using b(1) by (rule unat_diff)
  moreover have d: "rd_start rd + length (rd_got rd) + rd_lost rd + unat d = unat (rd_cursor rd)"
    using ok pc by (simp add: reader_ok_def)
  ultimately have "unat (d + (cl - rd_cursor rd)) = unat d + (unat cl - unat (rd_cursor rd))"
    using cl' len by (subst unat_add_lem [THEN iffD1]) simp_all
  then show ?thesis
    using ok pc d cl' got_mono [OF _ b(1), of "rd_got rd" "length log" "\<lambda>c. log ! (unat c - 1)"]
    by (simp add: reader_ok_def)
qed

lemma reader_access_ok:
  assumes ok: "reader_ok r log rd" and ring: "ring_ok r w log" and len: "length log < 2 ^ 63 - 1"
  shows "reader_ok r log (reader_access r rd)"
proof (cases "rd_pc rd")
  case RIdle
  with ok show ?thesis by (simp add: reader_access_def reader_ok_def)
next
  case (RPass n d)
  show ?thesis
  proof (cases n)
    case 0
    with RPass reader_done_ok [OF ok] show ?thesis by (simp add: reader_access_def)
  next
    case (Suc m)
    with RPass reader_done_ok [OF ok, of d] reader_clamp_ok [OF ok _ _ ring len refl, of m d] show ?thesis
      by (simp add: reader_access_def Let_def not_less)
  qed
next
  case (RBefore n d)
  with ok reader_skip_ok [OF ok _ _ len, of d n] show ?thesis
    by (auto simp: reader_access_def Let_def) (simp add: reader_ok_def)
next
  case (RSize n d)
  with ok show ?thesis by (simp add: reader_access_def Let_def reader_ok_def)
next
  case (RTime n d sz)
  with ok show ?thesis by (auto simp: reader_access_def Let_def reader_ok_def)
next
  case (RCopy n d sz ts buf)
  have "length (sl_payload (slot_of (rd_cursor rd) r)) = unat (rb_payload_size r)"
    using slot_ok_payload [OF slot_ok_at [OF ring]] .
  with RCopy ok show ?thesis
    by (auto simp: reader_access_def Let_def reader_ok_def take_Suc_conv_app_nth word_le_nat_alt slot_entry_def)
next
  case (RAfter n d ts res)
  with reader_skip_ok [OF ok _ _ len, of d n] reader_deliver_ok [OF ok _ _ ring len] show ?thesis
    by (cases res) (auto simp: reader_access_def Let_def)
qed

end
