(* ===== verification/Shm_Properties.thy ===== *)
theory Shm_Properties
  imports Shm_Seqlock
begin

text \<open>
  What the shared-memory ring promises. Under any interleaving of writers (which may die anywhere) and readers, a
  reader returns only committed messages, each whole, once and in order, and accounts for the others as dropped.
  An undisturbed call of \<open>Publish\<close> or \<open>TryRead\<close> is a run of those accesses, and the two of them implement a bounded
  history: the last messages up to the reader's depth.
\<close>

section \<open>All reachable states\<close>

definition shm_inv :: "shm_system \<Rightarrow> bool" where
  "shm_inv s \<longleftrightarrow> (length (sm_log s) < 2 ^ 63 - 1 \<longrightarrow>
     ring_ok (sm_ring s) (sm_writer s) (sm_log s) \<and> (\<forall>rd \<in> set (sm_readers s). reader_ok (sm_ring s) (sm_log s) rd))"

definition shm_start :: "shm_system \<Rightarrow> bool" where
  "shm_start s \<longleftrightarrow> (\<exists>g. SegmentSize g \<noteq> 0 \<and> sg_slot_count g \<le> 2 ^ 32 - 1 \<and> s = shm_init g)"

lemma ring_ok_new:
  assumes "sg_slot_count g \<noteq> 0" "sg_slot_count g \<le> 2 ^ 32 - 1"
  shows "ring_ok (new_ring g) WFree []"
proof -
  have "0 < unat (sg_slot_count g)" "unat (sg_slot_count g) < 2 ^ 63"
    using assms by (simp_all add: unat_gt_0 word_le_nat_alt)
  then show ?thesis by (auto simp: ring_ok_def new_ring_def slot_ok_def)
qed

lemma reader_ok_new:
  assumes "ring_ok r w log" "length log < 2 ^ 63 - 1"
  shows "reader_ok r log (new_reader depth r)"
  using assms ring_okD [OF assms(1)] by (simp add: reader_ok_def new_reader_def unat_next)

interpretation shm: transition_system shm_start shm_step shm_inv
proof
  show "shm_inv s" if "shm_start s" for s
    using that SegmentSize_nonzero(2) by (auto simp: shm_start_def shm_inv_def shm_init_def ring_ok_new)
  show "shm_inv t" if inv: "shm_inv s" and step: "shm_step s t" for s t
    using step
  proof (cases rule: shm_step.cases)
    case (shm_writes r w log)
    show ?thesis
      unfolding shm_inv_def
    proof (intro impI)
      assume len: "length (sm_log t) < 2 ^ 63 - 1"
      have "length (sm_log s) \<le> length log"
        using shm_writes(2) by (cases rule: writer_step.cases) auto
      with len shm_writes(1) inv have ok: "ring_ok (sm_ring s) (sm_writer s) (sm_log s)"
        "\<forall>rd \<in> set (sm_readers s). reader_ok (sm_ring s) (sm_log s) rd" and l: "length (sm_log s) < 2 ^ 63 - 1"
        by (auto simp: shm_inv_def)
      from writer_step_ok [OF shm_writes(2) ok(1) l] obtain es where w: "ring_ok r w log"
        "keeps_slots (length (sm_log s)) (sm_ring s) r" "log = sm_log s @ es" by blast
      with ok(2) show "ring_ok (sm_ring t) (sm_writer t) (sm_log t)
          \<and> (\<forall>rd \<in> set (sm_readers t). reader_ok (sm_ring t) (sm_log t) rd)"
        using reader_ok_writer [OF _ w(2)] by (simp add: shm_writes(1))
    qed
  next
    case (shm_reads i)
    with inv show ?thesis
      using reader_access_ok by (auto simp: shm_inv_def dest!: set_update_subset_insert [THEN subsetD])
  next
    case (shm_attaches depth)
    with inv show ?thesis using reader_ok_new by (auto simp: shm_inv_def)
  qed
qed

text \<open>
  C36. Whatever writers and readers do, and wherever writers die, a reader returns only messages that were
  committed, each with the payload and the timestamp of its sequence number, in strictly increasing order of
  sequence numbers; and every message since the reader was created is either returned or counted as dropped or
  still ahead of the cursor.
\<close>

theorem seqlock_reads_committed:
  assumes "SegmentSize g \<noteq> 0" "sg_slot_count g \<le> 2 ^ 32 - 1" "shm_step\<^sup>*\<^sup>* (shm_init g) s"
    "length (sm_log s) < 2 ^ 63 - 1" "rd \<in> set (sm_readers s)"
  shows "sorted_wrt (<) (map fst (rd_got rd))
    \<and> list_all (\<lambda>(c, e). 1 \<le> unat c \<and> unat c \<le> length (sm_log s) \<and> e = sm_log s ! (unat c - 1)) (rd_got rd)
    \<and> rd_start rd + length (rd_got rd) + rd_lost rd + unat (pc_dropped (rd_pc rd)) = unat (rd_cursor rd)
    \<and> unat (rd_cursor rd) \<le> length (sm_log s) + 1"
proof -
  have "shm_start (shm_init g)" using assms(1,2) by (auto simp: shm_start_def)
  from shm.inv_reachable [OF this assms(3)] assms(4,5) have "reader_ok (sm_ring s) (sm_log s) rd"
    by (simp add: shm_inv_def)
  then show ?thesis unfolding reader_ok_def list_all_iff by auto
qed

section \<open>An undisturbed publication\<close>

lemma upd_slot_upd: "rb_slots r \<noteq> [] \<Longrightarrow> upd_slot s f (upd_slot s g r) = upd_slot s (\<lambda>sl. f (g sl)) r"
  by (simp add: upd_slot_def slot_index_def)

lemma upd_slot_cong: "f (slot_of s r) = g (slot_of s r) \<Longrightarrow> upd_slot s f r = upd_slot s g r"
  by (simp add: upd_slot_def slot_of_def)

lemma fill_run:
  assumes "rb_slots r \<noteq> []" "length (sl_payload (slot_of s r)) = unat (rb_payload_size r)" "c \<le> unat (rb_payload_size r)"
  shows "length data \<le> c \<Longrightarrow> writer_step\<^sup>*\<^sup>* (r, WFilling s c src, log)
    (upd_slot s (\<lambda>sl. sl\<lparr>sl_payload := data @ drop (length data) (sl_payload sl)\<rparr>) r, WFilling s c src, log)"
proof (induction data rule: rev_induct)
  case Nil
  have "upd_slot s (\<lambda>sl. sl\<lparr>sl_payload := sl_payload sl\<rparr>) r = r" by (simp add: upd_slot_def)
  then show ?case by simp
next
  case (snoc b data)
  let ?f = "\<lambda>sl. sl\<lparr>sl_payload := data @ drop (length data) (sl_payload sl)\<rparr>"
  have "upd_slot s (\<lambda>sl. sl\<lparr>sl_payload := (sl_payload sl)[length data := b]\<rparr>) (upd_slot s ?f r)
      = upd_slot s (\<lambda>sl. sl\<lparr>sl_payload := (data @ [b]) @ drop (length (data @ [b])) (sl_payload sl)\<rparr>) r"
  proof -
    have "length data < length (sl_payload (slot_of s r))" using snoc.prems assms by simp
    then have "(drop (length data) (sl_payload (slot_of s r)))[0 := b] = b # drop (Suc (length data)) (sl_payload (slot_of s r))"
      by (simp add: Cons_nth_drop_Suc [symmetric])
    then show ?thesis
      unfolding upd_slot_upd [OF assms(1)] by (intro upd_slot_cong) (simp add: list_update_append)
  qed
  moreover have "writer_step (upd_slot s ?f r, WFilling s c src, log)
      (upd_slot s (\<lambda>sl. sl\<lparr>sl_payload := (sl_payload sl)[length data := b]\<rparr>) (upd_slot s ?f r), WFilling s c src, log)"
    using snoc.prems by (intro w_fill) simp
  ultimately show ?case using snoc by (simp add: rtranclp.rtrancl_into_rtrancl)
qed

text \<open>What \<open>Publish\<close> leaves in the ring.\<close>

definition published :: "bytes \<Rightarrow> time_point \<Rightarrow> ring \<Rightarrow> ring" where
  "published data source r =
     (let s = rb_write_seq r + 1 in
      (upd_slot s (\<lambda>sl. sl\<lparr>sl_payload := data @ drop (length data) (sl_payload sl),
         sl_size := word_of_nat (length data), sl_timestamp := source, sl_seq := s\<rparr>) r)\<lparr>rb_write_seq := s\<rparr>)"

lemma Segment_Publish_published:
  assumes "rb_slots r \<noteq> []"
  shows "Segment_Publish Status_Ok data source r =
    (if unat (rb_payload_size r) < length data
     then (FromStatus (Status_OutOfRange (''payload of '' @ std_to_string (length data) @ '' bytes exceeds the shm slot size of ''
             @ std_to_string (unat (rb_payload_size r)))), r)
     else (Inr (rb_write_seq r + 1), published data source r))"
  using assms
  by (simp add: Segment_Publish_def Segment_PublishWith_def InvokeFill_def published_def Let_def fill_payload_def upd_slot_upd)

lemma publish_run:
  assumes ok: "ring_ok r WFree log" and fits: "length data \<le> unat (rb_payload_size r)"
  shows "writer_step\<^sup>*\<^sup>* (r, WFree, log) (published data source r, WFree, log @ [(data, source)])"
proof -
  let ?s = "rb_write_seq r + 1" and ?c = "length data"
  have nz: "rb_slots r \<noteq> []" using ring_okD [OF ok] by simp
  have pl: "length (sl_payload (slot_of ?s r)) = unat (rb_payload_size r)" using slot_ok_payload [OF slot_ok_at [OF ok]] .
  let ?r1 = "upd_slot ?s (\<lambda>sl. sl\<lparr>sl_seq := ?s OR kWritingBit\<rparr>) r"
  let ?r2 = "upd_slot ?s (\<lambda>sl. sl\<lparr>sl_payload := data @ drop (length data) (sl_payload sl)\<rparr>) ?r1"
  let ?r3 = "upd_slot ?s (\<lambda>sl. sl\<lparr>sl_size := word_of_nat ?c\<rparr>) ?r2"
  let ?r4 = "upd_slot ?s (\<lambda>sl. sl\<lparr>sl_timestamp := source\<rparr>) ?r3"
  let ?r5 = "upd_slot ?s (\<lambda>sl. sl\<lparr>sl_seq := ?s\<rparr>) ?r4"
  have nz1: "rb_slots ?r1 \<noteq> []" "rb_slots ?r2 \<noteq> []" "rb_slots ?r3 \<noteq> []" "rb_slots ?r4 \<noteq> []" using nz by (simp_all add: upd_slot_def)
  have "writer_step\<^sup>*\<^sup>* (r, WFree, log) (?r1, WFilling ?s ?c source, log)"
    using w_lock [OF fits, of log source] w_load [of r ?c source log] w_mark [of r ?s ?c source log]
    by (meson converse_rtranclp_into_rtranclp rtranclp.rtrancl_refl)
  also have "writer_step\<^sup>*\<^sup>* (?r1, WFilling ?s ?c source, log) (?r2, WFilling ?s ?c source, log)"
    using nz nz1 pl fits by (intro fill_run) (simp_all add: slot_of_upd)
  also have "writer_step (?r2, WFilling ?s ?c source, log) (?r3, WSized ?s data source, log)"
    using w_size [of ?c ?c ?r2 ?s source log] nz nz1 by (simp add: slot_of_upd)
  also have "writer_step (?r3, WSized ?s data source, log) (?r4, WStamped ?s data source, log)" by (rule w_stamp)
  also have "writer_step (?r4, WStamped ?s data source, log) (?r5, WSlotCommitted ?s data source, log)" by (rule w_slot)
  also have "writer_step (?r5, WSlotCommitted ?s data source, log) (?r5\<lparr>rb_write_seq := ?s\<rparr>, WCommitted ?s, log @ [(data, source)])"
    by (rule w_commit)
  also have "writer_step (?r5\<lparr>rb_write_seq := ?s\<rparr>, WCommitted ?s, log @ [(data, source)])
      (?r5\<lparr>rb_write_seq := ?s\<rparr>, WFree, log @ [(data, source)])" by (rule w_unlock)
  also have "?r5\<lparr>rb_write_seq := ?s\<rparr> = published data source r"
    using nz nz1 by (simp add: published_def Let_def upd_slot_upd)
  finally show ?thesis .
qed

section \<open>The ring as a bounded history\<close>

text \<open>
  The specification: a reader at \<open>cursor\<close> gets the first message from there that is among the last
  \<open>min depth slots\<close> ones, skips what is older, and moves past what it got.
\<close>

definition read_history :: "nat \<Rightarrow> nat \<Rightarrow> nat \<Rightarrow> entry list \<Rightarrow> message option \<times> nat \<times> nat" where
  "read_history cursor depth slots log =
     (if length log < cursor then (None, 0, cursor)
      else let first = max cursor (Suc (length log - max 1 (min depth slots))) in
        (Some \<lparr>payload = fst (log ! (first - 1)), metadata = \<lparr>sequence = word_of_nat first,
           source_timestamp = snd (log ! (first - 1)), reception_timestamp = 0\<rparr>\<rparr>, first - cursor, first + 1))"

definition publish_all :: "entry list \<Rightarrow> ring \<Rightarrow> ring" where
  "publish_all msgs r = fold (\<lambda>(data, source) r. snd (Segment_Publish Status_Ok data source r)) msgs r"

text \<open>No message of the last ring's worth is lost.\<close>

definition intact :: "ring \<Rightarrow> nat \<Rightarrow> bool" where
  "intact r n \<longleftrightarrow> (\<forall>s. s \<noteq> 0 \<and> unat s \<le> n \<and> n < unat s + length (rb_slots r) \<longrightarrow> sl_seq (slot_of s r) = s)"

lemma writer_run_ok:
  assumes "writer_step\<^sup>*\<^sup>* (r, w, log) (r', w', log')" "ring_ok r w log" "length log' < 2 ^ 63 - 1"
  shows "ring_ok r' w' log'"
proof -
  have "length log \<le> length log' \<and> (length log' < 2 ^ 63 - 1 \<longrightarrow> ring_ok r' w' log')"
    using assms(1,2)
  proof (induction "(r', w', log')" arbitrary: r' w' log' rule: rtranclp_induct)
    case base
    then show ?case by simp
  next
    case (step y)
    obtain r1 w1 l1 where y: "y = (r1, w1, l1)" by (cases y)
    with step.hyps(3) [OF y] step.prems have ih: "length log \<le> length l1" "length l1 < 2 ^ 63 - 1 \<longrightarrow> ring_ok r1 w1 l1" by simp_all
    have "length l1 \<le> length log'" using step.hyps(2) y by (cases rule: writer_step.cases) auto
    with ih writer_step_ok [of r1 w1 l1 r' w' log'] step.hyps(2) y show ?case by auto
  qed
  with assms(3) show ?thesis by simp
qed

lemma mod_close_neq:
  assumes "a < b" "b < a + n"
  shows "a mod n \<noteq> b mod (n :: nat)"
proof
  assume "a mod n = b mod n"
  then have "n dvd b - a" using assms(1) by (simp add: mod_eq_dvd_iff_nat [symmetric])
  moreover have "0 < b - a" "b - a < n" using assms by auto
  ultimately show False by (auto dest: dvd_imp_le)
qed

lemma published_intact:
  assumes "ring_ok r WFree log" "intact r (length log)" "length log < 2 ^ 63 - 1"
  shows "intact (published data source r) (length log + 1)"
  unfolding intact_def
proof (intro allI impI)
  fix c :: u64
  let ?s = "rb_write_seq r + 1"
  assume c: "c \<noteq> 0 \<and> unat c \<le> length log + 1 \<and> length log + 1 < unat c + length (rb_slots (published data source r))"
  have nz: "rb_slots r \<noteq> []" and s: "unat ?s = length log + 1"
    using ring_okD [OF assms(1)] assms(3) by (simp_all add: unat_next)
  have so: "slot_of c (published data source r) = slot_of c (upd_slot ?s (\<lambda>sl. sl\<lparr>sl_payload := data @ drop (length data) (sl_payload sl),
         sl_size := word_of_nat (length data), sl_timestamp := source, sl_seq := ?s\<rparr>) r)"
    by (simp add: published_def Let_def slot_of_def slot_index_def)
  have len: "length (rb_slots (published data source r)) = length (rb_slots r)" by (simp add: published_def Let_def)
  show "sl_seq (slot_of c (published data source r)) = c"
  proof (cases "unat c = length log + 1")
    case True
    with s have "c = ?s" by (metis unsigned_word_eqI)
    then show ?thesis unfolding so by (simp add: slot_of_upd nz)
  next
    case False
    with c len have "unat c < unat ?s" "unat ?s < unat c + length (rb_slots r)" by (simp_all add: s)
    from mod_close_neq [OF this] have "slot_index r c \<noteq> slot_index r ?s" by (simp add: slot_index_def)
    moreover have "sl_seq (slot_of c r) = c" using assms(2) c False len by (simp add: intact_def)
    ultimately show ?thesis by (simp add: so slot_of_upd nz)
  qed
qed

lemma publish_all_ok:
  assumes "ring_ok r WFree log" "intact r (length log)" "length log + length msgs < 2 ^ 63 - 1"
    "list_all (\<lambda>e. length (fst e) \<le> unat (rb_payload_size r)) msgs"
  shows "ring_ok (publish_all msgs r) WFree (log @ msgs) \<and> intact (publish_all msgs r) (length log + length msgs)
    \<and> length (rb_slots (publish_all msgs r)) = length (rb_slots r) \<and> rb_payload_size (publish_all msgs r) = rb_payload_size r"
  using assms
proof (induction msgs arbitrary: r log)
  case Nil
  then show ?case by (simp add: publish_all_def)
next
  case (Cons e msgs)
  obtain data source where e: "e = (data, source)" by (cases e)
  let ?r = "published data source r"
  have fits: "length data \<le> unat (rb_payload_size r)" using Cons.prems(4) e by simp
  have "snd (Segment_Publish Status_Ok data source r) = ?r"
    using fits ring_okD [OF Cons.prems(1)] by (simp add: Segment_Publish_published)
  then have all: "publish_all (e # msgs) r = publish_all msgs ?r" by (simp add: publish_all_def e)
  have sim: "length (rb_slots ?r) = length (rb_slots r)" "rb_payload_size ?r = rb_payload_size r"
    by (simp_all add: published_def Let_def)
  have "ring_ok ?r WFree (log @ [e])"
    using writer_run_ok [OF publish_run [OF Cons.prems(1) fits, of source] Cons.prems(1)] Cons.prems(3) e by simp
  moreover have "intact ?r (length (log @ [e]))"
    using published_intact [OF Cons.prems(1,2)] Cons.prems(3) by simp
  ultimately show ?case using Cons.IH [of ?r "log @ [e]"] Cons.prems(3,4) sim by (simp add: all)
qed

lemma unat_max: "unat (max a b :: u64) = max (unat a) (unat b)"
  and unat_min: "unat (min a b :: u64) = min (unat a) (unat b)"
  by (simp_all add: max_def min_def word_le_nat_alt)

lemma unat_effective_depth:
  "length (rb_slots r) < 2 ^ 63 \<Longrightarrow> unat (effective_depth depth r) = max 1 (min (unat depth) (length (rb_slots r)))"
  by (simp add: effective_depth_def unat_max unat_min unat_of_nat)

lemma unat_ClampCursor:
  assumes "unat newest < 2 ^ 63" "1 \<le> unat depth"
  shows "unat (ClampCursor c newest depth) = max (unat c) (Suc (unat newest - unat depth))"
proof (cases "depth \<le> newest")
  case True
  then have d: "unat (newest - depth) = unat newest - unat depth" by (rule unat_diff)
  have "unat (newest - depth + 1) = unat newest - unat depth + 1"
    using d assms by (subst unat_next) simp_all
  with True show ?thesis by (simp add: ClampCursor_def Let_def unat_max)
next
  case False
  then show ?thesis by (simp add: ClampCursor_def Let_def unat_max word_le_nat_alt)
qed

lemma TryRead_intact:
  assumes ok: "ring_ok r WFree log" and intact: "intact r (length log)" and len: "length log < 2 ^ 63 - 1" and c: "c \<noteq> 0"
  shows "map_prod id (map_prod unat unat) (Segment_TryRead c depth r)
    = read_history (unat c) (unat depth) (length (rb_slots r)) log"
proof -
  let ?d = "effective_depth depth r" and ?cl = "ClampCursor c (rb_write_seq r) (effective_depth depth r)"
  have w: "unat (rb_write_seq r) = length log" and n: "length (rb_slots r) < 2 ^ 63" "rb_slots r \<noteq> []"
    using ok by (simp_all add: ring_ok_def)
  obtain k where "length (rb_slots r) + 16 = Suc k" by simp
  then have passes: "Segment_TryRead c depth r = TryRead_passes (Suc k) ?d r c 0"
    by (simp only: Segment_TryRead_def)
  show ?thesis
  proof (cases "length log < unat c")
    case True
    then have "rb_write_seq r < c" by (simp add: word_less_nat_alt w)
    with True show ?thesis unfolding passes by (simp add: read_history_def)
  next
    case False
    then have le: "\<not> rb_write_seq r < c" "c \<le> rb_write_seq r" by (simp_all add: word_less_nat_alt word_le_nat_alt w)
    have d: "unat ?d = max 1 (min (unat depth) (length (rb_slots r)))" using unat_effective_depth [OF n(1)] .
    have cl: "unat ?cl = max (unat c) (Suc (length log - unat ?d))"
      using unat_ClampCursor [of "rb_write_seq r" ?d c] w len d by simp
    have "unat ?d \<le> length (rb_slots r)" using d n(2) by (cases "rb_slots r") auto
    moreover have "0 < unat c" using c by (simp add: unat_gt_0)
    moreover have "1 \<le> unat ?d" using d by simp
    moreover have "unat c \<le> unat ?cl" "Suc (length log - unat ?d) \<le> unat ?cl"
      "unat ?cl = unat c \<or> unat ?cl = Suc (length log - unat ?d)" using cl by (auto simp: max_def)
    ultimately have bounds: "1 \<le> unat ?cl" "unat ?cl \<le> length log" "length log < unat ?cl + length (rb_slots r)"
      using False by linarith+
    have nz: "?cl \<noteq> 0" using bounds(1) by auto
    have sq: "sl_seq (slot_of ?cl r) = ?cl" using intact nz bounds unfolding intact_def by blast
    have "\<not> bit ?cl 63" using bounds(2) len by (intro not_bit_small) simp
    with slot_ok_at [OF ok, of ?cl] sq nz bounds(2)
    have sl: "sl_size (slot_of ?cl r) \<le> rb_payload_size r" "slot_entry (slot_of ?cl r) = log ! (unat ?cl - 1)"
      by (simp_all add: slot_ok_def)
    have e: "log ! (unat ?cl - 1) = (take (unat (sl_size (slot_of ?cl r))) (sl_payload (slot_of ?cl r)), sl_timestamp (slot_of ?cl r))"
      using sl(2) by (simp add: slot_entry_def)
    have first: "max (unat c) (Suc (length log - max 1 (min (unat depth) (length (rb_slots r))))) = unat ?cl"
      using cl d by simp
    have "unat (?cl - c) = unat ?cl - unat c" by (rule unat_diff) (simp add: word_le_nat_alt cl)
    moreover have "unat (?cl + 1) = unat ?cl + 1" using bounds(2) len by (intro unat_next) simp
    moreover have "slot_message ?cl (slot_of ?cl r) = \<lparr>payload = fst (log ! (unat ?cl - 1)), metadata = \<lparr>sequence = ?cl,
        source_timestamp = snd (log ! (unat ?cl - 1)), reception_timestamp = 0\<rparr>\<rparr>"
      using e by (simp add: slot_message_def)
    moreover have "Segment_TryRead c depth r = (Some (slot_message ?cl (slot_of ?cl r)), ?cl - c, ?cl + 1)"
      unfolding passes using le(1) sq sl(1) by (simp add: Let_def)
    ultimately show ?thesis
      using False unfolding read_history_def Let_def first by simp
  qed
qed

text \<open>
  C37. Used one after the other, \<open>Publish\<close> and \<open>TryRead\<close> implement the bounded history: after any number of
  publications a reader at any cursor gets exactly the message the specification names, with its payload,
  sequence and timestamp, and the numbers of messages it skipped and its new cursor are the specified ones. Once
  the ring has wrapped, that is the oldest of the last \<open>min depth slot_count\<close> messages.
\<close>

theorem shm_read_returns_history:
  assumes "SegmentSize g \<noteq> 0" "sg_slot_count g \<le> 2 ^ 32 - 1" "length msgs < 2 ^ 63 - 1" "c \<noteq> 0"
    and "list_all (\<lambda>e. length (fst e) \<le> unat (sg_payload_size g)) msgs"
  shows "map_prod id (map_prod unat unat) (Segment_TryRead c depth (publish_all msgs (new_ring g)))
    = read_history (unat c) (unat depth) (unat (sg_slot_count g)) msgs"
proof -
  have new: "ring_ok (new_ring g) WFree []" using SegmentSize_nonzero(2) [OF assms(1)] assms(2) by (rule ring_ok_new)
  have "intact (new_ring g) (length [])" by (auto simp: intact_def unat_eq_0)
  note all = publish_all_ok [OF new this, of msgs]
  from all assms(3,5) have "ring_ok (publish_all msgs (new_ring g)) WFree msgs"
    "intact (publish_all msgs (new_ring g)) (length msgs)"
    "length (rb_slots (publish_all msgs (new_ring g))) = unat (sg_slot_count g)"
    by (simp_all add: new_ring_def)
  with TryRead_intact [OF this(1,2) assms(3,4), of depth] show ?thesis by simp
qed

definition ex_msgs :: "entry list" where
  "ex_msgs = [([1], 10), ([2, 2], 20), ([3], 30), ([4, 4, 4], 40), ([], 50)]"

theorem shm_read_returns_history_witness:
  "map_prod id (map_prod unat unat) (Segment_TryRead 1 16 (publish_all ex_msgs (new_ring \<lparr>sg_payload_size = 3, sg_slot_count = 4\<rparr>)))
    = (Some \<lparr>payload = [2, 2], metadata = \<lparr>sequence = 2, source_timestamp = 20, reception_timestamp = 0\<rparr>\<rparr>, 1, 3)"
proof -
  let ?g = "\<lparr>sg_payload_size = 3, sg_slot_count = 4\<rparr> :: segment_geometry"
  have "SegmentSize ?g \<noteq> 0" by code_simp
  moreover have "length ex_msgs < 2 ^ 63 - 1" "list_all (\<lambda>e. length (fst e) \<le> unat (sg_payload_size ?g)) ex_msgs"
    "sg_slot_count ?g \<le> 2 ^ 32 - 1" by (simp_all add: ex_msgs_def)
  ultimately have "map_prod id (map_prod unat unat) (Segment_TryRead 1 16 (publish_all ex_msgs (new_ring ?g)))
      = read_history (unat (1 :: u64)) (unat (16 :: u64)) (unat (sg_slot_count ?g)) ex_msgs"
    by (intro shm_read_returns_history) simp_all
  also have "\<dots> = (Some \<lparr>payload = [2, 2], metadata = \<lparr>sequence = 2, source_timestamp = 20, reception_timestamp = 0\<rparr>\<rparr>, 1, 3)"
    by (simp add: read_history_def ex_msgs_def)
  finally show ?thesis .
qed

section \<open>An undisturbed read\<close>

text \<open>
  The accesses of one undisturbed call add up to \<open>TryRead\<close>; in particular the call returns after finitely many.
\<close>

definition read_result :: "message option \<times> u64 \<times> u64 \<Rightarrow> shm_reader \<Rightarrow> shm_reader" where
  "read_result res rd = (case res of (m, d, c) \<Rightarrow>
     reader_done d (case m of None \<Rightarrow> [] | Some x \<Rightarrow> [(sequence (metadata x), (payload x, source_timestamp (metadata x)))])
       (rd\<lparr>rd_cursor := c\<rparr>))"

definition accesses :: "ring \<Rightarrow> shm_reader \<Rightarrow> shm_reader \<Rightarrow> bool" where
  "accesses r rd rd' \<longleftrightarrow> (\<exists>k. (reader_access r ^^ k) rd = rd')"

lemma accesses_refl: "accesses r rd rd"
  unfolding accesses_def by (rule exI [of _ 0]) simp

lemma accesses_step: "accesses r (reader_access r rd) rd' \<Longrightarrow> accesses r rd rd'"
  unfolding accesses_def by (metis funpow_swap1 funpow.simps(2) o_apply)

lemma accesses_trans: "accesses r a b \<Longrightarrow> accesses r b c \<Longrightarrow> accesses r a c"
  unfolding accesses_def by (metis funpow_add o_apply add.commute)

lemma copy_accesses:
  assumes "m \<le> unat sz" "unat sz \<le> length (sl_payload (slot_of (rd_cursor rd) r))"
  shows "accesses r (rd\<lparr>rd_pc := RCopy n d sz ts (take m (sl_payload (slot_of (rd_cursor rd) r)))\<rparr>)
    (rd\<lparr>rd_pc := RAfter n d ts (Some (take (unat sz) (sl_payload (slot_of (rd_cursor rd) r))))\<rparr>)"
  using assms(1)
proof (induction m rule: inc_induct)
  case base
  have "reader_access r (rd\<lparr>rd_pc := RCopy n d sz ts (take (unat sz) (sl_payload (slot_of (rd_cursor rd) r)))\<rparr>)
      = rd\<lparr>rd_pc := RAfter n d ts (Some (take (unat sz) (sl_payload (slot_of (rd_cursor rd) r))))\<rparr>"
    using assms(2) by (simp add: reader_access_def)
  then show ?case by (metis accesses_step accesses_refl)
next
  case (step m)
  have "reader_access r (rd\<lparr>rd_pc := RCopy n d sz ts (take m (sl_payload (slot_of (rd_cursor rd) r)))\<rparr>)
      = rd\<lparr>rd_pc := RCopy n d sz ts (take (Suc m) (sl_payload (slot_of (rd_cursor rd) r)))\<rparr>"
    using step.hyps assms(2) by (simp add: reader_access_def take_Suc_conv_app_nth)
  with step.IH show ?case by (metis accesses_step)
qed

lemma reader_upd_order: "rd\<lparr>rd_cursor := c, rd_pc := pc\<rparr> = rd\<lparr>rd_pc := pc, rd_cursor := c\<rparr>"
  by simp

lemma TryRead_accesses:
  assumes "\<And>c. length (sl_payload (slot_of c r)) = unat (rb_payload_size r)"
  shows "accesses r (rd\<lparr>rd_pc := RPass n d, rd_cursor := c\<rparr>)
    (read_result (TryRead_passes n (effective_depth (rd_depth rd) r) r c d) rd)"
proof (induction n arbitrary: c d)
  case 0
  show ?case by (rule accesses_step) (simp add: reader_access_def read_result_def reader_done_def accesses_refl)
next
  case (Suc n)
  let ?cl = "ClampCursor c (rb_write_seq r) (effective_depth (rd_depth rd) r)"
  let ?d = "d + (?cl - c)" and ?sl = "slot_of (ClampCursor c (rb_write_seq r) (effective_depth (rd_depth rd) r)) r"
  let ?at = "\<lambda>pc. rd\<lparr>rd_pc := pc, rd_cursor := ?cl\<rparr>"
  have skip: "accesses r (reader_skip n ?d (?at pc)) (read_result (TryRead_passes n (effective_depth (rd_depth rd) r) r (?cl + 1) (?d + 1)) rd)" for pc
    using Suc.IH [of "?cl + 1" "?d + 1"] by (simp add: reader_skip_def)
  show ?case
  proof (cases "rb_write_seq r < c")
    case True
    then show ?thesis
      by - (rule accesses_step, simp add: reader_access_def read_result_def reader_done_def accesses_refl)
  next
    case newer: False
    have first: "reader_access r (rd\<lparr>rd_pc := RPass (Suc n) d, rd_cursor := c\<rparr>) = ?at (RBefore n ?d)"
      using newer by (simp add: reader_access_def Let_def)
    show ?thesis
    proof (cases "sl_seq ?sl = ?cl")
      case False
      have "accesses r (?at (RBefore n ?d)) (read_result (TryRead_passes n (effective_depth (rd_depth rd) r) r (?cl + 1) (?d + 1)) rd)"
        using False skip [of "RBefore n ?d"] by - (rule accesses_step, simp add: reader_access_def Let_def reader_upd_order)
      with newer False show ?thesis by - (rule accesses_step, simp add: first Let_def)
    next
      case seq: True
      have time: "accesses r (?at (RBefore n ?d)) (?at (RTime n ?d (sl_size ?sl)))"
        using seq by - (rule accesses_step, rule accesses_step, simp add: reader_access_def Let_def accesses_refl reader_upd_order)
      show ?thesis
      proof (cases "sl_size ?sl \<le> rb_payload_size r")
        case False
        have "accesses r (?at (RTime n ?d (sl_size ?sl)))
            (read_result (TryRead_passes n (effective_depth (rd_depth rd) r) r (?cl + 1) (?d + 1)) rd)"
          using False skip [of "RAfter n ?d (sl_timestamp ?sl) None"]
          by - (rule accesses_step, rule accesses_step, simp add: reader_access_def Let_def reader_upd_order)
        with accesses_trans [OF time] newer seq False show ?thesis by - (rule accesses_step, simp add: first Let_def)
      next
        case True
        have copied: "accesses r (?at (RCopy n ?d (sl_size ?sl) (sl_timestamp ?sl) []))
            (?at (RAfter n ?d (sl_timestamp ?sl) (Some (take (unat (sl_size ?sl)) (sl_payload ?sl)))))"
          using copy_accesses [of 0 "sl_size ?sl" "?at RIdle" r n ?d "sl_timestamp ?sl"] assms [of ?cl] True
          by (simp add: word_le_nat_alt reader_upd_order)
        have "accesses r (?at (RAfter n ?d (sl_timestamp ?sl) (Some (take (unat (sl_size ?sl)) (sl_payload ?sl)))))
            (read_result (TryRead_passes (Suc n) (effective_depth (rd_depth rd) r) r c d) rd)"
          using seq True newer by - (rule accesses_step,
            simp add: reader_access_def Let_def read_result_def reader_done_def slot_message_def accesses_refl)
        then have "accesses r (?at (RTime n ?d (sl_size ?sl))) (read_result (TryRead_passes (Suc n) (effective_depth (rd_depth rd) r) r c d) rd)"
          using True accesses_trans [OF copied] by - (rule accesses_step, simp add: reader_access_def Let_def reader_upd_order)
        with accesses_trans [OF time] show ?thesis by - (rule accesses_step, simp add: first)
      qed
    qed
  qed
qed

section \<open>A run of the system\<close>

lemma lift_writer:
  assumes "writer_step\<^sup>*\<^sup>* (sm_ring s, sm_writer s, sm_log s) (r, w, log)"
  shows "shm_step\<^sup>*\<^sup>* s (s\<lparr>sm_ring := r, sm_writer := w, sm_log := log\<rparr>)"
  using assms
proof (induction "(r, w, log)" arbitrary: r w log rule: rtranclp_induct)
  case base
  then show ?case by simp
next
  case (step y)
  obtain r1 w1 l1 where y: "y = (r1, w1, l1)" by (cases y)
  let ?s = "s\<lparr>sm_ring := r1, sm_writer := w1, sm_log := l1\<rparr>"
  have "shm_step ?s (?s\<lparr>sm_ring := r, sm_writer := w, sm_log := log\<rparr>)"
    using step.hyps(2) y by (intro shm_writes) simp
  with step.hyps(3) [OF y] show ?case by (simp add: rtranclp.rtrancl_into_rtrancl)
qed

lemma lift_reader:
  assumes "accesses (sm_ring s) rd rd'" "sm_readers s = [rd]"
  shows "shm_step\<^sup>*\<^sup>* s (s\<lparr>sm_readers := [rd']\<rparr>)"
proof -
  from assms(1) obtain k where k: "(reader_access (sm_ring s) ^^ k) rd = rd'" by (auto simp: accesses_def)
  have "shm_step\<^sup>*\<^sup>* s (s\<lparr>sm_readers := [(reader_access (sm_ring s) ^^ k) rd]\<rparr>)"
  proof (induction k)
    case 0
    then show ?case by (simp add: assms(2) [symmetric])
  next
    case (Suc k)
    have "shm_step (s\<lparr>sm_readers := [(reader_access (sm_ring s) ^^ k) rd]\<rparr>)
        (s\<lparr>sm_readers := [(reader_access (sm_ring s) ^^ Suc k) rd]\<rparr>)"
      using shm_reads [of 0 "s\<lparr>sm_readers := [(reader_access (sm_ring s) ^^ k) rd]\<rparr>"] by simp
    with Suc show ?case by (rule rtranclp.rtrancl_into_rtrancl)
  qed
  with k show ?thesis by simp
qed

theorem seqlock_reads_committed_witness:
  "\<exists>s rd. shm_step\<^sup>*\<^sup>* (shm_init \<lparr>sg_payload_size = 3, sg_slot_count = 4\<rparr>) s \<and> sm_readers s = [rd]
     \<and> rd_got rd = [(1, ([7], 5))] \<and> sorted_wrt (<) (map fst (rd_got rd))
     \<and> list_all (\<lambda>(c, e). 1 \<le> unat c \<and> unat c \<le> length (sm_log s) \<and> e = sm_log s ! (unat c - 1)) (rd_got rd)"
proof -
  let ?g = "\<lparr>sg_payload_size = 3, sg_slot_count = 4\<rparr> :: segment_geometry"
  let ?r0 = "new_ring ?g"
  have g: "SegmentSize ?g \<noteq> 0" by code_simp
  have ok: "ring_ok ?r0 WFree []" by (rule ring_ok_new) simp_all
  let ?rd = "new_reader 4 ?r0" and ?r1 = "published [7] 5 ?r0"
  let ?s1 = "(shm_init ?g)\<lparr>sm_readers := [?rd]\<rparr>"
  let ?s2 = "?s1\<lparr>sm_ring := ?r1, sm_writer := WFree, sm_log := [([7], 5)]\<rparr>"
  let ?rd' = "read_result (TryRead_passes (length (rb_slots ?r1) + 16) (effective_depth 4 ?r1) ?r1 1 0) ?rd"
  have "shm_step (shm_init ?g) ?s1" using shm_attaches [of "shm_init ?g" 4] by (simp add: shm_init_def)
  moreover have run: "writer_step\<^sup>*\<^sup>* (?r0, WFree, []) (?r1, WFree, [([7], 5)])"
    using publish_run [OF ok, of "[7]" 5] by (simp add: new_ring_def)
  then have "shm_step\<^sup>*\<^sup>* ?s1 ?s2" using lift_writer [of ?s1 ?r1 WFree "[([7], 5)]"] by (simp add: shm_init_def)
  moreover have ok1: "ring_ok ?r1 WFree [([7], 5)]" using writer_run_ok [OF run ok] by simp
  then have "accesses ?r1 (?rd\<lparr>rd_pc := RPass (length (rb_slots ?r1) + 16) 0, rd_cursor := 1\<rparr>) ?rd'"
    using TryRead_accesses [where r = ?r1 and rd = ?rd and n = "length (rb_slots ?r1) + 16" and d = 0 and c = 1] slot_ok_payload [OF slot_ok_at]
    by (simp add: new_reader_def)
  then have "accesses ?r1 ?rd ?rd'"
    by (intro accesses_step [of _ ?rd]) (simp add: reader_access_def new_reader_def new_ring_def)
  then have "shm_step\<^sup>*\<^sup>* ?s2 (?s2\<lparr>sm_readers := [?rd']\<rparr>)" by (intro lift_reader) simp_all
  ultimately have steps: "shm_step\<^sup>*\<^sup>* (shm_init ?g) (?s2\<lparr>sm_readers := [?rd']\<rparr>)" by simp
  have intact: "intact ?r1 (length [([7], 5) :: entry])"
    using published_intact [OF ok, of "[7]" 5] by (auto simp: intact_def unat_eq_0)
  have "fst (Segment_TryRead 1 4 ?r1)
      = Some \<lparr>payload = [7], metadata = \<lparr>sequence = 1, source_timestamp = 5, reception_timestamp = 0\<rparr>\<rparr>"
    using arg_cong [where f = fst, OF TryRead_intact [OF ok1 intact, of 1 4]]
    by (simp add: read_history_def published_def new_ring_def Let_def)
  then have got: "rd_got ?rd' = [(1, ([7], 5))]"
    by (cases "Segment_TryRead 1 4 ?r1") (simp add: Segment_TryRead_def [symmetric] read_result_def new_reader_def reader_done_def)
  have "sg_slot_count ?g \<le> 2 ^ 32 - 1" "length (sm_log (?s2\<lparr>sm_readers := [?rd']\<rparr>)) < 2 ^ 63 - 1"
    "?rd' \<in> set (sm_readers (?s2\<lparr>sm_readers := [?rd']\<rparr>))" by simp_all
  note seqlock_reads_committed [OF g this(1) steps this(2,3)]
  with steps got show ?thesis by (intro exI [of _ "?s2\<lparr>sm_readers := [?rd']\<rparr>"] exI [of _ ?rd']) simp
qed

end
