(* ===== verification/Shm_Participants.thy ===== *)
theory Shm_Participants
  imports Shm_Segment
begin

text \<open>
  The participant table of a shared-memory segment: which processes are attached, \<open>segment.cpp\<close> lines 103 to 116 and
  411 to 491.

  The first part has the operations as one process runs them undisturbed. The second takes them apart: an access of
  one process to one atomic word of the table is one step, so that operations of different processes interleave.
  Identities are a process id and a start time; whether such a process runs is what the operating system says,
  except that \<open>IsProcessAlive\<close> itself rejects ids that name no single process.
\<close>

section \<open>Entries\<close>

record process_identity =
  pi_pid :: u32
  pi_start :: u64

record participant =
  pt_state :: u32
  pt_pid :: u32
  pt_start :: u64

definition kParticipantFree :: u32 where "kParticipantFree = 0"
definition kParticipantClaiming :: u32 where "kParticipantClaiming = 1"
definition kParticipantActive :: u32 where "kParticipantActive = 2"
definition kParticipantKindMask :: u32 where "kParticipantKindMask = 3"

definition PKind :: "u32 \<Rightarrow> u32" where
  "PKind st = st AND kParticipantKindMask"

definition Generation :: "u32 \<Rightarrow> u32" where
  "Generation st = st AND NOT kParticipantKindMask"

definition NextGeneration :: "u32 \<Rightarrow> u32" where
  "NextGeneration st = Generation st + (kParticipantKindMask + 1)"

text \<open>\<open>os_alive\<close> stands for what \<open>kill\<close> and \<open>/proc\<close> report of an identity.\<close>

definition IsProcessAlive :: "(process_identity \<Rightarrow> bool) \<Rightarrow> process_identity \<Rightarrow> bool" where
  "IsProcessAlive os_alive p =
     (if pi_pid p = 0 \<or> 2 ^ 31 - 1 < pi_pid p then False else os_alive p)"

section \<open>Undisturbed operations\<close>

definition reclaim_entry :: "(process_identity \<Rightarrow> bool) \<Rightarrow> participant \<Rightarrow> participant" where
  "reclaim_entry os_alive e =
     (if PKind (pt_state e) \<noteq> kParticipantActive then e
      else if \<not> IsProcessAlive os_alive \<lparr>pi_pid = pt_pid e, pi_start = pt_start e\<rparr>
      then e\<lparr>pt_state := Generation (pt_state e) OR kParticipantFree\<rparr> else e)"

definition ReclaimDeadParticipants :: "(process_identity \<Rightarrow> bool) \<Rightarrow> participant list \<Rightarrow> participant list" where
  "ReclaimDeadParticipants os_alive es = map (reclaim_entry os_alive) es"

definition claim_entry :: "process_identity \<Rightarrow> participant \<Rightarrow> participant" where
  "claim_entry self e =
     e\<lparr>pt_pid := pi_pid self, pt_start := pi_start self,
       pt_state := Generation (NextGeneration (pt_state e) OR kParticipantClaiming) OR kParticipantActive\<rparr>"

fun claim_from :: "process_identity \<Rightarrow> nat \<Rightarrow> participant list \<Rightarrow> (nat \<times> participant list) option" where
  "claim_from self i [] = None"
| "claim_from self i (e # es) =
     (if PKind (pt_state e) \<noteq> kParticipantFree
      then map_option (\<lambda>(j, es'). (j, e # es')) (claim_from self (Suc i) es)
      else Some (i, claim_entry self e # es))"

definition ClaimParticipant :: "(process_identity \<Rightarrow> bool) \<Rightarrow> process_identity \<Rightarrow> participant list \<Rightarrow> nat result \<times> participant list" where
  "ClaimParticipant os_alive self es =
     (let es' = ReclaimDeadParticipants os_alive es in
      case claim_from self 0 es' of
        None \<Rightarrow> (FromStatus (Status_ResourceExhausted
          (''shm topic already has '' @ std_to_string kMaxParticipants @ '' participant processes'')), es')
      | Some (i, es'') \<Rightarrow> (Inr i, es''))"

definition ReleaseParticipant :: "nat \<Rightarrow> participant list \<Rightarrow> participant list" where
  "ReleaseParticipant i es =
     (if kMaxParticipants \<le> i \<or> length es \<le> i then es
      else es[i := \<lparr>pt_state = Generation (pt_state (es ! i)) OR kParticipantFree, pt_pid = 0, pt_start = 0\<rparr>])"

definition ActiveParticipants :: "participant list \<Rightarrow> nat list" where
  "ActiveParticipants es = filter (\<lambda>i. PKind (pt_state (es ! i)) = kParticipantActive) [0..<length es]"

definition HasLiveParticipant :: "(process_identity \<Rightarrow> bool) \<Rightarrow> participant list \<Rightarrow> bool \<times> participant list" where
  "HasLiveParticipant os_alive es =
     (let es' = ReclaimDeadParticipants os_alive es in (ActiveParticipants es' \<noteq> [], es'))"

section \<open>Interleaved operations\<close>

text \<open>
  Where a process is. \<open>PReclaim\<close>, \<open>PClaim\<close> and \<open>PRelease\<close> are about to load an entry's state; the others carry what was
  loaded. \<open>PHeld i\<close> is a process that was told it has entry \<open>i\<close>.
\<close>

datatype participant_pc =
    PIdle
  | PReclaim nat
  | PReclaimPid nat u32
  | PReclaimStart nat u32 u32
  | PReclaimFree nat u32 process_identity
  | PClaim nat
  | PClaimSwap nat u32
  | PClaimPid nat u32
  | PClaimStart nat u32
  | PClaimActive nat u32
  | PHeld nat
  | PRefused
  | PRelease nat
  | PReleasePid nat u32
  | PReleaseStart nat u32
  | PReleaseState nat u32

definition upd_entry :: "nat \<Rightarrow> (participant \<Rightarrow> participant) \<Rightarrow> participant list \<Rightarrow> participant list" where
  "upd_entry i f es = es[i := f (es ! i)]"

text \<open>One access of the process \<open>self\<close>; \<open>PIdle\<close> begins to attach, \<open>PHeld\<close> begins to detach.\<close>

fun participant_access :: "(process_identity \<Rightarrow> bool) \<Rightarrow> process_identity \<Rightarrow> participant_pc \<Rightarrow> participant list
    \<Rightarrow> participant_pc \<times> participant list" where
  "participant_access os_alive self PIdle es = (PReclaim 0, es)"
| "participant_access os_alive self (PReclaim i) es =
     (if length es \<le> i then (PClaim 0, es)
      else if PKind (pt_state (es ! i)) \<noteq> kParticipantActive then (PReclaim (Suc i), es)
      else (PReclaimPid i (pt_state (es ! i)), es))"
| "participant_access os_alive self (PReclaimPid i st) es = (PReclaimStart i st (pt_pid (es ! i)), es)"
| "participant_access os_alive self (PReclaimStart i st pid) es =
     (let p = \<lparr>pi_pid = pid, pi_start = pt_start (es ! i)\<rparr> in
      (if IsProcessAlive os_alive p then PReclaim (Suc i) else PReclaimFree i st p, es))"
| "participant_access os_alive self (PReclaimFree i st p) es =
     (PReclaim (Suc i), if pt_state (es ! i) = st
        then upd_entry i (\<lambda>e. e\<lparr>pt_state := Generation st OR kParticipantFree\<rparr>) es else es)"
| "participant_access os_alive self (PClaim i) es =
     (if length es \<le> i then (PRefused, es)
      else if PKind (pt_state (es ! i)) \<noteq> kParticipantFree then (PClaim (Suc i), es)
      else (PClaimSwap i (pt_state (es ! i)), es))"
| "participant_access os_alive self (PClaimSwap i st) es =
     (let claiming = NextGeneration st OR kParticipantClaiming in
      if pt_state (es ! i) \<noteq> st then (PClaim (Suc i), es)
      else (PClaimPid i claiming, upd_entry i (\<lambda>e. e\<lparr>pt_state := claiming\<rparr>) es))"
| "participant_access os_alive self (PClaimPid i claiming) es =
     (PClaimStart i claiming, upd_entry i (\<lambda>e. e\<lparr>pt_pid := pi_pid self\<rparr>) es)"
| "participant_access os_alive self (PClaimStart i claiming) es =
     (PClaimActive i claiming, upd_entry i (\<lambda>e. e\<lparr>pt_start := pi_start self\<rparr>) es)"
| "participant_access os_alive self (PClaimActive i claiming) es =
     (PHeld i, upd_entry i (\<lambda>e. e\<lparr>pt_state := Generation claiming OR kParticipantActive\<rparr>) es)"
| "participant_access os_alive self (PHeld i) es = (PRelease i, es)"
| "participant_access os_alive self PRefused es = (PIdle, es)"
| "participant_access os_alive self (PRelease i) es = (PReleasePid i (pt_state (es ! i)), es)"
| "participant_access os_alive self (PReleasePid i st) es =
     (PReleaseStart i st, upd_entry i (\<lambda>e. e\<lparr>pt_pid := 0\<rparr>) es)"
| "participant_access os_alive self (PReleaseStart i st) es =
     (PReleaseState i st, upd_entry i (\<lambda>e. e\<lparr>pt_start := 0\<rparr>) es)"
| "participant_access os_alive self (PReleaseState i st) es =
     (PIdle, upd_entry i (\<lambda>e. e\<lparr>pt_state := Generation st OR kParticipantFree\<rparr>) es)"

record participants =
  ps_table :: "participant list"
  ps_processes :: "(process_identity \<times> participant_pc) list"

definition process_access :: "(process_identity \<Rightarrow> bool) \<Rightarrow> nat \<Rightarrow> participants \<Rightarrow> participants" where
  "process_access os_alive k s =
     (case ps_processes s ! k of
        (self, pc) \<Rightarrow>
          (case participant_access os_alive self pc (ps_table s) of
             (pc', es) \<Rightarrow> s\<lparr>ps_table := es, ps_processes := (ps_processes s)[k := (self, pc')]\<rparr>))"

text \<open>A schedule names the process that makes the next access.\<close>

definition run_schedule :: "(process_identity \<Rightarrow> bool) \<Rightarrow> nat list \<Rightarrow> participants \<Rightarrow> participants" where
  "run_schedule os_alive sched s = fold (process_access os_alive) sched s"

definition new_participants :: "process_identity list \<Rightarrow> participants" where
  "new_participants ps = \<lparr>ps_table = replicate kMaxParticipants \<lparr>pt_state = 0, pt_pid = 0, pt_start = 0\<rparr>,
     ps_processes = map (\<lambda>p. (p, PIdle)) ps\<rparr>"

section \<open>A release that races with a claim\<close>

text \<open>
  The schedule: the first process attaches and begins to detach, clearing its identity in the entry; the second finds
  an active entry of process 0, which is not alive, frees it and claims it; then the first stores the free state it
  computed from its own generation, over the second process's claim.
\<close>

definition race_schedule :: "nat list" where
  "race_schedule = replicate 75 0 @ replicate 74 1 @ [0]"

definition ex_processes :: "process_identity list" where
  "ex_processes = [\<lparr>pi_pid = 100, pi_start = 1\<rparr>, \<lparr>pi_pid = 200, pi_start = 2\<rparr>, \<lparr>pi_pid = 300, pi_start = 3\<rparr>]"

definition race_state :: participants where
  "race_state = run_schedule (\<lambda>_. True) race_schedule (new_participants ex_processes)"

lemma race_holder: "ps_processes race_state ! 1 = (\<lparr>pi_pid = 200, pi_start = 2\<rparr>, PHeld 0)"
  by code_simp

lemma race_not_live: "fst (HasLiveParticipant (\<lambda>_. True) (ps_table race_state)) = False"
  by code_simp

lemma race_two_holders: "map snd (ps_processes (run_schedule (\<lambda>_. True) (replicate 71 2) race_state)) = [PIdle, PHeld 0, PHeld 0]"
  by code_simp

text \<open>
  C38. A detaching process can free the entry of another one. There is a schedule of three processes that all keep
  running in which the second is told it holds entry 0 while the table has no live participant at all (what the
  code takes as leave to remove the segment), and after which the third is given entry 0 as well.
\<close>

theorem participant_release_race:
  "\<exists>s t sched. s = run_schedule (\<lambda>_. True) sched (new_participants ex_processes)
     \<and> ps_processes s ! 1 = (\<lparr>pi_pid = 200, pi_start = 2\<rparr>, PHeld 0)
     \<and> \<not> fst (HasLiveParticipant (\<lambda>_. True) (ps_table s))
     \<and> t = run_schedule (\<lambda>_. True) (replicate 71 2) s
     \<and> map snd (ps_processes t) = [PIdle, PHeld 0, PHeld 0]"
proof (intro exI conjI)
  show "race_state = run_schedule (\<lambda>_. True) race_schedule (new_participants ex_processes)" by (rule race_state_def)
  show "ps_processes race_state ! 1 = (\<lparr>pi_pid = 200, pi_start = 2\<rparr>, PHeld 0)" by (rule race_holder)
  show "\<not> fst (HasLiveParticipant (\<lambda>_. True) (ps_table race_state))" using race_not_live by (rule eq_False [THEN iffD1])
  show "run_schedule (\<lambda>_. True) (replicate 71 2) race_state = run_schedule (\<lambda>_. True) (replicate 71 2) race_state" by (rule refl)
  show "map snd (ps_processes (run_schedule (\<lambda>_. True) (replicate 71 2) race_state)) = [PIdle, PHeld 0, PHeld 0]"
    by (rule race_two_holders)
qed

end
