(* ===== verification/Configuration.thy ===== *)
theory Configuration
  imports Scheduler "HOL-Library.Product_Lexorder"
begin

text \<open>
  The project configuration: \<open>include/puppet_master/configuration/configuration.h\<close> and
  \<open>src/configuration/configuration.cpp\<close>. A project lists topics, services and components by id; the
  functions here validate it, translate its entries into the specifications of the runtime, register
  them and create the scheduler. The cycle check on the task dependencies is the loop \<open>kahn\<close> that the
  scheduler runs; whatever calls it returns an option, \<open>None\<close> when the loop does not end.

  A component factory is user code: an argument that maps a specification to an instance, where
  \<open>None\<close> is the null pointer and an empty \<open>std::function\<close> is the factory \<open>None\<close>.
\<close>

section \<open>Names of enumerators\<close>

definition to_lower :: "char \<Rightarrow> char" where
  "to_lower ch = (if CHR ''A'' \<le> ch \<and> ch \<le> CHR ''Z'' then char_of (of_char ch + 32 :: nat) else ch)"

definition Normalize :: "string \<Rightarrow> string" where
  "Normalize v = map to_lower (rev (dropWhile is_space (rev (dropWhile is_space v))))"

definition ParseEnum :: "string \<Rightarrow> (string \<times> 'a) list \<Rightarrow> string \<Rightarrow> 'a result" where
  "ParseEnum v mapping kind =
     (let normalized = Normalize v in
      case map_of mapping normalized of
        None \<Rightarrow> FromStatus (Status_InvalidArgument (''unknown '' @ kind @ '': '' @ normalized))
      | Some found \<Rightarrow> Inr found)"

definition ParseTransportKind :: "string \<Rightarrow> transport_kind result" where
  "ParseTransportKind v = ParseEnum v
     [(''inmemory'', kInMemory), (''in_memory'', kInMemory), (''fastdds'', kFastDds), (''fast_dds'', kFastDds),
      (''zmq'', kZmq), (''ipc'', kIpc), (''shm'', kIpc)] ''transport kind''"

definition ParseTriggerKind :: "string \<Rightarrow> trigger_kind result" where
  "ParseTriggerKind v = ParseEnum v
     [(''manual'', kManual), (''periodic'', kPeriodic), (''data'', kData), (''task'', kTaskDependency),
      (''task_dependency'', kTaskDependency), (''service'', kService)] ''trigger kind''"

definition ParseDeliveryGuarantee :: "string \<Rightarrow> delivery_guarantee result" where
  "ParseDeliveryGuarantee v = ParseEnum v
     [(''best_effort'', kBestEffort), (''besteffort'', kBestEffort), (''reliable'', kReliable)] ''delivery guarantee''"

definition ParseRetentionPolicy :: "string \<Rightarrow> retention_policy result" where
  "ParseRetentionPolicy v = ParseEnum v
     [(''keep_last'', kKeepLast), (''keeplast'', kKeepLast), (''keep_all'', kKeepAll), (''keepall'', kKeepAll)]
     ''retention policy''"

definition ParseFreshnessPolicy :: "string \<Rightarrow> freshness_policy result" where
  "ParseFreshnessPolicy v = ParseEnum v [(''latest'', kLatest), (''queued'', kQueued)] ''freshness policy''"

definition ParseQueueOverflowPolicy :: "string \<Rightarrow> queue_overflow_policy result" where
  "ParseQueueOverflowPolicy v = ParseEnum v
     [(''drop_oldest'', kDropOldest), (''dropoldest'', kDropOldest), (''drop_newest'', kDropNewest),
      (''dropnewest'', kDropNewest), (''block'', kBlock), (''reject'', kReject)] ''queue overflow policy''"

definition ParseDependencyPolicy :: "string \<Rightarrow> dependency_policy result" where
  "ParseDependencyPolicy v = ParseEnum v [(''all'', kAll), (''any'', kAny)] ''dependency policy''"

section \<open>The configuration\<close>

record topic_config =
  tc_id :: string
  tc_name :: string
  tc_transport :: transport_kind
  tc_message_type :: string
  tc_encoding :: string
  tc_message_policy :: message_policy
  tc_message_version :: u32
  tc_transport_parameters :: parameter_map

record service_config =
  vc_id :: string
  vc_name :: string
  vc_transport :: transport_kind
  vc_request_type :: string
  vc_reply_type :: string
  vc_encoding :: string
  vc_request_version :: u32
  vc_reply_version :: u32
  vc_queue_depth :: nat
  vc_heartbeat_interval :: nanoseconds
  vc_transport_parameters :: parameter_map

record trigger_config =
  gc_kind :: trigger_kind
  gc_period :: nanoseconds
  gc_dependency_policy :: dependency_policy
  gc_data_topics :: "string list"
  gc_task_dependencies :: "string list"
  gc_priority :: int
  gc_deadline :: nanoseconds
  gc_services :: "string list"

record component_config =
  cc_name :: string
  cc_description :: string
  cc_readers :: "string list"
  cc_writers :: "string list"
  cc_triggers :: "trigger_config list"
  cc_type :: string
  cc_parameters :: parameter_map
  cc_reader_policies :: "(string, message_policy) omap"
  cc_servers :: "string list"
  cc_clients :: "string list"

record runtime_options =
  ro_default_transport_name :: transport_name
  ro_register_inmemory_transport :: bool
  ro_open_registered_transports :: bool

definition RuntimeOptions_Validate :: "runtime_options \<Rightarrow> status" where
  "RuntimeOptions_Validate r = ValidateName ''default transport name'' (str (ro_default_transport_name r))"

record project_config =
  pj_runtime_options :: runtime_options
  pj_scheduler_options :: scheduler_options
  pj_topics :: "topic_config list"
  pj_components :: "component_config list"
  pj_services :: "service_config list"

definition ValidateConfigId :: "string \<Rightarrow> string \<Rightarrow> status" where
  "ValidateConfigId kind v = ValidateName kind v"

definition ProjectConfig_FindTopic :: "project_config \<Rightarrow> string \<Rightarrow> topic_config result" where
  "ProjectConfig_FindTopic p id1 =
     (case find (\<lambda>t. tc_id t = id1) (pj_topics p) of
        None \<Rightarrow> FromStatus (Status_NotFound (''topic id is not configured: '' @ id1))
      | Some t \<Rightarrow> Inr t)"

definition ProjectConfig_FindComponent :: "project_config \<Rightarrow> string \<Rightarrow> component_config result" where
  "ProjectConfig_FindComponent p name =
     (case find (\<lambda>c. cc_name c = name) (pj_components p) of
        None \<Rightarrow> FromStatus (Status_NotFound (''component is not configured: '' @ name))
      | Some c \<Rightarrow> Inr c)"

definition ProjectConfig_FindService :: "project_config \<Rightarrow> string \<Rightarrow> service_config result" where
  "ProjectConfig_FindService p id1 =
     (case find (\<lambda>v. vc_id v = id1) (pj_services p) of
        None \<Rightarrow> FromStatus (Status_NotFound (''service id is not configured: '' @ id1))
      | Some v \<Rightarrow> Inr v)"

section \<open>Topics and services\<close>

definition TopicConfig_Validate :: "topic_config \<Rightarrow> status" where
  "TopicConfig_Validate t =
     (let st = ValidateConfigId ''topic id'' (tc_id t) in
      if \<not> status_ok st then st
      else case NamedValue_Create ''topic name'' (tc_name t) of
        Inl st \<Rightarrow> st
      | Inr _ \<Rightarrow>
          if tc_message_type t = []
          then Status_InvalidArgument (''topic message_type must not be empty: '' @ tc_id t)
          else if tc_encoding t = []
          then Status_InvalidArgument (''topic encoding must not be empty: '' @ tc_id t)
          else MessagePolicy_Validate (tc_message_policy t))"

definition TopicConfig_ToEndpointConfig :: "topic_config \<Rightarrow> endpoint_config result" where
  "TopicConfig_ToEndpointConfig t =
     (let st = TopicConfig_Validate t in
      if \<not> status_ok st then FromStatus st
      else result_bind (NamedValue_Create ''topic name'' (tc_name t)) (\<lambda>name.
        let endpoint = \<lparr>ep_topic = \<lparr>ts_name = name, ts_transport = tc_transport t,
                           ts_message_policy = tc_message_policy t, ts_lifetime = kShared\<rparr>,
                         ep_message = \<lparr>type_name = tc_message_type t, encoding = tc_encoding t,
                           version = tc_message_version t\<rparr>\<rparr>;
            st = EndpointConfig_Validate endpoint in
        if \<not> status_ok st then FromStatus st else Inr endpoint))"

definition ProjectConfig_BuildEndpoint :: "project_config \<Rightarrow> string \<Rightarrow> endpoint_config result" where
  "ProjectConfig_BuildEndpoint p topic_id =
     result_bind (ProjectConfig_FindTopic p topic_id) TopicConfig_ToEndpointConfig"

definition ServiceConfig_ToServiceSpec :: "service_config \<Rightarrow> service_spec result" where
  "ServiceConfig_ToServiceSpec v =
     (let st = ValidateConfigId ''service id'' (vc_id v) in
      if \<not> status_ok st then FromStatus st
      else case NamedValue_Create ''topic name'' (vc_name v) of
        Inl st \<Rightarrow> FromStatus (Status_Error (st_code st) (''service '' @ vc_id v @ '': '' @ st_message st))
      | Inr name \<Rightarrow>
          let spec = \<lparr>sv_name = name, sv_transport = vc_transport v,
                sv_request = \<lparr>type_name = vc_request_type v, encoding = vc_encoding v, version = vc_request_version v\<rparr>,
                sv_reply = \<lparr>type_name = vc_reply_type v, encoding = vc_encoding v, version = vc_reply_version v\<rparr>,
                sv_queue_depth = vc_queue_depth v, sv_heartbeat_interval = vc_heartbeat_interval v\<rparr>;
              st = ServiceSpec_Validate spec in
          if \<not> status_ok st
          then FromStatus (Status_Error (st_code st) (''service '' @ vc_id v @ '': '' @ st_message st))
          else Inr spec)"

definition ServiceConfig_Validate :: "service_config \<Rightarrow> status" where
  "ServiceConfig_Validate v = (case ServiceConfig_ToServiceSpec v of Inl st \<Rightarrow> st | Inr _ \<Rightarrow> Status_Ok)"

section \<open>Triggers\<close>

text \<open>The loops of \<open>ToTriggerSpec\<close> over topic ids, task names and service ids.\<close>

fun trigger_topics :: "project_config \<Rightarrow> (topic_name, string) omap \<Rightarrow> string list \<Rightarrow> topic_name list result" where
  "trigger_topics p seen [] = Inr []"
| "trigger_topics p seen (topic_id # ids) =
     result_bind (ProjectConfig_FindTopic p topic_id) (\<lambda>topic.
     result_bind (NamedValue_Create ''topic name'' (tc_name topic)) (\<lambda>name.
       case omap_find seen name of
         Some first \<Rightarrow> FromStatus (Status_InvalidArgument (''data trigger has duplicate topic dependency ids ''
           @ first @ '' and '' @ topic_id @ '' for topic '' @ str name))
       | None \<Rightarrow> result_bind (trigger_topics p (omap_emplace name topic_id seen) ids) (\<lambda>names. Inr (name # names))))"

fun trigger_tasks :: "string list \<Rightarrow> task_name list result" where
  "trigger_tasks [] = Inr []"
| "trigger_tasks (v # vs) =
     result_bind (NamedValue_Create ''task name'' v) (\<lambda>name.
     result_bind (trigger_tasks vs) (\<lambda>names. Inr (name # names)))"

fun trigger_service_names :: "project_config \<Rightarrow> string set \<Rightarrow> string list \<Rightarrow> topic_name list result" where
  "trigger_service_names p seen [] = Inr []"
| "trigger_service_names p seen (service_id # ids) =
     (if service_id \<in> seen
      then FromStatus (Status_InvalidArgument (''service trigger lists service '' @ service_id @ '' twice''))
      else
        result_bind (ProjectConfig_FindService p service_id) (\<lambda>service.
        result_bind (NamedValue_Create ''topic name'' (vc_name service)) (\<lambda>name.
        result_bind (trigger_service_names p (insert service_id seen) ids) (\<lambda>names. Inr (name # names)))))"

definition TriggerConfig_ToTriggerSpec :: "trigger_config \<Rightarrow> project_config \<Rightarrow> trigger_spec result" where
  "TriggerConfig_ToTriggerSpec g p =
     (if gc_kind g \<noteq> kPeriodic \<and> gc_period g \<noteq> 0
      then FromStatus (Status_InvalidArgument ''trigger period can only be used with periodic triggers'')
      else if gc_kind g \<noteq> kData \<and> gc_kind g \<noteq> kTaskDependency \<and> gc_dependency_policy g \<noteq> kAll
      then FromStatus (Status_InvalidArgument
        ''trigger dependency_policy can only be used with data or task dependency triggers'')
      else if gc_kind g \<noteq> kData \<and> gc_data_topics g \<noteq> []
      then FromStatus (Status_InvalidArgument ''trigger data_topics can only be used with data triggers'')
      else if gc_kind g \<noteq> kTaskDependency \<and> gc_task_dependencies g \<noteq> []
      then FromStatus (Status_InvalidArgument ''trigger task_dependencies can only be used with task dependency triggers'')
      else if gc_kind g = kTaskDependency \<and> gc_task_dependencies g = []
      then FromStatus (Status_InvalidArgument ''task dependency trigger requires at least one task dependency'')
      else if gc_kind g \<noteq> kService \<and> gc_services g \<noteq> []
      then FromStatus (Status_InvalidArgument ''trigger services can only be used with service triggers'')
      else if gc_kind g = kService \<and> gc_services g = []
      then FromStatus (Status_InvalidArgument ''service trigger requires at least one service id'')
      else if gc_kind g = kData \<and> gc_data_topics g = []
      then FromStatus (Status_InvalidArgument ''data trigger requires at least one topic id'')
      else
        result_bind (trigger_topics p [] (gc_data_topics g)) (\<lambda>topics.
        result_bind (trigger_tasks (gc_task_dependencies g)) (\<lambda>tasks.
        result_bind (trigger_service_names p {} (gc_services g)) (\<lambda>services.
        let trigger = \<lparr>tr_kind = gc_kind g, tr_period = gc_period g, tr_dependency_policy = gc_dependency_policy g,
              tr_data_dependencies = topics, tr_task_dependencies = tasks, tr_priority = gc_priority g,
              tr_deadline = gc_deadline g, tr_service_dependencies = services\<rparr>;
            st = TriggerSpec_Validate trigger in
        if \<not> status_ok st then FromStatus st else Inr trigger))))"

definition TriggerConfig_Validate :: "trigger_config \<Rightarrow> project_config \<Rightarrow> status" where
  "TriggerConfig_Validate g p =
     (case TriggerConfig_ToTriggerSpec g p of Inl st \<Rightarrow> st | Inr t \<Rightarrow> TriggerSpec_Validate t)"

section \<open>Components\<close>

text \<open>
  The loops of \<open>ToComponentSpec\<close>: the reader endpoints with the component's own policies, the services it
  serves or calls, the writer endpoints, and the triggers, where the map remembers which data trigger
  named a topic first.
\<close>

fun reader_endpoints :: "project_config \<Rightarrow> (string, message_policy) omap \<Rightarrow> string list \<Rightarrow> endpoint_config list result" where
  "reader_endpoints p policies [] = Inr []"
| "reader_endpoints p policies (topic_id # ids) =
     result_bind (ProjectConfig_BuildEndpoint p topic_id) (\<lambda>e.
     let e' = (case omap_find policies topic_id of
                 None \<Rightarrow> e
               | Some policy \<Rightarrow> e\<lparr>ep_topic := (ep_topic e)\<lparr>ts_message_policy := policy\<rparr>\<rparr>) in
     result_bind (reader_endpoints p policies ids) (\<lambda>es. Inr (e' # es)))"

definition check_reader_policy :: "component_config \<Rightarrow> string \<times> message_policy \<Rightarrow> status" where
  "check_reader_policy c e =
     (if fst e \<notin> set (cc_readers c)
      then Status_InvalidArgument (''component '' @ cc_name c @ '' sets a reader policy for '' @ fst e
        @ '', which it does not read'')
      else let st = MessagePolicy_Validate (snd e) in
        if \<not> status_ok st
        then Status_Error (st_code st) (''component '' @ cc_name c @ '' reader policy for '' @ fst e @ '': '' @ st_message st)
        else Status_Ok)"

fun service_specs :: "project_config \<Rightarrow> string \<Rightarrow> string \<Rightarrow> string set \<Rightarrow> string list \<Rightarrow> service_spec list result" where
  "service_specs p name kind seen [] = Inr []"
| "service_specs p name kind seen (service_id # ids) =
     (if service_id \<in> seen
      then FromStatus (Status_InvalidArgument (''component '' @ name @ '' lists '' @ kind @ '' '' @ service_id @ '' twice''))
      else case ProjectConfig_FindService p service_id of
          Inl st \<Rightarrow> FromStatus (Status_Error (st_code st) (''component '' @ name @ '' '' @ kind @ '': '' @ st_message st))
        | Inr service \<Rightarrow>
            result_bind (ServiceConfig_ToServiceSpec service) (\<lambda>spec.
            result_bind (service_specs p name kind (insert service_id seen) ids) (\<lambda>specs. Inr (spec # specs))))"

fun writer_endpoints :: "project_config \<Rightarrow> string list \<Rightarrow> endpoint_config list result" where
  "writer_endpoints p [] = Inr []"
| "writer_endpoints p (topic_id # ids) =
     result_bind (ProjectConfig_BuildEndpoint p topic_id) (\<lambda>e.
     result_bind (writer_endpoints p ids) (\<lambda>es. Inr (e # es)))"

fun claim_data_topics :: "string \<Rightarrow> endpoint_config list \<Rightarrow> nat \<Rightarrow> topic_name list \<Rightarrow> (topic_name, nat) omap
    \<Rightarrow> (topic_name, nat) omap result" where
  "claim_data_topics name readers index [] m = Inr m"
| "claim_data_topics name readers index (topic # topics) m =
     (if 1 < length (filter (\<lambda>r. ts_name (ep_topic r) = topic) readers)
      then FromStatus (Status_InvalidArgument (''component '' @ name @ '' trigger '' @ std_to_string index
        @ '' has multiple reader endpoints for topic '' @ str topic))
      else case omap_find m topic of
          Some first \<Rightarrow> FromStatus (Status_InvalidArgument (''component '' @ name @ '' triggers '' @ std_to_string first
            @ '' and '' @ std_to_string index @ '' share data topic '' @ str topic))
        | None \<Rightarrow> claim_data_topics name readers index topics (omap_emplace topic index m))"

fun trigger_specs :: "project_config \<Rightarrow> string \<Rightarrow> endpoint_config list \<Rightarrow> nat \<Rightarrow> (topic_name, nat) omap
    \<Rightarrow> trigger_config list \<Rightarrow> trigger_spec list result" where
  "trigger_specs p name readers index m [] = Inr []"
| "trigger_specs p name readers index m (g # gs) =
     (case TriggerConfig_ToTriggerSpec g p of
        Inl st \<Rightarrow> FromStatus (Status_Error (st_code st)
          (''component '' @ name @ '' trigger '' @ std_to_string index @ '': '' @ st_message st))
      | Inr t \<Rightarrow>
          result_bind (if tr_kind t = kData then claim_data_topics name readers index (tr_data_dependencies t) m else Inr m)
            (\<lambda>m'. result_bind (trigger_specs p name readers (index + 1) m' gs) (\<lambda>ts. Inr (t # ts))))"

definition ComponentConfig_ToComponentSpec :: "component_config \<Rightarrow> project_config \<Rightarrow> component_spec result" where
  "ComponentConfig_ToComponentSpec c p =
     result_bind (NamedValue_Create ''component name'' (cc_name c)) (\<lambda>name.
     result_bind (reader_endpoints p (cc_reader_policies c) (cc_readers c)) (\<lambda>readers.
     let st = validate_each (check_reader_policy c) (cc_reader_policies c) in
     if \<not> status_ok st then FromStatus st
     else
       result_bind (service_specs p (cc_name c) ''server'' {} (cc_servers c)) (\<lambda>servers.
       result_bind (service_specs p (cc_name c) ''client'' {} (cc_clients c)) (\<lambda>clients.
       result_bind (writer_endpoints p (cc_writers c)) (\<lambda>writers.
       result_bind (trigger_specs p (cc_name c) readers 0 [] (cc_triggers c)) (\<lambda>triggers.
       let spec = \<lparr>cs_name = name, cs_description = cc_description c, cs_readers = readers, cs_writers = writers,
             cs_triggers = triggers, cs_parameters = cc_parameters c, cs_servers = servers, cs_clients = clients\<rparr>;
           st = ComponentSpec_Validate spec in
       if \<not> status_ok st then FromStatus st else Inr spec))))))"

definition check_trigger_sources :: "component_config \<Rightarrow> trigger_config \<Rightarrow> status" where
  "check_trigger_sources c g =
     and_then
       (validate_each (\<lambda>topic_id. if topic_id \<notin> set (cc_readers c)
          then Status_InvalidArgument (''component data trigger topic must also be declared as a reader: '' @ topic_id)
          else Status_Ok) (gc_data_topics g))
       (validate_each (\<lambda>service_id. if service_id \<notin> set (cc_servers c)
          then Status_InvalidArgument (''component '' @ cc_name c
            @ '' service trigger service must also be declared in servers: '' @ service_id)
          else Status_Ok) (gc_services g))"

definition ComponentConfig_Validate :: "component_config \<Rightarrow> project_config \<Rightarrow> status" where
  "ComponentConfig_Validate c p =
     (case ComponentConfig_ToComponentSpec c p of
        Inl st \<Rightarrow> st
      | Inr spec \<Rightarrow>
          and_then (ComponentSpec_Validate spec) (validate_each (check_trigger_sources c) (cc_triggers c)))"

definition ProjectConfig_BuildComponentSpec :: "project_config \<Rightarrow> string \<Rightarrow> component_spec result" where
  "ProjectConfig_BuildComponentSpec p name =
     result_bind (ProjectConfig_FindComponent p name) (\<lambda>c. ComponentConfig_ToComponentSpec c p)"

section \<open>Projects\<close>

fun ValidateUniqueIds :: "string set \<Rightarrow> topic_config list \<Rightarrow> status" where
  "ValidateUniqueIds seen [] = Status_Ok"
| "ValidateUniqueIds seen (t # ts) =
     (if tc_id t \<in> seen then Status_AlreadyExists (''topic id is duplicated: '' @ tc_id t)
      else ValidateUniqueIds (insert (tc_id t) seen) ts)"

fun ValidateUniqueComponents :: "string set \<Rightarrow> component_config list \<Rightarrow> status" where
  "ValidateUniqueComponents seen [] = Status_Ok"
| "ValidateUniqueComponents seen (c # cs) =
     (if cc_name c \<in> seen then Status_AlreadyExists (''component name is duplicated: '' @ cc_name c)
      else ValidateUniqueComponents (insert (cc_name c) seen) cs)"

text \<open>The graph of the task dependencies: the number of upstreams of a component and the dependents of one.\<close>

record task_graph =
  gr_indegree :: "(string, nat) omap"
  gr_dependents :: "(string, string list) omap"

fun add_upstreams :: "string \<Rightarrow> nat \<Rightarrow> string set \<Rightarrow> string list \<Rightarrow> task_graph \<Rightarrow> task_graph result" where
  "add_upstreams name index seen [] g = Inr g"
| "add_upstreams name index seen (u # us) g =
     (let location = ''component '' @ name @ '' trigger '' @ std_to_string index in
      if u = name then Inl (Status_InvalidArgument (location @ '' has self task dependency: '' @ u))
      else if u \<in> seen then Inl (Status_InvalidArgument (location @ '' has duplicate task dependency: '' @ u))
      else if omap_find (gr_indegree g) u = None
      then Inl (Status_InvalidArgument (location @ '' references unknown task dependency: '' @ u))
      else add_upstreams name index (insert u seen) us
        (g\<lparr>gr_dependents := omap_assign u (omap_at [] (gr_dependents g) u @ [name]) (gr_dependents g),
           gr_indegree := omap_assign name (omap_at 0 (gr_indegree g) name + 1) (gr_indegree g)\<rparr>))"

fun add_task_triggers :: "string \<Rightarrow> nat \<Rightarrow> trigger_config list \<Rightarrow> task_graph \<Rightarrow> task_graph result" where
  "add_task_triggers name index [] g = Inr g"
| "add_task_triggers name index (t # ts) g =
     (if gc_kind t \<noteq> kTaskDependency then add_task_triggers name (index + 1) ts g
      else result_bind (add_upstreams name index {} (gc_task_dependencies t) g) (add_task_triggers name (index + 1) ts))"

fun add_components :: "component_config list \<Rightarrow> task_graph \<Rightarrow> task_graph result" where
  "add_components [] g = Inr g"
| "add_components (c # cs) g = result_bind (add_task_triggers (cc_name c) 0 (cc_triggers c) g) (add_components cs)"

definition ValidateTaskDependencies :: "component_config list \<Rightarrow> status option" where
  "ValidateTaskDependencies components =
     (case add_components components
         \<lparr>gr_indegree = fold (\<lambda>c. omap_emplace (cc_name c) 0) components [], gr_dependents = []\<rparr> of
        Inl st \<Rightarrow> Some st
      | Inr g \<Rightarrow>
          do { visited \<leftarrow> kahn (omap_at [] (gr_dependents g)) (map fst (filter (\<lambda>e. snd e = 0) (gr_indegree g)))
                 (gr_indegree g) 0;
               Some (if visited \<noteq> length components
                     then Status_InvalidArgument ''task dependency graph contains a cycle''
                     else Status_Ok) })"

text \<open>The owners of the wire names that \<open>ValidateServices\<close> compares.\<close>

definition topic_owner :: "string \<Rightarrow> string" where
  "topic_owner id1 = ''topic '' @ id1"

definition service_owner :: "string \<Rightarrow> string" where
  "service_owner id1 = ''service '' @ id1"

fun claim_wire_names :: "string \<Rightarrow> endpoint_config list \<Rightarrow> (string, string) omap \<Rightarrow> (string, string) omap result" where
  "claim_wire_names id1 [] m = Inr m"
| "claim_wire_names id1 (e # es) m =
     (let name = str (ts_name (ep_topic e)) in
      case omap_find m name of
        Some owner \<Rightarrow>
          if owner \<noteq> service_owner id1
          then Inl (Status_InvalidArgument (''service '' @ id1 @ '' uses topic '' @ name @ '', which '' @ owner
            @ '' already uses''))
          else claim_wire_names id1 es m
      | None \<Rightarrow> claim_wire_names id1 es (omap_emplace name (service_owner id1) m))"

fun validate_service_list :: "string set \<Rightarrow> (string, string) omap \<Rightarrow> service_config list \<Rightarrow> status" where
  "validate_service_list ids wire_names [] = Status_Ok"
| "validate_service_list ids wire_names (v # vs) =
     (if vc_id v \<in> ids then Status_AlreadyExists (''service id is duplicated: '' @ vc_id v)
      else case ServiceConfig_ToServiceSpec v of
          Inl st \<Rightarrow> st
        | Inr spec \<Rightarrow>
            (case EndpointsFor spec of
               Inl st \<Rightarrow> st
             | Inr e \<Rightarrow>
                 (case claim_wire_names (vc_id v) [se_request e, se_reply e, se_presence e] wire_names of
                    Inl st \<Rightarrow> st
                  | Inr m \<Rightarrow> validate_service_list (insert (vc_id v) ids) m vs)))"

definition ValidateServices :: "project_config \<Rightarrow> status" where
  "ValidateServices p =
     validate_service_list {} (fold (\<lambda>t. omap_emplace (tc_name t) (topic_owner (tc_id t))) (pj_topics p) []) (pj_services p)"

fun check_descriptors :: "(transport_kind \<times> string, topic_config) omap \<Rightarrow> topic_config list \<Rightarrow> status" where
  "check_descriptors declared [] = Status_Ok"
| "check_descriptors declared (t # ts) =
     (case omap_find declared (tc_transport t, tc_name t) of
        None \<Rightarrow> check_descriptors (omap_emplace (tc_transport t, tc_name t) t declared) ts
      | Some first \<Rightarrow>
          if tc_message_type first \<noteq> tc_message_type t \<or> tc_encoding first \<noteq> tc_encoding t
            \<or> tc_message_version first \<noteq> tc_message_version t
          then Status_InvalidArgument (''topic ids '' @ tc_id first @ '' and '' @ tc_id t
            @ '' declare conflicting message descriptors for '' @ TransportKind_ToString (tc_transport t)
            @ '' topic '' @ tc_name t)
          else check_descriptors declared ts)"

definition ProjectConfig_Validate :: "project_config \<Rightarrow> status option" where
  "ProjectConfig_Validate p =
     (let st = and_then (RuntimeOptions_Validate (pj_runtime_options p))
            (and_then (SchedulerOptions_Validate (pj_scheduler_options p))
            (and_then (ValidateUniqueIds {} (pj_topics p))
            (and_then (ValidateUniqueComponents {} (pj_components p))
            (and_then (validate_each TopicConfig_Validate (pj_topics p))
            (and_then (check_descriptors [] (pj_topics p))
            (and_then (ValidateServices p)
              (validate_each (\<lambda>c. ComponentConfig_Validate c p) (pj_components p)))))))) in
      if \<not> status_ok st then Some st else ValidateTaskDependencies (pj_components p))"

definition ProjectConfig_ToRuntimeOptions :: "project_config \<Rightarrow> runtime_options result" where
  "ProjectConfig_ToRuntimeOptions p =
     (let st = RuntimeOptions_Validate (pj_runtime_options p) in
      if \<not> status_ok st then FromStatus st else Inr (pj_runtime_options p))"

definition ProjectConfig_ToSchedulerOptions :: "project_config \<Rightarrow> scheduler_options result" where
  "ProjectConfig_ToSchedulerOptions p =
     (let st = SchedulerOptions_Validate (pj_scheduler_options p) in
      if \<not> status_ok st then FromStatus st else Inr (pj_scheduler_options p))"

definition ProjectConfig_AddTopic :: "topic_config \<Rightarrow> project_config \<Rightarrow> status \<times> project_config" where
  "ProjectConfig_AddTopic t p =
     (let st = TopicConfig_Validate t in
      if \<not> status_ok st then (st, p)
      else if result_ok (ProjectConfig_FindTopic p (tc_id t))
      then (Status_AlreadyExists (''topic id is duplicated: '' @ tc_id t), p)
      else (Status_Ok, p\<lparr>pj_topics := pj_topics p @ [t]\<rparr>))"

definition ProjectConfig_AddComponent :: "component_config \<Rightarrow> project_config \<Rightarrow> status \<times> project_config" where
  "ProjectConfig_AddComponent c p =
     (case NamedValue_Create ''component name'' (cc_name c) of
        Inl st \<Rightarrow> (st, p)
      | Inr _ \<Rightarrow>
          if result_ok (ProjectConfig_FindComponent p (cc_name c))
          then (Status_AlreadyExists (''component name is duplicated: '' @ cc_name c), p)
          else (Status_Ok, p\<lparr>pj_components := pj_components p @ [c]\<rparr>))"

definition ProjectConfig_AddService :: "service_config \<Rightarrow> project_config \<Rightarrow> status \<times> project_config" where
  "ProjectConfig_AddService v p =
     (let st = ServiceConfig_Validate v in
      if \<not> status_ok st then (st, p)
      else if result_ok (ProjectConfig_FindService p (vc_id v))
      then (Status_AlreadyExists (''service id is duplicated: '' @ vc_id v), p)
      else (Status_Ok, p\<lparr>pj_services := pj_services p @ [v]\<rparr>))"

section \<open>Assembling the runtime and the scheduler\<close>

abbreviation Runtime_FindComponent :: "'c runtime \<Rightarrow> component_name \<Rightarrow> component_spec result" where
  "Runtime_FindComponent rt \<equiv> ComponentRegistry_Find (rt_components rt)"

fun check_components :: "project_config \<Rightarrow> 'c runtime \<Rightarrow> component_config list \<Rightarrow> status" where
  "check_components p rt [] = Status_Ok"
| "check_components p rt (c # cs) =
     (case ComponentConfig_ToComponentSpec c p of
        Inl st \<Rightarrow> st
      | Inr spec \<Rightarrow>
          if result_ok (Runtime_FindComponent rt (cs_name spec))
          then Status_AlreadyExists (''component is already registered: '' @ cc_name c)
          else check_components p rt cs)"

fun register_components :: "project_config \<Rightarrow> component_config list \<Rightarrow> 'c runtime \<Rightarrow> status \<times> 'c runtime" where
  "register_components p [] rt = (Status_Ok, rt)"
| "register_components p (c # cs) rt =
     (case ComponentConfig_ToComponentSpec c p of
        Inl st \<Rightarrow> (st, rt)
      | Inr spec \<Rightarrow>
          (case RegisterComponent spec rt of
             (st, rt') \<Rightarrow> if \<not> status_ok st then (st, rt') else register_components p cs rt'))"

definition ApplyComponentSpecs :: "project_config \<Rightarrow> 'c runtime \<Rightarrow> (status \<times> 'c runtime) option" where
  "ApplyComponentSpecs p rt =
     do { st \<leftarrow> ProjectConfig_Validate p;
          if \<not> status_ok st then Some (st, rt)
          else let st = check_components p rt (pj_components p) in
            if \<not> status_ok st then Some (st, rt) else Some (register_components p (pj_components p) rt) }"

definition schedule_all :: "scheduler_options \<Rightarrow> 'c runtime \<Rightarrow> sched result" where
  "schedule_all options rt =
     (case RegisterAllComponents (Runtime_FindComponent rt) (ComponentRegistry_ListNames (rt_components rt))
         (sched_init options) of
        (st, s) \<Rightarrow> if \<not> status_ok st then FromStatus st else Inr s)"

definition CreateScheduler :: "project_config \<Rightarrow> 'c runtime \<Rightarrow> (sched result \<times> 'c runtime) option" where
  "CreateScheduler p rt =
     do { st \<leftarrow> ProjectConfig_Validate p;
          if \<not> status_ok st then Some (FromStatus st, rt)
          else do { (st, rt') \<leftarrow> ApplyComponentSpecs p rt;
                    if \<not> status_ok st then Some (FromStatus st, rt')
                    else Some (case ProjectConfig_ToSchedulerOptions p of
                        Inl st \<Rightarrow> FromStatus st
                      | Inr options \<Rightarrow> schedule_all options rt', rt') } }"

subsection \<open>Components from factories\<close>

type_synonym 'c factory = "component_spec \<Rightarrow> 'c option result"

definition SamePolicy :: "message_policy \<Rightarrow> message_policy \<Rightarrow> bool" where
  "SamePolicy lhs rhs \<longleftrightarrow> delivery lhs = delivery rhs \<and> retention lhs = retention rhs
     \<and> freshness lhs = freshness rhs \<and> overflow lhs = overflow rhs \<and> queue_depth lhs = queue_depth rhs"

definition SameEndpoints :: "endpoint_config list \<Rightarrow> endpoint_config list \<Rightarrow> bool" where
  "SameEndpoints lhs rhs \<longleftrightarrow> list_all2 (\<lambda>l r. ts_name (ep_topic l) = ts_name (ep_topic r)
     \<and> ts_transport (ep_topic l) = ts_transport (ep_topic r)
     \<and> SamePolicy (ts_message_policy (ep_topic l)) (ts_message_policy (ep_topic r))
     \<and> ep_message l = ep_message r) lhs rhs"

definition SameTriggers :: "trigger_spec list \<Rightarrow> trigger_spec list \<Rightarrow> bool" where
  "SameTriggers lhs rhs \<longleftrightarrow> list_all2 (\<lambda>l r. tr_kind l = tr_kind r \<and> tr_period l = tr_period r
     \<and> tr_dependency_policy l = tr_dependency_policy r \<and> tr_data_dependencies l = tr_data_dependencies r
     \<and> tr_task_dependencies l = tr_task_dependencies r \<and> tr_service_dependencies l = tr_service_dependencies r
     \<and> tr_priority l = tr_priority r \<and> tr_deadline l = tr_deadline r) lhs rhs"

definition SameServices :: "service_spec list \<Rightarrow> service_spec list \<Rightarrow> bool" where
  "SameServices lhs rhs \<longleftrightarrow> list_all2 (\<lambda>l r. sv_name l = sv_name r \<and> sv_transport l = sv_transport r
     \<and> sv_request l = sv_request r \<and> sv_reply l = sv_reply r) lhs rhs"

definition SameSpec :: "component_spec \<Rightarrow> component_spec \<Rightarrow> bool" where
  "SameSpec lhs rhs \<longleftrightarrow> cs_name lhs = cs_name rhs \<and> cs_description lhs = cs_description rhs
     \<and> SameEndpoints (cs_readers lhs) (cs_readers rhs) \<and> SameEndpoints (cs_writers lhs) (cs_writers rhs)
     \<and> SameTriggers (cs_triggers lhs) (cs_triggers rhs) \<and> SameServices (cs_servers lhs) (cs_servers rhs)
     \<and> SameServices (cs_clients lhs) (cs_clients rhs)"

fun make_instances :: "('c \<Rightarrow> component_spec) \<Rightarrow> 'c factory \<Rightarrow> project_config \<Rightarrow> 'c runtime
    \<Rightarrow> component_config list \<Rightarrow> 'c list result" where
  "make_instances describe factory p rt [] = Inr []"
| "make_instances describe factory p rt (c # cs) =
     result_bind (ComponentConfig_ToComponentSpec c p) (\<lambda>spec.
     if result_ok (Runtime_FindComponent rt (cs_name spec))
     then FromStatus (Status_AlreadyExists (''component is already registered: '' @ cc_name c))
     else result_bind (factory spec) (\<lambda>ptr.
       case ptr of
         None \<Rightarrow> FromStatus (Status_InvalidArgument (''component factory returned null: '' @ cc_name c))
       | Some inst \<Rightarrow>
           if \<not> SameSpec spec (describe inst)
           then FromStatus (Status_InvalidArgument (''component factory returned mismatched spec: '' @ cc_name c))
           else result_bind (make_instances describe factory p rt cs) (\<lambda>insts. Inr (inst # insts))))"

fun register_instances :: "('c \<Rightarrow> component_spec) \<Rightarrow> 'c list \<Rightarrow> 'c runtime \<Rightarrow> status \<times> 'c runtime" where
  "register_instances describe [] rt = (Status_Ok, rt)"
| "register_instances describe (inst # insts) rt =
     (case RegisterComponentInstance describe (Some inst) rt of
        (st, rt') \<Rightarrow> if \<not> status_ok st then (st, rt') else register_instances describe insts rt')"

definition CreateScheduler_factory :: "('c \<Rightarrow> component_spec) \<Rightarrow> 'c factory option \<Rightarrow> project_config \<Rightarrow> 'c runtime
    \<Rightarrow> (sched result \<times> 'c runtime) option" where
  "CreateScheduler_factory describe factory p rt =
     do { st \<leftarrow> ProjectConfig_Validate p;
          Some (if \<not> status_ok st then (FromStatus st, rt)
            else case factory of
                None \<Rightarrow> (FromStatus (Status_InvalidArgument ''component factory must not be empty''), rt)
              | Some f \<Rightarrow>
                  (case make_instances describe f p rt (pj_components p) of
                     Inl st \<Rightarrow> (FromStatus st, rt)
                   | Inr insts \<Rightarrow>
                       (case register_instances describe insts rt of
                          (st, rt') \<Rightarrow>
                            if \<not> status_ok st then (FromStatus st, rt')
                            else (schedule_all (pj_scheduler_options p) rt', rt')))) }"

text \<open>\<open>ComponentFactoryRegistry\<close>: factories by component type.\<close>

type_synonym 'c factories = "(string, 'c factory) omap"

definition FactoryRegistry_Register :: "string \<Rightarrow> 'c factory option \<Rightarrow> 'c factories \<Rightarrow> status \<times> 'c factories" where
  "FactoryRegistry_Register type factory m =
     (let st = ValidateConfigId ''component type'' type in
      if \<not> status_ok st then (st, m)
      else case factory of
        None \<Rightarrow> (Status_InvalidArgument ''component factory must not be empty'', m)
      | Some f \<Rightarrow>
          if omap_find m type \<noteq> None
          then (Status_AlreadyExists (''component type is already registered: '' @ type), m)
          else (Status_Ok, omap_emplace type f m))"

definition FactoryRegistry_ValidateType :: "'c factories \<Rightarrow> string \<Rightarrow> status" where
  "FactoryRegistry_ValidateType m type =
     (let st = ValidateConfigId ''component type'' type in
      if \<not> status_ok st then st
      else if omap_find m type = None then Status_NotFound (''component type is not registered: '' @ type)
      else Status_Ok)"

definition FactoryRegistry_Create :: "'c factories \<Rightarrow> string \<Rightarrow> 'c factory" where
  "FactoryRegistry_Create m type spec =
     (let st = FactoryRegistry_ValidateType m type in
      if \<not> status_ok st then FromStatus st
      else case omap_find m type of Some f \<Rightarrow> f spec | None \<Rightarrow> FromStatus st)"

definition CreateScheduler_registry :: "('c \<Rightarrow> component_spec) \<Rightarrow> 'c factories \<Rightarrow> project_config \<Rightarrow> 'c runtime
    \<Rightarrow> (sched result \<times> 'c runtime) option" where
  "CreateScheduler_registry describe factories p rt =
     do { st \<leftarrow> ProjectConfig_Validate p;
          let st' = and_then st (validate_each (\<lambda>c. let st = FactoryRegistry_ValidateType factories (cc_type c) in
                if \<not> status_ok st
                then Status_Error (st_code st) (''component '' @ cc_name c @ '': '' @ st_message st)
                else Status_Ok) (pj_components p));
          if \<not> status_ok st' then Some (FromStatus st', rt)
          else CreateScheduler_factory describe
            (Some (\<lambda>spec. result_bind (ProjectConfig_FindComponent p (str (cs_name spec)))
              (\<lambda>c. FactoryRegistry_Create factories (cc_type c) spec))) p rt }"

end
