(* ===== verification/Configuration_Valid.thy ===== *)
theory Configuration_Valid
  imports Configuration
begin

text \<open>
  What a project that validates guarantees to the parts that run it: its names do not collide, its components
  become specifications the runtime and the scheduler accept, its task dependencies have no cycle.
\<close>

section \<open>Names of enumerators\<close>

lemma Normalize_pads:
  assumes "\<forall>ch \<in> set before. is_space ch" "\<forall>ch \<in> set after. is_space ch" "\<forall>ch \<in> set s. \<not> is_space ch"
  shows "Normalize (before @ s @ after) = map to_lower s"
proof (cases "s = []")
  case True
  with assms have "dropWhile is_space (before @ s @ after) = []" unfolding dropWhile_eq_Nil_conv by auto
  with True show ?thesis unfolding Normalize_def by (simp only: rev.simps dropWhile.simps list.map)
next
  case False
  with assms(3) have ends: "\<not> is_space (hd s)" "\<not> is_space (last s)" by simp_all
  have "dropWhile is_space (before @ s @ after) = s @ after"
    using assms(1) ends(1) False by (cases s) (simp_all add: dropWhile_append2)
  moreover have "dropWhile is_space (rev (s @ after)) = rev s"
    using assms(2) ends(2) False dropWhile_append2 [of "rev after" is_space "rev s"] by (cases s rule: rev_cases) auto
  ultimately show ?thesis by (simp add: Normalize_def)
qed

section \<open>Lookups\<close>

lemma FindTopic_Inr: "ProjectConfig_FindTopic p i = Inr t \<Longrightarrow> t \<in> set (pj_topics p) \<and> tc_id t = i"
  by (auto simp: ProjectConfig_FindTopic_def split: option.splits dest: find_SomeD)

lemma FindService_Inr: "ProjectConfig_FindService p i = Inr v \<Longrightarrow> v \<in> set (pj_services p) \<and> vc_id v = i"
  by (auto simp: ProjectConfig_FindService_def split: option.splits dest: find_SomeD)

lemma FindComponent_unique:
  assumes "distinct (map cc_name (pj_components p))" "c \<in> set (pj_components p)"
  shows "ProjectConfig_FindComponent p (cc_name c) = Inr c"
  using assms by (auto simp: ProjectConfig_FindComponent_def find_None_iff distinct_map inj_on_def
      split: option.splits dest: find_SomeD)

lemma ToEndpointConfig_Inr:
  "TopicConfig_ToEndpointConfig t = Inr e \<Longrightarrow> ts_name (ep_topic e) = NamedValue (tc_name t)"
  by (auto simp: TopicConfig_ToEndpointConfig_def Let_def NamedValue_Create_ok split: if_splits)

lemma ToServiceSpec_Inr:
  "ServiceConfig_ToServiceSpec v = Inr s \<Longrightarrow> sv_name s = NamedValue (vc_name v) \<and> status_ok (ServiceSpec_Validate s)"
  by (auto simp: ServiceConfig_ToServiceSpec_def Let_def NamedValue_Create_ok split: if_splits sum.splits)

section \<open>From triggers to trigger specifications\<close>

lemma trigger_topics_Inr:
  assumes "trigger_topics p seen ids = Inr names" "omap_ok seen"
  shows "distinct names \<and> set names \<inter> fst ` set seen = {}
    \<and> list_all2 (\<lambda>i n. \<exists>t. ProjectConfig_FindTopic p i = Inr t \<and> n = NamedValue (tc_name t)) ids names"
  using assms
proof (induction ids arbitrary: seen names)
  case Nil
  then show ?case by simp
next
  case (Cons i ids)
  then obtain t name rest where t: "ProjectConfig_FindTopic p i = Inr t" "name = NamedValue (tc_name t)"
      "omap_find seen name = None" "trigger_topics p (omap_emplace name i seen) ids = Inr rest" "names = name # rest"
    by (auto simp: NamedValue_Create_ok split: option.splits)
  have "fst ` set (omap_emplace name i seen) = insert name (fst ` set seen)"
    using t(3) by (simp add: omap_emplace_def set_omap_assign)
  moreover have "name \<notin> fst ` set seen" using t(3) by (auto simp: omap_find_def map_of_eq_None_iff)
  ultimately show ?case using Cons.IH [OF t(4) omap_ok_emplace [OF Cons.prems(2)]] t by auto
qed

lemma trigger_tasks_Inr: "trigger_tasks vs = Inr names \<Longrightarrow> names = map NamedValue vs"
  by (induction vs arbitrary: names) (auto simp: NamedValue_Create_ok)

lemma trigger_service_names_Inr:
  assumes "trigger_service_names p seen ids = Inr names"
  shows "distinct ids
    \<and> list_all2 (\<lambda>i n. \<exists>v. ProjectConfig_FindService p i = Inr v \<and> n = NamedValue (vc_name v)) ids names"
proof -
  have "distinct ids \<and> set ids \<inter> seen = {}
      \<and> list_all2 (\<lambda>i n. \<exists>v. ProjectConfig_FindService p i = Inr v \<and> n = NamedValue (vc_name v)) ids names"
    using assms
  proof (induction ids arbitrary: seen names)
    case Nil
    then show ?case by simp
  next
    case (Cons i ids)
    then obtain v rest where v: "i \<notin> seen" "ProjectConfig_FindService p i = Inr v"
        "trigger_service_names p (insert i seen) ids = Inr rest" "names = NamedValue (vc_name v) # rest"
      by (auto simp: NamedValue_Create_ok split: if_splits)
    from Cons.IH [OF v(3)] v show ?case by auto
  qed
  then show ?thesis by blast
qed

text \<open>The facts a trigger specification keeps of its configuration.\<close>

definition trigger_matches :: "project_config \<Rightarrow> trigger_config \<Rightarrow> trigger_spec \<Rightarrow> bool" where
  "trigger_matches p g t \<longleftrightarrow> tr_kind t = gc_kind g \<and> status_ok (TriggerSpec_Validate t)
     \<and> (gc_kind g = kData \<longrightarrow> tr_data_dependencies t \<noteq> [])
     \<and> (gc_kind g = kTaskDependency \<longrightarrow> tr_task_dependencies t \<noteq> [])
     \<and> (gc_kind g \<noteq> kService \<longrightarrow> gc_services g = [])
     \<and> distinct (tr_data_dependencies t) \<and> distinct (gc_services g)
     \<and> tr_task_dependencies t = map NamedValue (gc_task_dependencies g)
     \<and> list_all2 (\<lambda>i n. \<exists>x. ProjectConfig_FindTopic p i = Inr x \<and> n = NamedValue (tc_name x))
         (gc_data_topics g) (tr_data_dependencies t)
     \<and> list_all2 (\<lambda>i n. \<exists>v. ProjectConfig_FindService p i = Inr v \<and> n = NamedValue (vc_name v))
         (gc_services g) (tr_service_dependencies t)"

lemma ToTriggerSpec_Inr:
  assumes "TriggerConfig_ToTriggerSpec g p = Inr t"
  shows "trigger_matches p g t"
proof -
  from assms obtain topics tasks services where
      loops: "trigger_topics p [] (gc_data_topics g) = Inr topics" "trigger_tasks (gc_task_dependencies g) = Inr tasks"
        "trigger_service_names p {} (gc_services g) = Inr services"
    and t: "tr_kind t = gc_kind g" "tr_data_dependencies t = topics" "tr_task_dependencies t = tasks"
        "tr_service_dependencies t = services" "status_ok (TriggerSpec_Validate t)"
    and lists: "gc_kind g = kData \<longrightarrow> gc_data_topics g \<noteq> []" "gc_kind g = kTaskDependency \<longrightarrow> gc_task_dependencies g \<noteq> []"
        "gc_kind g \<noteq> kService \<longrightarrow> gc_services g = []"
    unfolding TriggerConfig_ToTriggerSpec_def Let_def by (auto split: if_splits)
  from trigger_topics_Inr [OF loops(1)] trigger_tasks_Inr [OF loops(2)] trigger_service_names_Inr [OF loops(3)] t lists
  show ?thesis unfolding trigger_matches_def by auto
qed

section \<open>From components to component specifications\<close>

lemma reader_endpoints_Inr:
  "reader_endpoints p policies ids = Inr es \<Longrightarrow>
     list_all2 (\<lambda>i e. \<exists>t. ProjectConfig_FindTopic p i = Inr t \<and> ts_name (ep_topic e) = NamedValue (tc_name t)) ids es"
proof (induction ids arbitrary: es)
  case Nil
  then show ?case by simp
next
  case (Cons i ids)
  then obtain t e rest where e: "ProjectConfig_FindTopic p i = Inr t" "TopicConfig_ToEndpointConfig t = Inr e"
      "reader_endpoints p policies ids = Inr rest"
      "es = (case omap_find policies i of None \<Rightarrow> e | Some policy \<Rightarrow> e\<lparr>ep_topic := (ep_topic e)\<lparr>ts_message_policy := policy\<rparr>\<rparr>) # rest"
    by (auto simp: ProjectConfig_BuildEndpoint_def Let_def)
  from Cons.IH [OF e(3)] e ToEndpointConfig_Inr [OF e(2)] show ?case by (auto split: option.splits)
qed

lemma service_specs_Inr:
  assumes "service_specs p name kind seen ids = Inr specs"
  shows "distinct ids
    \<and> list_all2 (\<lambda>i s. \<exists>v. ProjectConfig_FindService p i = Inr v \<and> sv_name s = NamedValue (vc_name v)) ids specs"
proof -
  have "distinct ids \<and> set ids \<inter> seen = {}
      \<and> list_all2 (\<lambda>i s. \<exists>v. ProjectConfig_FindService p i = Inr v \<and> sv_name s = NamedValue (vc_name v)) ids specs"
    using assms
  proof (induction ids arbitrary: seen specs)
    case Nil
    then show ?case by simp
  next
    case (Cons i ids)
    then obtain v s rest where v: "i \<notin> seen" "ProjectConfig_FindService p i = Inr v"
        "ServiceConfig_ToServiceSpec v = Inr s" "service_specs p name kind (insert i seen) ids = Inr rest" "specs = s # rest"
      by (auto split: if_splits sum.splits)
    from Cons.IH [OF v(4)] ToServiceSpec_Inr [OF v(3)] v show ?case by auto
  qed
  then show ?thesis by blast
qed

lemma claim_data_topics_Inr:
  assumes "claim_data_topics name readers index topics m = Inr m'" "omap_ok m"
  shows "omap_ok m' \<and> fst ` set m' = fst ` set m \<union> set topics \<and> distinct topics \<and> set topics \<inter> fst ` set m = {}
    \<and> (\<forall>n \<in> set topics. length (filter (\<lambda>r. ts_name (ep_topic r) = n) readers) \<le> 1)"
  using assms
proof (induction topics arbitrary: m)
  case Nil
  then show ?case by simp
next
  case (Cons n topics)
  then have n: "length (filter (\<lambda>r. ts_name (ep_topic r) = n) readers) \<le> 1" "omap_find m n = None"
      "claim_data_topics name readers index topics (omap_emplace n index m) = Inr m'"
    by (auto split: if_splits option.splits)
  have "fst ` set (omap_emplace n index m) = insert n (fst ` set m)"
    using n(2) by (simp add: omap_emplace_def set_omap_assign)
  moreover have "n \<notin> fst ` set m" using n(2) by (auto simp: omap_find_def map_of_eq_None_iff)
  ultimately show ?case using Cons.IH [OF n(3) omap_ok_emplace [OF Cons.prems(2)]] n(1) by auto
qed

lemma trigger_specs_Inr:
  assumes "trigger_specs p name readers index m gs = Inr ts" "omap_ok m"
  shows "list_all2 (trigger_matches p) gs ts \<and> distinct (data_topics ts) \<and> set (data_topics ts) \<inter> fst ` set m = {}
    \<and> (\<forall>n \<in> set (data_topics ts). length (filter (\<lambda>r. ts_name (ep_topic r) = n) readers) \<le> 1)"
  using assms
proof (induction gs arbitrary: index m ts)
  case Nil
  then show ?case by (simp add: data_topics_def)
next
  case (Cons g gs)
  then obtain t m' rest where t: "TriggerConfig_ToTriggerSpec g p = Inr t"
      "(if tr_kind t = kData then claim_data_topics name readers index (tr_data_dependencies t) m else Inr m) = Inr m'"
      "trigger_specs p name readers (index + 1) m' gs = Inr rest" "ts = t # rest"
    by (auto split: sum.splits)
  let ?ds = "if tr_kind t = kData then tr_data_dependencies t else []"
  have "omap_ok m' \<and> fst ` set m' = fst ` set m \<union> set ?ds \<and> distinct ?ds \<and> set ?ds \<inter> fst ` set m = {}
      \<and> (\<forall>n \<in> set ?ds. length (filter (\<lambda>r. ts_name (ep_topic r) = n) readers) \<le> 1)"
    using t(2) Cons.prems(2) claim_data_topics_Inr [of name readers index "tr_data_dependencies t" m m']
    by (cases "tr_kind t = kData") auto
  moreover have "data_topics ts = ?ds @ data_topics rest" by (simp add: t(4) data_topics_def)
  ultimately show ?case using Cons.IH [OF t(3)] ToTriggerSpec_Inr [OF t(1)] t(4) by auto
qed

text \<open>The parts of a translated component that its triggers refer to.\<close>

lemma ToComponentSpec_Inr:
  assumes "ComponentConfig_ToComponentSpec c p = Inr spec"
  shows "str (cs_name spec) = cc_name c" "status_ok (ComponentSpec_Validate spec)"
    "list_all2 (\<lambda>i e. \<exists>t. ProjectConfig_FindTopic p i = Inr t \<and> ts_name (ep_topic e) = NamedValue (tc_name t))
       (cc_readers c) (cs_readers spec)"
    "list_all2 (\<lambda>i s. \<exists>v. ProjectConfig_FindService p i = Inr v \<and> sv_name s = NamedValue (vc_name v))
       (cc_servers c) (cs_servers spec)"
    "list_all2 (trigger_matches p) (cc_triggers c) (cs_triggers spec)" "distinct (data_topics (cs_triggers spec))"
    "\<forall>n \<in> set (data_topics (cs_triggers spec)). length (topic_readers spec n) \<le> 1"
proof -
  from assms obtain readers servers clients writers triggers where
      l: "reader_endpoints p (cc_reader_policies c) (cc_readers c) = Inr readers"
        "service_specs p (cc_name c) ''server'' {} (cc_servers c) = Inr servers"
        "trigger_specs p (cc_name c) readers 0 [] (cc_triggers c) = Inr triggers"
    and spec: "spec = \<lparr>cs_name = NamedValue (cc_name c), cs_description = cc_description c, cs_readers = readers,
        cs_writers = writers, cs_triggers = triggers, cs_parameters = cc_parameters c, cs_servers = servers,
        cs_clients = clients\<rparr>" and ok: "status_ok (ComponentSpec_Validate spec)"
    unfolding ComponentConfig_ToComponentSpec_def Let_def by (auto simp: NamedValue_Create_ok split: if_splits)
  from l spec ok reader_endpoints_Inr [OF l(1)] service_specs_Inr [OF l(2)] trigger_specs_Inr [OF l(3)]
  show "str (cs_name spec) = cc_name c" "status_ok (ComponentSpec_Validate spec)"
    "list_all2 (\<lambda>i e. \<exists>t. ProjectConfig_FindTopic p i = Inr t \<and> ts_name (ep_topic e) = NamedValue (tc_name t))
       (cc_readers c) (cs_readers spec)"
    "list_all2 (\<lambda>i s. \<exists>v. ProjectConfig_FindService p i = Inr v \<and> sv_name s = NamedValue (vc_name v))
       (cc_servers c) (cs_servers spec)"
    "list_all2 (trigger_matches p) (cc_triggers c) (cs_triggers spec)" "distinct (data_topics (cs_triggers spec))"
    "\<forall>n \<in> set (data_topics (cs_triggers spec)). length (topic_readers spec n) \<le> 1"
    by (simp_all add: topic_readers_def)
qed

section \<open>Unique names\<close>

lemma status_ok_ValidateUniqueIds:
  "status_ok (ValidateUniqueIds seen ts) \<longleftrightarrow> distinct (map tc_id ts) \<and> set (map tc_id ts) \<inter> seen = {}"
  by (induction ts arbitrary: seen) auto

lemma status_ok_ValidateUniqueComponents:
  "status_ok (ValidateUniqueComponents seen cs) \<longleftrightarrow> distinct (map cc_name cs) \<and> set (map cc_name cs) \<inter> seen = {}"
  by (induction cs arbitrary: seen) auto

definition wire_topics :: "service_config \<Rightarrow> string set" where
  "wire_topics v = {vc_name v @ ''/request'', vc_name v @ ''/reply'', vc_name v @ ''/presence''}"

lemma owner_simps [simp]:
  "service_owner i = service_owner j \<longleftrightarrow> i = j" "topic_owner i \<noteq> service_owner j" "service_owner j \<noteq> topic_owner i"
  by (simp_all add: service_owner_def topic_owner_def)

lemma claim_wire_names_Inr:
  assumes "claim_wire_names i es m = Inr m'" "omap_ok m"
  shows "omap_ok m'
    \<and> (\<forall>n. omap_find m' n = (if n \<in> (\<lambda>e. str (ts_name (ep_topic e))) ` set es then Some (service_owner i) else omap_find m n))
    \<and> (\<forall>n owner. n \<in> (\<lambda>e. str (ts_name (ep_topic e))) ` set es \<longrightarrow> omap_find m n = Some owner \<longrightarrow> owner = service_owner i)"
  using assms
proof (induction es arbitrary: m)
  case Nil
  then show ?case by simp
next
  case (Cons e es)
  define n0 where "n0 = str (ts_name (ep_topic e))"
  have names: "n \<in> (\<lambda>e. str (ts_name (ep_topic e))) ` set (e # es) \<longleftrightarrow> n = n0 \<or> n \<in> (\<lambda>e. str (ts_name (ep_topic e))) ` set es" for n
    by (auto simp: n0_def)
  show ?case
  proof (cases "omap_find m n0")
    case None
    let ?m = "omap_emplace n0 (service_owner i) m"
    from None Cons.prems have "claim_wire_names i es ?m = Inr m'" by (simp add: Let_def n0_def)
    note ih = Cons.IH [OF this omap_ok_emplace [OF Cons.prems(2)]]
    have "omap_find ?m n = (if n = n0 then Some (service_owner i) else omap_find m n)" for n
      using None omap_find_emplace [OF Cons.prems(2), of n0 "service_owner i" n] by simp
    with ih None show ?thesis unfolding names by (metis option.distinct(1))
  next
    case (Some owner)
    with Cons.prems have "owner = service_owner i" "claim_wire_names i es m = Inr m'"
      by (simp_all add: Let_def n0_def split: if_splits)
    with Cons.IH [OF this(2) Cons.prems(2)] Some show ?thesis unfolding names by (metis option.inject)
  qed
qed

lemma EndpointsFor_wire_topics:
  assumes "ServiceConfig_ToServiceSpec v = Inr s" "EndpointsFor s = Inr e"
  shows "(\<lambda>x. str (ts_name (ep_topic x))) ` set [se_request e, se_reply e, se_presence e] = wire_topics v"
  using assms ToServiceSpec_Inr [OF assms(1)] by (simp add: EndpointsFor_ok wire_topics_def)

lemma validate_service_list_ok:
  assumes "status_ok (validate_service_list ids m vs)" "omap_ok m"
  shows "distinct (map vc_id vs) \<and> vc_id ` set vs \<inter> ids = {}
    \<and> (\<forall>v \<in> set vs. (\<exists>s e. ServiceConfig_ToServiceSpec v = Inr s \<and> EndpointsFor s = Inr e)
        \<and> (\<forall>n \<in> wire_topics v. \<forall>owner. omap_find m n = Some owner \<longrightarrow> owner = service_owner (vc_id v)))
    \<and> (\<forall>v \<in> set vs. \<forall>w \<in> set vs. vc_id v \<noteq> vc_id w \<longrightarrow> wire_topics v \<inter> wire_topics w = {})"
  using assms
proof (induction vs arbitrary: ids m)
  case Nil
  then show ?case by simp
next
  case (Cons v vs)
  have errors: "\<not> status_ok st" if "EndpointsFor s = Inl st" "status_ok (ServiceSpec_Validate s)" for s st
    using that by (auto simp: EndpointsFor_def Let_def SubTopic_def NamedValue_Create_def result_bind_def split: if_splits sum.splits)
  have errors': "\<not> status_ok st" if "ServiceConfig_ToServiceSpec v = Inl st" for st
    using that by (auto simp: ServiceConfig_ToServiceSpec_def Let_def split: if_splits sum.splits)
  have errors'': "\<not> status_ok st" if "claim_wire_names i es m = Inl st" for i es m st
    using that by (induction es arbitrary: m) (auto simp: Let_def split: if_splits option.splits)
  from Cons.prems(1) obtain s e m' where s: "vc_id v \<notin> ids" "ServiceConfig_ToServiceSpec v = Inr s" "EndpointsFor s = Inr e"
      "claim_wire_names (vc_id v) [se_request e, se_reply e, se_presence e] m = Inr m'"
      "status_ok (validate_service_list (insert (vc_id v) ids) m' vs)"
    by (auto simp del: claim_wire_names.simps split: if_splits sum.splits
        dest: errors errors' errors'' ToServiceSpec_Inr)
  note claim = claim_wire_names_Inr [OF s(4) Cons.prems(2), unfolded EndpointsFor_wire_topics [OF s(2,3)]]
  note ih = Cons.IH [OF s(5)]
  have ids: "vc_id w \<noteq> vc_id v" if "w \<in> set vs" for w using claim ih that by blast
  have other: "wire_topics v \<inter> wire_topics w = {}" if "w \<in> set vs" for w
  proof (rule equals0I)
    fix n assume n: "n \<in> wire_topics v \<inter> wire_topics w"
    with claim have "omap_find m' n = Some (service_owner (vc_id v))" by simp
    with ih claim that n have "service_owner (vc_id v) = service_owner (vc_id w)" by blast
    with ids [OF that] show False by simp
  qed
  have first: "\<forall>n \<in> wire_topics w. \<forall>owner. omap_find m n = Some owner \<longrightarrow> owner = service_owner (vc_id w)" if "w \<in> set vs" for w
  proof (intro ballI allI impI)
    fix n owner assume n: "n \<in> wire_topics w" "omap_find m n = Some owner"
    with other [OF that] claim have "omap_find m' n = Some owner" by auto
    with ih claim that n(1) show "owner = service_owner (vc_id w)" by blast
  qed
  have "distinct (map vc_id (v # vs)) \<and> vc_id ` set (v # vs) \<inter> ids = {}" using ih claim s(1) ids by auto
  moreover have "\<forall>x \<in> set (v # vs). (\<exists>s e. ServiceConfig_ToServiceSpec x = Inr s \<and> EndpointsFor s = Inr e)
        \<and> (\<forall>n \<in> wire_topics x. \<forall>owner. omap_find m n = Some owner \<longrightarrow> owner = service_owner (vc_id x))"
    using ih claim s(2,3) first by auto
  moreover have "wire_topics x \<inter> wire_topics w = {}" if "x \<in> set (v # vs)" "w \<in> set (v # vs)" "vc_id x \<noteq> vc_id w" for x w
    using that other ih claim by (cases "x = v"; cases "w = v") auto
  ultimately show ?case by blast
qed

lemma topic_owners:
  assumes "omap_ok m" "\<forall>owner \<in> ran (omap_find m). \<exists>i. owner = topic_owner i"
    and "m' = fold (\<lambda>t. omap_emplace (tc_name t) (topic_owner (tc_id t))) ts m"
  shows "omap_ok m' \<and> (\<forall>owner \<in> ran (omap_find m'). \<exists>i. owner = topic_owner i)
    \<and> dom (omap_find m') = dom (omap_find m) \<union> tc_name ` set ts"
  using assms(1,2) unfolding assms(3)
proof (induction ts arbitrary: m)
  case Nil
  then show ?case by simp
next
  case (Cons t ts)
  let ?m = "omap_emplace (tc_name t) (topic_owner (tc_id t)) m"
  have "\<forall>owner \<in> ran (omap_find ?m). \<exists>i. owner = topic_owner i"
    using Cons.prems by (auto simp: ran_def omap_find_emplace split: if_splits)
  moreover have "dom (omap_find ?m) = insert (tc_name t) (dom (omap_find m))"
    using Cons.prems(1) by (auto simp: omap_find_emplace split: if_splits)
  ultimately show ?case using Cons.IH [of ?m] omap_ok_emplace [OF Cons.prems(1)] by auto
qed

text \<open>All of a project's wire names are its own: what \<open>ValidateServices\<close> accepts.\<close>

lemma ValidateServices_ok:
  assumes "status_ok (ValidateServices p)"
  shows "distinct (map vc_id (pj_services p))"
    "\<forall>v \<in> set (pj_services p). \<exists>s e. ServiceConfig_ToServiceSpec v = Inr s \<and> EndpointsFor s = Inr e"
    "\<forall>v \<in> set (pj_services p). wire_topics v \<inter> tc_name ` set (pj_topics p) = {}"
    "\<forall>v \<in> set (pj_services p). \<forall>w \<in> set (pj_services p). vc_id v \<noteq> vc_id w \<longrightarrow> wire_topics v \<inter> wire_topics w = {}"
proof -
  let ?m = "fold (\<lambda>t. omap_emplace (tc_name t) (topic_owner (tc_id t))) (pj_topics p) []"
  have m: "omap_ok ?m" "\<forall>owner \<in> ran (omap_find ?m). \<exists>i. owner = topic_owner i" "dom (omap_find ?m) = tc_name ` set (pj_topics p)"
    using topic_owners [of "[]" ?m "pj_topics p"] by (simp_all add: ran_def dom_def)
  note list = validate_service_list_ok [OF _ m(1), of "{}" "pj_services p"]
  from list assms show "distinct (map vc_id (pj_services p))"
    "\<forall>v \<in> set (pj_services p). \<exists>s e. ServiceConfig_ToServiceSpec v = Inr s \<and> EndpointsFor s = Inr e"
    "\<forall>v \<in> set (pj_services p). \<forall>w \<in> set (pj_services p). vc_id v \<noteq> vc_id w \<longrightarrow> wire_topics v \<inter> wire_topics w = {}"
    by (simp_all add: ValidateServices_def)
  show "\<forall>v \<in> set (pj_services p). wire_topics v \<inter> tc_name ` set (pj_topics p) = {}"
  proof (intro ballI equals0I)
    fix v n assume v: "v \<in> set (pj_services p)" "n \<in> wire_topics v \<inter> tc_name ` set (pj_topics p)"
    then have "n \<in> dom (omap_find ?m)" unfolding m(3) by blast
    then obtain owner where owner: "omap_find ?m n = Some owner" by blast
    with m(2) obtain i where "owner = topic_owner i" by (meson ranI)
    moreover have "owner = service_owner (vc_id v)" using list assms v owner unfolding ValidateServices_def by blast
    ultimately show False by simp
  qed
qed

section \<open>Errors are errors\<close>

text \<open>A result without a value carries a status that is not ok, through all of the translation.\<close>

definition proper :: "'a result \<Rightarrow> bool" where
  "proper r \<longleftrightarrow> (\<forall>st. r = Inl st \<longrightarrow> \<not> status_ok st)"

lemma proper_simps [simp]:
  "proper (FromStatus s)" "proper (Inr v)" "proper (Inl st) \<longleftrightarrow> \<not> status_ok st"
  by (auto simp: proper_def)

lemma proper_bind [intro!]: "proper r \<Longrightarrow> (\<And>x. proper (f x)) \<Longrightarrow> proper (result_bind r f)"
  by (cases r) simp_all

lemma proper_lookups [simp]:
  "proper (NamedValue_Create label v)" "proper (ProjectConfig_FindTopic p i)" "proper (ProjectConfig_FindService p i)"
  "proper (TopicConfig_ToEndpointConfig t)" "proper (ServiceConfig_ToServiceSpec s)" "proper (ProjectConfig_BuildEndpoint p i)"
proof -
  show name: "proper (NamedValue_Create label v)" for label v by (simp add: NamedValue_Create_def Let_def)
  show topic: "proper (ProjectConfig_FindTopic p i)" by (auto simp: ProjectConfig_FindTopic_def split: option.splits)
  show "proper (ProjectConfig_FindService p i)" by (auto simp: ProjectConfig_FindService_def split: option.splits)
  show endpoint: "proper (TopicConfig_ToEndpointConfig t)" for t
    using name by (auto simp: TopicConfig_ToEndpointConfig_def Let_def)
  show "proper (ServiceConfig_ToServiceSpec s)" by (auto simp: ServiceConfig_ToServiceSpec_def Let_def split: sum.splits)
  show "proper (ProjectConfig_BuildEndpoint p i)" using topic endpoint by (auto simp: ProjectConfig_BuildEndpoint_def)
qed

lemma proper_loops [simp]:
  "proper (trigger_topics p seen ids)" "proper (trigger_tasks vs)" "proper (trigger_service_names p seen' ids)"
  "proper (reader_endpoints p policies ids)" "proper (service_specs p name kind seen' ids)" "proper (writer_endpoints p ids)"
  "proper (claim_data_topics name readers index topics m)" "proper (TriggerConfig_ToTriggerSpec g p)"
  "proper (trigger_specs p name readers index m gs)"
proof -
  show topics: "proper (trigger_topics p seen ids)" for seen ids
    by (induction ids arbitrary: seen) (auto split: option.splits)
  show tasks: "proper (trigger_tasks vs)" for vs by (induction vs) auto
  show services: "proper (trigger_service_names p seen' ids)" for seen' ids
    by (induction ids arbitrary: seen') auto
  show "proper (reader_endpoints p policies ids)" by (induction ids) (auto simp: Let_def)
  show "proper (service_specs p name kind seen' ids)" by (induction ids arbitrary: seen') (auto split: sum.splits)
  show "proper (writer_endpoints p ids)" by (induction ids) auto
  show claim: "proper (claim_data_topics name readers index topics m)" for index topics m
    by (induction topics arbitrary: m) (auto split: option.splits)
  show trigger: "proper (TriggerConfig_ToTriggerSpec g p)" for g
    using topics tasks services by (auto simp: TriggerConfig_ToTriggerSpec_def Let_def)
  show "proper (trigger_specs p name readers index m gs)"
    using claim by (induction gs arbitrary: index m) (auto split: sum.splits)
qed

lemma proper_ToComponentSpec [simp]: "proper (ComponentConfig_ToComponentSpec c p)"
  unfolding ComponentConfig_ToComponentSpec_def Let_def by (intro proper_bind) auto

section \<open>Components of a valid project\<close>

lemma ComponentConfig_Validate_ok:
  assumes "status_ok (ComponentConfig_Validate c p)"
  obtains spec where "ComponentConfig_ToComponentSpec c p = Inr spec"
    "\<forall>g \<in> set (cc_triggers c). set (gc_data_topics g) \<subseteq> set (cc_readers c) \<and> set (gc_services g) \<subseteq> set (cc_servers c)"
proof (cases "ComponentConfig_ToComponentSpec c p")
  case (Inl st)
  with assms proper_ToComponentSpec [of c p] show thesis by (simp add: ComponentConfig_Validate_def)
next
  case (Inr spec)
  with assms show thesis
    by (intro that) (auto simp: ComponentConfig_Validate_def check_trigger_sources_def split: if_splits)
qed

lemma list_all2_members:
  "list_all2 P xs ys \<Longrightarrow> y \<in> set ys \<Longrightarrow> \<exists>x \<in> set xs. P x y" "list_all2 P xs ys \<Longrightarrow> x \<in> set xs \<Longrightarrow> \<exists>y \<in> set ys. P x y"
  by (induction rule: list_all2_induct) auto

lemma trigger_matches_sources:
  assumes "trigger_matches p g t"
  shows "n \<in> set (tr_data_dependencies t) \<Longrightarrow>
      \<exists>i x. i \<in> set (gc_data_topics g) \<and> ProjectConfig_FindTopic p i = Inr x \<and> n = NamedValue (tc_name x)"
    "n \<in> set (tr_service_dependencies t) \<Longrightarrow>
      \<exists>i v. i \<in> set (gc_services g) \<and> ProjectConfig_FindService p i = Inr v \<and> n = NamedValue (vc_name v)"
proof -
  from assms have l: "list_all2 (\<lambda>i n. \<exists>x. ProjectConfig_FindTopic p i = Inr x \<and> n = NamedValue (tc_name x))
        (gc_data_topics g) (tr_data_dependencies t)"
      "list_all2 (\<lambda>i n. \<exists>v. ProjectConfig_FindService p i = Inr v \<and> n = NamedValue (vc_name v))
        (gc_services g) (tr_service_dependencies t)" unfolding trigger_matches_def by blast+
  show "n \<in> set (tr_data_dependencies t) \<Longrightarrow>
      \<exists>i x. i \<in> set (gc_data_topics g) \<and> ProjectConfig_FindTopic p i = Inr x \<and> n = NamedValue (tc_name x)"
    using list_all2_members(1) [OF l(1), of n] by auto
  show "n \<in> set (tr_service_dependencies t) \<Longrightarrow>
      \<exists>i v. i \<in> set (gc_services g) \<and> ProjectConfig_FindService p i = Inr v \<and> n = NamedValue (vc_name v)"
    using list_all2_members(1) [OF l(2), of n] by auto
qed

lemma distinct_trigger_services:
  "distinct (trigger_services ts) \<Longrightarrow> t \<in> set ts \<Longrightarrow> tr_kind t = kService \<Longrightarrow> distinct (tr_service_dependencies t)"
  by (induction ts) (auto simp: trigger_services_def split: if_splits)

lemma component_trigger_accepted:
  assumes "ComponentConfig_ToComponentSpec c p = Inr spec" "t \<in> set (cs_triggers spec)"
    and sources: "\<forall>g \<in> set (cc_triggers c). set (gc_data_topics g) \<subseteq> set (cc_readers c) \<and> set (gc_services g) \<subseteq> set (cc_servers c)"
    and services: "distinct (trigger_services (cs_triggers spec))"
  shows "status_ok (ValidateTrigger spec t)"
proof -
  note spec = ToComponentSpec_Inr [OF assms(1)]
  from list_all2_members(1) [OF spec(5) assms(2)] obtain g where g: "g \<in> set (cc_triggers c)" "trigger_matches p g t" by blast
  have "\<exists>e. topic_readers spec n = [e]" if "tr_kind t = kData" "n \<in> set (tr_data_dependencies t)" for n
  proof -
    from g(2) that(2) obtain i x where i: "i \<in> set (gc_data_topics g)" "ProjectConfig_FindTopic p i = Inr x" "n = NamedValue (tc_name x)"
      using trigger_matches_sources(1) by blast
    with sources g(1) have "i \<in> set (cc_readers c)" by blast
    from list_all2_members(2) [OF spec(3) this] i(2,3) obtain e where "e \<in> set (cs_readers spec)" "ts_name (ep_topic e) = n" by auto
    then have "topic_readers spec n \<noteq> []" by (auto simp: topic_readers_def filter_empty_conv)
    moreover have "n \<in> set (data_topics (cs_triggers spec))" using that assms(2) by (auto simp: data_topics_def)
    with spec(7) have "length (topic_readers spec n) \<le> 1" by blast
    ultimately show ?thesis by (cases "topic_readers spec n") auto
  qed
  moreover have "n \<in> sv_name ` set (cs_servers spec)" if "n \<in> set (tr_service_dependencies t)" for n
  proof -
    from g(2) that obtain i x where i: "i \<in> set (gc_services g)" "ProjectConfig_FindService p i = Inr x" "n = NamedValue (vc_name x)"
      using trigger_matches_sources(2) by blast
    with sources g(1) have "i \<in> set (cc_servers c)" by blast
    from list_all2_members(2) [OF spec(4) this] i(2,3) show ?thesis by force
  qed
  moreover have "distinct (tr_service_dependencies t)" if "tr_kind t = kService"
    using services assms(2) that by (rule distinct_trigger_services)
  ultimately show ?thesis using g(2) unfolding status_ok_ValidateTrigger trigger_matches_def by (intro conjI impI ballI) auto
qed

lemma component_accepted_iff:
  assumes "status_ok (ComponentConfig_Validate c p)" "ComponentConfig_ToComponentSpec c p = Inr spec"
  shows "status_ok (ValidateComponentSpec spec) \<longleftrightarrow> distinct (trigger_services (cs_triggers spec))"
proof -
  note spec = ToComponentSpec_Inr [OF assms(2)]
  from assms have "\<forall>g \<in> set (cc_triggers c). set (gc_data_topics g) \<subseteq> set (cc_readers c) \<and> set (gc_services g) \<subseteq> set (cc_servers c)"
    by (auto elim: ComponentConfig_Validate_ok)
  with component_trigger_accepted [OF assms(2)] spec(2,6) show ?thesis
    by (auto simp: ValidateComponentSpec_def status_ok_validate_triggers)
qed

text \<open>A service id names one service of a valid project and no other has its name.\<close>

lemma list_all2_distinct:
  assumes "list_all2 R xs ys" "\<And>x y y'. R x y \<Longrightarrow> R x y' \<Longrightarrow> y = y'" "\<And>x x' y. R x y \<Longrightarrow> R x' y \<Longrightarrow> x = x'"
  shows "distinct xs \<longleftrightarrow> distinct ys"
  using assms(1)
proof (induction rule: list_all2_induct)
  case (Cons x xs y ys)
  have "x \<in> set xs \<longleftrightarrow> y \<in> set ys"
    using list_all2_members [OF Cons.hyps(2)] Cons.hyps(1) assms(2,3) by metis
  with Cons.IH show ?case by simp
qed simp

lemma service_names_injective:
  assumes "status_ok (ValidateServices p)" "ProjectConfig_FindService p i = Inr v" "ProjectConfig_FindService p j = Inr w"
    "vc_name v = vc_name w"
  shows "i = j"
proof (rule ccontr)
  assume "i \<noteq> j"
  with FindService_Inr [OF assms(2)] FindService_Inr [OF assms(3)] ValidateServices_ok(4) [OF assms(1)]
  have "wire_topics v \<inter> wire_topics w = {}" by blast
  with assms(4) show False by (auto simp: wire_topics_def)
qed

lemma trigger_services_match:
  assumes "list_all2 (trigger_matches p) gs ts"
  shows "list_all2 (\<lambda>i n. \<exists>v. ProjectConfig_FindService p i = Inr v \<and> n = NamedValue (vc_name v))
    (concat (map gc_services gs)) (trigger_services ts)"
  using assms
proof (induction rule: list_all2_induct)
  case (Cons g gs t ts)
  let ?R = "\<lambda>i n. \<exists>v. ProjectConfig_FindService p i = Inr v \<and> n = NamedValue (vc_name v)"
  from Cons.hyps(1) have "list_all2 ?R (gc_services g) (if tr_kind t = kService then tr_service_dependencies t else [])"
    unfolding trigger_matches_def by auto
  moreover have "trigger_services (t # ts) = (if tr_kind t = kService then tr_service_dependencies t else []) @ trigger_services ts"
    by (simp add: trigger_services_def)
  ultimately show ?case using Cons.IH by (simp add: list_all2_appendI)
qed (simp add: trigger_services_def)

lemma distinct_service_ids:
  assumes "status_ok (ValidateServices p)" "ComponentConfig_ToComponentSpec c p = Inr spec"
  shows "distinct (trigger_services (cs_triggers spec)) \<longleftrightarrow> distinct (concat (map gc_services (cc_triggers c)))"
  by (rule list_all2_distinct [OF trigger_services_match [OF ToComponentSpec_Inr(5) [OF assms(2)]], symmetric])
    (use service_names_injective [OF assms(1)] in auto)

section \<open>Task dependencies of a valid project\<close>

definition add_edge :: "string \<times> string \<Rightarrow> task_graph \<Rightarrow> task_graph" where
  "add_edge e g = g\<lparr>gr_dependents := omap_assign (fst e) (omap_at [] (gr_dependents g) (fst e) @ [snd e]) (gr_dependents g),
     gr_indegree := omap_assign (snd e) (omap_at 0 (gr_indegree g) (snd e) + 1) (gr_indegree g)\<rparr>"

definition config_edges :: "component_config list \<Rightarrow> (string \<times> string) list" where
  "config_edges cs = concat (map (\<lambda>c. concat (map (\<lambda>g. map (\<lambda>u. (u, cc_name c)) (gc_task_dependencies g))
     (filter (\<lambda>g. gc_kind g = kTaskDependency) (cc_triggers c)))) cs)"

definition graph_ok :: "task_graph \<Rightarrow> bool" where
  "graph_ok g \<longleftrightarrow> omap_ok (gr_indegree g) \<and> omap_ok (gr_dependents g)"

lemma add_edges_spec:
  assumes "graph_ok g"
  shows "graph_ok (fold add_edge es g)
    \<and> (\<forall>u. omap_at [] (gr_dependents (fold add_edge es g)) u = omap_at [] (gr_dependents g) u @ map snd (filter (\<lambda>e. fst e = u) es))
    \<and> (\<forall>v. omap_at 0 (gr_indegree (fold add_edge es g)) v = omap_at 0 (gr_indegree g) v + length (filter (\<lambda>e. snd e = v) es))
    \<and> fst ` set (gr_indegree (fold add_edge es g)) = fst ` set (gr_indegree g) \<union> snd ` set es"
  using assms
proof (induction es arbitrary: g)
  case Nil
  then show ?case by simp
next
  case (Cons e es)
  then have ok: "graph_ok (add_edge e g)" by (simp add: graph_ok_def add_edge_def om.ok_assign)
  have "omap_at [] (gr_dependents (add_edge e g)) u = omap_at [] (gr_dependents g) u @ (if u = fst e then [snd e] else [])"
      "omap_at 0 (gr_indegree (add_edge e g)) u = omap_at 0 (gr_indegree g) u + (if u = snd e then 1 else 0)" for u
    using Cons.prems by (simp_all add: graph_ok_def add_edge_def omap_at_assign)
  moreover have "fst ` set (gr_indegree (add_edge e g)) = insert (snd e) (fst ` set (gr_indegree g))"
    by (simp add: add_edge_def set_omap_assign)
  ultimately show ?case using Cons.IH [OF ok] by auto
qed

lemma add_upstreams_Inr:
  assumes "add_upstreams name index seen us g = Inr g'" "name \<in> fst ` set (gr_indegree g)"
  shows "g' = fold add_edge (map (\<lambda>u. (u, name)) us) g \<and> name \<notin> set us \<and> distinct us \<and> set us \<inter> seen = {}
    \<and> set us \<subseteq> fst ` set (gr_indegree g)"
  using assms
proof (induction us arbitrary: seen g)
  case Nil
  then show ?case by simp
next
  case (Cons u us)
  let ?g = "add_edge (u, name) g"
  from Cons.prems(1) have u: "u \<noteq> name" "u \<notin> seen" "omap_find (gr_indegree g) u \<noteq> None"
      "add_upstreams name index (insert u seen) us ?g = Inr g'"
    by (auto simp: Let_def add_edge_def split: if_splits)
  have keys: "fst ` set (gr_indegree ?g) = fst ` set (gr_indegree g)"
    using Cons.prems(2) by (auto simp: add_edge_def set_omap_assign)
  have "u \<in> fst ` set (gr_indegree g)" using u(3) by (simp add: omap_find_def map_of_eq_None_iff)
  with Cons.IH [OF u(4)] keys Cons.prems(2) u(1,2) show ?case by auto
qed

definition task_trigger_ok :: "string set \<Rightarrow> string \<Rightarrow> trigger_config \<Rightarrow> bool" where
  "task_trigger_ok names name g \<longleftrightarrow> gc_kind g = kTaskDependency \<longrightarrow>
     name \<notin> set (gc_task_dependencies g) \<and> distinct (gc_task_dependencies g) \<and> set (gc_task_dependencies g) \<subseteq> names"

lemma add_task_triggers_Inr:
  assumes "add_task_triggers name index gs g = Inr g'" "name \<in> fst ` set (gr_indegree g)" "graph_ok g"
  shows "g' = fold add_edge (concat (map (\<lambda>x. map (\<lambda>u. (u, name)) (gc_task_dependencies x))
      (filter (\<lambda>x. gc_kind x = kTaskDependency) gs))) g
    \<and> (\<forall>x \<in> set gs. task_trigger_ok (fst ` set (gr_indegree g)) name x)"
  using assms
proof (induction gs arbitrary: index g)
  case Nil
  then show ?case by simp
next
  case (Cons x gs)
  show ?case
  proof (cases "gc_kind x = kTaskDependency")
    case False
    with Cons.prems have "add_task_triggers name (index + 1) gs g = Inr g'" by simp
    from Cons.IH [OF this Cons.prems(2,3)] False show ?thesis by (simp add: task_trigger_ok_def)
  next
    case True
    with Cons.prems(1) obtain g1 where g1: "add_upstreams name index {} (gc_task_dependencies x) g = Inr g1"
        "add_task_triggers name (index + 1) gs g1 = Inr g'" by auto
    note up = add_upstreams_Inr [OF g1(1) Cons.prems(2)]
    note add = add_edges_spec [OF Cons.prems(3), of "map (\<lambda>u. (u, name)) (gc_task_dependencies x)"]
    have "snd ` set (map (\<lambda>u. (u, name)) (gc_task_dependencies x)) \<subseteq> {name}" by auto
    then have "snd ` set (map (\<lambda>u. (u, name)) (gc_task_dependencies x)) \<subseteq> fst ` set (gr_indegree g)"
      by (rule order_trans) (use Cons.prems(2) in simp)
    with up add have keys: "fst ` set (gr_indegree g1) = fst ` set (gr_indegree g)" by (metis Un_absorb2)
    have ok: "graph_ok g1" using up add by blast
    from Cons.IH [OF g1(2) _ ok] keys Cons.prems(2) up True show ?thesis by (simp add: task_trigger_ok_def)
  qed
qed

lemma add_components_Inr:
  assumes "add_components cs g = Inr g'" "cc_name ` set cs \<subseteq> fst ` set (gr_indegree g)" "graph_ok g"
  shows "g' = fold add_edge (config_edges cs) g
    \<and> (\<forall>c \<in> set cs. \<forall>x \<in> set (cc_triggers c). task_trigger_ok (fst ` set (gr_indegree g)) (cc_name c) x)"
  using assms
proof (induction cs arbitrary: g)
  case Nil
  then show ?case by (simp add: config_edges_def)
next
  case (Cons c cs)
  then obtain g1 where g1: "add_task_triggers (cc_name c) 0 (cc_triggers c) g = Inr g1" "add_components cs g1 = Inr g'" by auto
  define es where "es = concat (map (\<lambda>x. map (\<lambda>u. (u, cc_name c)) (gc_task_dependencies x))
    (filter (\<lambda>x. gc_kind x = kTaskDependency) (cc_triggers c)))"
  have name: "cc_name c \<in> fst ` set (gr_indegree g)" using Cons.prems(2) by auto
  note one = add_task_triggers_Inr [OF g1(1) name Cons.prems(3), folded es_def]
  note add = add_edges_spec [OF Cons.prems(3), of es]
  have "snd ` set es \<subseteq> {cc_name c}" by (auto simp: es_def)
  then have "snd ` set es \<subseteq> fst ` set (gr_indegree g)" by (rule order_trans) (use name in simp)
  with one add have keys: "fst ` set (gr_indegree g1) = fst ` set (gr_indegree g)" by (metis Un_absorb2)
  have ok: "graph_ok g1" using one add by blast
  have split: "config_edges (c # cs) = es @ config_edges cs" by (simp add: config_edges_def es_def)
  have "cc_name ` set cs \<subseteq> fst ` set (gr_indegree g1)" unfolding keys using Cons.prems(2) by simp
  note ih = Cons.IH [OF g1(2) this ok, unfolded keys]
  from one have "g1 = fold add_edge es g" ..
  with ih have "g' = fold add_edge (config_edges (c # cs)) g" by (simp only: split fold_append comp_apply)
  moreover have "\<forall>d \<in> set (c # cs). \<forall>x \<in> set (cc_triggers d). task_trigger_ok (fst ` set (gr_indegree g)) (cc_name d) x"
    using conjunct2 [OF one] conjunct2 [OF ih] by simp
  ultimately show ?case by (rule conjI)
qed

lemma proper_add_components: "proper (add_components cs g)"
proof -
  have up: "proper (add_upstreams name index seen us g)" for name index seen us g
    by (induction us arbitrary: seen g) (auto simp: Let_def)
  have "proper (add_task_triggers name index gs g)" for name index gs g
    by (induction gs arbitrary: index g) (auto simp: up)
  then show ?thesis by (induction cs arbitrary: g) auto
qed

lemma ValidateTaskDependencies_returns:
  assumes "distinct (map cc_name cs)"
  shows "\<exists>st. ValidateTaskDependencies cs = Some st
    \<and> (status_ok st \<longrightarrow> acyclic (set (config_edges cs))
        \<and> (\<forall>c \<in> set cs. \<forall>x \<in> set (cc_triggers c). task_trigger_ok (cc_name ` set cs) (cc_name c) x))"
proof -
  let ?g0 = "\<lparr>gr_indegree = fold (\<lambda>c. omap_emplace (cc_name c) 0) cs [], gr_dependents = []\<rparr>"
  have fold_map: "fold (\<lambda>c. omap_emplace (cc_name c) 0) cs m = fold (\<lambda>e. omap_emplace (fst e) 0) (map (\<lambda>c. (cc_name c, c)) cs) m"
    for m :: "(string, nat) omap" by (induction cs arbitrary: m) auto
  have init: "omap_ok (gr_indegree ?g0)" "\<forall>v. omap_at 0 (gr_indegree ?g0) v = 0" "fst ` set (gr_indegree ?g0) = cc_name ` set cs"
    using initial_indegree [of "[]" "map (\<lambda>c. (cc_name c, c)) cs"] by (auto simp: fold_map omap_at_def image_image)
  then have ok: "graph_ok ?g0" by (simp add: graph_ok_def)
  show ?thesis
  proof (cases "add_components cs ?g0")
    case (Inl st)
    with proper_add_components [of cs ?g0] show ?thesis by (simp add: ValidateTaskDependencies_def)
  next
    case (Inr g)
    have g: "g = fold add_edge (config_edges cs) ?g0"
        "\<forall>c \<in> set cs. \<forall>x \<in> set (cc_triggers c). task_trigger_ok (cc_name ` set cs) (cc_name c) x"
      using add_components_Inr [OF Inr _ ok] init(3) by simp_all
    have edges: "\<forall>(u, v) \<in> set (config_edges cs). u \<in> cc_name ` set cs \<and> v \<in> cc_name ` set cs"
      using g(2) by (auto simp: config_edges_def task_trigger_ok_def)
    note add = add_edges_spec [OF ok, of "config_edges cs", folded g(1)]
    have "omap_ok (gr_indegree g)" using add by (simp add: graph_ok_def)
    moreover have "fst ` set (gr_indegree g) = cc_name ` set cs" using add init(3) edges by auto
    moreover have "omap_at [] (gr_dependents g) u = map snd (filter (\<lambda>e. fst e = u) (config_edges cs))" for u
      using add by (simp add: omap_at_def)
    moreover have "omap_at 0 (gr_indegree g) v = length (filter (\<lambda>e. snd e = v) (config_edges cs))" for v
      using add init(2) by simp
    moreover have "card (cc_name ` set cs) = length cs" using assms by (metis distinct_card length_map list.set_map)
    ultimately obtain visited where "kahn (omap_at [] (gr_dependents g)) (map fst (filter (\<lambda>e. snd e = 0) (gr_indegree g)))
        (gr_indegree g) 0 = Some visited" "visited = length cs \<longleftrightarrow> acyclic (set (config_edges cs))"
      using kahn_decides [of "gr_indegree g" "cc_name ` set cs" "config_edges cs"] edges by metis
    with Inr g(2) show ?thesis by (simp add: ValidateTaskDependencies_def)
  qed
qed

section \<open>Valid projects\<close>

definition valid_project :: "project_config \<Rightarrow> bool" where
  "valid_project p \<longleftrightarrow> (\<exists>st. ProjectConfig_Validate p = Some st \<and> status_ok st)"

lemma ProjectConfig_Validate_returns: "\<exists>st. ProjectConfig_Validate p = Some st"
proof (cases "status_ok (ValidateUniqueComponents {} (pj_components p))")
  case True
  then have "distinct (map cc_name (pj_components p))" by (simp add: status_ok_ValidateUniqueComponents)
  from ValidateTaskDependencies_returns [OF this] show ?thesis by (auto simp: ProjectConfig_Validate_def Let_def)
next
  case False
  then show ?thesis by (simp add: ProjectConfig_Validate_def Let_def)
qed

lemma valid_project_parts:
  assumes "valid_project p"
  shows "status_ok (SchedulerOptions_Validate (pj_scheduler_options p))"
    "distinct (map tc_id (pj_topics p))" "distinct (map cc_name (pj_components p))"
    "status_ok (ValidateServices p)" "\<forall>c \<in> set (pj_components p). status_ok (ComponentConfig_Validate c p)"
    "acyclic (set (config_edges (pj_components p)))"
    "\<forall>c \<in> set (pj_components p). \<forall>g \<in> set (cc_triggers c).
       task_trigger_ok (cc_name ` set (pj_components p)) (cc_name c) g"
proof -
  from assms have parts: "status_ok (SchedulerOptions_Validate (pj_scheduler_options p))"
      "status_ok (ValidateUniqueIds {} (pj_topics p))" "status_ok (ValidateUniqueComponents {} (pj_components p))"
      "status_ok (ValidateServices p)" "\<forall>c \<in> set (pj_components p). status_ok (ComponentConfig_Validate c p)"
      "\<exists>st. ValidateTaskDependencies (pj_components p) = Some st \<and> status_ok st"
    unfolding valid_project_def ProjectConfig_Validate_def Let_def by (auto split: if_splits)
  then show "status_ok (SchedulerOptions_Validate (pj_scheduler_options p))"
    "distinct (map tc_id (pj_topics p))" and names: "distinct (map cc_name (pj_components p))"
    and "status_ok (ValidateServices p)" "\<forall>c \<in> set (pj_components p). status_ok (ComponentConfig_Validate c p)"
    by (simp_all add: status_ok_ValidateUniqueIds status_ok_ValidateUniqueComponents)
  from ValidateTaskDependencies_returns [OF names] parts(6)
  show "acyclic (set (config_edges (pj_components p)))"
    "\<forall>c \<in> set (pj_components p). \<forall>g \<in> set (cc_triggers c).
       task_trigger_ok (cc_name ` set (pj_components p)) (cc_name c) g" by auto
qed

text \<open>The specification a component of a valid project is translated to.\<close>

definition spec_of :: "project_config \<Rightarrow> component_config \<Rightarrow> component_spec" where
  "spec_of p c = (case ComponentConfig_ToComponentSpec c p of Inr spec \<Rightarrow> spec | Inl _ \<Rightarrow> undefined)"

lemma spec_of:
  assumes "valid_project p" "c \<in> set (pj_components p)"
  shows "ComponentConfig_ToComponentSpec c p = Inr (spec_of p c)"
proof -
  from assms valid_project_parts(5) have "status_ok (ComponentConfig_Validate c p)" by blast
  then show ?thesis by (rule ComponentConfig_Validate_ok) (simp add: spec_of_def)
qed

lemma spec_of_name: "valid_project p \<Longrightarrow> c \<in> set (pj_components p) \<Longrightarrow> str (cs_name (spec_of p c)) = cc_name c"
  using ToComponentSpec_Inr(1) spec_of by blast

lemma spec_of_valid: "valid_project p \<Longrightarrow> c \<in> set (pj_components p) \<Longrightarrow> status_ok (ComponentSpec_Validate (spec_of p c))"
  using ToComponentSpec_Inr(2) spec_of by blast

end
