(* ===== verification/Configuration_Properties.thy ===== *)
theory Configuration_Properties
  imports Configuration_Valid
begin

text \<open>
  From a valid project to a running scheduler: registering its components in the runtime and in the scheduler,
  and the properties of the configuration.
\<close>

section \<open>Registration in the runtime\<close>

lemma check_components_ok:
  assumes "valid_project p" "set cs \<subseteq> set (pj_components p)"
  shows "status_ok (check_components p rt cs) \<longleftrightarrow> (\<forall>c \<in> set cs. omap_find (rt_components rt) (cc_name c) = None)"
  using assms(2)
proof (induction cs)
  case Nil
  then show ?case by simp
next
  case (Cons c cs)
  then have c: "c \<in> set (pj_components p)" by simp
  with Cons show ?case
    using spec_of_name [OF assms(1) c] by (auto simp: spec_of [OF assms(1) c] ComponentRegistry_Find_def split: option.splits)
qed

text \<open>What registering components adds to the registry; the other fields of the runtime stay.\<close>

lemma register_components_ok:
  assumes "valid_project p" "set cs \<subseteq> set (pj_components p)" "distinct (map cc_name cs)"
    "omap_ok (rt_components rt)" "\<forall>c \<in> set cs. omap_find (rt_components rt) (cc_name c) = None"
  shows "\<exists>m. register_components p cs rt = (Status_Ok, rt\<lparr>rt_components := m\<rparr>) \<and> omap_ok m
    \<and> (\<forall>n. omap_find m n = (case find (\<lambda>c. cc_name c = n) cs of
          Some c \<Rightarrow> Some (spec_of p c) | None \<Rightarrow> omap_find (rt_components rt) n))"
  using assms(2-)
proof (induction cs arbitrary: rt)
  case Nil
  then show ?case by (auto intro: exI [of _ "rt_components rt"])
next
  case (Cons c cs)
  then have c: "c \<in> set (pj_components p)" by simp
  let ?m = "omap_emplace (cc_name c) (spec_of p c) (rt_components rt)"
  have step: "RegisterComponent (spec_of p c) rt = (Status_Ok, rt\<lparr>rt_components := ?m\<rparr>)"
    using Cons.prems spec_of_name [OF assms(1) c] spec_of_valid [OF assms(1) c]
    by (simp add: RegisterComponent_def ComponentRegistry_Register_def Let_def)
  have lookup: "omap_find ?m n = (if n = cc_name c then Some (spec_of p c) else omap_find (rt_components rt) n)" for n
    using Cons.prems by (simp add: omap_find_emplace)
  have others: "cc_name d \<noteq> cc_name c" if "d \<in> set cs" for d using Cons.prems(2) that by simp (metis imageI)
  have fresh: "\<forall>d \<in> set cs. omap_find (rt_components (rt\<lparr>rt_components := ?m\<rparr>)) (cc_name d) = None"
    using Cons.prems(4) others by (simp add: lookup)
  have "omap_ok (rt_components (rt\<lparr>rt_components := ?m\<rparr>))" using Cons.prems(3) by (simp add: omap_ok_emplace)
  from Cons.IH [OF _ _ this fresh] Cons.prems(1,2) obtain m where m: "register_components p cs (rt\<lparr>rt_components := ?m\<rparr>) = (Status_Ok, rt\<lparr>rt_components := m\<rparr>)"
      "omap_ok m" "\<forall>n. omap_find m n = (case find (\<lambda>c. cc_name c = n) cs of
            Some c \<Rightarrow> Some (spec_of p c) | None \<Rightarrow> omap_find ?m n)" by (auto cong: option.case_cong)
  have "find (\<lambda>d. cc_name d = cc_name c) cs = None" using others by (simp add: find_None_iff)
  with m(3) lookup have "omap_find m n = (case find (\<lambda>d. cc_name d = n) (c # cs) of
      Some d \<Rightarrow> Some (spec_of p d) | None \<Rightarrow> omap_find (rt_components rt) n)" for n
    by (cases "n = cc_name c"; cases "find (\<lambda>d. cc_name d = n) cs") auto
  with m(1,2) step show ?case by (auto simp: spec_of [OF assms(1) c])
qed

lemma ApplyComponentSpecs_cases:
  assumes "omap_ok (rt_components rt)"
  obtains (refused) st where "ApplyComponentSpecs p rt = Some (st, rt)" "\<not> status_ok st"
      "\<not> (valid_project p \<and> (\<forall>c \<in> set (pj_components p). omap_find (rt_components rt) (cc_name c) = None))"
    | (applied) m where "ApplyComponentSpecs p rt = Some (Status_Ok, rt\<lparr>rt_components := m\<rparr>)" "valid_project p"
      "\<forall>c \<in> set (pj_components p). omap_find (rt_components rt) (cc_name c) = None" "omap_ok m"
      "\<forall>n. omap_find m n = (case find (\<lambda>c. cc_name c = n) (pj_components p) of
          Some c \<Rightarrow> Some (spec_of p c) | None \<Rightarrow> omap_find (rt_components rt) n)"
proof -
  obtain st where st: "ProjectConfig_Validate p = Some st" using ProjectConfig_Validate_returns by blast
  show thesis
  proof (cases "status_ok st")
    case False
    with st show thesis by (intro refused [of st]) (simp_all add: ApplyComponentSpecs_def valid_project_def)
  next
    case True
    with st have valid: "valid_project p" by (simp add: valid_project_def)
    note check = check_components_ok [OF valid order_refl, of rt]
    show thesis
    proof (cases "status_ok (check_components p rt (pj_components p))")
      case False
      with st True check show thesis
        by (intro refused [of "check_components p rt (pj_components p)"]) (simp_all add: ApplyComponentSpecs_def Let_def)
    next
      case fresh: True
      with check have "\<forall>c \<in> set (pj_components p). omap_find (rt_components rt) (cc_name c) = None" by simp
      with register_components_ok [OF valid order_refl valid_project_parts(3) [OF valid] assms] fresh st True valid
      show thesis by (auto simp: ApplyComponentSpecs_def Let_def intro: applied)
    qed
  qed
qed

section \<open>Registration in the scheduler\<close>

text \<open>The scheduler refuses a specification only as an invalid argument, so no refusal is mistaken for a duplicate.\<close>

lemma st_code_ValidateTrigger: "st_code (ValidateTrigger spec t) = kOk \<or> st_code (ValidateTrigger spec t) = kInvalidArgument"
proof -
  have data: "st_code (validate_data_topics spec seen ns) = kOk \<or> st_code (validate_data_topics spec seen ns) = kInvalidArgument"
    for seen ns
    by (induction ns arbitrary: seen) (auto simp: FindReaderEndpoint_def NormalizeError_def split: sum.splits list.splits if_splits)
  have services: "st_code (validate_services spec seen ns) = kOk \<or> st_code (validate_services spec seen ns) = kInvalidArgument"
    for seen ns
    by (induction ns arbitrary: seen) (auto simp: FindServedService_def NormalizeError_def split: sum.splits option.splits if_splits)
  have "st_code (TriggerSpec_Validate t) = kOk \<or> st_code (TriggerSpec_Validate t) = kInvalidArgument"
    by (simp add: TriggerSpec_Validate_def)
  with data services show ?thesis by (simp add: ValidateTrigger_def and_then_def)
qed

lemma st_code_validate_triggers:
  "st_code (validate_triggers spec index ts data services) = kOk
    \<or> st_code (validate_triggers spec index ts data services) = kInvalidArgument"
proof (induction ts arbitrary: index data services)
  case Nil
  then show ?case by simp
next
  case (Cons t ts)
  have claim: "st_code (fst (claim_names (shared_message spec what index) index ns m)) = kOk
      \<or> st_code (fst (claim_names (shared_message spec what index) index ns m)) = kInvalidArgument" for what ns m
    by (induction ns arbitrary: m) (auto simp: shared_message_def split: option.splits)
  show ?case using st_code_ValidateTrigger [of spec t] Cons.IH
      claim [of "''data topic''" "tr_data_dependencies t" data] claim [of "''service''" "tr_service_dependencies t" services]
    by (auto simp: Let_def split: prod.splits)
qed

lemma not_already_exists:
  "status_ok (ComponentSpec_Validate spec) \<Longrightarrow> st_code (ValidateComponentSpec spec) \<noteq> kAlreadyExists"
  using st_code_validate_triggers [of spec 0 "cs_triggers spec" "[]" "[]"] by (auto simp: ValidateComponentSpec_def and_then_def)

definition fresh_component :: "component_spec \<Rightarrow> scheduled_component" where
  "fresh_component spec = \<lparr>sc_spec = spec, sc_data_trigger_readers = [], sc_data_triggers = [], sc_task_triggers = []\<rparr>"

lemma RegisterAllComponents_ok:
  assumes "\<forall>n \<in> set names. lookup n = Inr (f n) \<and> status_ok (ComponentSpec_Validate (f n))"
    "distinct names" "\<not> sd_running s" "\<not> sd_stopping s" "omap_ok (sd_components s)"
    "\<forall>n \<in> set names. omap_find (sd_components s) (str n) = None"
    "RegisterAllComponents lookup names s = (st, s')"
  shows "(status_ok st \<longleftrightarrow> (\<forall>n \<in> set names. status_ok (ValidateComponentSpec (f n))))
    \<and> (status_ok st \<longrightarrow> (\<exists>m. s' = s\<lparr>sd_components := m\<rparr> \<and> omap_ok m
        \<and> (\<forall>k. omap_find m k = (if NamedValue k \<in> set names then Some (fresh_component (f (NamedValue k)))
              else omap_find (sd_components s) k))))"
  using assms
proof (induction names arbitrary: s)
  case Nil
  then show ?case by (auto intro: exI [of _ "sd_components s"])
next
  case (Cons n names)
  show ?case
  proof (cases "status_ok (ValidateComponentSpec (f n))")
    case False
    then have "RegisterAllComponents lookup (n # names) s = (ValidateComponentSpec (f n), s)"
      using Cons.prems(1) not_already_exists by (simp add: Scheduler_RegisterComponent_def Let_def)
    with Cons.prems(7) False show ?thesis by auto
  next
    case True
    let ?m = "omap_emplace (str n) (fresh_component (f n)) (sd_components s)"
    define s1 where "s1 = s\<lparr>sd_components := ?m\<rparr>"
    have run: "RegisterAllComponents lookup names s1 = (st, s')"
      using Cons.prems True by (simp add: Scheduler_RegisterComponent_def Let_def fresh_component_def s1_def)
    have at: "omap_find ?m k = (if k = str n then Some (fresh_component (f n)) else omap_find (sd_components s) k)" for k
      using Cons.prems(5,6) by (simp add: omap_find_emplace)
    have fresh: "\<forall>x \<in> set names. omap_find (sd_components s1) (str x) = None"
      using Cons.prems(2,6) at by (auto simp: s1_def str_inject)
    have "omap_ok (sd_components s1)" "\<not> sd_running s1" "\<not> sd_stopping s1" using Cons.prems by (simp_all add: s1_def omap_ok_emplace)
    note ih = Cons.IH [OF _ _ this(2,3,1) fresh run]
    have key: "NamedValue k = n \<longleftrightarrow> k = str n" for k by (cases n) auto
    have "\<exists>m. s' = s\<lparr>sd_components := m\<rparr> \<and> omap_ok m \<and> (\<forall>k. omap_find m k =
        (if NamedValue k \<in> set (n # names) then Some (fresh_component (f (NamedValue k))) else omap_find (sd_components s) k))"
      if "status_ok st"
    proof -
      from ih that Cons.prems(1,2) obtain m where m: "s' = s1\<lparr>sd_components := m\<rparr>" "omap_ok m"
        "\<forall>k. omap_find m k = (if NamedValue k \<in> set names then Some (fresh_component (f (NamedValue k)))
              else omap_find (sd_components s1) k)" by auto
      moreover have "omap_find m k = (if NamedValue k \<in> set (n # names) then Some (fresh_component (f (NamedValue k)))
          else omap_find (sd_components s) k)" for k
        using m(3) Cons.prems(2) key [of k] by (simp add: s1_def at)
      ultimately show ?thesis by (intro exI [of _ m]) (simp add: s1_def)
    qed
    with ih True Cons.prems(1,2) show ?thesis by auto
  qed
qed

section \<open>The scheduler of a valid project\<close>

text \<open>The component table a project's scheduler starts from: its specifications under their names.\<close>

definition project_table :: "project_config \<Rightarrow> components \<Rightarrow> bool" where
  "project_table p comps \<longleftrightarrow> omap_ok comps \<and> (\<forall>n. omap_find comps n =
     map_option (\<lambda>c. fresh_component (spec_of p c)) (find (\<lambda>c. cc_name c = n) (pj_components p)))"

lemma find_component:
  assumes "find (\<lambda>c. cc_name c = n) cs = Some c"
  shows "c \<in> set cs \<and> cc_name c = n"
  using assms by (auto simp: find_Some_iff)

lemma find_component_exists: "c \<in> set cs \<Longrightarrow> \<exists>d. find (\<lambda>x. cc_name x = cc_name c) cs = Some d"
  by (cases "find (\<lambda>x. cc_name x = cc_name c) cs") (auto simp: find_None_iff)

lemma project_table_entry:
  assumes "project_table p comps" "(n, sc) \<in> set comps"
  obtains c where "c \<in> set (pj_components p)" "cc_name c = n" "sc = fresh_component (spec_of p c)"
proof -
  have "omap_find comps n = Some sc" by (rule omap_in_find) (use assms in \<open>simp_all add: project_table_def\<close>)
  with assms(1) obtain c where "find (\<lambda>c. cc_name c = n) (pj_components p) = Some c" "sc = fresh_component (spec_of p c)"
    unfolding project_table_def by auto
  with find_component that show thesis by blast
qed

lemma project_table_keys:
  assumes "project_table p comps"
  shows "set (map fst comps) = cc_name ` set (pj_components p)"
proof (rule set_eqI)
  fix n
  have "n \<in> set (map fst comps) \<longleftrightarrow> find (\<lambda>c. cc_name c = n) (pj_components p) \<noteq> None"
    using assms omap_find_keys [of n comps] by (simp add: project_table_def omap_keys_def)
  also have "\<dots> \<longleftrightarrow> n \<in> cc_name ` set (pj_components p)" by (auto simp: find_None_iff)
  finally show "n \<in> set (map fst comps) \<longleftrightarrow> n \<in> cc_name ` set (pj_components p)" .
qed

lemma project_task_trigger:
  assumes "valid_project p" "c \<in> set (pj_components p)" "t \<in> set (cs_triggers (spec_of p c))" "tr_kind t = kTaskDependency"
  shows "\<exists>g. g \<in> set (cc_triggers c) \<and> gc_kind g = kTaskDependency \<and> gc_task_dependencies g \<noteq> []
    \<and> tr_task_dependencies t = map NamedValue (gc_task_dependencies g)
    \<and> cc_name c \<notin> set (gc_task_dependencies g) \<and> distinct (gc_task_dependencies g)
    \<and> set (gc_task_dependencies g) \<subseteq> cc_name ` set (pj_components p)"
proof -
  note spec = ToComponentSpec_Inr [OF spec_of [OF assms(1,2)]]
  from list_all2_members(1) [OF spec(5) assms(3)] obtain g where g: "g \<in> set (cc_triggers c)" "trigger_matches p g t" by blast
  with valid_project_parts(7) [OF assms(1)] assms(2) have "task_trigger_ok (cc_name ` set (pj_components p)) (cc_name c) g" by blast
  moreover from g(2) assms(4) have "gc_kind g = kTaskDependency" "gc_task_dependencies g \<noteq> []"
      "tr_task_dependencies t = map NamedValue (gc_task_dependencies g)" by (auto simp: trigger_matches_def)
  ultimately show ?thesis using g(1) by (intro exI [of _ g]) (simp add: task_trigger_ok_def)
qed

lemma project_table_installs:
  assumes "valid_project p" "project_table p comps"
  shows "\<exists>comps' deps. InstallTaskTriggers comps = Some (Inr (comps', deps)) \<and> map fst comps' = map fst comps"
proof -
  have ok: "omap_ok comps" using assms(2) by (simp add: project_table_def)
  have registered: "omap_find comps u \<noteq> None" if "u \<in> cc_name ` set (pj_components p)" for u
    using that assms(2) by (auto simp: project_table_def dest: find_component_exists)
  have deps: "dependencies_ok comps n t" if e: "(n, sc) \<in> set comps" "t \<in> set (cs_triggers (sc_spec sc))" for n sc t
  proof (cases "tr_kind t = kTaskDependency")
    case True
    obtain c where c: "c \<in> set (pj_components p)" "cc_name c = n" "t \<in> set (cs_triggers (spec_of p c))"
      by (rule project_table_entry [OF assms(2) e(1)]) (use e(2) in \<open>simp add: fresh_component_def\<close>)
    obtain g :: trigger_config where g: "gc_task_dependencies g \<noteq> []"
        "tr_task_dependencies t = map NamedValue (gc_task_dependencies g)" "cc_name c \<notin> set (gc_task_dependencies g)"
        "distinct (gc_task_dependencies g)" "set (gc_task_dependencies g) \<subseteq> cc_name ` set (pj_components p)"
      using project_task_trigger [OF assms(1) c(1,3) True] by blast
    have "map str (tr_task_dependencies t) = gc_task_dependencies g" by (simp add: g(2) comp_def)
    moreover have "omap_find comps (str u) \<noteq> None" if "u \<in> set (tr_task_dependencies t)" for u
      using that g(2,5) registered by auto
    ultimately show ?thesis using g(1-4) c(2) by (force simp: dependencies_ok_def)
  qed (simp add: dependencies_ok_def)
  have "task_edges comps \<subseteq> set (config_edges (pj_components p))"
  proof (intro subrelI)
    fix u v assume "(u, v) \<in> task_edges comps"
    then obtain sc t where t: "(v, sc) \<in> set comps" "t \<in> set (cs_triggers (sc_spec sc))" "tr_kind t = kTaskDependency"
        "u \<in> str ` set (tr_task_dependencies t)" unfolding task_edges_def by blast
    obtain c where c: "c \<in> set (pj_components p)" "cc_name c = v" "t \<in> set (cs_triggers (spec_of p c))"
      by (rule project_table_entry [OF assms(2) t(1)]) (use t(2) in \<open>simp add: fresh_component_def\<close>)
    obtain g where "g \<in> set (cc_triggers c)" "gc_kind g = kTaskDependency"
        "tr_task_dependencies t = map NamedValue (gc_task_dependencies g)"
      using project_task_trigger [OF assms(1) c(1,3) t(3)] by blast
    with t(4) c show "(u, v) \<in> set (config_edges (pj_components p))" by (auto simp: config_edges_def intro!: bexI [of _ c] exI [of _ g])
  qed
  then have "acyclic (task_edges comps)" using valid_project_parts(6) [OF assms(1)] by (rule acyclic_subset [rotated])
  moreover have "all_dependencies_ok comps" using deps by (auto simp: all_dependencies_ok_def)
  ultimately show ?thesis using ok
    by (elim InstallTaskTriggers_cases) (auto simp: comp_def split_beta)
qed

lemma schedule_all_project:
  assumes "valid_project p" "omap_ok m" "\<forall>n. omap_find m n = map_option (spec_of p) (find (\<lambda>c. cc_name c = n) (pj_components p))"
  shows "(result_ok (schedule_all opts (rt\<lparr>rt_components := m\<rparr>)) \<longleftrightarrow>
      (\<forall>c \<in> set (pj_components p). status_ok (ValidateComponentSpec (spec_of p c))))
    \<and> (\<forall>s. schedule_all opts (rt\<lparr>rt_components := m\<rparr>) = Inr s \<longrightarrow>
        (\<exists>comps. s = (sched_init opts)\<lparr>sd_components := comps\<rparr> \<and> project_table p comps))"
proof -
  let ?names = "ComponentRegistry_ListNames m"
  define f where "f n = the (omap_find m (str n))" for n
  have keys: "NamedValue k \<in> set ?names \<longleftrightarrow> omap_find m k \<noteq> None" for k
    unfolding omap_find_keys [symmetric] by (auto simp: ComponentRegistry_ListNames_def omap_keys_def)
  have named: "n \<in> set ?names \<longleftrightarrow> (\<exists>c. find (\<lambda>c. cc_name c = str n) (pj_components p) = Some c)" for n
    using keys [of "str n"] assms(3) by (cases n) auto
  have entry: "ComponentRegistry_Find m n = Inr (f n)" "\<exists>c \<in> set (pj_components p). f n = spec_of p c"
    if "n \<in> set ?names" for n
    using that assms(3) by (auto simp: named f_def ComponentRegistry_Find_def dest: find_component)
  have f_name: "\<exists>n \<in> set ?names. f n = spec_of p c" if c: "c \<in> set (pj_components p)" for c
  proof -
    have "find (\<lambda>d. cc_name d = cc_name c) (pj_components p) = Some c"
      using FindComponent_unique [OF valid_project_parts(3) [OF assms(1)] c]
      by (auto simp: ProjectConfig_FindComponent_def split: option.splits)
    with assms(3) named [of "NamedValue (cc_name c)"] show ?thesis
      by (intro bexI [of _ "NamedValue (cc_name c)"]) (auto simp: f_def)
  qed
  have all: "(\<forall>n \<in> set ?names. P (f n)) \<longleftrightarrow> (\<forall>c \<in> set (pj_components p). P (spec_of p c))" for P
    using entry(2) f_name by metis
  have valid: "\<forall>n \<in> set ?names. ComponentRegistry_Find m n = Inr (f n) \<and> status_ok (ComponentSpec_Validate (f n))"
    using entry spec_of_valid [OF assms(1)] by metis
  have "distinct ?names" using omap_ok_distinct [OF assms(2)]
    by (simp add: ComponentRegistry_ListNames_def distinct_map inj_on_def comp_inj_on)
  obtain st s where run: "RegisterAllComponents (ComponentRegistry_Find m) ?names (sched_init opts) = (st, s)" by fastforce
  have reg: "(status_ok st \<longleftrightarrow> (\<forall>n \<in> set ?names. status_ok (ValidateComponentSpec (f n))))
    \<and> (status_ok st \<longrightarrow> (\<exists>comps. s = (sched_init opts)\<lparr>sd_components := comps\<rparr> \<and> omap_ok comps
        \<and> (\<forall>k. omap_find comps k = (if NamedValue k \<in> set ?names then Some (fresh_component (f (NamedValue k)))
              else omap_find (sd_components (sched_init opts)) k))))"
    by (rule RegisterAllComponents_ok [OF valid \<open>distinct ?names\<close> _ _ _ _ run]) (simp_all add: sched_init_def)
  have init: "sd_components (sched_init opts) = []" by (simp add: sched_init_def)
  from reg have ok: "status_ok st \<longleftrightarrow> (\<forall>c \<in> set (pj_components p). status_ok (ValidateComponentSpec (spec_of p c)))"
    and state: "status_ok st \<Longrightarrow> \<exists>comps. s = (sched_init opts)\<lparr>sd_components := comps\<rparr> \<and> omap_ok comps
      \<and> (\<forall>k. omap_find comps k = (if NamedValue k \<in> set ?names then Some (fresh_component (f (NamedValue k))) else None))"
    using all [of "\<lambda>x. status_ok (ValidateComponentSpec x)"] unfolding init omap_find_Nil by blast+
  have table: "project_table p comps" if "omap_ok comps"
      "\<forall>k. omap_find comps k = (if NamedValue k \<in> set ?names then Some (fresh_component (f (NamedValue k))) else None)" for comps
    unfolding project_table_def using that assms(3) keys by (auto simp: f_def)
  show ?thesis using ok state table run by (auto simp: schedule_all_def)
qed

section \<open>Properties\<close>


text \<open>
  C25. \<open>ApplyComponentSpecs\<close> is all or nothing: it always returns; when it reports an error it leaves the runtime as it
  was, and it reports none exactly when the project is valid and none of its components is registered yet, in
  which case precisely its components are added to the registry.
\<close>

theorem apply_component_specs_atomic:
  assumes "omap_ok (rt_components rt)"
  shows "\<exists>st rt'. ApplyComponentSpecs p rt = Some (st, rt')
    \<and> (status_ok st \<longleftrightarrow> (\<exists>ok. ProjectConfig_Validate p = Some ok \<and> status_ok ok)
         \<and> (\<forall>c. c \<in> set (pj_components p) \<longrightarrow> omap_find (rt_components rt) (cc_name c) = None))
    \<and> (\<not> status_ok st \<longrightarrow> rt' = rt)
    \<and> (status_ok st \<longrightarrow> rt'\<lparr>rt_components := rt_components rt\<rparr> = rt
         \<and> (\<forall>c. c \<in> set (pj_components p) \<longrightarrow> (\<exists>spec. ComponentConfig_ToComponentSpec c p = Inr spec
              \<and> omap_find (rt_components rt') (cc_name c) = Some spec))
         \<and> (\<forall>n. n \<notin> cc_name ` set (pj_components p) \<longrightarrow> omap_find (rt_components rt') n = omap_find (rt_components rt) n))"
proof (rule ApplyComponentSpecs_cases [OF assms, of p])
  fix st assume "ApplyComponentSpecs p rt = Some (st, rt)" "\<not> status_ok st"
    "\<not> (valid_project p \<and> (\<forall>c \<in> set (pj_components p). omap_find (rt_components rt) (cc_name c) = None))"
  then show ?thesis unfolding valid_project_def by (intro exI [of _ st] exI [of _ rt]) auto
next
  fix m assume a: "ApplyComponentSpecs p rt = Some (Status_Ok, rt\<lparr>rt_components := m\<rparr>)" "valid_project p"
    "\<forall>c \<in> set (pj_components p). omap_find (rt_components rt) (cc_name c) = None" "omap_ok m"
    "\<forall>n. omap_find m n = (case find (\<lambda>c. cc_name c = n) (pj_components p) of
        Some c \<Rightarrow> Some (spec_of p c) | None \<Rightarrow> omap_find (rt_components rt) n)"
  have "omap_find m (cc_name c) = Some (spec_of p c)" if "c \<in> set (pj_components p)" for c
    using FindComponent_unique [OF valid_project_parts(3) [OF a(2)] that] a(5)
    by (auto simp: ProjectConfig_FindComponent_def split: option.splits)
  moreover have "omap_find m n = omap_find (rt_components rt) n" if "n \<notin> cc_name ` set (pj_components p)" for n
    using that a(5) by (auto split: option.splits dest: find_component)
  ultimately show ?thesis using a(1-3) spec_of [OF a(2)] unfolding valid_project_def
    by (intro exI [of _ Status_Ok] exI [of _ "rt\<lparr>rt_components := m\<rparr>"]) auto
qed


subsection \<open>An example\<close>

text \<open>Two components on a topic and a service; the consumer also runs after the producer.\<close>

definition ex_trigger_config :: "trigger_kind \<Rightarrow> string list \<Rightarrow> string list \<Rightarrow> string list \<Rightarrow> trigger_config" where
  "ex_trigger_config kind topics tasks services = \<lparr>gc_kind = kind, gc_period = 0, gc_dependency_policy = kAll,
     gc_data_topics = topics, gc_task_dependencies = tasks, gc_priority = 0, gc_deadline = 0, gc_services = services\<rparr>"

definition ex_component_config :: "string \<Rightarrow> string list \<Rightarrow> trigger_config list \<Rightarrow> string list \<Rightarrow> component_config" where
  "ex_component_config name readers triggers servers = \<lparr>cc_name = name, cc_description = [], cc_readers = readers,
     cc_writers = [], cc_triggers = triggers, cc_type = ''T'', cc_parameters = [], cc_reader_policies = [],
     cc_servers = servers, cc_clients = []\<rparr>"

definition ex_service_config :: service_config where
  "ex_service_config = \<lparr>vc_id = ''s'', vc_name = ''/s'', vc_transport = kInMemory, vc_request_type = ''Q'', vc_reply_type = ''R'',
     vc_encoding = ''raw'', vc_request_version = 1, vc_reply_version = 1, vc_queue_depth = 4, vc_heartbeat_interval = 100,
     vc_transport_parameters = []\<rparr>"

definition ex_project :: project_config where
  "ex_project = \<lparr>
     pj_runtime_options = \<lparr>ro_default_transport_name = NamedValue ''m'', ro_register_inmemory_transport = True,
       ro_open_registered_transports = True\<rparr>,
     pj_scheduler_options = \<lparr>so_worker_count = 1, so_priority_aging_interval = 0\<rparr>,
     pj_topics = [\<lparr>tc_id = ''t'', tc_name = ''/t'', tc_transport = kInMemory, tc_message_type = ''T'', tc_encoding = ''raw'',
       tc_message_policy = MessagePolicy_default, tc_message_version = 1, tc_transport_parameters = []\<rparr>],
     pj_components = [ex_component_config ''a'' [] [ex_trigger_config kManual [] [] []] [],
       ex_component_config ''b'' [''t''] [ex_trigger_config kData [''t''] [] [], ex_trigger_config kTaskDependency [] [''a''] [],
         ex_trigger_config kService [] [] [''s'']] [''s'']],
     pj_services = [ex_service_config]\<rparr>"

declare kahn.simps [code]

lemma ex_project_valid: "ProjectConfig_Validate ex_project = Some Status_Ok"
  by code_simp

definition ex_empty_runtime :: "nat runtime" where
  "ex_empty_runtime = runtime_init (NamedValue ''m'') True True []"

lemma ex_empty_runtime: "rt_components ex_empty_runtime = []"
  by (simp add: ex_empty_runtime_def runtime_init_def)


theorem apply_component_specs_atomic_witness:
  "omap_ok (rt_components ex_empty_runtime) \<and> (\<exists>rt'. ApplyComponentSpecs ex_project ex_empty_runtime = Some (Status_Ok, rt')
     \<and> (\<exists>spec. omap_find (rt_components rt') ''b'' = Some spec))"
proof -
  have ok: "omap_ok (rt_components ex_empty_runtime)" by (simp add: ex_empty_runtime)
  from apply_component_specs_atomic [OF ok, of ex_project] obtain st rt' where
      applied: "ApplyComponentSpecs ex_project ex_empty_runtime = Some (st, rt')"
      "status_ok st \<longleftrightarrow> (\<exists>ok. ProjectConfig_Validate ex_project = Some ok \<and> status_ok ok)
         \<and> (\<forall>c. c \<in> set (pj_components ex_project) \<longrightarrow> omap_find (rt_components ex_empty_runtime) (cc_name c) = None)"
      "status_ok st \<longrightarrow> (\<forall>c. c \<in> set (pj_components ex_project) \<longrightarrow>
         (\<exists>spec. omap_find (rt_components rt') (cc_name c) = Some spec))" by (elim exE conjE) blast
  from applied(2) have "status_ok st" by (simp add: ex_project_valid ex_empty_runtime)
  with applied(1) have "st = Status_Ok" using ApplyComponentSpecs_cases [OF ok, of ex_project] by (metis option.inject prod.inject)
  moreover have "\<exists>spec. omap_find (rt_components rt') ''b'' = Some spec"
    using applied(3) \<open>status_ok st\<close> by (simp add: ex_project_def ex_component_config_def)
  ultimately show ?thesis using applied(1) ok by blast
qed


text \<open>
  A project \<open>Validate\<close> accepts and the scheduler refuses: the second component serves \<open>s\<close> from two triggers.
\<close>

definition ex_shared :: project_config where
  "ex_shared = ex_project\<lparr>pj_components := [ex_component_config ''b'' [] [ex_trigger_config kService [] [] [''s''],
     ex_trigger_config kService [] [] [''s'']] [''s'']]\<rparr>"

lemma shared_service_trigger_refused:
  "ProjectConfig_Validate ex_shared = Some Status_Ok
    \<and> (\<exists>st rt'. CreateScheduler ex_shared ex_empty_runtime = Some (Inl st, rt') \<and> st_code st = kInvalidArgument)"
proof -
  have valid: "ProjectConfig_Validate ex_shared = Some Status_Ok" by code_simp
  have "case CreateScheduler ex_shared ex_empty_runtime of Some (Inl st, rt') \<Rightarrow> st_code st = kInvalidArgument | _ \<Rightarrow> False"
    by code_simp
  with valid show ?thesis by (auto split: option.splits sum.splits)
qed

end
