(* ===== verification/Application.thy ===== *)
theory Application
  imports Configuration
begin

text \<open>
  One process and the system it is part of: \<open>include/puppet_master/configuration/application.h\<close> and
  \<open>src/configuration/application.cpp\<close>. \<open>ValidateProject\<close> and \<open>ValidateSystem\<close> check configurations before anything
  runs; \<open>Application\<close> owns a runtime and a scheduler and drives the lifecycle of the components.

  The scheduler runs concurrently with the application and reaches the components only through
  \<open>RuntimeContext::ExecuteComponent\<close>; its own steps are those of theory \<open>Scheduler_Runs\<close>. Here a call of its \<open>Start\<close> or
  \<open>Stop\<close> yields a status, the scheduler afterwards and the components the workers have executed meanwhile, in
  order: any such sequence, as an argument. So are the components' callbacks, the factories and the functions
  that register transports. Signal handling is not modelled.
\<close>

section \<open>Validation of one project\<close>

definition ValidateProject :: "project_config \<Rightarrow> 'c factories option \<Rightarrow> string list option" where
  "ValidateProject p factories =
     do { st \<leftarrow> ProjectConfig_Validate p;
          Some ((if \<not> status_ok st then [st_message st] else [])
            @ (case factories of
                 None \<Rightarrow> []
               | Some fs \<Rightarrow> concat (map (\<lambda>c. let st = FactoryRegistry_ValidateType fs (cc_type c) in
                   if \<not> status_ok st then [''component '' @ cc_name c @ '': '' @ st_message st] else [])
                   (pj_components p)))) }"

section \<open>Validation of a system\<close>

text \<open>\<open>Join\<close>, and a \<open>std::set\<close> of labels as an ordered map to nothing.\<close>

definition Join :: "string list \<Rightarrow> string" where
  "Join items = foldl (\<lambda>joined item. (if joined \<noteq> [] then joined @ '', '' else joined) @ item) [] items"

type_synonym labels = "(string, unit) omap"

record 'd uses =
  us_declarations :: "(string \<times> 'd) list"
  us_consumers :: labels
  us_producers :: labels

definition no_uses :: "'d uses" where
  "no_uses = \<lparr>us_declarations = [], us_consumers = [], us_producers = []\<rparr>"

text \<open>
  Readers and clients are consumers, writers and servers producers. The loops below fill one table for topics
  and one for services.
\<close>

type_synonym 'd use_table = "(string, 'd uses) omap"

definition add_declaration :: "string \<Rightarrow> string \<Rightarrow> 'd \<Rightarrow> 'd use_table \<Rightarrow> 'd use_table" where
  "add_declaration label name d m =
     (let u = omap_at no_uses m name in
      omap_assign name (u\<lparr>us_declarations := us_declarations u @ [(label, d)]\<rparr>) m)"

definition add_consumer :: "string \<Rightarrow> string \<Rightarrow> 'd use_table \<Rightarrow> 'd use_table" where
  "add_consumer label name m =
     (let u = omap_at no_uses m name in omap_assign name (u\<lparr>us_consumers := omap_emplace label () (us_consumers u)\<rparr>) m)"

definition add_producer :: "string \<Rightarrow> string \<Rightarrow> 'd use_table \<Rightarrow> 'd use_table" where
  "add_producer label name m =
     (let u = omap_at no_uses m name in omap_assign name (u\<lparr>us_producers := omap_emplace label () (us_producers u)\<rparr>) m)"

definition topic_name_of :: "project_config \<Rightarrow> string \<Rightarrow> string option" where
  "topic_name_of p i = map_option tc_name (result_option (ProjectConfig_FindTopic p i))"

definition service_name_of :: "project_config \<Rightarrow> string \<Rightarrow> string option" where
  "service_name_of p i = map_option vc_name (result_option (ProjectConfig_FindService p i))"

definition note_all :: "(string \<Rightarrow> 'd use_table \<Rightarrow> 'd use_table) \<Rightarrow> (string \<Rightarrow> string option) \<Rightarrow> string list \<Rightarrow> 'd use_table \<Rightarrow> 'd use_table" where
  "note_all add name_of ids m = fold (\<lambda>i m. case name_of i of None \<Rightarrow> m | Some n \<Rightarrow> add n m) ids m"

type_synonym named_project = "string \<times> project_config"

definition note_topics :: "named_project \<Rightarrow> topic_config use_table \<Rightarrow> topic_config use_table" where
  "note_topics e m = (case e of (label, p) \<Rightarrow>
     fold (\<lambda>c m. note_all (add_producer label) (topic_name_of p) (cc_writers c)
                   (note_all (add_consumer label) (topic_name_of p) (cc_readers c) m)) (pj_components p)
       (fold (\<lambda>t. add_declaration label (tc_name t) t) (pj_topics p) m))"

definition note_services :: "named_project \<Rightarrow> service_config use_table \<Rightarrow> service_config use_table" where
  "note_services e m = (case e of (label, p) \<Rightarrow>
     fold (\<lambda>c m. note_all (add_consumer label) (service_name_of p) (cc_clients c)
                   (note_all (add_producer label) (service_name_of p) (cc_servers c) m)) (pj_components p)
       (fold (\<lambda>v. add_declaration label (vc_name v) v) (pj_services p) m))"

definition uses_it :: "'d uses \<Rightarrow> string \<Rightarrow> bool" where
  "uses_it u label \<longleftrightarrow> omap_find (us_consumers u) label \<noteq> None \<or> omap_find (us_producers u) label \<noteq> None"

text \<open>Every declaration in a process that uses the name is compared with the first such declaration.\<close>

fun compare_declarations :: "('d \<Rightarrow> 'd \<Rightarrow> bool) \<Rightarrow> (string \<times> 'd \<Rightarrow> string \<times> 'd \<Rightarrow> string) \<Rightarrow> 'd uses
    \<Rightarrow> (string \<times> 'd) option \<Rightarrow> (string \<times> 'd) list \<Rightarrow> string list" where
  "compare_declarations differ message u first [] = []"
| "compare_declarations differ message u first (d # ds) =
     (if \<not> uses_it u (fst d) then compare_declarations differ message u first ds
      else case first of
          None \<Rightarrow> compare_declarations differ message u (Some d) ds
        | Some f \<Rightarrow>
            (if differ (snd f) (snd d) then [message f d] else [])
              @ compare_declarations differ message u first ds)"

definition describe_topic :: "topic_config \<Rightarrow> string" where
  "describe_topic t = MessageDescriptor_ToString \<lparr>type_name = tc_message_type t, encoding = tc_encoding t,
     version = tc_message_version t\<rparr> @ '' over '' @ TransportKind_ToString (tc_transport t)"

definition topics_differ :: "topic_config \<Rightarrow> topic_config \<Rightarrow> bool" where
  "topics_differ a b \<longleftrightarrow> tc_message_type a \<noteq> tc_message_type b \<or> tc_encoding a \<noteq> tc_encoding b
     \<or> tc_message_version a \<noteq> tc_message_version b \<or> tc_transport a \<noteq> tc_transport b"

definition service_contract :: "service_config \<Rightarrow> string" where
  "service_contract v =
     MessageDescriptor_ToString \<lparr>type_name = vc_request_type v, encoding = vc_encoding v, version = vc_request_version v\<rparr>
     @ '' -> ''
     @ MessageDescriptor_ToString \<lparr>type_name = vc_reply_type v, encoding = vc_encoding v, version = vc_reply_version v\<rparr>
     @ '' over '' @ TransportKind_ToString (vc_transport v)"

definition services_differ :: "service_config \<Rightarrow> service_config \<Rightarrow> bool" where
  "services_differ a b \<longleftrightarrow> service_contract a \<noteq> service_contract b"

record system_report =
  sr_errors :: "string list"
  sr_warnings :: "string list"

definition check_topic :: "string \<Rightarrow> topic_config uses \<Rightarrow> system_report" where
  "check_topic name u =
     (if us_consumers u = [] \<and> us_producers u = [] then \<lparr>sr_errors = [], sr_warnings = []\<rparr>
      else \<lparr>sr_errors =
              compare_declarations topics_differ (\<lambda>f d. ''topic '' @ name @ '' is '' @ describe_topic (snd f) @ '' in ''
                @ fst f @ '' but '' @ describe_topic (snd d) @ '' in '' @ fst d) u None (us_declarations u)
              @ (if us_producers u = []
                 then [''topic '' @ name @ '' is read by '' @ Join (map fst (us_consumers u)) @ '' but written by no process'']
                 else if 1 < length (us_producers u)
                 then [''topic '' @ name @ '' is written by several processes: '' @ Join (map fst (us_producers u))]
                 else []),
            sr_warnings =
              (if us_consumers u = []
               then [''topic '' @ name @ '' is written by '' @ Join (map fst (us_producers u)) @ '' but read by no process'']
               else [])\<rparr>)"

definition check_service :: "string \<Rightarrow> service_config uses \<Rightarrow> system_report" where
  "check_service name u =
     (if us_producers u = [] \<and> us_consumers u = [] then \<lparr>sr_errors = [], sr_warnings = []\<rparr>
      else \<lparr>sr_errors =
              compare_declarations services_differ (\<lambda>f d. ''service '' @ name @ '' is '' @ service_contract (snd f) @ '' in ''
                @ fst f @ '' but '' @ service_contract (snd d) @ '' in '' @ fst d) u None (us_declarations u)
              @ (if us_producers u = []
                 then [''service '' @ name @ '' is called by '' @ Join (map fst (us_consumers u)) @ '' but served by no process'']
                 else if 1 < length (us_producers u)
                 then [''service '' @ name @ '' is served by several processes: '' @ Join (map fst (us_producers u))]
                 else []),
            sr_warnings =
              (if us_consumers u = []
               then [''service '' @ name @ '' is served by '' @ Join (map fst (us_producers u)) @ '' but called by no process'']
               else [])\<rparr>)"

definition ValidateSystem :: "named_project list \<Rightarrow> system_report" where
  "ValidateSystem projects =
     (let topics = map (\<lambda>(name, u). check_topic name u) (fold note_topics projects []);
          services = map (\<lambda>(name, u). check_service name u) (fold note_services projects []) in
      \<lparr>sr_errors = concat (map sr_errors (topics @ services)), sr_warnings = concat (map sr_warnings (topics @ services))\<rparr>)"

section \<open>Applications\<close>

datatype app_phase = AppCreated | AppRunning | AppStopped

record 'c application =
  ap_project :: project_config
  ap_runtime :: "'c runtime"
  ap_scheduler :: sched
  ap_components :: "component_name list"
  ap_stop_requested :: bool
  ap_phase :: app_phase

type_synonym 'c callbacks = "'c \<Rightarrow> life_op \<Rightarrow> 'c runtime \<Rightarrow> status \<times> 'c runtime"
type_synonym sched_call = "sched \<Rightarrow> status \<times> component_name list \<times> sched"

text \<open>The executions by the scheduler's workers. Each status goes to the scheduler.\<close>

definition execute_all :: "'c callbacks \<Rightarrow> component_name list \<Rightarrow> 'c runtime \<Rightarrow> 'c runtime" where
  "execute_all invoke names rt = fold (\<lambda>name rt. snd (ExecuteComponent invoke name rt)) names rt"

definition record_failure :: "component_name \<Rightarrow> string \<Rightarrow> status \<Rightarrow> status \<Rightarrow> status" where
  "record_failure name step st first =
     (if status_ok first \<and> \<not> status_ok st
      then Status_Error (st_code st) (''component '' @ str name @ '': '' @ step @ '' failed: '' @ st_message st)
      else first)"

definition tear_down_component :: "'c callbacks \<Rightarrow> component_name \<Rightarrow> status \<times> 'c runtime \<Rightarrow> status \<times> 'c runtime" where
  "tear_down_component invoke name x = (case x of (first, rt) \<Rightarrow>
     (case GetComponentState rt name of
        Inl st \<Rightarrow> (record_failure name ''stop'' st first, rt)
      | Inr state \<Rightarrow>
          (case (if state = kStarted
                 then case StopComponent invoke name rt of
                     (st, rt1) \<Rightarrow> (record_failure name ''stop'' st first, rt1, GetComponentState rt1 name)
                 else (first, rt, Inr state)) of
             (first1, rt1, state1) \<Rightarrow>
               (case state1 of
                  Inl _ \<Rightarrow> (first1, rt1)
                | Inr s \<Rightarrow>
                    if s \<noteq> kShutdown
                    then case ShutdownComponent invoke name rt1 of
                        (st, rt2) \<Rightarrow> (record_failure name ''shutdown'' st first1, rt2)
                    else (first1, rt1)))))"

definition TearDownComponents :: "'c callbacks \<Rightarrow> component_name list \<Rightarrow> nat \<Rightarrow> 'c runtime \<Rightarrow> status \<times> 'c runtime" where
  "TearDownComponents invoke components n rt =
     fold (tear_down_component invoke) (rev (take n components)) (Status_Ok, rt)"

text \<open>The three steps that bring one component up: the step that failed with its status, if any.\<close>

definition start_steps :: "life_op list" where
  "start_steps = [Configure, Initialize, Start]"

fun run_steps :: "'c callbacks \<Rightarrow> component_name \<Rightarrow> life_op list \<Rightarrow> 'c runtime \<Rightarrow> (life_op \<times> status) option \<times> 'c runtime" where
  "run_steps invoke name [] rt = (None, rt)"
| "run_steps invoke name (op # ops) rt =
     (case lifecycle_call invoke op name rt of
        (st, rt') \<Rightarrow> if \<not> status_ok st then (Some (op, st), rt') else run_steps invoke name ops rt')"

fun bring_up :: "'c callbacks \<Rightarrow> component_name list \<Rightarrow> nat \<Rightarrow> component_name list \<Rightarrow> 'c runtime \<Rightarrow> status \<times> 'c runtime" where
  "bring_up invoke components index [] rt = (Status_Ok, rt)"
| "bring_up invoke components index (name # names) rt =
     (case run_steps invoke name start_steps rt of
        (Some (op, st), rt') \<Rightarrow>
          (Status_Error (st_code st) (''component '' @ str name @ '': '' @ lifecycle_verb op @ '' failed: '' @ st_message st),
           snd (TearDownComponents invoke components (index + 1) rt'))
      | (None, rt') \<Rightarrow> bring_up invoke components (index + 1) names rt')"

definition Application_Start :: "'c callbacks \<Rightarrow> sched_call \<Rightarrow> 'c application \<Rightarrow> status \<times> 'c application" where
  "Application_Start invoke sched_start a =
     (if ap_phase a = AppRunning then (Status_Ok, a)
      else if ap_phase a = AppStopped
      then (Status_FailedPrecondition ''application already stopped; create a new one to run again'', a)
      else case bring_up invoke (ap_components a) 0 (ap_components a) (ap_runtime a) of
        (st, rt) \<Rightarrow>
          if \<not> status_ok st then (st, a\<lparr>ap_runtime := rt, ap_phase := AppStopped\<rparr>)
          else case sched_start (ap_scheduler a) of
            (st, executed, s) \<Rightarrow>
              let rt1 = execute_all invoke executed rt in
              if \<not> status_ok st
              then (Status_Error (st_code st) (''scheduler start failed: '' @ st_message st),
                    a\<lparr>ap_runtime := snd (TearDownComponents invoke (ap_components a) (length (ap_components a)) rt1),
                      ap_scheduler := s, ap_phase := AppStopped\<rparr>)
              else (Status_Ok, a\<lparr>ap_runtime := rt1, ap_scheduler := s, ap_phase := AppRunning\<rparr>))"

definition Application_Stop :: "'c callbacks \<Rightarrow> sched_call \<Rightarrow> (nat \<Rightarrow> status \<times> bool) \<Rightarrow> 'c application \<Rightarrow> status \<times> 'c application" where
  "Application_Stop invoke sched_stop try_close a =
     (if ap_phase a \<noteq> AppRunning then (Status_Ok, a\<lparr>ap_phase := AppStopped\<rparr>)
      else case sched_stop (ap_scheduler a) of
        (st, executed, s) \<Rightarrow>
          let rt = execute_all invoke executed (ap_runtime a);
              first = (if \<not> status_ok st then Status_Error (st_code st) (''scheduler stop failed: '' @ st_message st) else st) in
          (case TearDownComponents invoke (ap_components a) (length (ap_components a)) rt of
             (down, rt1) \<Rightarrow>
               let first = (if status_ok first then down else first) in
               (case Runtime_Close try_close rt1 of
                  (closed, rt2) \<Rightarrow>
                    (if status_ok first \<and> \<not> status_ok closed
                     then Status_Error (st_code closed) (''closing transports failed: '' @ st_message closed)
                     else first,
                     a\<lparr>ap_runtime := rt2, ap_scheduler := s, ap_phase := AppStopped\<rparr>))))"

definition Application_RequestStop :: "'c application \<Rightarrow> 'c application" where
  "Application_RequestStop a = a\<lparr>ap_stop_requested := True\<rparr>"

text \<open>
  \<open>Run\<close>: \<open>Start\<close>, a wait until a stop is requested, \<open>Stop\<close>. The workers execute the components \<open>waiting\<close> during the wait.
\<close>

definition Application_Run :: "'c callbacks \<Rightarrow> sched_call \<Rightarrow> component_name list \<Rightarrow> sched_call \<Rightarrow> (nat \<Rightarrow> status \<times> bool)
    \<Rightarrow> 'c application \<Rightarrow> status \<times> 'c application" where
  "Application_Run invoke sched_start waiting sched_stop try_close a =
     (case Application_Start invoke sched_start a of
        (st, a1) \<Rightarrow>
          if \<not> status_ok st then (st, a1)
          else Application_Stop invoke sched_stop try_close
                 (Application_RequestStop (a1\<lparr>ap_runtime := execute_all invoke waiting (ap_runtime a1)\<rparr>)))"

definition RuntimeContext_Create :: "(nat \<Rightarrow> status) \<Rightarrow> nat \<Rightarrow> runtime_options \<Rightarrow> 'c runtime result" where
  "RuntimeContext_Create try_open fresh r =
     (let st = RuntimeOptions_Validate r in
      if \<not> status_ok st then FromStatus st
      else case Runtime_Open try_open fresh (runtime_init (ro_default_transport_name r) (ro_register_inmemory_transport r)
              (ro_open_registered_transports r) []) of
        (st, rt) \<Rightarrow> if \<not> status_ok st then FromStatus st else Inr rt)"

fun component_names :: "component_config list \<Rightarrow> component_name list result" where
  "component_names [] = Inr []"
| "component_names (c # cs) =
     result_bind (NamedValue_Create ''component name'' (cc_name c)) (\<lambda>name.
     result_bind (component_names cs) (\<lambda>names. Inr (name # names)))"

text \<open>The two functions that register transports, absent or present.\<close>

type_synonym 'c register_transports = "('c runtime \<Rightarrow> status \<times> 'c runtime) option"

definition run_optional :: "'c register_transports \<Rightarrow> 'c runtime \<Rightarrow> status \<times> 'c runtime" where
  "run_optional f rt = (case f of None \<Rightarrow> (Status_Ok, rt) | Some g \<Rightarrow> g rt)"

definition Application_Create :: "(nat \<Rightarrow> status) \<Rightarrow> nat \<Rightarrow> 'c register_transports \<Rightarrow> (project_config \<Rightarrow> 'c register_transports)
    \<Rightarrow> ('c \<Rightarrow> component_spec) \<Rightarrow> 'c factories \<Rightarrow> project_config \<Rightarrow> 'c application result option" where
  "Application_Create try_open fresh register_transports register_project_transports describe factories p =
     do { errors \<leftarrow> ValidateProject p (Some factories);
          if errors \<noteq> []
          then Some (FromStatus (Status_InvalidArgument (foldl (\<lambda>m e. m @ ''; '' @ e) ''invalid project configuration'' errors)))
          else case component_names (pj_components p) of
              Inl st \<Rightarrow> Some (FromStatus st)
            | Inr names \<Rightarrow>
                (case result_bind (ProjectConfig_ToRuntimeOptions p) (RuntimeContext_Create try_open fresh) of
                   Inl st \<Rightarrow> Some (FromStatus st)
                 | Inr rt \<Rightarrow>
                     (case run_optional register_transports rt of
                        (st, rt1) \<Rightarrow>
                          (case (if status_ok st then run_optional (register_project_transports p) rt1 else (st, rt1)) of
                             (st, rt2) \<Rightarrow>
                               if \<not> status_ok st
                               then Some (FromStatus (Status_Error (st_code st)
                                 (''registering transports failed: '' @ st_message st)))
                               else do { (created, rt3) \<leftarrow> CreateScheduler_registry describe factories p rt2;
                                         Some (result_bind created (\<lambda>s. Inr \<lparr>ap_project = p, ap_runtime = rt3, ap_scheduler = s,
                                           ap_components = names, ap_stop_requested = False, ap_phase = AppCreated\<rparr>)) }))) }"

end
