(* ===== verification/Application_Properties.thy ===== *)
theory Application_Properties
  imports Application
begin

text \<open>
  What the system check accepts, and that an application leaves no component behind: all of them run, or all that
  were touched are shut down.
\<close>

section \<open>Tables of uses\<close>

definition uses_ok :: "'d use_table \<Rightarrow> bool" where
  "uses_ok m \<longleftrightarrow> omap_ok m
     \<and> (\<forall>n. omap_ok (us_consumers (omap_at no_uses m n)) \<and> omap_ok (us_producers (omap_at no_uses m n)))"

text \<open>\<open>m'\<close> adds to \<open>m\<close> the declarations \<open>D\<close>, the consumers \<open>C\<close> and the producers \<open>P\<close> of each name.\<close>

definition adds :: "(string \<Rightarrow> (string \<times> 'd) list) \<Rightarrow> (string \<Rightarrow> string set) \<Rightarrow> (string \<Rightarrow> string set)
    \<Rightarrow> 'd use_table \<Rightarrow> 'd use_table \<Rightarrow> bool" where
  "adds D C P m m' \<longleftrightarrow> uses_ok m' \<and> (\<forall>n.
     us_declarations (omap_at no_uses m' n) = us_declarations (omap_at no_uses m n) @ D n
     \<and> dom (omap_find (us_consumers (omap_at no_uses m' n))) = dom (omap_find (us_consumers (omap_at no_uses m n))) \<union> C n
     \<and> dom (omap_find (us_producers (omap_at no_uses m' n))) = dom (omap_find (us_producers (omap_at no_uses m n))) \<union> P n)"

lemma adds_nothing: "uses_ok m \<Longrightarrow> adds (\<lambda>_. []) (\<lambda>_. {}) (\<lambda>_. {}) m m"
  by (simp add: adds_def)

lemma adds_trans:
  "adds D C P m m1 \<Longrightarrow> adds D' C' P' m1 m2 \<Longrightarrow> adds (\<lambda>n. D n @ D' n) (\<lambda>n. C n \<union> C' n) (\<lambda>n. P n \<union> P' n) m m2"
  unfolding adds_def by (simp add: Un_assoc)

lemma adds_fold:
  assumes "\<And>x m. x \<in> set xs \<Longrightarrow> uses_ok m \<Longrightarrow> adds (D x) (C x) (P x) m (f x m)" "uses_ok m"
  shows "adds (\<lambda>n. concat (map (\<lambda>x. D x n) xs)) (\<lambda>n. \<Union>x \<in> set xs. C x n) (\<lambda>n. \<Union>x \<in> set xs. P x n) m (fold f xs m)"
  using assms
proof (induction xs arbitrary: m)
  case Nil
  then show ?case by (simp add: adds_nothing)
next
  case (Cons x xs)
  have first: "adds (D x) (C x) (P x) m (f x m)" using Cons.prems by simp
  then have "uses_ok (f x m)" by (simp add: adds_def)
  with Cons have "adds (\<lambda>n. concat (map (\<lambda>x. D x n) xs)) (\<lambda>n. \<Union>x \<in> set xs. C x n) (\<lambda>n. \<Union>x \<in> set xs. P x n) (f x m)
      (fold f xs (f x m))" by simp
  from adds_trans [OF first this] show ?case by simp
qed

lemma dom_omap_emplace: "omap_ok m \<Longrightarrow> dom (omap_find (omap_emplace k v m)) = insert k (dom (omap_find m))"
  by (auto simp: omap_find_emplace split: if_splits)

lemma adds_one:
  assumes "uses_ok m"
  shows "adds (\<lambda>n. if n = name then [(label, d)] else []) (\<lambda>_. {}) (\<lambda>_. {}) m (add_declaration label name d m)"
    "adds (\<lambda>_. []) (\<lambda>n. if n = name then {label} else {}) (\<lambda>_. {}) m (add_consumer label name m)"
    "adds (\<lambda>_. []) (\<lambda>_. {}) (\<lambda>n. if n = name then {label} else {}) m (add_producer label name m)"
proof -
  have ok: "omap_ok m" "omap_ok (us_consumers (omap_at no_uses m n))" "omap_ok (us_producers (omap_at no_uses m n))" for n
    using assms by (simp_all add: uses_ok_def)
  show "adds (\<lambda>n. if n = name then [(label, d)] else []) (\<lambda>_. {}) (\<lambda>_. {}) m (add_declaration label name d m)"
    "adds (\<lambda>_. []) (\<lambda>n. if n = name then {label} else {}) (\<lambda>_. {}) m (add_consumer label name m)"
    "adds (\<lambda>_. []) (\<lambda>_. {}) (\<lambda>n. if n = name then {label} else {}) m (add_producer label name m)"
    unfolding adds_def uses_ok_def add_declaration_def add_consumer_def add_producer_def Let_def
    using ok by (auto simp: omap_at_assign om.ok_assign omap_ok_emplace dom_omap_emplace)
qed

text \<open>A pass over ids that are looked up in the project.\<close>

definition named_by :: "(string \<Rightarrow> string option) \<Rightarrow> string list \<Rightarrow> string \<Rightarrow> bool" where
  "named_by name_of ids n \<longleftrightarrow> (\<exists>i \<in> set ids. name_of i = Some n)"

lemma concat_map_Nil: "concat (map (\<lambda>_. []) xs) = []"
  by (induction xs) simp_all

lemma UN_if: "(\<Union>x \<in> A. if Q x then {l} else {}) = (if \<exists>x \<in> A. Q x then {l} else {})"
  by (auto split: if_splits)

lemma UN_none: "(\<Union>x \<in> A. {}) = {}"
  by simp

lemmas fold_results = concat_map_Nil UN_if UN_none

lemma adds_note_all:
  assumes "uses_ok m"
  shows "adds (\<lambda>_. []) (\<lambda>n. if named_by name_of ids n then {label} else {}) (\<lambda>_. {}) m (note_all (add_consumer label) name_of ids m)"
    "adds (\<lambda>_. []) (\<lambda>_. {}) (\<lambda>n. if named_by name_of ids n then {label} else {}) m (note_all (add_producer label) name_of ids m)"
proof -
  let ?S = "\<lambda>i n. if name_of i = Some n then {label} else {}"
  have flip: "(\<lambda>n. if x = n then {label} else {}) = (\<lambda>n. if n = x then {label} else {})" for x :: string
    by (rule ext) auto
  have c: "adds (\<lambda>_. []) (?S i) (\<lambda>_. {}) m' (case name_of i of None \<Rightarrow> m' | Some n \<Rightarrow> add_consumer label n m')"
    if "uses_ok m'" for i and m' :: "'a use_table"
    using adds_one(2) [OF that, where label = label] adds_nothing [OF that] flip by (cases "name_of i") simp_all
  have p: "adds (\<lambda>_. []) (\<lambda>_. {}) (?S i) m' (case name_of i of None \<Rightarrow> m' | Some n \<Rightarrow> add_producer label n m')"
    if "uses_ok m'" for i and m' :: "'a use_table"
    using adds_one(3) [OF that, where label = label] adds_nothing [OF that] flip by (cases "name_of i") simp_all
  show "adds (\<lambda>_. []) (\<lambda>n. if named_by name_of ids n then {label} else {}) (\<lambda>_. {}) m (note_all (add_consumer label) name_of ids m)"
    using adds_fold [of ids "\<lambda>_ _. []" ?S "\<lambda>_ _. {}", OF c assms]
    unfolding fold_results note_all_def named_by_def .
  show "adds (\<lambda>_. []) (\<lambda>_. {}) (\<lambda>n. if named_by name_of ids n then {label} else {}) m (note_all (add_producer label) name_of ids m)"
    using adds_fold [of ids "\<lambda>_ _. []" "\<lambda>_ _. {}" ?S, OF p assms]
    unfolding fold_results note_all_def named_by_def .
qed

section \<open>What the system check reports\<close>

text \<open>The labels of the processes with a component that lists, under \<open>ids\<close>, an id of the name.\<close>

definition processes :: "(component_config \<Rightarrow> string list) \<Rightarrow> (project_config \<Rightarrow> string \<Rightarrow> string option) \<Rightarrow> named_project list
    \<Rightarrow> string \<Rightarrow> string set" where
  "processes ids name_of ps n =
     {l. \<exists>p c i. (l, p) \<in> set ps \<and> c \<in> set (pj_components p) \<and> i \<in> set (ids c) \<and> name_of p i = Some n}"

lemma adds_components:
  assumes "uses_ok m"
    and one: "\<And>c m. c \<in> set cs \<Longrightarrow> uses_ok m \<Longrightarrow> adds (\<lambda>_. []) (\<lambda>n. if named_by name_of (consumed c) n then {l} else {})
      (\<lambda>n. if named_by name_of (provided c) n then {l} else {}) m (f c m)"
  shows "adds (\<lambda>_. []) (\<lambda>n. if \<exists>c \<in> set cs. named_by name_of (consumed c) n then {l} else {})
    (\<lambda>n. if \<exists>c \<in> set cs. named_by name_of (provided c) n then {l} else {}) m (fold f cs m)"
  using adds_fold [of cs "\<lambda>_ _. []" "\<lambda>c n. if named_by name_of (consumed c) n then {l} else {}"
      "\<lambda>c n. if named_by name_of (provided c) n then {l} else {}" f m, OF one assms(1)]
  unfolding fold_results .

lemma adds_note_topics:
  assumes "uses_ok m"
  shows "adds (\<lambda>n. map (Pair l) (filter (\<lambda>t. tc_name t = n) (pj_topics p)))
    (\<lambda>n. if \<exists>c \<in> set (pj_components p). named_by (topic_name_of p) (cc_readers c) n then {l} else {})
    (\<lambda>n. if \<exists>c \<in> set (pj_components p). named_by (topic_name_of p) (cc_writers c) n then {l} else {}) m (note_topics (l, p) m)"
proof -
  have concat: "concat (map (\<lambda>t. if n = tc_name t then [(l, t)] else []) ts) = map (Pair l) (filter (\<lambda>t. tc_name t = n) ts)"
    for n ts by (induction ts) auto
  have decl: "adds (\<lambda>n. map (Pair l) (filter (\<lambda>t. tc_name t = n) (pj_topics p))) (\<lambda>_. {}) (\<lambda>_. {}) m
      (fold (\<lambda>t. add_declaration l (tc_name t) t) (pj_topics p) m)"
    using adds_fold [of "pj_topics p" "\<lambda>t n. if n = tc_name t then [(l, t)] else []" "\<lambda>_ _. {}" "\<lambda>_ _. {}"
        "\<lambda>t. add_declaration l (tc_name t) t" m, OF adds_one(1) assms] by (simp add: concat)
  then have ok: "uses_ok (fold (\<lambda>t. add_declaration l (tc_name t) t) (pj_topics p) m)" by (simp add: adds_def)
  have one: "adds (\<lambda>_. []) (\<lambda>n. if named_by (topic_name_of p) (cc_readers c) n then {l} else {})
      (\<lambda>n. if named_by (topic_name_of p) (cc_writers c) n then {l} else {}) m'
      (note_all (add_producer l) (topic_name_of p) (cc_writers c) (note_all (add_consumer l) (topic_name_of p) (cc_readers c) m'))"
    if "uses_ok m'" for c m'
  proof -
    note a = adds_note_all(1) [OF that, of "topic_name_of p" "cc_readers c" l]
    then have "uses_ok (note_all (add_consumer l) (topic_name_of p) (cc_readers c) m')" by (simp add: adds_def)
    from adds_trans [OF a adds_note_all(2) [OF this, of "topic_name_of p" "cc_writers c" l]] show ?thesis by simp
  qed
  from adds_trans [OF decl adds_components [OF ok one]] show ?thesis by (simp add: note_topics_def)
qed

lemma adds_note_services:
  assumes "uses_ok m"
  shows "adds (\<lambda>n. map (Pair l) (filter (\<lambda>t. vc_name t = n) (pj_services p)))
    (\<lambda>n. if \<exists>c \<in> set (pj_components p). named_by (service_name_of p) (cc_clients c) n then {l} else {})
    (\<lambda>n. if \<exists>c \<in> set (pj_components p). named_by (service_name_of p) (cc_servers c) n then {l} else {}) m (note_services (l, p) m)"
proof -
  have concat: "concat (map (\<lambda>t. if n = vc_name t then [(l, t)] else []) ts) = map (Pair l) (filter (\<lambda>t. vc_name t = n) ts)"
    for n ts by (induction ts) auto
  have decl: "adds (\<lambda>n. map (Pair l) (filter (\<lambda>t. vc_name t = n) (pj_services p))) (\<lambda>_. {}) (\<lambda>_. {}) m
      (fold (\<lambda>t. add_declaration l (vc_name t) t) (pj_services p) m)"
    using adds_fold [of "pj_services p" "\<lambda>t n. if n = vc_name t then [(l, t)] else []" "\<lambda>_ _. {}" "\<lambda>_ _. {}"
        "\<lambda>t. add_declaration l (vc_name t) t" m, OF adds_one(1) assms] by (simp add: concat)
  then have ok: "uses_ok (fold (\<lambda>t. add_declaration l (vc_name t) t) (pj_services p) m)" by (simp add: adds_def)
  have one: "adds (\<lambda>_. []) (\<lambda>n. if named_by (service_name_of p) (cc_clients c) n then {l} else {})
      (\<lambda>n. if named_by (service_name_of p) (cc_servers c) n then {l} else {}) m'
      (note_all (add_consumer l) (service_name_of p) (cc_clients c) (note_all (add_producer l) (service_name_of p) (cc_servers c) m'))"
    if "uses_ok m'" for c m'
  proof -
    note a = adds_note_all(2) [OF that, of "service_name_of p" "cc_servers c" l]
    then have "uses_ok (note_all (add_producer l) (service_name_of p) (cc_servers c) m')" by (simp add: adds_def)
    from adds_trans [OF a adds_note_all(1) [OF this, of "service_name_of p" "cc_clients c" l]] show ?thesis by simp
  qed
  from adds_trans [OF decl adds_components [OF ok one]] show ?thesis by (simp add: note_services_def)
qed

lemmas adds_note_topics_pair = adds_note_topics [where l = "fst e" and p = "snd e" for e, unfolded prod.collapse]
lemmas adds_note_services_pair = adds_note_services [where l = "fst e" and p = "snd e" for e, unfolded prod.collapse]

text \<open>The finished tables.\<close>

definition declared :: "(project_config \<Rightarrow> 'd list) \<Rightarrow> ('d \<Rightarrow> string) \<Rightarrow> named_project list \<Rightarrow> string \<Rightarrow> (string \<times> 'd) list" where
  "declared items name ps n = concat (map (\<lambda>(l, p). map (Pair l) (filter (\<lambda>d. name d = n) (items p))) ps)"

lemma processes_union:
  "(\<Union>e \<in> set ps. if \<exists>c \<in> set (pj_components (snd e)). named_by (name_of (snd e)) (ids c) n then {fst e} else {})
     = processes ids name_of ps n"
proof (rule set_eqI)
  fix l
  show "l \<in> (\<Union>e \<in> set ps. if \<exists>c \<in> set (pj_components (snd e)). named_by (name_of (snd e)) (ids c) n then {fst e} else {})
     \<longleftrightarrow> l \<in> processes ids name_of ps n"
    unfolding processes_def named_by_def by (force split: if_splits)
qed

lemma uses_ok_Nil: "uses_ok []"
  by (simp add: uses_ok_def omap_at_def no_uses_def)

lemma topic_table:
  "adds (declared pj_topics tc_name ps) (processes cc_readers topic_name_of ps) (processes cc_writers topic_name_of ps) []
     (fold note_topics ps [])"
  using adds_fold [of ps "\<lambda>e n. map (Pair (fst e)) (filter (\<lambda>t. tc_name t = n) (pj_topics (snd e)))"
      "\<lambda>e n. if \<exists>c \<in> set (pj_components (snd e)). named_by (topic_name_of (snd e)) (cc_readers c) n then {fst e} else {}"
      "\<lambda>e n. if \<exists>c \<in> set (pj_components (snd e)). named_by (topic_name_of (snd e)) (cc_writers c) n then {fst e} else {}"
      note_topics "[]", OF adds_note_topics_pair uses_ok_Nil]
  unfolding processes_union declared_def split_beta .

lemma service_table:
  "adds (declared pj_services vc_name ps) (processes cc_clients service_name_of ps) (processes cc_servers service_name_of ps) []
     (fold note_services ps [])"
  using adds_fold [of ps "\<lambda>e n. map (Pair (fst e)) (filter (\<lambda>t. vc_name t = n) (pj_services (snd e)))"
      "\<lambda>e n. if \<exists>c \<in> set (pj_components (snd e)). named_by (service_name_of (snd e)) (cc_clients c) n then {fst e} else {}"
      "\<lambda>e n. if \<exists>c \<in> set (pj_components (snd e)). named_by (service_name_of (snd e)) (cc_servers c) n then {fst e} else {}"
      note_services "[]", OF adds_note_services_pair uses_ok_Nil]
  unfolding processes_union declared_def split_beta .

text \<open>
  What a topic or service promises the processes that use it: one of them provides it, and their declarations of it
  are equal up to \<open>key\<close>.
\<close>

definition one_contract :: "('d \<Rightarrow> 'k) \<Rightarrow> (string \<times> 'd) list \<Rightarrow> string set \<Rightarrow> string set \<Rightarrow> bool" where
  "one_contract key ds users providers \<longleftrightarrow> users \<union> providers = {}
     \<or> (\<exists>l. providers = {l}) \<and> (\<forall>d \<in> set ds. \<forall>e \<in> set ds. {fst d, fst e} \<subseteq> users \<union> providers \<longrightarrow> key (snd d) = key (snd e))"

lemma compare_with_first:
  "compare_declarations differ message u (Some f) ds = [] \<longleftrightarrow> (\<forall>d \<in> set ds. uses_it u (fst d) \<longrightarrow> \<not> differ (snd f) (snd d))"
  by (induction ds) auto

lemma compare_all:
  assumes "\<And>a b. differ a b \<longleftrightarrow> key a \<noteq> key b"
  shows "compare_declarations differ message u None ds = []
    \<longleftrightarrow> (\<forall>d \<in> set ds. \<forall>e \<in> set ds. uses_it u (fst d) \<and> uses_it u (fst e) \<longrightarrow> key (snd d) = key (snd e))"
proof (induction ds)
  case (Cons d ds)
  show ?case
  proof (cases "uses_it u (fst d)")
    case True
    then have "compare_declarations differ message u None (d # ds) = []
        \<longleftrightarrow> (\<forall>e \<in> set ds. uses_it u (fst e) \<longrightarrow> key (snd d) = key (snd e))"
      by (simp add: compare_with_first assms)
    also have "\<dots> \<longleftrightarrow> (\<forall>e \<in> set (d # ds). uses_it u (fst e) \<longrightarrow> key (snd e) = key (snd d))" by auto
    finally show ?thesis using True by (metis list.set_intros(1))
  next
    case False
    with Cons show ?thesis by simp
  qed
qed simp

lemma omap_length_one:
  assumes "omap_ok m"
  shows "length m = 1 \<longleftrightarrow> (\<exists>l. dom (omap_find m) = {l})"
proof -
  have keys: "dom (omap_find m) = set (omap_keys m)" by (auto simp: omap_find_keys dom_def)
  have "length m = card (set (omap_keys m))"
    using omap_keys_sorted [OF assms] distinct_card [of "omap_keys m"] by (simp add: omap_keys_def)
  then show ?thesis by (simp add: keys card_1_singleton_iff)
qed

lemma omap_empty_iff: "m = [] \<longleftrightarrow> dom (omap_find m) = {}"
proof -
  have "dom (omap_find m) = set (omap_keys m)" by (auto simp: omap_find_keys dom_def)
  then show ?thesis by (simp add: omap_keys_def)
qed

lemma no_errors_by_name:
  assumes "omap_ok m" "\<And>n. f n v = []"
  shows "(\<forall>(n, u) \<in> set m. f n u = []) \<longleftrightarrow> (\<forall>n. f n (omap_at v m n) = [])"
proof
  assume all: "\<forall>(n, u) \<in> set m. f n u = []"
  show "\<forall>n. f n (omap_at v m n) = []"
  proof
    fix n
    show "f n (omap_at v m n) = []"
      using all assms(2) omap_find_in [of m n] by (cases "omap_find m n") (auto simp: omap_at_def)
  qed
next
  assume all: "\<forall>n. f n (omap_at v m n) = []"
  show "\<forall>(n, u) \<in> set m. f n u = []"
  proof clarify
    fix n u
    assume "(n, u) \<in> set m"
    then have "omap_at v m n = u" using omap_in_find [OF assms(1)] by (simp add: omap_at_def)
    with all show "f n u = []" by metis
  qed
qed

lemma contract_of_uses:
  assumes "omap_ok (us_consumers u)" "omap_ok (us_producers u)" "\<And>a b. differ a b \<longleftrightarrow> key a \<noteq> key b"
  shows "(us_consumers u = [] \<and> us_producers u = [])
      \<or> compare_declarations differ message u None (us_declarations u) = [] \<and> length (us_producers u) = 1
    \<longleftrightarrow> one_contract key (us_declarations u) (dom (omap_find (us_consumers u))) (dom (omap_find (us_producers u)))"
  unfolding one_contract_def compare_all [OF assms(3)] omap_length_one [OF assms(2)] omap_empty_iff uses_it_def Un_empty
  by (auto simp: dom_def)

lemma one_producer: "length ps \<noteq> 0 \<and> \<not> 1 < length ps \<longleftrightarrow> length ps = 1"
  by linarith

lemma check_topic_errors:
  "sr_errors (check_topic n u) = [] \<longleftrightarrow> (us_consumers u = [] \<and> us_producers u = [])
     \<or> compare_declarations topics_differ (\<lambda>f d. ''topic '' @ n @ '' is '' @ describe_topic (snd f) @ '' in ''
                @ fst f @ '' but '' @ describe_topic (snd d) @ '' in '' @ fst d) u None (us_declarations u) = []
       \<and> length (us_producers u) = 1"
  unfolding check_topic_def one_producer [symmetric] by simp

lemma check_service_errors:
  "sr_errors (check_service n u) = [] \<longleftrightarrow> (us_consumers u = [] \<and> us_producers u = [])
     \<or> compare_declarations services_differ (\<lambda>f d. ''service '' @ n @ '' is '' @ service_contract (snd f) @ '' in ''
                @ fst f @ '' but '' @ service_contract (snd d) @ '' in '' @ fst d) u None (us_declarations u) = []
       \<and> length (us_producers u) = 1"
  unfolding check_service_def one_producer [symmetric] by auto

definition topic_key :: "topic_config \<Rightarrow> string \<times> string \<times> u32 \<times> transport_kind" where
  "topic_key t = (tc_message_type t, tc_encoding t, tc_message_version t, tc_transport t)"

lemma no_uses_empty:
  "dom (omap_find (us_consumers no_uses)) = {}" "dom (omap_find (us_producers no_uses)) = {}" "us_declarations no_uses = []"
  by (simp_all add: no_uses_def dom_def)

lemma omap_at_Nil: "omap_at v [] n = v"
  by (simp add: omap_at_def)

lemma adds_from_empty:
  assumes "adds D C P [] m"
  shows "omap_ok m" "us_declarations (omap_at no_uses m n) = D n" "dom (omap_find (us_consumers (omap_at no_uses m n))) = C n"
    "dom (omap_find (us_producers (omap_at no_uses m n))) = P n" "omap_ok (us_consumers (omap_at no_uses m n))"
    "omap_ok (us_producers (omap_at no_uses m n))"
  using assms unfolding adds_def uses_ok_def omap_at_Nil no_uses_empty by simp_all

lemma topics_without_errors:
  "(\<forall>(n, u) \<in> set (fold note_topics ps []). sr_errors (check_topic n u) = [])
     \<longleftrightarrow> (\<forall>n. one_contract topic_key (declared pj_topics tc_name ps n) (processes cc_readers topic_name_of ps n)
           (processes cc_writers topic_name_of ps n))"
proof -
  note t = adds_from_empty [OF topic_table [of ps]]
  have key: "topics_differ a b \<longleftrightarrow> topic_key a \<noteq> topic_key b" for a b
    by (auto simp: topics_differ_def topic_key_def)
  have none: "sr_errors (check_topic n no_uses) = []" for n by (simp add: check_topic_def no_uses_def)
  show ?thesis
    unfolding no_errors_by_name [where f = "\<lambda>n u. sr_errors (check_topic n u)", OF t(1) none]
    unfolding check_topic_errors
      contract_of_uses [OF t(5,6) key]
    unfolding t ..
qed

lemma services_without_errors:
  "(\<forall>(n, u) \<in> set (fold note_services ps []). sr_errors (check_service n u) = [])
     \<longleftrightarrow> (\<forall>n. one_contract service_contract (declared pj_services vc_name ps n) (processes cc_clients service_name_of ps n)
           (processes cc_servers service_name_of ps n))"
proof -
  note t = adds_from_empty [OF service_table [of ps]]
  have none: "sr_errors (check_service n no_uses) = []" for n by (simp add: check_service_def no_uses_def)
  show ?thesis
    unfolding no_errors_by_name [where f = "\<lambda>n u. sr_errors (check_service n u)", OF t(1) none]
    unfolding check_service_errors
      contract_of_uses [OF t(5,6) services_differ_def]
    unfolding t ..
qed


section \<open>The lifecycle of an application\<close>

text \<open>The application's components are registered, and the callbacks leave their states and instances alone.\<close>

definition comps_ok :: "component_name list \<Rightarrow> 'c runtime \<Rightarrow> bool" where
  "comps_ok names rt \<longleftrightarrow> omap_ok (rt_states rt)
     \<and> (\<forall>n \<in> set names. omap_find (rt_instances rt) (str n) \<noteq> None \<and> omap_find (rt_states rt) (str n) \<noteq> None)"

definition state_of :: "'c runtime \<Rightarrow> component_name \<Rightarrow> component_state" where
  "state_of rt n = the (omap_find (rt_states rt) (str n))"

definition callbacks_ok :: "'c callbacks \<Rightarrow> component_name list \<Rightarrow> bool" where
  "callbacks_ok invoke names \<longleftrightarrow> (\<forall>n \<in> set names. leaves_component invoke n)"

lemma lifecycle_call_state:
  assumes ok: "comps_ok names rt" and cb: "callbacks_ok invoke names" and n: "n \<in> set names"
    and call: "lifecycle_call invoke op n rt = (st, rt')"
  shows "comps_ok names rt'" "\<And>m. m \<in> set names \<Longrightarrow> m \<noteq> n \<Longrightarrow> state_of rt' m = state_of rt m"
    "state_of rt' n = (if state_of rt n \<in> set (lifecycle_allowed op)
       then case lifecycle_new op st of None \<Rightarrow> state_of rt n | Some s \<Rightarrow> s else state_of rt n)"
    "state_of rt n \<notin> set (lifecycle_allowed op) \<Longrightarrow> \<not> status_ok st"
proof -
  from ok n obtain c where c: "omap_find (rt_instances rt) (str n) = Some c"
    "omap_find (rt_states rt) (str n) = Some (state_of rt n)" "omap_ok (rt_states rt)"
    by (auto simp: comps_ok_def state_of_def)
  note r = run_lifecycle_called [OF c(1,2) call [unfolded lifecycle_call_run]]
  let ?rt = "snd (invoke c op rt)"
  have keep: "omap_ok (rt_states ?rt)" "\<And>m. m \<in> set names \<Longrightarrow> omap_find (rt_states ?rt) (str m) = omap_find (rt_states rt) (str m)"
    "\<And>m. m \<in> set names \<Longrightarrow> omap_find (rt_instances ?rt) (str m) = omap_find (rt_instances rt) (str m)"
    using cb c(3) n by (auto simp: callbacks_ok_def leaves_component_def)
  have "comps_ok names rt' \<and> (\<forall>m \<in> set names. m \<noteq> n \<longrightarrow> state_of rt' m = state_of rt m)
    \<and> state_of rt' n = (if state_of rt n \<in> set (lifecycle_allowed op)
       then case lifecycle_new op st of None \<Rightarrow> state_of rt n | Some s \<Rightarrow> s else state_of rt n)"
  proof (cases "state_of rt n \<in> set (lifecycle_allowed op)")
    case True
    show ?thesis
    proof (cases "lifecycle_new op st")
      case None
      with r True have "rt' = ?rt" by simp
      with keep ok n None True show ?thesis by (auto simp: comps_ok_def state_of_def)
    next
      case (Some s)
      with r True have "rt' = snd (SetComponentState n s ?rt)" by simp
      then have "rt' = ?rt\<lparr>rt_states := omap_assign (str n) s (rt_states ?rt)\<rparr>"
        using keep(2) [OF n] c(2) by (simp add: SetComponentState_def)
      with keep ok n Some True show ?thesis
        by (auto simp: comps_ok_def state_of_def omap_find_assign omap_ok_assign named_value.expand)
    qed
  next
    case False
    with r ok show ?thesis by simp
  qed
  then show "comps_ok names rt'" "\<And>m. m \<in> set names \<Longrightarrow> m \<noteq> n \<Longrightarrow> state_of rt' m = state_of rt m"
    "state_of rt' n = (if state_of rt n \<in> set (lifecycle_allowed op)
       then case lifecycle_new op st of None \<Rightarrow> state_of rt n | Some s \<Rightarrow> s else state_of rt n)" by blast+
  show "state_of rt n \<notin> set (lifecycle_allowed op) \<Longrightarrow> \<not> status_ok st"
    using r by (simp add: status_ok_def)
qed

text \<open>Execution moves a component from \<open>kStarted\<close> to \<open>kError\<close> or not at all.\<close>

lemma execute_all_states:
  assumes "comps_ok names rt" "callbacks_ok invoke names" "set executed \<subseteq> set names"
  shows "comps_ok names (execute_all invoke executed rt)
    \<and> (\<forall>m \<in> set names. state_of (execute_all invoke executed rt) m = state_of rt m
        \<or> m \<in> set executed \<and> state_of rt m = kStarted \<and> state_of (execute_all invoke executed rt) m = kError)"
  using assms
proof (induction executed arbitrary: rt)
  case Nil
  then show ?case by (simp add: execute_all_def)
next
  case (Cons n executed)
  obtain st rt1 where call: "lifecycle_call invoke Execute n rt = (st, rt1)" by (cases "lifecycle_call invoke Execute n rt")
  have n: "n \<in> set names" "set executed \<subseteq> set names" using Cons.prems by auto
  note one = lifecycle_call_state [OF Cons.prems(1,2) n(1) call]
  have "state_of rt1 n = state_of rt n \<or> state_of rt n = kStarted \<and> state_of rt1 n = kError"
    unfolding one(3) by (auto simp: lifecycle_new_def)
  moreover have "execute_all invoke (n # executed) rt = execute_all invoke executed rt1"
    using call by (simp add: execute_all_def)
  moreover note Cons.IH [OF one(1) Cons.prems(2) n(2)] one(2)
  ultimately show ?case by (metis component_state.distinct list.set_intros)
qed

lemma record_failure_ok: "status_ok (record_failure n step st first) \<longleftrightarrow> status_ok first \<and> status_ok st"
  by (auto simp: record_failure_def status_ok_def)

lemma shutdown_state:
  assumes "comps_ok names rt" "callbacks_ok invoke names" "n \<in> set names" "ShutdownComponent invoke n rt = (st, rt')"
    "state_of rt n \<notin> {kStarted, kShutdown}"
  shows "state_of rt' n = (if status_ok st then kShutdown else kError)"
proof -
  have "state_of rt n \<in> set (lifecycle_allowed Shutdown)" using assms(5) by (cases "state_of rt n") auto
  then show ?thesis
    using lifecycle_call_state(3) [OF assms(1-3), of Shutdown st rt'] assms(4) by (simp add: lifecycle_new_def)
qed

lemma get_state:
  "comps_ok names rt \<Longrightarrow> n \<in> set names \<Longrightarrow> GetComponentState rt n = Inr (state_of rt n)"
  by (auto simp: comps_ok_def GetComponentState_def state_of_def)

text \<open>What \<open>ShutdownComponent\<close> contributes, once the component is not running.\<close>

lemma tear_down_shutdown:
  assumes ok: "comps_ok names rt" and cb: "callbacks_ok invoke names" and n: "n \<in> set names" and s: "state_of rt n \<noteq> kStarted"
    and res: "(if state_of rt n \<noteq> kShutdown
      then case ShutdownComponent invoke n rt of (st, rt2) \<Rightarrow> (record_failure n ''shutdown'' st first, rt2)
      else (first, rt)) = (first', rt')"
  shows "comps_ok names rt' \<and> (\<forall>m \<in> set names. m \<noteq> n \<longrightarrow> state_of rt' m = state_of rt m)
    \<and> state_of rt' n \<in> {kShutdown, kError} \<and> (status_ok first' \<longrightarrow> status_ok first \<and> state_of rt' n = kShutdown)"
proof (cases "state_of rt n = kShutdown")
  case True
  then show ?thesis using res ok by simp
next
  case False
  obtain st rt2 where call: "ShutdownComponent invoke n rt = (st, rt2)" by (cases "ShutdownComponent invoke n rt")
  then have life: "lifecycle_call invoke Shutdown n rt = (st, rt2)" by simp
  have "state_of rt2 n = (if status_ok st then kShutdown else kError)"
    using shutdown_state [OF ok cb n call] s False by simp
  moreover have "first' = record_failure n ''shutdown'' st first" "rt' = rt2" using res False call by simp_all
  ultimately show ?thesis using lifecycle_call_state(1,2) [OF ok cb n life] by (simp add: record_failure_ok)
qed

lemma tear_down_one:
  assumes ok: "comps_ok names rt" and cb: "callbacks_ok invoke names" and n: "n \<in> set names"
    and res: "tear_down_component invoke n (first, rt) = (first', rt')"
  shows "comps_ok names rt' \<and> (\<forall>m \<in> set names. m \<noteq> n \<longrightarrow> state_of rt' m = state_of rt m)
    \<and> state_of rt' n \<in> {kShutdown, kError} \<and> (status_ok first' \<longrightarrow> status_ok first \<and> state_of rt' n = kShutdown)"
proof (cases "state_of rt n = kStarted")
  case True
  obtain st rt1 where call: "StopComponent invoke n rt = (st, rt1)" by (cases "StopComponent invoke n rt")
  then have life: "lifecycle_call invoke Stop n rt = (st, rt1)" by simp
  note one = lifecycle_call_state [OF ok cb n life]
  have s1: "state_of rt1 n \<noteq> kStarted" using one(3) True by (simp add: lifecycle_new_def)
  have "(if state_of rt1 n \<noteq> kShutdown
      then case ShutdownComponent invoke n rt1 of (st', rt2) \<Rightarrow> (record_failure n ''shutdown'' st' (record_failure n ''stop'' st first), rt2)
      else (record_failure n ''stop'' st first, rt1)) = (first', rt')"
    using res True by (simp add: tear_down_component_def get_state [OF ok n] call get_state [OF one(1) n])
  from tear_down_shutdown [OF one(1) cb n s1 this] one(2) show ?thesis by (auto simp: record_failure_ok)
next
  case False
  have "(if state_of rt n \<noteq> kShutdown
      then case ShutdownComponent invoke n rt of (st', rt2) \<Rightarrow> (record_failure n ''shutdown'' st' first, rt2)
      else (first, rt)) = (first', rt')"
    using res False by (simp add: tear_down_component_def get_state [OF ok n])
  from tear_down_shutdown [OF ok cb n False this] show ?thesis .
qed

lemma tear_down_fold:
  assumes "comps_ok names rt" "callbacks_ok invoke names" "set ns \<subseteq> set names" "distinct ns"
    "fold (tear_down_component invoke) ns (first, rt) = (first', rt')"
  shows "comps_ok names rt' \<and> (\<forall>m \<in> set names - set ns. state_of rt' m = state_of rt m)
    \<and> (\<forall>m \<in> set ns. state_of rt' m \<in> {kShutdown, kError})
    \<and> (status_ok first' \<longrightarrow> status_ok first \<and> (\<forall>m \<in> set ns. state_of rt' m = kShutdown))"
  using assms
proof (induction ns arbitrary: first rt)
  case Nil
  then show ?case by simp
next
  case (Cons n ns)
  obtain first1 rt1 where one: "tear_down_component invoke n (first, rt) = (first1, rt1)"
    by (cases "tear_down_component invoke n (first, rt)")
  have n: "n \<in> set names" "set ns \<subseteq> set names" "distinct ns" "n \<notin> set ns" using Cons.prems by auto
  have rest: "fold (tear_down_component invoke) ns (first1, rt1) = (first', rt')" using Cons.prems(5) one by simp
  note t = tear_down_one [OF Cons.prems(1,2) n(1) one]
  note ih = Cons.IH [OF conjunct1 [OF t] Cons.prems(2) n(2,3) rest]
  have "state_of rt' n = state_of rt1 n" using ih n by blast
  moreover have "state_of rt' m = state_of rt m" if "m \<in> set names - set (n # ns)" for m
    using ih t that by auto
  ultimately show ?case using ih t by auto
qed

lemma TearDown_states:
  assumes "comps_ok names rt" "callbacks_ok invoke names" "distinct names" "TearDownComponents invoke names k rt = (st, rt')"
  shows "comps_ok names rt' \<and> (\<forall>m \<in> set names - set (take k names). state_of rt' m = state_of rt m)
    \<and> (\<forall>m \<in> set (take k names). state_of rt' m \<in> {kShutdown, kError})
    \<and> (status_ok st \<longrightarrow> (\<forall>m \<in> set (take k names). state_of rt' m = kShutdown))"
proof -
  have "set (rev (take k names)) \<subseteq> set names" "distinct (rev (take k names))"
    "fold (tear_down_component invoke) (rev (take k names)) (Status_Ok, rt) = (st, rt')"
    using assms(3,4) by (simp_all add: set_take_subset TearDownComponents_def)
  from tear_down_fold [OF assms(1,2) this] show ?thesis by simp
qed

lemma run_start_steps:
  assumes ok: "comps_ok names rt" and cb: "callbacks_ok invoke names" and n: "n \<in> set names" and s: "state_of rt n = kCreated"
    and res: "run_steps invoke n start_steps rt = (failed, rt')"
  shows "comps_ok names rt' \<and> (\<forall>m \<in> set names. m \<noteq> n \<longrightarrow> state_of rt' m = state_of rt m)
    \<and> (case failed of None \<Rightarrow> state_of rt' n = kStarted | Some (op, st) \<Rightarrow> \<not> status_ok st)"
proof -
  obtain st1 rt1 where c1: "ConfigureComponent invoke n rt = (st1, rt1)" by (cases "ConfigureComponent invoke n rt")
  then have "lifecycle_call invoke Configure n rt = (st1, rt1)" by simp
  note one = lifecycle_call_state [OF ok cb n this]
  obtain st2 rt2 where c2: "InitializeComponent invoke n rt1 = (st2, rt2)" by (cases "InitializeComponent invoke n rt1")
  then have "lifecycle_call invoke Initialize n rt1 = (st2, rt2)" by simp
  note two = lifecycle_call_state [OF one(1) cb n this]
  obtain st3 rt3 where c3: "StartComponent invoke n rt2 = (st3, rt3)" by (cases "StartComponent invoke n rt2")
  then have "lifecycle_call invoke Start n rt2 = (st3, rt3)" by simp
  note three = lifecycle_call_state [OF two(1) cb n this]
  have "status_ok st1 \<Longrightarrow> state_of rt1 n = kConfigured" using one(3) s by (simp add: lifecycle_new_def)
  moreover have "status_ok st2 \<Longrightarrow> state_of rt1 n = kConfigured \<Longrightarrow> state_of rt2 n = kInitialized"
    using two(3) by (simp add: lifecycle_new_def)
  moreover have "status_ok st3 \<Longrightarrow> state_of rt2 n = kInitialized \<Longrightarrow> state_of rt3 n = kStarted"
    using three(3) by (simp add: lifecycle_new_def)
  moreover have "(failed, rt') = (if \<not> status_ok st1 then (Some (Configure, st1), rt1)
      else if \<not> status_ok st2 then (Some (Initialize, st2), rt2)
      else if \<not> status_ok st3 then (Some (Start, st3), rt3) else (None, rt3))"
    using res c1 c2 c3 by (cases "status_ok st1"; cases "status_ok st2"; cases "status_ok st3") (simp_all add: start_steps_def)
  ultimately show ?thesis
    using one(1,2) two(1,2) three(1,2) by (auto split: if_splits)
qed

text \<open>
  After a failure at component \<open>k\<close> the components up to \<open>k\<close> have been torn down and the later ones never touched.
\<close>

definition torn_down :: "component_name list \<Rightarrow> nat \<Rightarrow> 'c runtime \<Rightarrow> bool" where
  "torn_down names k rt \<longleftrightarrow> (\<forall>i < length names.
     if i < k then state_of rt (names ! i) \<in> {kShutdown, kError} else state_of rt (names ! i) = kCreated)"

lemma TearDown_torn_down:
  assumes "comps_ok names rt" "callbacks_ok invoke names" "distinct names"
    "\<And>i. k \<le> i \<Longrightarrow> i < length names \<Longrightarrow> state_of rt (names ! i) = kCreated"
  shows "torn_down names k (snd (TearDownComponents invoke names k rt))"
proof -
  obtain st rt' where t: "TearDownComponents invoke names k rt = (st, rt')" by (cases "TearDownComponents invoke names k rt")
  note down = TearDown_states [OF assms(1-3) t]
  show ?thesis unfolding torn_down_def t snd_conv
  proof (intro allI impI)
    fix i
    assume i: "i < length names"
    show "if i < k then state_of rt' (names ! i) \<in> {kShutdown, kError} else state_of rt' (names ! i) = kCreated"
    proof (cases "i < k")
      case True
      with i have "names ! i \<in> set (take k names)" by (auto simp: in_set_conv_nth intro!: exI [of _ i])
      with down True show ?thesis by simp
    next
      case False
      have "names ! i \<notin> set (take k names)"
        using False i assms(3) by (auto simp: in_set_conv_nth nth_eq_iff_index_eq)
      with i have "names ! i \<in> set names - set (take k names)" by simp
      with down False assms(4) [of i] i show ?thesis by simp
    qed
  qed
qed

lemma bring_up_states:
  assumes "comps_ok names rt" "callbacks_ok invoke names" "distinct names" "names = before @ todo" "index = length before"
    "\<forall>n \<in> set before. state_of rt n = kStarted" "\<forall>n \<in> set todo. state_of rt n = kCreated"
    "bring_up invoke names index todo rt = (st, rt')"
  shows "if status_ok st then comps_ok names rt' \<and> (\<forall>n \<in> set names. state_of rt' n = kStarted)
    else \<exists>k. 0 < k \<and> k \<le> length names \<and> torn_down names k rt'"
  using assms
proof (induction todo arbitrary: before index rt)
  case Nil
  then show ?case by auto
next
  case (Cons n todo)
  have n: "n \<in> set names" "state_of rt n = kCreated" using Cons.prems(4,7) by auto
  obtain failed rt1 where r: "run_steps invoke n start_steps rt = (failed, rt1)" by (cases "run_steps invoke n start_steps rt")
  note steps = run_start_steps [OF Cons.prems(1,2) n r]
  have fresh: "n \<notin> set before" "n \<notin> set todo" using Cons.prems(3,4) by auto
  have todo: "\<forall>m \<in> set todo. state_of rt1 m = kCreated" using steps fresh Cons.prems(4,7) by auto
  show ?case
  proof (cases failed)
    case None
    have "\<forall>m \<in> set (before @ [n]). state_of rt1 m = kStarted" using steps fresh Cons.prems(4,6) None by auto
    moreover have "bring_up invoke names (index + 1) todo rt1 = (st, rt')" using Cons.prems(8) r None by simp
    moreover have "names = (before @ [n]) @ todo" "index + 1 = length (before @ [n])" using Cons.prems(4,5) by simp_all
    ultimately show ?thesis using Cons.IH [OF conjunct1 [OF steps] Cons.prems(2,3)] todo by blast
  next
    case (Some f)
    obtain op st0 where f: "f = (op, st0)" by (cases f)
    have bad: "\<not> status_ok st0" using steps Some f by simp
    have "state_of rt1 (names ! i) = kCreated" if "index + 1 \<le> i" "i < length names" for i
    proof -
      have "names ! i = todo ! (i - (index + 1))" using that Cons.prems(4,5) by (simp add: nth_append)
      then show ?thesis using todo that Cons.prems(4,5) by simp
    qed
    from TearDown_torn_down [OF conjunct1 [OF steps] Cons.prems(2,3) this]
    have "torn_down names (index + 1) rt'" "\<not> status_ok st"
      using Cons.prems(8) r Some f bad by (auto simp: status_ok_def)
    moreover have "index + 1 \<le> length names" using Cons.prems(4,5) by simp
    ultimately show ?thesis by auto
  qed
qed

text \<open>An application as \<open>Create\<close> leaves it, and calls that execute its own components only.\<close>

definition app_created :: "'c callbacks \<Rightarrow> 'c application \<Rightarrow> bool" where
  "app_created invoke a \<longleftrightarrow> ap_phase a = AppCreated \<and> comps_ok (ap_components a) (ap_runtime a) \<and> distinct (ap_components a)
     \<and> (\<forall>n \<in> set (ap_components a). state_of (ap_runtime a) n = kCreated) \<and> callbacks_ok invoke (ap_components a)"

definition executes_only :: "component_name list \<Rightarrow> sched_call \<Rightarrow> bool" where
  "executes_only names call \<longleftrightarrow> (\<forall>s. set (fst (snd (call s))) \<subseteq> set names)"

lemma Start_states:
  assumes created: "app_created invoke a" and sub: "executes_only (ap_components a) sched_start"
    and res: "Application_Start invoke sched_start a = (st, a')"
  shows "ap_components a' = ap_components a \<and>
    (if status_ok st
     then ap_phase a' = AppRunning \<and> comps_ok (ap_components a) (ap_runtime a')
       \<and> (\<forall>n \<in> set (ap_components a). state_of (ap_runtime a') n = kStarted
            \<or> state_of (ap_runtime a') n = kError \<and> n \<in> set (fst (snd (sched_start (ap_scheduler a)))))
     else ap_phase a' = AppStopped \<and> (\<exists>k \<le> length (ap_components a). torn_down (ap_components a) k (ap_runtime a')))"
proof -
  note c = created [unfolded app_created_def]
  have ap: "ap_phase a = AppCreated" "distinct (ap_components a)" and ok: "comps_ok (ap_components a) (ap_runtime a)"
    and s0: "\<forall>n \<in> set (ap_components a). state_of (ap_runtime a) n = kCreated" and cb: "callbacks_ok invoke (ap_components a)"
    using c by simp_all
  obtain st0 rt0 where up: "bring_up invoke (ap_components a) 0 (ap_components a) (ap_runtime a) = (st0, rt0)"
    by (cases "bring_up invoke (ap_components a) 0 (ap_components a) (ap_runtime a)")
  obtain st1 executed s where ss: "sched_start (ap_scheduler a) = (st1, executed, s)"
    by (cases "sched_start (ap_scheduler a)") auto
  note b = bring_up_states [where before = "[]" and todo = "ap_components a", OF ok cb ap(2) _ _ _ s0 up]
  let ?rt1 = "execute_all invoke executed rt0"
  show ?thesis
  proof (cases "status_ok st0")
    case False
    then show ?thesis using b ap(1) res up by (auto simp: Application_Start_def)
  next
    case True
    have sub: "set executed \<subseteq> set (ap_components a)" using sub ss unfolding executes_only_def by (metis fst_conv snd_conv)
    have started: "comps_ok (ap_components a) rt0" "\<forall>n \<in> set (ap_components a). state_of rt0 n = kStarted" using b True by simp_all
    note ex = execute_all_states [OF started(1) cb sub]
    show ?thesis
    proof (cases "status_ok st1")
      case True
      then have "st = Status_Ok" "a' = a\<lparr>ap_runtime := ?rt1, ap_scheduler := s, ap_phase := AppRunning\<rparr>"
        using ap(1) res up ss \<open>status_ok st0\<close> by (auto simp: Application_Start_def)
      then show ?thesis using ex started(2) ss by auto
    next
      case False
      then have "\<not> status_ok st" "ap_phase a' = AppStopped" "ap_components a' = ap_components a"
        "ap_runtime a' = snd (TearDownComponents invoke (ap_components a) (length (ap_components a)) ?rt1)"
        using ap(1) res up ss \<open>status_ok st0\<close> by (auto simp: Application_Start_def status_ok_def)
      then show ?thesis
        using TearDown_torn_down [OF conjunct1 [OF ex] cb ap(2), of "length (ap_components a)"] by auto
    qed
  qed
qed

text \<open>Stopping a running application.\<close>

lemma close_all_keeps: "rt_states (snd (close_all try_close names res rt)) = rt_states rt"
  by (induction names arbitrary: res rt) (auto split: sum.splits option.splits prod.splits)

lemma Runtime_Close_keeps: "Runtime_Close try_close rt = (st, rt') \<Longrightarrow> rt_states rt' = rt_states rt \<and> \<not> rt_open rt'"
  using close_all_keeps [of try_close "ListTransportNames rt" Status_Ok rt] by (auto simp: Runtime_Close_def split: prod.splits)

lemma Stop_states:
  assumes run: "ap_phase a = AppRunning" and ok: "comps_ok (ap_components a) (ap_runtime a)"
    and d: "distinct (ap_components a)" and cb: "callbacks_ok invoke (ap_components a)" and sub: "executes_only (ap_components a) sched_stop"
    and res: "Application_Stop invoke sched_stop try_close a = (st, a')"
  shows "ap_phase a' = AppStopped \<and> \<not> rt_open (ap_runtime a')
    \<and> (\<forall>n \<in> set (ap_components a). state_of (ap_runtime a') n \<in> {kShutdown, kError})
    \<and> (status_ok st \<longrightarrow> (\<forall>n \<in> set (ap_components a). state_of (ap_runtime a') n = kShutdown))"
proof -
  obtain st1 executed s where ss: "sched_stop (ap_scheduler a) = (st1, executed, s)"
    by (cases "sched_stop (ap_scheduler a)") auto
  have sub: "set executed \<subseteq> set (ap_components a)" using sub ss unfolding executes_only_def by (metis fst_conv snd_conv)
  note ex = execute_all_states [OF ok cb sub]
  let ?rt = "execute_all invoke executed (ap_runtime a)"
  obtain down rt1 where t: "TearDownComponents invoke (ap_components a) (length (ap_components a)) ?rt = (down, rt1)"
    by (cases "TearDownComponents invoke (ap_components a) (length (ap_components a)) ?rt")
  obtain closed rt2 where c: "Runtime_Close try_close rt1 = (closed, rt2)" by (cases "Runtime_Close try_close rt1")
  have a': "a' = a\<lparr>ap_runtime := rt2, ap_scheduler := s, ap_phase := AppStopped\<rparr>" "status_ok st \<longrightarrow> status_ok down"
    using res run by (auto simp: Application_Stop_def ss t c status_ok_def split: if_splits)
  moreover have "state_of rt2 n = state_of rt1 n" for n using Runtime_Close_keeps [OF c] by (simp add: state_of_def)
  ultimately show ?thesis using TearDown_states [OF conjunct1 [OF ex] cb d t] Runtime_Close_keeps [OF c] by auto
qed

text \<open>The three calls of \<open>Run\<close> together.\<close>

lemma Run_states:
  assumes created: "app_created invoke a" and start: "executes_only (ap_components a) sched_start"
    and stop: "executes_only (ap_components a) sched_stop" and waiting: "set waiting \<subseteq> set (ap_components a)"
    and res: "Application_Run invoke sched_start waiting sched_stop try_close a = (st, a')"
  shows "ap_phase a' = AppStopped
    \<and> (\<forall>n \<in> set (ap_components a). state_of (ap_runtime a') n \<in> {kCreated, kShutdown, kError})
    \<and> (status_ok st \<longrightarrow> \<not> rt_open (ap_runtime a') \<and> (\<forall>n \<in> set (ap_components a). state_of (ap_runtime a') n = kShutdown))"
proof -
  obtain st1 a1 where s: "Application_Start invoke sched_start a = (st1, a1)" by (cases "Application_Start invoke sched_start a")
  note s1 = Start_states [OF created start s]
  have cb: "callbacks_ok invoke (ap_components a)" "distinct (ap_components a)" using created by (simp_all add: app_created_def)
  show ?thesis
  proof (cases "status_ok st1")
    case True
    let ?a = "Application_RequestStop (a1\<lparr>ap_runtime := execute_all invoke waiting (ap_runtime a1)\<rparr>)"
    have "ap_phase ?a = AppRunning" "ap_components ?a = ap_components a" "comps_ok (ap_components a) (ap_runtime ?a)"
      using s1 True execute_all_states [OF _ cb(1) waiting, of "ap_runtime a1"] by (simp_all add: Application_RequestStop_def)
    moreover have "Application_Stop invoke sched_stop try_close ?a = (st, a')" using res s True by (simp add: Application_Run_def)
    ultimately show ?thesis using Stop_states [of ?a invoke sched_stop try_close st a'] cb stop by auto
  next
    case False
    then have "st = st1" "a' = a1" using res s by (simp_all add: Application_Run_def)
    moreover have "state_of (ap_runtime a1) n \<in> {kCreated, kShutdown, kError}" if n: "n \<in> set (ap_components a)" for n
    proof -
      obtain i where "i < length (ap_components a)" "n = ap_components a ! i" using n by (metis in_set_conv_nth)
      with s1 False show ?thesis by (auto simp: torn_down_def split: if_splits)
    qed
    ultimately show ?thesis using s1 False by simp
  qed
qed

subsection \<open>Examples\<close>

text \<open>
  A process that serves and one that calls the same service. The request types differ, but with their versions they
  are rendered alike.
\<close>

definition ex_system_service :: "string \<Rightarrow> u32 \<Rightarrow> service_config" where
  "ex_system_service request v = \<lparr>vc_id = ''s'', vc_name = ''/s'', vc_transport = kIpc, vc_request_type = request, vc_reply_type = ''R'',
     vc_encoding = ''raw'', vc_request_version = v, vc_reply_version = 1, vc_queue_depth = 4, vc_heartbeat_interval = 100,
     vc_transport_parameters = []\<rparr>"

definition ex_system_project :: "service_config \<Rightarrow> string list \<Rightarrow> string list \<Rightarrow> project_config" where
  "ex_system_project v servers clients = \<lparr>
     pj_runtime_options = \<lparr>ro_default_transport_name = NamedValue ''m'', ro_register_inmemory_transport = True,
       ro_open_registered_transports = True\<rparr>,
     pj_scheduler_options = \<lparr>so_worker_count = 1, so_priority_aging_interval = 0\<rparr>, pj_topics = [],
     pj_components = [\<lparr>cc_name = ''c'', cc_description = [], cc_readers = [], cc_writers = [], cc_triggers = [], cc_type = ''T'',
       cc_parameters = [], cc_reader_policies = [], cc_servers = servers, cc_clients = clients\<rparr>],
     pj_services = [v]\<rparr>"

definition ex_system :: "named_project list" where
  "ex_system = [(''serve'', ex_system_project (ex_system_service ''A v1'' 0) [''s''] []),
     (''call'', ex_system_project (ex_system_service ''A'' 1) [] [''s''])]"


end
