(* ===== verification/Application_Setup.thy ===== *)
theory Application_Setup
  imports Application_Properties Configuration_Valid
begin

text \<open>
  From a configuration to a finished run: what \<open>Application::Create\<close> leaves is what \<open>Start\<close> and \<open>Stop\<close> rely on.
\<close>

section \<open>Setting up a runtime does not touch components\<close>

definition same_components :: "'c runtime \<Rightarrow> 'c runtime \<Rightarrow> bool" where
  "same_components rt rt' \<longleftrightarrow> rt_states rt' = rt_states rt \<and> rt_instances rt' = rt_instances rt"

lemma same_components_trans: "same_components rt rt1 \<Longrightarrow> same_components rt1 rt2 \<Longrightarrow> same_components rt rt2"
  by (simp add: same_components_def)

lemma OpenTransportIfNeeded_same: "OpenTransportIfNeeded try_open ptr rt = (st, rt') \<Longrightarrow> same_components rt rt'"
  by (auto simp: OpenTransportIfNeeded_def same_components_def Let_def split: option.splits if_splits)

lemma RegisterTransport_same: "RegisterTransport try_open ptr rt = (st, rt') \<Longrightarrow> same_components rt rt'"
  unfolding RegisterTransport_def
  by (auto simp: same_components_def dest!: OpenTransportIfNeeded_same [unfolded same_components_def]
      split: option.splits prod.splits if_splits)

lemma open_all_same: "open_all try_open names rt = (st, rt') \<Longrightarrow> same_components rt rt'"
proof (induction names arbitrary: rt)
  case Nil
  then show ?case by (simp add: same_components_def)
next
  case (Cons name names)
  then show ?case
    using OpenTransportIfNeeded_same same_components_trans
    by (fastforce simp: same_components_def split: sum.splits prod.splits if_splits)
qed

lemma EnsureDefaultTransports_same: "EnsureDefaultTransports try_open fresh rt = (st, rt') \<Longrightarrow> same_components rt rt'"
  using RegisterTransport_same by (fastforce simp: EnsureDefaultTransports_def same_components_def split: if_splits)

lemma Runtime_Open_same:
  assumes "Runtime_Open try_open fresh rt = (st, rt')"
  shows "same_components rt rt'"
proof -
  obtain st1 rt1 where e: "EnsureDefaultTransports try_open fresh rt = (st1, rt1)" by (cases "EnsureDefaultTransports try_open fresh rt")
  obtain st2 rt2 where o: "open_all try_open (ListTransportNames rt1) rt1 = (st2, rt2)"
    by (cases "open_all try_open (ListTransportNames rt1) rt1")
  have "rt' = rt \<or> rt' = rt1 \<or> rt' = rt2 \<or> rt' = rt2\<lparr>rt_open := True\<rparr>"
    using assms by (auto simp: Runtime_Open_def Let_def e o split: if_splits)
  then show ?thesis
    using EnsureDefaultTransports_same [OF e] open_all_same [OF o] by (auto simp: same_components_def)
qed

lemma RuntimeContext_Create_empty:
  fixes rt :: "'c runtime"
  assumes "RuntimeContext_Create try_open fresh r = Inr rt"
  shows "rt_states rt = [] \<and> rt_instances rt = []"
proof -
  let ?rt = "runtime_init (ro_default_transport_name r) (ro_register_inmemory_transport r) (ro_open_registered_transports r) [] :: 'c runtime"
  obtain st rt1 where o: "Runtime_Open try_open fresh ?rt = (st, rt1)" by (cases "Runtime_Open try_open fresh ?rt")
  then have "rt1 = rt" using assms by (auto simp: RuntimeContext_Create_def Let_def split: if_splits)
  then show ?thesis using Runtime_Open_same [OF o] by (simp add: same_components_def runtime_init_def)
qed

section \<open>Registered instances\<close>

definition all_created :: "'c runtime \<Rightarrow> bool" where
  "all_created rt \<longleftrightarrow> omap_ok (rt_states rt) \<and> omap_ok (rt_instances rt)
     \<and> (\<forall>k s. omap_find (rt_states rt) k = Some s \<longrightarrow> s = kCreated)"

definition registered :: "'c runtime \<Rightarrow> string set" where
  "registered rt = dom (omap_find (rt_states rt)) \<inter> dom (omap_find (rt_instances rt))"

lemma RegisterComponentInstance_created:
  assumes "all_created rt" "RegisterComponentInstance describe (Some c) rt = (st, rt')" "status_ok st"
  shows "all_created rt' \<and> registered rt' = insert (str (cs_name (describe c))) (registered rt)"
proof -
  let ?n = "str (cs_name (describe c))"
  have "\<exists>cs. rt' = rt\<lparr>rt_components := cs, rt_instances := omap_emplace ?n c (rt_instances rt),
      rt_states := omap_emplace ?n kCreated (rt_states rt)\<rparr>"
    using assms(2,3) by (auto simp: RegisterComponentInstance_def Let_def split: prod.splits if_splits)
  with assms(1) show ?thesis
    by (auto simp: all_created_def registered_def omap_ok_emplace dom_omap_emplace omap_find_emplace split: if_splits)
qed

lemma register_instances_created:
  assumes "all_created rt" "register_instances describe insts rt = (st, rt')" "status_ok st"
  shows "all_created rt' \<and> registered rt' = (\<lambda>c. str (cs_name (describe c))) ` set insts \<union> registered rt"
  using assms
proof (induction insts arbitrary: rt)
  case Nil
  then show ?case by simp
next
  case (Cons c insts)
  obtain st1 rt1 where r: "RegisterComponentInstance describe (Some c) rt = (st1, rt1)"
    by (cases "RegisterComponentInstance describe (Some c) rt")
  have ok: "status_ok st1" "register_instances describe insts rt1 = (st, rt')"
    using Cons.prems(2,3) r by (auto split: if_splits)
  note one = RegisterComponentInstance_created [OF Cons.prems(1) r ok(1)]
  from Cons.IH [OF conjunct1 [OF one] ok(2) Cons.prems(3)] one show ?case by simp
qed

lemma make_instances_names:
  assumes "make_instances describe factory p rt cs = Inr insts"
  shows "map (\<lambda>c. str (cs_name (describe c))) insts = map cc_name cs"
  using assms
proof (induction cs arbitrary: insts)
  case Nil
  then show ?case by simp
next
  case (Cons c cs)
  obtain spec inst rest where "ComponentConfig_ToComponentSpec c p = Inr spec" "SameSpec spec (describe inst)"
      "make_instances describe factory p rt cs = Inr rest" "insts = inst # rest"
    using Cons.prems by (auto split: if_splits option.splits)
  then show ?case using Cons.IH ToComponentSpec_Inr(1) by (simp add: SameSpec_def) metis
qed

lemma component_names_Inr: "component_names cs = Inr names \<Longrightarrow> map str names = map cc_name cs"
  by (induction cs arbitrary: names) (auto simp: NamedValue_Create_ok)

lemma CreateScheduler_registry_created:
  assumes "CreateScheduler_registry describe factories p rt = Some (Inr s, rt')" "rt_states rt = []" "rt_instances rt = []"
  shows "valid_project p \<and> all_created rt' \<and> registered rt' = cc_name ` set (pj_components p)"
proof -
  from assms(1) obtain f where c: "CreateScheduler_factory describe (Some f) p rt = Some (Inr s, rt')"
    by (auto simp: CreateScheduler_registry_def Let_def bind_eq_Some_conv split: if_splits)
  then obtain st0 where v: "ProjectConfig_Validate p = Some st0" "status_ok st0"
    by (auto simp: CreateScheduler_factory_def bind_eq_Some_conv split: if_splits)
  from c v obtain insts st where m: "make_instances describe f p rt (pj_components p) = Inr insts"
      and r: "register_instances describe insts rt = (st, rt')" "status_ok st"
    by (auto simp: CreateScheduler_factory_def split: sum.splits prod.splits if_splits)
  have "all_created rt" "registered rt = {}" using assms(2,3) by (simp_all add: all_created_def registered_def dom_def)
  moreover have "(\<lambda>c. str (cs_name (describe c))) ` set insts = cc_name ` set (pj_components p)"
    using make_instances_names [OF m] by (metis list.set_map)
  ultimately show ?thesis
    using register_instances_created [OF _ r] v by (simp add: valid_project_def)
qed

section \<open>Applications\<close>

text \<open>The functions that register transports do that only.\<close>

definition transports_only :: "'c register_transports \<Rightarrow> bool" where
  "transports_only f \<longleftrightarrow> (\<forall>rt. same_components rt (snd (run_optional f rt)))"

lemma ValidateProject_none: "ValidateProject p factories = Some [] \<Longrightarrow> valid_project p"
  by (auto simp: ValidateProject_def valid_project_def bind_eq_Some_conv split: if_splits)

lemma Create_cases:
  fixes a :: "'c application"
  assumes "Application_Create try_open fresh rt0 rp describe factories p = Some (Inr a)"
  shows "\<exists>r rt1 rt2 s names. ValidateProject p (Some factories) = Some [] \<and> component_names (pj_components p) = Inr names
    \<and> RuntimeContext_Create try_open fresh r = Inr (rt1 :: 'c runtime)
    \<and> CreateScheduler_registry describe factories p rt2 = Some (Inr s, ap_runtime a)
    \<and> (rt2 = snd (run_optional (rp p) (snd (run_optional rt0 rt1))) \<or> rt2 = snd (run_optional rt0 rt1))
    \<and> ap_components a = names \<and> ap_phase a = AppCreated"
proof -
  obtain errors where v: "ValidateProject p (Some factories) = Some errors"
    using assms by (auto simp: Application_Create_def bind_eq_Some_conv)
  have e: "errors = []" using assms v by (cases "errors = []") (simp_all add: Application_Create_def)
  obtain names where n: "component_names (pj_components p) = Inr names"
    using assms v e by (cases "component_names (pj_components p)") (auto simp: Application_Create_def)
  obtain r rt1 where r: "ProjectConfig_ToRuntimeOptions p = Inr r" "RuntimeContext_Create try_open fresh r = Inr (rt1 :: 'c runtime)"
    using assms v e n
    by (cases "result_bind (ProjectConfig_ToRuntimeOptions p) (RuntimeContext_Create try_open fresh) :: 'c runtime result")
      (auto simp: Application_Create_def)
  obtain st1 rt2 where o: "run_optional rt0 rt1 = (st1, rt2)" by (cases "run_optional rt0 rt1")
  let ?next = "if status_ok st1 then run_optional (rp p) rt2 else (st1, rt2)"
  obtain st2 rt3 where o2: "?next = (st2, rt3)" by (cases ?next)
  have "status_ok st2" using assms v e n r o o2 by (auto simp: Application_Create_def split: if_splits)
  with assms v e n r o o2 obtain s rt4 where "CreateScheduler_registry describe factories p rt3 = Some (Inr s, rt4)"
      "ap_runtime a = rt4" "ap_components a = names" "ap_phase a = AppCreated"
    by (auto simp: Application_Create_def bind_eq_Some_conv)
  with v e n r o o2 show ?thesis by (intro exI conjI) (auto split: if_splits)
qed

lemma Create_created:
  assumes create: "Application_Create try_open fresh rt0 rp describe factories p = Some (Inr a)"
    and only: "transports_only rt0" "transports_only (rp p)" and cb: "callbacks_ok invoke (ap_components a)"
  shows "app_created invoke a \<and> map str (ap_components a) = map cc_name (pj_components p)"
proof -
  from Create_cases [OF create] obtain r rt1 rt2 s where v: "ValidateProject p (Some factories) = Some []"
      and n: "component_names (pj_components p) = Inr (ap_components a)"
      and r: "RuntimeContext_Create try_open fresh r = Inr rt1"
      and c: "CreateScheduler_registry describe factories p rt2 = Some (Inr s, ap_runtime a)"
      and rt2: "rt2 = snd (run_optional (rp p) (snd (run_optional rt0 rt1))) \<or> rt2 = snd (run_optional rt0 rt1)"
      and ph: "ap_phase a = AppCreated" by (elim exE conjE) simp
  have "same_components rt1 rt2" using rt2 only same_components_trans unfolding transports_only_def by metis
  then have "rt_states rt2 = []" "rt_instances rt2 = []"
    using RuntimeContext_Create_empty [OF r] by (simp_all add: same_components_def)
  note reg = CreateScheduler_registry_created [OF c this]
  note names = component_names_Inr [OF n]
  have "distinct (map str (ap_components a))" using valid_project_parts(3) reg names by simp
  then have d: "distinct (ap_components a)" by (simp add: distinct_map)
  have "str m \<in> registered (ap_runtime a)" if "m \<in> set (ap_components a)" for m
    using that reg names by (metis imageI list.set_map)
  then have "comps_ok (ap_components a) (ap_runtime a) \<and> (\<forall>m \<in> set (ap_components a). state_of (ap_runtime a) m = kCreated)"
    using reg by (fastforce simp: comps_ok_def state_of_def all_created_def registered_def)
  with d cb ph names show ?thesis by (simp add: app_created_def)
qed


text \<open>
  C29. A run leaves no component running. If \<open>Create\<close> returns an application with the components of
  the project, then whatever the scheduler executes while it starts, works and stops, \<open>Run\<close>
  ends with the application stopped and every component untouched, shut down or, where its shutdown failed, in
  the error state; and if \<open>Run\<close> reports success, every component has been shut down and the runtime is closed.
\<close>

theorem application_run_leaves_nothing_running:
  assumes create: "Application_Create try_open fresh rt0 rp describe factories p = Some (Inr a)"
    and only: "transports_only rt0" "transports_only (rp p)" and cb: "callbacks_ok invoke (ap_components a)"
    and start: "executes_only (ap_components a) sched_start" and stop: "executes_only (ap_components a) sched_stop"
    and waiting: "set waiting \<subseteq> set (ap_components a)"
    and res: "Application_Run invoke sched_start waiting sched_stop try_close a = (st, a')"
  shows "map str (ap_components a) = map cc_name (pj_components p) \<and> ap_phase a' = AppStopped
    \<and> (\<forall>n \<in> set (ap_components a). state_of (ap_runtime a') n \<in> {kCreated, kShutdown, kError})
    \<and> (status_ok st \<longrightarrow> \<not> rt_open (ap_runtime a') \<and> (\<forall>n \<in> set (ap_components a). state_of (ap_runtime a') n = kShutdown))"
proof -
  note created = Create_created [OF create only cb]
  from Run_states [OF conjunct1 [OF created] start stop waiting res] conjunct2 [OF created] show ?thesis by blast
qed

subsection \<open>An example\<close>

text \<open>Component instances are their own specifications here; one kind of component fails to initialise.\<close>

definition ex_cam :: component_config where
  "ex_cam = \<lparr>cc_name = ''cam'', cc_description = [], cc_readers = [], cc_writers = [], cc_triggers = [], cc_type = ''T'',
     cc_parameters = [], cc_reader_policies = [], cc_servers = [], cc_clients = []\<rparr>"

definition ex_app_project :: project_config where
  "ex_app_project = \<lparr>
     pj_runtime_options = \<lparr>ro_default_transport_name = NamedValue ''m'', ro_register_inmemory_transport = True,
       ro_open_registered_transports = True\<rparr>,
     pj_scheduler_options = \<lparr>so_worker_count = 1, so_priority_aging_interval = 0\<rparr>, pj_topics = [],
     pj_components = [ex_cam, ex_cam\<lparr>cc_name := ''view''\<rparr>], pj_services = []\<rparr>"

definition ex_create :: "component_spec application result option" where
  "ex_create = Application_Create (\<lambda>_. Status_Ok) 0 None (\<lambda>_. None) (\<lambda>c. c) [(''T'', \<lambda>spec. Inr (Some spec))] ex_app_project"

definition ex_app_invoke :: "bool \<Rightarrow> component_spec callbacks" where
  "ex_app_invoke broken c op rt = (if broken \<and> op = Initialize \<and> cs_name c = NamedValue ''view'' then Status_Internal ''no device''
     else Status_Ok, rt)"

definition ex_app_sched :: sched_call where
  "ex_app_sched s = (Status_Ok, [NamedValue ''cam''], s)"

declare kahn.simps [code]

lemma ex_create_components: "case ex_create of Some (Inr a) \<Rightarrow> ap_components a = [NamedValue ''cam'', NamedValue ''view''] | _ \<Rightarrow> False"
  by code_simp

lemma ex_app_facts: "transports_only None" "callbacks_ok (ex_app_invoke b) names"
  "NamedValue ''cam'' \<in> set names \<Longrightarrow> executes_only names ex_app_sched"
  by (simp_all add: transports_only_def run_optional_def same_components_def callbacks_ok_def leaves_component_def ex_app_invoke_def
      executes_only_def ex_app_sched_def)

lemma ex_create_obtains:
  obtains a where "ex_create = Some (Inr a)" "ap_components a = [NamedValue ''cam'', NamedValue ''view'']"
  using ex_create_components by (auto split: option.splits sum.splits)

lemma ex_start_fails: "case ex_create of Some (Inr a) \<Rightarrow> \<not> status_ok (fst (Application_Start (ex_app_invoke True) ex_app_sched a)) | _ \<Rightarrow> False"
  by code_simp

lemma ex_run_succeeds: "case ex_create of Some (Inr a) \<Rightarrow>
    status_ok (fst (Application_Run (ex_app_invoke False) ex_app_sched [NamedValue ''cam''] ex_app_sched (\<lambda>_. (Status_Ok, False)) a)) | _ \<Rightarrow> False"
  by code_simp


theorem application_run_leaves_nothing_running_witness:
  "\<exists>a st a'. ex_create = Some (Inr a)
     \<and> Application_Run (ex_app_invoke False) ex_app_sched [NamedValue ''cam''] ex_app_sched (\<lambda>_. (Status_Ok, False)) a = (st, a')
     \<and> status_ok st \<and> ap_phase a' = AppStopped \<and> state_of (ap_runtime a') (NamedValue ''view'') = kShutdown"
proof -
  obtain a where a: "ex_create = Some (Inr a)" "ap_components a = [NamedValue ''cam'', NamedValue ''view'']"
    by (rule ex_create_obtains)
  let ?run = "Application_Run (ex_app_invoke False) ex_app_sched [NamedValue ''cam''] ex_app_sched (\<lambda>_. (Status_Ok, False)) a"
  obtain st a' where r: "?run = (st, a')" by (cases ?run)
  have s: "executes_only (ap_components a) ex_app_sched" by (rule ex_app_facts(3)) (simp add: a)
  have w: "set [NamedValue ''cam''] \<subseteq> set (ap_components a)" by (simp add: a)
  note t = application_run_leaves_nothing_running [OF a(1) [unfolded ex_create_def] ex_app_facts(1,1,2) s s w r]
  have "status_ok st" using ex_run_succeeds by (simp add: a(1) r)
  then have "ap_phase a' = AppStopped" "state_of (ap_runtime a') (NamedValue ''view'') = kShutdown" using t by (simp_all add: a(2))
  with a r \<open>status_ok st\<close> show ?thesis by blast
qed

end
