(* ===== verification/Supervisor.thy ===== *)
theory Supervisor
  imports Application
begin

text \<open>
  The nodes of a system and their supervision: \<open>include/puppet_master/configuration/system_manifest.h\<close>,
  \<open>supervisor.h\<close>, \<open>src/configuration/supervisor.cpp\<close> and the parts of \<open>system_manifest.cpp\<close> that do not read files.

  The supervisor runs on one thread; another may request a stop at any time. Processes, the clock and the
  file system are outside: what the launcher answers, what \<open>Poll\<close> returns and what the clock reads are arguments of the
  functions and free in the steps of \<open>sup_step\<close>. The events passed to \<open>on_event\<close> are kept in a list. Durations in
  milliseconds and time points in nanoseconds are integers.
\<close>

section \<open>The manifest\<close>

datatype restart_policy = kNever | kOnFailure | kAlways

fun Restart_ToString :: "restart_policy \<Rightarrow> string" where
  "Restart_ToString kNever = ''never''"
| "Restart_ToString kOnFailure = ''on_failure''"
| "Restart_ToString kAlways = ''always''"

type_synonym milliseconds = int

record node_manifest =
  nm_name :: string
  nm_executable :: string
  nm_config :: string
  nm_arguments :: "string list"
  nm_start_delay :: milliseconds
  nm_restart :: restart_policy
  nm_max_restarts :: u32
  nm_restart_delay :: milliseconds
  nm_required :: bool
  nm_stop_timeout :: milliseconds

record system_manifest =
  sm_name :: string
  sm_path :: string
  sm_config_paths :: "string list"
  sm_bin_paths :: "string list"
  sm_deployment :: string
  sm_nodes :: "node_manifest list"

definition CommandFor :: "system_manifest \<Rightarrow> node_manifest \<Rightarrow> string list" where
  "CommandFor m node =
     [nm_executable node]
     @ concat (map (\<lambda>directory. [''--config-path'', directory]) (sm_config_paths m))
     @ (if sm_deployment m \<noteq> [] then [''--deployment'', sm_deployment m] else [])
     @ nm_arguments node @ [nm_config node]"

text \<open>\<open>Expand\<close>: environment variables in the strings of a manifest. \<open>Fail\<close> throws its message.\<close>

fun find_open :: "string \<Rightarrow> nat option" where
  "find_open (a # b # rest) = (if a = CHR ''$'' \<and> b = CHR ''{'' then Some 0 else map_option Suc (find_open (b # rest)))"
| "find_open _ = None"

fun find_close :: "string \<Rightarrow> nat option" where
  "find_close [] = None"
| "find_close (c # rest) = (if c = CHR ''}'' then Some 0 else map_option Suc (find_close rest))"

function expand_from :: "(string \<Rightarrow> string option) \<Rightarrow> string \<Rightarrow> string \<Rightarrow> string \<Rightarrow> string + string" where
  "expand_from env path whole text =
     (case find_open text of
        None \<Rightarrow> Inr text
      | Some start \<Rightarrow>
          let rest = drop (start + 2) text in
          (case find_close rest of
             None \<Rightarrow> Inl (path @ '': unterminated ${ in '' @ [CHR 0x22] @ whole @ [CHR 0x22])
           | Some e \<Rightarrow>
               if take e rest = [] then Inl (path @ '': empty variable name in '' @ [CHR 0x22] @ whole @ [CHR 0x22])
               else (case env (take e rest) of
                  None \<Rightarrow> Inl (path @ '': environment variable '' @ take e rest @ '' is not set'')
                | Some v \<Rightarrow>
                    (case expand_from env path whole (drop (e + 1) rest) of
                       Inl msg \<Rightarrow> Inl msg
                     | Inr tail \<Rightarrow> Inr (take start text @ v @ tail)))))"
  by pat_completeness auto

lemma find_open_length: "find_open xs = Some i \<Longrightarrow> i + 2 \<le> length xs"
  by (induction xs arbitrary: i rule: find_open.induct) (auto split: if_splits)

termination expand_from
  by (relation "measure (\<lambda>(_, _, _, text). length text)") (auto dest: find_open_length)

definition Expand :: "(string \<Rightarrow> string option) \<Rightarrow> string \<Rightarrow> string \<Rightarrow> string + string" where
  "Expand env text path = expand_from env path text text"

section \<open>Processes and events\<close>

record process_exit =
  px_code :: int
  px_signaled :: bool

definition ProcessExit_success :: "process_exit \<Rightarrow> bool" where
  "ProcessExit_success e \<longleftrightarrow> \<not> px_signaled e \<and> px_code e = 0"

definition ProcessExit_ToString :: "process_exit \<Rightarrow> string" where
  "ProcessExit_ToString e = (if px_signaled e then ''signal '' else ''exit code '') @ std_to_string_int (px_code e)"

datatype event_kind = EvStarted | EvStartFailed | EvExited | EvRestarting | EvGaveUp | EvStopping | EvKilled | EvStopped

fun EventKind_ToString :: "event_kind \<Rightarrow> string" where
  "EventKind_ToString EvStarted = ''started''"
| "EventKind_ToString EvStartFailed = ''start-failed''"
| "EventKind_ToString EvExited = ''exited''"
| "EventKind_ToString EvRestarting = ''restarting''"
| "EventKind_ToString EvGaveUp = ''gave-up''"
| "EventKind_ToString EvStopping = ''stopping''"
| "EventKind_ToString EvKilled = ''killed''"
| "EventKind_ToString EvStopped = ''stopped''"

record supervisor_event =
  se_kind :: event_kind
  se_node :: string
  se_detail :: string

definition Milliseconds :: "milliseconds \<Rightarrow> string" where
  "Milliseconds v = std_to_string_int v @ '' ms''"

definition ns_of_ms :: "milliseconds \<Rightarrow> nanoseconds" where
  "ns_of_ms d = d * 1000000"

section \<open>The supervisor\<close>

datatype node_phase = NodePending | NodeRunning | NodeBackoff | NodeDone

record node =
  nd_manifest :: node_manifest
  nd_phase :: node_phase
  nd_child :: "int option"
  nd_started_at :: time_point
  nd_restart_at :: time_point
  nd_delay :: milliseconds
  nd_restarts :: u32
  nd_failed :: bool

record supervisor_result =
  sx_reason :: string
  sx_exit_code :: int

record supervisor =
  sp_stable_run :: milliseconds
  sp_max_restart_delay :: milliseconds
  sp_nodes :: "node list"
  sp_stop_requested :: bool
  sp_ending :: "supervisor_result option"
  sp_events :: "supervisor_event list"

definition Supervisor_init :: "milliseconds \<Rightarrow> milliseconds \<Rightarrow> system_manifest \<Rightarrow> supervisor" where
  "Supervisor_init stable_run max_restart_delay m = \<lparr>sp_stable_run = stable_run, sp_max_restart_delay = max_restart_delay,
     sp_nodes = map (\<lambda>n. \<lparr>nd_manifest = n, nd_phase = NodePending, nd_child = None, nd_started_at = 0, nd_restart_at = 0,
       nd_delay = nm_restart_delay n, nd_restarts = 0, nd_failed = False\<rparr>) (sm_nodes m),
     sp_stop_requested = False, sp_ending = None, sp_events = []\<rparr>"

text \<open>
  The operations on one node: they return the node, the events they emit and, for \<open>Ended\<close>, the reason to end the
  system if there is one.
\<close>

definition event :: "event_kind \<Rightarrow> node \<Rightarrow> string \<Rightarrow> supervisor_event" where
  "event kind n detail = \<lparr>se_kind = kind, se_node = nm_name (nd_manifest n), se_detail = detail\<rparr>"

definition restart_wanted :: "node_manifest \<Rightarrow> bool \<Rightarrow> bool" where
  "restart_wanted spec success \<longleftrightarrow> nm_restart spec = kAlways \<or> nm_restart spec = kOnFailure \<and> \<not> success"

definition reset_if_stable :: "milliseconds \<Rightarrow> time_point \<Rightarrow> time_point \<Rightarrow> node \<Rightarrow> node" where
  "reset_if_stable stable_run started_at now n =
     (if ns_of_ms stable_run \<le> now - started_at
      then n\<lparr>nd_child := None, nd_restarts := 0, nd_delay := nm_restart_delay (nd_manifest n)\<rparr>
      else n\<lparr>nd_child := None\<rparr>)"

definition ended_node :: "milliseconds \<Rightarrow> milliseconds \<Rightarrow> bool \<Rightarrow> time_point \<Rightarrow> time_point \<Rightarrow> node
    \<Rightarrow> node \<times> supervisor_event list \<times> supervisor_result option" where
  "ended_node stable_run max_restart_delay success started_at now n0 =
     (let spec = nd_manifest n0; n = reset_if_stable stable_run started_at now n0; wanted = restart_wanted spec success in
      if wanted \<and> (nm_max_restarts spec = 0 \<or> nd_restarts n < nm_max_restarts spec)
      then let n1 = n\<lparr>nd_restarts := nd_restarts n + 1, nd_phase := NodeBackoff, nd_restart_at := now + ns_of_ms (nd_delay n)\<rparr>;
               detail = ''in '' @ Milliseconds (nd_delay n) @ '', restart '' @ std_to_string (unat (nd_restarts n1))
                 @ (if nm_max_restarts spec \<noteq> 0 then '' of '' @ std_to_string (unat (nm_max_restarts spec)) else []);
               cap = max max_restart_delay (nm_restart_delay spec) in
           (n1\<lparr>nd_delay := min (nd_delay n * 2) cap\<rparr>, [event EvRestarting n1 detail], None)
      else (n\<lparr>nd_phase := NodeDone, nd_failed := \<not> success\<rparr>,
            if wanted then [event EvGaveUp n (''after '' @ std_to_string (unat (nd_restarts n)) @ '' restarts'')] else [],
            if nm_required spec
            then Some \<lparr>sx_reason = ''required node '' @ nm_name spec @ (if success then '' ended'' else '' failed''),
                       sx_exit_code = (if success then 0 else 1)\<rparr>
            else None))"

definition start_node :: "milliseconds \<Rightarrow> milliseconds \<Rightarrow> int result \<Rightarrow> time_point \<Rightarrow> node
    \<Rightarrow> node \<times> supervisor_event list \<times> supervisor_result option" where
  "start_node stable_run max_restart_delay child now n =
     (case child of
        Inl st \<Rightarrow>
          (case ended_node stable_run max_restart_delay False now now n of
             (n1, evs, stop) \<Rightarrow> (n1, event EvStartFailed n (st_message st) # evs, stop))
      | Inr pid \<Rightarrow>
          (n\<lparr>nd_child := Some pid, nd_phase := NodeRunning, nd_started_at := now\<rparr>,
           [event EvStarted n (''pid '' @ std_to_string_int pid)], None))"

text \<open>What the clock, \<open>Poll\<close> and the launcher answer for a node in one round.\<close>

record node_input =
  ni_now :: time_point
  ni_poll :: "process_exit option"
  ni_launch :: "int result"

definition supervise_node :: "milliseconds \<Rightarrow> milliseconds \<Rightarrow> node_input \<Rightarrow> node
    \<Rightarrow> node \<times> supervisor_event list \<times> supervisor_result option" where
  "supervise_node stable_run max_restart_delay i n =
     (if nd_phase n = NodeRunning
      then case ni_poll i of
          None \<Rightarrow> (n, [], None)
        | Some e \<Rightarrow>
            (case ended_node stable_run max_restart_delay (ProcessExit_success e) (nd_started_at n) (ni_now i) n of
               (n1, evs, stop) \<Rightarrow> (n1, event EvExited n (ProcessExit_ToString e) # evs, stop))
      else if nd_phase n = NodeBackoff \<and> nd_restart_at n \<le> ni_now i
      then start_node stable_run max_restart_delay (ni_launch i) (ni_now i) n
      else (n, [], None))"

text \<open>One operation on the node at an index, and what it emits and decides. The first reason to end stays.\<close>

definition on_node :: "nat \<Rightarrow> (node \<Rightarrow> node \<times> supervisor_event list \<times> supervisor_result option) \<Rightarrow> supervisor \<Rightarrow> supervisor" where
  "on_node k f s =
     (case f (sp_nodes s ! k) of
        (n, evs, stop) \<Rightarrow> s\<lparr>sp_nodes := (sp_nodes s)[k := n], sp_events := sp_events s @ evs,
          sp_ending := (if sp_ending s = None then stop else sp_ending s)\<rparr>)"

definition Supervisor_StartNode :: "nat \<Rightarrow> int result \<Rightarrow> time_point \<Rightarrow> supervisor \<Rightarrow> supervisor" where
  "Supervisor_StartNode k child now s = on_node k (start_node (sp_stable_run s) (sp_max_restart_delay s) child now) s"

fun supervise_nodes :: "nat \<Rightarrow> node_input list \<Rightarrow> supervisor \<Rightarrow> supervisor" where
  "supervise_nodes k [] s = s"
| "supervise_nodes k (i # is) s =
     supervise_nodes (k + 1) is (on_node k (supervise_node (sp_stable_run s) (sp_max_restart_delay s) i) s)"

definition finish_round :: "supervisor \<Rightarrow> supervisor" where
  "finish_round s =
     (if sp_ending s \<noteq> None then s
      else if \<forall>n \<in> set (sp_nodes s). nd_phase n = NodeDone
      then s\<lparr>sp_ending := Some \<lparr>sx_reason = ''every node ended'', sx_exit_code = (if \<exists>n \<in> set (sp_nodes s). nd_failed n then 1 else 0)\<rparr>\<rparr>
      else s)"

text \<open>One round; there is one input for each node.\<close>

definition Supervise :: "node_input list \<Rightarrow> supervisor \<Rightarrow> supervisor" where
  "Supervise is s = finish_round (supervise_nodes 0 is s)"

text \<open>\<open>WaitForExit\<close> polls until an exit or the deadline; \<open>None\<close> while the observations go on.\<close>

fun WaitForExit :: "time_point \<Rightarrow> (process_exit option \<times> time_point) list \<Rightarrow> process_exit option option" where
  "WaitForExit deadline [] = None"
| "WaitForExit deadline ((e, now) # obs) = (if e \<noteq> None \<or> deadline \<le> now then Some e else WaitForExit deadline obs)"

record stop_input =
  si_now :: time_point
  si_polls :: "(process_exit option \<times> time_point) list"
  si_kill_now :: time_point
  si_kill_polls :: "(process_exit option \<times> time_point) list"

definition stop_node :: "stop_input \<Rightarrow> node \<Rightarrow> (node \<times> supervisor_event list) option" where
  "stop_node i n =
     (if nd_phase n \<noteq> NodeRunning then Some (n\<lparr>nd_phase := NodeDone\<rparr>, [])
      else case WaitForExit (si_now i + ns_of_ms (nm_stop_timeout (nd_manifest n))) (si_polls i) of
          None \<Rightarrow> None
        | Some e \<Rightarrow>
            (case (if e \<noteq> None then Some (e, [])
                   else map_option (\<lambda>e'. (e', [event EvKilled n (''still running after '' @ Milliseconds (nm_stop_timeout (nd_manifest n)))]))
                     (WaitForExit (si_kill_now i + ns_of_ms 5000) (si_kill_polls i))) of
               None \<Rightarrow> None
             | Some (e', killed) \<Rightarrow>
                 Some (n\<lparr>nd_child := None, nd_phase := NodeDone\<rparr>,
                   [event EvStopping n (''pid '' @ std_to_string_int (the (nd_child n)))] @ killed
                   @ [event EvStopped n (case e' of Some x \<Rightarrow> ProcessExit_ToString x | None \<Rightarrow> ''did not end after a kill'')])))"

text \<open>From the last node to the first.\<close>

fun stop_nodes :: "(nat \<Rightarrow> stop_input) \<Rightarrow> nat \<Rightarrow> supervisor \<Rightarrow> supervisor option" where
  "stop_nodes inputs 0 s = Some s"
| "stop_nodes inputs (Suc k) s =
     (case stop_node (inputs k) (sp_nodes s ! k) of
        None \<Rightarrow> None
      | Some (n, evs) \<Rightarrow> stop_nodes inputs k (s\<lparr>sp_nodes := (sp_nodes s)[k := n], sp_events := sp_events s @ evs\<rparr>))"

definition StopAll :: "(nat \<Rightarrow> stop_input) \<Rightarrow> supervisor \<Rightarrow> supervisor option" where
  "StopAll inputs s = stop_nodes inputs (length (sp_nodes s)) s"

definition Supervisor_RequestStop :: "supervisor \<Rightarrow> supervisor" where
  "Supervisor_RequestStop s = s\<lparr>sp_stop_requested := True\<rparr>"

section \<open>Running\<close>

text \<open>
  Where \<open>Run\<close> is: about to start node \<open>k\<close>, in the loop of \<open>SuperviseUntil\<close> after node \<open>k\<close> until a deadline (or after all nodes,
  without one), about to stop everything, or finished.
\<close>

datatype sup_pc = AtNode nat | InLoop nat "time_point option" | AtStop | Finished supervisor_result

definition after_loop :: "nat \<Rightarrow> time_point option \<Rightarrow> sup_pc" where
  "after_loop k deadline = (if deadline = None then AtStop else AtNode (k + 1))"

definition quits :: "supervisor \<Rightarrow> bool" where
  "quits s \<longleftrightarrow> sp_ending s \<noteq> None \<or> sp_stop_requested s"

definition Run_result :: "supervisor \<Rightarrow> supervisor_result" where
  "Run_result s = (case sp_ending s of Some r \<Rightarrow> r | None \<Rightarrow> \<lparr>sx_reason = ''stop requested'', sx_exit_code = 0\<rparr>)"

inductive sup_step :: "sup_pc \<times> supervisor \<Rightarrow> sup_pc \<times> supervisor \<Rightarrow> bool" where
  request: "sup_step (pc, s) (pc, Supervisor_RequestStop s)"
| start: "k < length (sp_nodes s) \<Longrightarrow> \<not> quits s \<Longrightarrow>
    sup_step (AtNode k, s)
      (InLoop k (Some (now + ns_of_ms (nm_start_delay (nd_manifest (sp_nodes s ! k))))), Supervisor_StartNode k child now s)"
| started: "length (sp_nodes s) \<le> k \<or> quits s \<Longrightarrow> sup_step (AtNode k, s) (InLoop k None, s)"
| quit: "quits s \<Longrightarrow> sup_step (InLoop k d, s) (after_loop k d, s)"
| round: "\<not> quits s \<Longrightarrow> length is = length (sp_nodes s) \<Longrightarrow> s' = Supervise is s \<Longrightarrow>
    leave \<longleftrightarrow> sp_ending s' \<noteq> None \<or> (\<exists>t. d = Some t \<and> t \<le> now) \<Longrightarrow>
    sup_step (InLoop k d, s) (if leave then after_loop k d else InLoop k d, s')"
| stop: "StopAll inputs s = Some s' \<Longrightarrow> sup_step (AtStop, s) (Finished (Run_result s), s')"

end
