(* ===== verification/Supervisor_Properties.thy ===== *)
theory Supervisor_Properties
  imports Supervisor
begin

text \<open>
  The supervisor keeps to the restart policy of each node, accounts for every process it starts and leaves none behind;
  its exit code reports only real failures, but not all of them.
\<close>

section \<open>One node\<close>

definition restart_cap :: "milliseconds \<Rightarrow> node_manifest \<Rightarrow> milliseconds" where
  "restart_cap maxd spec = max maxd (nm_restart_delay spec)"

definition node_ok :: "milliseconds \<Rightarrow> node \<Rightarrow> bool" where
  "node_ok maxd n \<longleftrightarrow> 0 \<le> nm_restart_delay (nd_manifest n)
     \<and> (nd_phase n = NodeRunning \<longleftrightarrow> nd_child n \<noteq> None) \<and> (nd_failed n \<longrightarrow> nd_phase n = NodeDone)
     \<and> (nm_max_restarts (nd_manifest n) \<noteq> 0 \<longrightarrow> nd_restarts n \<le> nm_max_restarts (nd_manifest n))
     \<and> (\<exists>k. unat (nd_restarts n) = k mod 2 ^ 32
          \<and> nd_delay n = min (nm_restart_delay (nd_manifest n) * 2 ^ k) (restart_cap maxd (nd_manifest n)))"

definition running :: "node \<Rightarrow> int" where
  "running n = (if nd_phase n = NodeRunning then 1 else 0)"

definition event_weight :: "event_kind \<Rightarrow> int" where
  "event_weight k = (if k = EvStarted then 1 else if k = EvExited \<or> k = EvStopped then -1 else 0)"

definition balance :: "supervisor_event list \<Rightarrow> int" where
  "balance evs = sum_list (map (\<lambda>e. event_weight (se_kind e)) evs)"

lemma balance_simps [simp]:
  "balance [] = 0" "balance (e # evs) = event_weight (se_kind e) + balance evs" "balance (xs @ ys) = balance xs + balance ys"
  by (simp_all add: balance_def)

lemma event_simps [simp]: "se_kind (event k n d) = k"
  by (simp add: event_def)

definition verdict_ok :: "node \<Rightarrow> supervisor_result option \<Rightarrow> bool" where
  "verdict_ok n stop \<longleftrightarrow> (\<forall>r. stop = Some r \<longrightarrow> sx_exit_code r \<in> {0, 1} \<and> (sx_exit_code r = 1 \<longrightarrow> nd_failed n))"

text \<open>What an operation on a node must keep.\<close>

definition keeps_node :: "milliseconds \<Rightarrow> node \<Rightarrow> node \<times> supervisor_event list \<times> supervisor_result option \<Rightarrow> bool" where
  "keeps_node maxd n res = (case res of (n', evs, stop) \<Rightarrow>
     node_ok maxd n' \<and> nd_manifest n' = nd_manifest n \<and> balance evs = running n' - running n
     \<and> (nd_failed n \<longrightarrow> nd_failed n') \<and> verdict_ok n' stop)"

lemma delay_doubles:
  fixes rd cap :: int
  assumes "d = min (rd * 2 ^ k) cap" "0 \<le> cap"
  shows "min (d * 2) cap = min (rd * 2 ^ (k + 1)) cap"
  using assms by (auto simp: min_def)

lemma restart_count_next:
  assumes "unat (r :: u32) = k mod 2 ^ 32"
  shows "unat (r + 1) = (k + 1) mod 2 ^ 32"
proof -
  have "unat (r + 1) = (unat r + 1) mod 2 ^ 32" by (simp add: unat_word_ariths)
  then show ?thesis by (simp add: assms mod_simps)
qed

lemma reset_ok:
  assumes "node_ok maxd n" "nd_phase n \<noteq> NodeDone"
  shows "\<exists>k. unat (nd_restarts (reset_if_stable sr t now n)) = k mod 2 ^ 32
    \<and> nd_delay (reset_if_stable sr t now n) = min (nm_restart_delay (nd_manifest n) * 2 ^ k) (restart_cap maxd (nd_manifest n))"
    "nm_max_restarts (nd_manifest n) \<noteq> 0 \<longrightarrow> nd_restarts (reset_if_stable sr t now n) \<le> nm_max_restarts (nd_manifest n)"
    "nd_manifest (reset_if_stable sr t now n) = nd_manifest n" "nd_child (reset_if_stable sr t now n) = None"
    "nd_failed (reset_if_stable sr t now n) = nd_failed n"
proof -
  have zero: "\<exists>k. unat (0 :: u32) = k mod 2 ^ 32 \<and> nm_restart_delay (nd_manifest n)
      = min (nm_restart_delay (nd_manifest n) * 2 ^ k) (restart_cap maxd (nd_manifest n))"
    by (rule exI [of _ 0]) (simp add: restart_cap_def)
  show "\<exists>k. unat (nd_restarts (reset_if_stable sr t now n)) = k mod 2 ^ 32
    \<and> nd_delay (reset_if_stable sr t now n) = min (nm_restart_delay (nd_manifest n) * 2 ^ k) (restart_cap maxd (nd_manifest n))"
    using assms zero by (simp add: reset_if_stable_def node_ok_def)
  show "nm_max_restarts (nd_manifest n) \<noteq> 0 \<longrightarrow> nd_restarts (reset_if_stable sr t now n) \<le> nm_max_restarts (nd_manifest n)"
    "nd_manifest (reset_if_stable sr t now n) = nd_manifest n" "nd_child (reset_if_stable sr t now n) = None"
    "nd_failed (reset_if_stable sr t now n) = nd_failed n"
    using assms by (simp_all add: reset_if_stable_def node_ok_def)
qed

lemma ended_node_keeps:
  assumes ok: "node_ok maxd n" and ph: "nd_phase n \<noteq> NodeDone" and res: "ended_node sr maxd success t now n = (n', evs, stop)"
  shows "node_ok maxd n' \<and> nd_manifest n' = nd_manifest n \<and> balance evs = 0 \<and> nd_phase n' \<in> {NodeBackoff, NodeDone}
    \<and> verdict_ok n' stop"
proof -
  let ?n = "reset_if_stable sr t now n" and ?spec = "nd_manifest n"
  note r = reset_ok [OF ok ph, of sr t now]
  have nf: "\<not> nd_failed n" "0 \<le> nm_restart_delay ?spec" using ok ph by (auto simp: node_ok_def)
  then have cap: "0 \<le> restart_cap maxd ?spec" by (simp add: restart_cap_def)
  obtain k where k: "unat (nd_restarts ?n) = k mod 2 ^ 32"
    "nd_delay ?n = min (nm_restart_delay ?spec * 2 ^ k) (restart_cap maxd ?spec)" using r(1) by blast
  have next_k: "\<exists>j. unat (nd_restarts ?n + 1) = j mod 2 ^ 32
      \<and> min (nd_delay ?n * 2) (restart_cap maxd ?spec) = min (nm_restart_delay ?spec * 2 ^ j) (restart_cap maxd ?spec)"
    using restart_count_next [OF k(1)] delay_doubles [OF k(2) cap] by blast
  show ?thesis
  proof (cases "restart_wanted ?spec success \<and> (nm_max_restarts ?spec = 0 \<or> nd_restarts ?n < nm_max_restarts ?spec)")
    case True
    have le: "nm_max_restarts ?spec \<noteq> 0 \<longrightarrow> nd_restarts ?n + 1 \<le> nm_max_restarts ?spec" using True by (auto intro: inc_le)
    have n': "n' = ?n\<lparr>nd_restarts := nd_restarts ?n + 1, nd_phase := NodeBackoff, nd_restart_at := now + ns_of_ms (nd_delay ?n),
        nd_delay := min (nd_delay ?n * 2) (restart_cap maxd ?spec)\<rparr>" and rest: "balance evs = 0" "stop = None"
      using res True by (auto simp: ended_node_def Let_def event_weight_def restart_cap_def)
    then show ?thesis using next_k le nf r by (auto simp: node_ok_def verdict_ok_def)
  next
    case False
    then have n': "n' = ?n\<lparr>nd_phase := NodeDone, nd_failed := \<not> success\<rparr>" and rest: "balance evs = 0"
        "verdict_ok n' stop"
      using res by (auto simp: ended_node_def Let_def event_weight_def verdict_ok_def split: if_splits)
    then show ?thesis using nf r by (auto simp: node_ok_def)
  qed
qed

lemma start_node_keeps:
  assumes "node_ok maxd n" "nd_phase n \<in> {NodePending, NodeBackoff}"
  shows "keeps_node maxd n (start_node sr maxd child now n)"
proof (cases child)
  case (Inl st)
  obtain n' evs stop where e: "ended_node sr maxd False now now n = (n', evs, stop)" by (cases "ended_node sr maxd False now now n")
  have "nd_phase n \<noteq> NodeDone" "\<not> nd_failed n" using assms by (auto simp: node_ok_def)
  with ended_node_keeps [OF assms(1) _ e] show ?thesis
    using assms(2) Inl e by (auto simp: keeps_node_def start_node_def event_weight_def running_def)
next
  case (Inr pid)
  then show ?thesis using assms by (auto simp: keeps_node_def start_node_def event_weight_def running_def node_ok_def verdict_ok_def)
qed

lemma keeps_node_refl: "node_ok maxd n \<Longrightarrow> keeps_node maxd n (n, [], None)"
  by (simp add: keeps_node_def verdict_ok_def)

lemma supervise_node_keeps:
  assumes "node_ok maxd n"
  shows "keeps_node maxd n (supervise_node sr maxd i n)"
proof (cases "nd_phase n = NodeRunning \<and> ni_poll i \<noteq> None")
  case True
  then obtain e where e: "ni_poll i = Some e" by auto
  obtain n' evs stop where r: "ended_node sr maxd (ProcessExit_success e) (nd_started_at n) (ni_now i) n = (n', evs, stop)"
    by (cases "ended_node sr maxd (ProcessExit_success e) (nd_started_at n) (ni_now i) n")
  have "nd_phase n \<noteq> NodeDone" "\<not> nd_failed n" using True assms by (auto simp: node_ok_def)
  with ended_node_keeps [OF assms _ r] show ?thesis
    using True e r by (auto simp: keeps_node_def supervise_node_def event_weight_def running_def)
next
  case False
  then show ?thesis
    using keeps_node_refl [OF assms] start_node_keeps [OF assms] by (auto simp: supervise_node_def split: option.splits)
qed

lemma supervise_node_pending: "nd_phase n = NodePending \<Longrightarrow> supervise_node sr maxd i n = (n, [], None)"
  by (simp add: supervise_node_def)

section \<open>The whole system\<close>

definition sup_ok :: "supervisor \<Rightarrow> bool" where
  "sup_ok s \<longleftrightarrow> (\<forall>n \<in> set (sp_nodes s). node_ok (sp_max_restart_delay s) n)
     \<and> balance (sp_events s) = sum_list (map running (sp_nodes s))
     \<and> (\<forall>r. sp_ending s = Some r \<longrightarrow> sx_exit_code r \<in> {0, 1} \<and> (sx_exit_code r = 1 \<longrightarrow> (\<exists>n \<in> set (sp_nodes s). nd_failed n)))"

definition pending_from :: "nat \<Rightarrow> supervisor \<Rightarrow> bool" where
  "pending_from k s \<longleftrightarrow> (\<forall>j. k \<le> j \<longrightarrow> j < length (sp_nodes s) \<longrightarrow> nd_phase (sp_nodes s ! j) = NodePending)"

lemma sum_list_replaced:
  "k < length xs \<Longrightarrow> sum_list (map f (xs[k := x])) = sum_list (map f xs) - f (xs ! k) + (f x :: int)"
  by (induction xs arbitrary: k) (auto split: nat.splits)

lemma on_node_keeps:
  assumes ok: "sup_ok s" and k: "k < length (sp_nodes s)" and keeps: "keeps_node (sp_max_restart_delay s) (sp_nodes s ! k) (f (sp_nodes s ! k))"
  shows "sup_ok (on_node k f s)" "sp_max_restart_delay (on_node k f s) = sp_max_restart_delay s"
    "length (sp_nodes (on_node k f s)) = length (sp_nodes s)" "sp_stable_run (on_node k f s) = sp_stable_run s"
    "map nd_manifest (sp_nodes (on_node k f s)) = map nd_manifest (sp_nodes s)"
proof -
  obtain n evs stop where f: "f (sp_nodes s ! k) = (n, evs, stop)" by (cases "f (sp_nodes s ! k)")
  have s': "on_node k f s = s\<lparr>sp_nodes := (sp_nodes s)[k := n], sp_events := sp_events s @ evs,
      sp_ending := (if sp_ending s = None then stop else sp_ending s)\<rparr>" by (simp add: on_node_def f)
  have n: "node_ok (sp_max_restart_delay s) n" "nd_manifest n = nd_manifest (sp_nodes s ! k)"
    "balance evs = running n - running (sp_nodes s ! k)" "nd_failed (sp_nodes s ! k) \<longrightarrow> nd_failed n" "verdict_ok n stop"
    using keeps f by (simp_all add: keeps_node_def)
  have new: "n \<in> set ((sp_nodes s)[k := n])" using k by (simp add: set_update_memI)
  have failed: "\<exists>m \<in> set ((sp_nodes s)[k := n]). nd_failed m" if "m \<in> set (sp_nodes s)" "nd_failed m" for m
  proof -
    from that(1) obtain j where j: "j < length (sp_nodes s)" "m = sp_nodes s ! j" by (metis in_set_conv_nth)
    show ?thesis
    proof (cases "j = k")
      case True
      then show ?thesis using n(4) that(2) j new by blast
    next
      case False
      then have "(sp_nodes s)[k := n] ! j = m" using j by simp
      then show ?thesis using j that(2) by (metis length_list_update nth_mem)
    qed
  qed
  have "\<forall>m \<in> set ((sp_nodes s)[k := n]). node_ok (sp_max_restart_delay s) m"
    using ok n(1) set_update_subset_insert [of "sp_nodes s" k n] by (auto simp: sup_ok_def)
  moreover have "balance (sp_events s @ evs) = sum_list (map running ((sp_nodes s)[k := n]))"
    using ok n(3) k by (simp add: sum_list_replaced sup_ok_def)
  moreover have "sx_exit_code r \<in> {0, 1} \<and> (sx_exit_code r = 1 \<longrightarrow> (\<exists>m \<in> set ((sp_nodes s)[k := n]). nd_failed m))"
    if "(if sp_ending s = None then stop else sp_ending s) = Some r" for r
  proof (cases "sp_ending s")
    case None
    then show ?thesis using that n(5) new by (auto simp: verdict_ok_def)
  next
    case (Some r')
    then show ?thesis using that ok failed by (auto simp: sup_ok_def)
  qed
  ultimately show "sup_ok (on_node k f s)" unfolding s' sup_ok_def by simp
  show "sp_max_restart_delay (on_node k f s) = sp_max_restart_delay s"
    "length (sp_nodes (on_node k f s)) = length (sp_nodes s)" "sp_stable_run (on_node k f s) = sp_stable_run s"
    by (simp_all add: s')
  show "map nd_manifest (sp_nodes (on_node k f s)) = map nd_manifest (sp_nodes s)"
    using k n(2) by (simp add: s' map_update) (metis list_update_id map_update nth_map length_map)
qed

lemma on_node_other: "j \<noteq> k \<Longrightarrow> sp_nodes (on_node k f s) ! j = sp_nodes s ! j"
  by (simp add: on_node_def split: prod.splits)

lemma on_node_same: "f (sp_nodes s ! k) = (sp_nodes s ! k, [], None) \<Longrightarrow> sp_nodes (on_node k f s) = sp_nodes s"
  by (simp add: on_node_def)

lemma supervise_nodes_keeps:
  assumes "sup_ok s" "pending_from p s" "k + length is \<le> length (sp_nodes s)"
  shows "sup_ok (supervise_nodes k is s) \<and> pending_from p (supervise_nodes k is s)
    \<and> map nd_manifest (sp_nodes (supervise_nodes k is s)) = map nd_manifest (sp_nodes s)
    \<and> sp_max_restart_delay (supervise_nodes k is s) = sp_max_restart_delay s"
  using assms
proof (induction "is" arbitrary: k s)
  case Nil
  then show ?case by simp
next
  case (Cons i "is")
  let ?f = "supervise_node (sp_stable_run s) (sp_max_restart_delay s) i"
  have k: "k < length (sp_nodes s)" using Cons.prems(3) by simp
  have "keeps_node (sp_max_restart_delay s) (sp_nodes s ! k) (?f (sp_nodes s ! k))"
    using supervise_node_keeps Cons.prems(1) k by (simp add: sup_ok_def)
  note one = on_node_keeps [where f = ?f, OF Cons.prems(1) k this]
  have "pending_from p (on_node k ?f s)"
    unfolding pending_from_def
  proof (intro allI impI)
    fix j
    assume j: "p \<le> j" "j < length (sp_nodes (on_node k ?f s))"
    then have ph: "nd_phase (sp_nodes s ! j) = NodePending" using Cons.prems(2) one(3) by (simp add: pending_from_def)
    show "nd_phase (sp_nodes (on_node k ?f s) ! j) = NodePending"
    proof (cases "j = k")
      case True
      with ph have "?f (sp_nodes s ! k) = (sp_nodes s ! k, [], None)" by (simp add: supervise_node_pending)
      from on_node_same [of ?f, OF this] ph show ?thesis by simp
    next
      case False
      then show ?thesis using ph by (simp add: on_node_other)
    qed
  qed
  then show ?case using Cons.IH [OF one(1), of "k + 1"] one Cons.prems(3) by simp
qed

lemma sup_ok_ending:
  assumes "sup_ok s" "sx_exit_code r = (if \<exists>n \<in> set (sp_nodes s). nd_failed n then 1 else 0)"
  shows "sup_ok (s\<lparr>sp_ending := Some r\<rparr>)"
  using assms unfolding sup_ok_def by (simp split: if_splits)

lemma finish_round_keeps:
  assumes "sup_ok s"
  shows "sup_ok (finish_round s)"
proof -
  define r where "r = \<lparr>sx_reason = ''every node ended'', sx_exit_code = (if \<exists>n \<in> set (sp_nodes s). nd_failed n then 1 else 0 :: int)\<rparr>"
  have "finish_round s = s \<or> finish_round s = s\<lparr>sp_ending := Some r\<rparr>" by (simp add: finish_round_def r_def)
  moreover have "sup_ok (s\<lparr>sp_ending := Some r\<rparr>)" by (rule sup_ok_ending [OF assms]) (simp add: r_def)
  ultimately show ?thesis using assms by (elim disjE) simp_all
qed

lemma finish_round_nodes: "sp_nodes (finish_round s) = sp_nodes s" "sp_max_restart_delay (finish_round s) = sp_max_restart_delay s"
  by (simp_all add: finish_round_def)

lemma stop_node_keeps:
  assumes "node_ok maxd n" "stop_node i n = Some (n', evs)"
  shows "keeps_node maxd n (n', evs, None) \<and> nd_phase n' = NodeDone \<and> nd_child n' = None"
proof (cases "nd_phase n = NodeRunning")
  case True
  have shape: "\<exists>killed x y. evs = [event EvStopping n x] @ killed @ [event EvStopped n y] \<and> balance killed = 0"
    and n': "n' = n\<lparr>nd_child := None, nd_phase := NodeDone\<rparr>"
    using assms(2) True by (auto simp: stop_node_def event_weight_def split: option.splits if_splits)
  then have "balance evs = -1" by (auto simp: event_weight_def)
  then show ?thesis
    using True assms(1) n' by (simp add: keeps_node_def verdict_ok_def running_def node_ok_def)
next
  case False
  then show ?thesis
    using assms by (auto simp: stop_node_def keeps_node_def verdict_ok_def running_def node_ok_def)
qed

lemma stop_nodes_keeps:
  assumes "sup_ok s" "k \<le> length (sp_nodes s)" "stop_nodes inputs k s = Some s'"
    "\<And>j. k \<le> j \<Longrightarrow> j < length (sp_nodes s) \<Longrightarrow> nd_phase (sp_nodes s ! j) = NodeDone \<and> nd_child (sp_nodes s ! j) = None"
  shows "sup_ok s' \<and> sp_ending s' = sp_ending s \<and> map nd_manifest (sp_nodes s') = map nd_manifest (sp_nodes s)
    \<and> sp_max_restart_delay s' = sp_max_restart_delay s \<and> (\<forall>n \<in> set (sp_nodes s'). nd_phase n = NodeDone \<and> nd_child n = None)"
  using assms
proof (induction k arbitrary: s)
  case 0
  then have "\<forall>n \<in> set (sp_nodes s). nd_phase n = NodeDone \<and> nd_child n = None" by (metis in_set_conv_nth le0)
  with 0 show ?case by simp
next
  case (Suc k)
  obtain n evs where st: "stop_node (inputs k) (sp_nodes s ! k) = Some (n, evs)"
    using Suc.prems(3) by (auto split: option.splits)
  have k: "k < length (sp_nodes s)" using Suc.prems(2) by simp
  have "node_ok (sp_max_restart_delay s) (sp_nodes s ! k)" using Suc.prems(1) k by (simp add: sup_ok_def)
  note n = stop_node_keeps [OF this st]
  let ?f = "\<lambda>_. (n, evs, None)"
  note one = on_node_keeps [where f = ?f, OF Suc.prems(1) k conjunct1 [OF n]]
  have s1: "s\<lparr>sp_nodes := (sp_nodes s)[k := n], sp_events := sp_events s @ evs\<rparr> = on_node k ?f s"
    "sp_ending (on_node k ?f s) = sp_ending s" by (simp_all add: on_node_def)
  have "stop_nodes inputs k (on_node k ?f s) = Some s'" using Suc.prems(3) st s1(1) by simp
  moreover have "nd_phase (sp_nodes (on_node k ?f s) ! j) = NodeDone \<and> nd_child (sp_nodes (on_node k ?f s) ! j) = None"
    if "k \<le> j" "j < length (sp_nodes (on_node k ?f s))" for j
    using that n k Suc.prems(4) [of j] one(3) by (cases "j = k") (simp_all add: on_node_def)
  moreover have "k \<le> length (sp_nodes (on_node k ?f s))" using one(3) k by simp
  ultimately show ?case using Suc.IH [OF one(1)] unfolding one(2,5) s1(2) by blast
qed

section \<open>Runs\<close>

definition sup_inv :: "system_manifest \<Rightarrow> milliseconds \<Rightarrow> sup_pc \<times> supervisor \<Rightarrow> bool" where
  "sup_inv m maxd = (\<lambda>(pc, s). sup_ok s \<and> map nd_manifest (sp_nodes s) = sm_nodes m \<and> sp_max_restart_delay s = maxd \<and>
     (case pc of
        AtNode k \<Rightarrow> pending_from k s
      | InLoop k d \<Rightarrow> d \<noteq> None \<longrightarrow> pending_from (k + 1) s
      | AtStop \<Rightarrow> True
      | Finished r \<Rightarrow> r = Run_result s \<and> (\<forall>n \<in> set (sp_nodes s). nd_phase n = NodeDone \<and> nd_child n = None)))"

lemma sup_ok_request: "sup_ok (Supervisor_RequestStop s) \<longleftrightarrow> sup_ok s"
  by (simp add: sup_ok_def Supervisor_RequestStop_def)

lemma sup_inv_step: "sup_step x y \<Longrightarrow> sup_inv m maxd x \<Longrightarrow> sup_inv m maxd y"
proof (induction rule: sup_step.induct)
  case (request pc s)
  then show ?case
    by (cases pc) (simp_all add: sup_inv_def sup_ok_request, simp_all add: Supervisor_RequestStop_def pending_from_def Run_result_def)
next
  case (start k s now child)
  let ?f = "start_node (sp_stable_run s) (sp_max_restart_delay s) child now"
  have ok: "sup_ok s" and p: "pending_from k s" using start by (simp_all add: sup_inv_def)
  then have "keeps_node (sp_max_restart_delay s) (sp_nodes s ! k) (?f (sp_nodes s ! k))"
    using start_node_keeps start(1) by (simp add: sup_ok_def pending_from_def)
  note one = on_node_keeps [where f = ?f, OF ok start(1) this]
  have "pending_from (k + 1) (on_node k ?f s)"
    using p one(3) by (auto simp: pending_from_def on_node_other)
  then show ?case using start one by (simp add: sup_inv_def Supervisor_StartNode_def)
next
  case (started s k)
  then show ?case by (simp add: sup_inv_def)
next
  case (quit s k d)
  then show ?case by (simp add: sup_inv_def after_loop_def)
next
  case (round s "is" s' leave d now k)
  obtain p where p: "pending_from p s" "d \<noteq> None \<longrightarrow> p = k + 1"
  proof (cases "d = None")
    case True
    have "pending_from (length (sp_nodes s)) s" by (simp add: pending_from_def)
    with True that show thesis by blast
  next
    case False
    with round.prems that show thesis by (simp add: sup_inv_def)
  qed
  have "sup_ok s" using round.prems by (simp add: sup_inv_def)
  with supervise_nodes_keeps [OF _ p(1), of 0 "is"] round(2) have
    "sup_ok s'" "pending_from p s'" "map nd_manifest (sp_nodes s') = map nd_manifest (sp_nodes s)"
    "sp_max_restart_delay s' = sp_max_restart_delay s"
    by (simp_all add: round(3) Supervise_def finish_round_keeps finish_round_nodes pending_from_def)
  with p(2) round.prems show ?case by (auto simp: sup_inv_def after_loop_def)
next
  case (stop inputs s s')
  have "sup_ok s" using stop.prems by (simp add: sup_inv_def)
  from stop_nodes_keeps [OF this le_refl stop(1) [unfolded StopAll_def]] stop.prems
  show ?case by (simp add: sup_inv_def Run_result_def)
qed

definition sup_init :: "milliseconds \<Rightarrow> milliseconds \<Rightarrow> system_manifest \<Rightarrow> sup_pc \<times> supervisor \<Rightarrow> bool" where
  "sup_init stable_run maxd m x \<longleftrightarrow> x = (AtNode 0, Supervisor_init stable_run maxd m) \<and> (\<forall>n \<in> set (sm_nodes m). 0 \<le> nm_restart_delay n)"

lemma sup_inv_init:
  assumes "sup_init stable_run maxd m x"
  shows "sup_inv m maxd x"
proof -
  let ?node = "\<lambda>n. \<lparr>nd_manifest = n, nd_phase = NodePending, nd_child = None, nd_started_at = 0, nd_restart_at = 0,
       nd_delay = nm_restart_delay n, nd_restarts = 0, nd_failed = False\<rparr>"
  have "node_ok maxd (?node n)" if "0 \<le> nm_restart_delay n" for n
    using that by (auto simp: node_ok_def restart_cap_def intro!: exI [of _ 0])
  moreover have "sum_list (map running (map ?node ns)) = 0" for ns by (induction ns) (simp_all add: running_def)
  moreover have "map nd_manifest (map ?node ns) = ns" for ns by (induction ns) simp_all
  ultimately show ?thesis
    using assms by (auto simp: sup_init_def sup_inv_def sup_ok_def Supervisor_init_def pending_from_def)
qed

interpretation sup: transition_system "sup_init stable_run maxd m" sup_step "sup_inv m maxd" for stable_run maxd m
  by unfold_locales (auto intro: sup_inv_init sup_inv_step)

definition count_events :: "event_kind \<Rightarrow> supervisor \<Rightarrow> nat" where
  "count_events k s = length (filter (\<lambda>e. se_kind e = k) (sp_events s))"

lemma balance_count:
  "balance evs = int (length (filter (\<lambda>e. se_kind e = EvStarted) evs))
     - int (length (filter (\<lambda>e. se_kind e = EvExited) evs)) - int (length (filter (\<lambda>e. se_kind e = EvStopped) evs))"
  by (induction evs) (auto simp: event_weight_def)

text \<open>
  C30. Restarts follow the policy. In every state of a run, whatever the processes do, a node has been restarted at most
  \<open>max_restarts\<close> times since its last stable run if there is such a limit; after \<open>k\<close> restarts in a row (counted modulo
  \<open>2 ^ 32\<close>) the delay before the next one is the restart delay doubled \<open>k\<close> times, capped at the larger of the
  restart delay and \<open>max_restart_delay\<close>; and a node has a child process exactly while it is running.
\<close>

theorem supervisor_restart_policy:
  assumes "\<forall>n \<in> set (sm_nodes m). 0 \<le> nm_restart_delay n"
    and "sup_step\<^sup>*\<^sup>* (AtNode 0, Supervisor_init stable_run maxd m) (pc, s)"
  shows "map nd_manifest (sp_nodes s) = sm_nodes m \<and> (\<forall>n \<in> set (sp_nodes s).
    (nm_max_restarts (nd_manifest n) \<noteq> 0 \<longrightarrow> nd_restarts n \<le> nm_max_restarts (nd_manifest n))
    \<and> (\<exists>k. unat (nd_restarts n) = k mod 2 ^ 32
         \<and> nd_delay n = min (nm_restart_delay (nd_manifest n) * 2 ^ k) (max maxd (nm_restart_delay (nd_manifest n))))
    \<and> (nd_child n \<noteq> None \<longleftrightarrow> nd_phase n = NodeRunning))"
proof -
  have "sup_inv m maxd (pc, s)"
    by (rule sup.inv_reachable [OF _ assms(2)]) (simp add: sup_init_def assms(1))
  then have "map nd_manifest (sp_nodes s) = sm_nodes m" "\<forall>n \<in> set (sp_nodes s). node_ok maxd n"
    by (auto simp: sup_inv_def sup_ok_def)
  then show ?thesis unfolding node_ok_def restart_cap_def by metis
qed


text \<open>Stopping ends: a process exits, or the clock passes the deadline of each wait.\<close>

definition reaches :: "time_point \<Rightarrow> (process_exit option \<times> time_point) list \<Rightarrow> bool" where
  "reaches deadline obs \<longleftrightarrow> (\<exists>x \<in> set obs. fst x \<noteq> None \<or> deadline \<le> snd x)"

definition waits_end :: "stop_input \<Rightarrow> node \<Rightarrow> bool" where
  "waits_end i n \<longleftrightarrow> reaches (si_now i + ns_of_ms (nm_stop_timeout (nd_manifest n))) (si_polls i)
     \<and> reaches (si_kill_now i + ns_of_ms 5000) (si_kill_polls i)"

lemma WaitForExit_returns: "reaches deadline obs \<Longrightarrow> \<exists>e. WaitForExit deadline obs = Some e"
  by (induction deadline obs rule: WaitForExit.induct) (auto simp: reaches_def)

lemma stop_node_returns:
  assumes "waits_end i n"
  shows "\<exists>r. stop_node i n = Some r"
proof -
  obtain e e' where "WaitForExit (si_now i + ns_of_ms (nm_stop_timeout (nd_manifest n))) (si_polls i) = Some e"
      "WaitForExit (si_kill_now i + ns_of_ms 5000) (si_kill_polls i) = Some e'"
    using assms WaitForExit_returns unfolding waits_end_def by metis
  then show ?thesis by (simp add: stop_node_def)
qed

lemma stop_nodes_returns:
  "k \<le> length (sp_nodes s) \<Longrightarrow> \<forall>j < k. waits_end (inputs j) (sp_nodes s ! j) \<Longrightarrow> \<exists>s'. stop_nodes inputs k s = Some s'"
proof (induction k arbitrary: s)
  case (Suc k)
  obtain n evs where st: "stop_node (inputs k) (sp_nodes s ! k) = Some (n, evs)"
    using stop_node_returns [of "inputs k" "sp_nodes s ! k"] Suc.prems(2) by auto
  let ?s = "s\<lparr>sp_nodes := (sp_nodes s)[k := n], sp_events := sp_events s @ evs\<rparr>"
  have "\<exists>s'. stop_nodes inputs k ?s = Some s'"
    by (rule Suc.IH) (use Suc.prems in simp_all)
  with st show ?case by simp
qed simp

lemma StopAll_returns:
  "\<forall>j < length (sp_nodes s). waits_end (inputs j) (sp_nodes s ! j) \<Longrightarrow> \<exists>s'. StopAll inputs s = Some s'"
  unfolding StopAll_def by (rule stop_nodes_returns) simp_all

text \<open>
  Once there is a reason to end, no node is started or supervised any more: every step is the request of another stop
  or brings the run closer to its end, and the run can always go on to it.
\<close>

fun steps_left :: "sup_pc \<Rightarrow> nat" where
  "steps_left (AtNode k) = 3"
| "steps_left (InLoop k d) = (if d = None then 2 else 4)"
| "steps_left AtStop = 1"
| "steps_left (Finished r) = 0"

lemma ending_run_progress:
  assumes "sup_step (pc, s) (pc', s')" "quits s"
  shows "(pc' = pc \<or> steps_left pc' < steps_left pc) \<and> (quits s' \<or> steps_left pc' = 0) \<and> (steps_left pc' = 0 \<or> sp_nodes s' = sp_nodes s)"
  using assms by cases (auto simp: quits_def Supervisor_RequestStop_def after_loop_def)

lemma ending_run_finishes:
  assumes "quits s" "\<forall>j < length (sp_nodes s). waits_end (inputs j) (sp_nodes s ! j)" "steps_left pc \<noteq> 0"
  shows "\<exists>r s'. sup_step\<^sup>*\<^sup>* (pc, s) (Finished r, s')"
proof -
  obtain s' where "StopAll inputs s = Some s'" using StopAll_returns [OF assms(2)] by blast
  then have stop: "sup_step\<^sup>*\<^sup>* (AtStop, s) (Finished (Run_result s), s')" by (intro r_into_rtranclp sup_step.stop)
  have last: "sup_step\<^sup>*\<^sup>* (InLoop k None, s) (Finished (Run_result s), s')" for k
    using sup_step.quit [OF assms(1), of k None] stop by (simp add: after_loop_def converse_rtranclp_into_rtranclp)
  have node: "sup_step\<^sup>*\<^sup>* (AtNode k, s) (Finished (Run_result s), s')" for k
    by (rule converse_rtranclp_into_rtranclp [OF sup_step.started last]) (simp add: assms(1))
  have "sup_step\<^sup>*\<^sup>* (InLoop k (Some d), s) (Finished (Run_result s), s')" for k d
    using sup_step.quit [OF assms(1), of k "Some d"] node [of "k + 1"] by (simp add: after_loop_def converse_rtranclp_into_rtranclp)
  with stop last node show ?thesis using assms(3) by (cases pc rule: steps_left.cases) (metis option.exhaust steps_left.simps)+
qed

subsection \<open>A run\<close>

text \<open>An optional node fails, then a required one ends with success: every node has ended.\<close>

definition ex_node :: "string \<Rightarrow> bool \<Rightarrow> node_manifest" where
  "ex_node name required = \<lparr>nm_name = name, nm_executable = name, nm_config = ''c'', nm_arguments = [], nm_start_delay = 0,
     nm_restart = kNever, nm_max_restarts = 5, nm_restart_delay = 500, nm_required = required, nm_stop_timeout = 5000\<rparr>"

definition ex_manifest :: system_manifest where
  "ex_manifest = \<lparr>sm_name = [], sm_path = [], sm_config_paths = [], sm_bin_paths = [], sm_deployment = [],
     sm_nodes = [ex_node ''a'' False, ex_node ''b'' True]\<rparr>"

definition ex_input :: "int option \<Rightarrow> node_input" where
  "ex_input code = \<lparr>ni_now = 1, ni_poll = map_option (\<lambda>c. \<lparr>px_code = c, px_signaled = False\<rparr>) code, ni_launch = Inr 0\<rparr>"

definition ex_sup :: "nat \<Rightarrow> supervisor" where
  "ex_sup k = fold (\<lambda>f s. f s) (take k [Supervisor_StartNode 0 (Inr 1) 0, Supervise [ex_input None, ex_input None],
     Supervisor_StartNode 1 (Inr 2) 0, Supervise [ex_input (Some 1), ex_input None], Supervise [ex_input None, ex_input (Some 0)]])
     (Supervisor_init 10000 30000 ex_manifest)"

definition ex_stop_input :: "nat \<Rightarrow> stop_input" where
  "ex_stop_input k = \<lparr>si_now = 0, si_polls = [], si_kill_now = 0, si_kill_polls = []\<rparr>"

lemma ex_sup_Suc:
  "ex_sup 1 = Supervisor_StartNode 0 (Inr 1) 0 (ex_sup 0)" "ex_sup 2 = Supervise [ex_input None, ex_input None] (ex_sup 1)"
  "ex_sup 3 = Supervisor_StartNode 1 (Inr 2) 0 (ex_sup 2)" "ex_sup 4 = Supervise [ex_input (Some 1), ex_input None] (ex_sup 3)"
  "ex_sup 5 = Supervise [ex_input None, ex_input (Some 0)] (ex_sup 4)"
  by (simp_all add: ex_sup_def take_Cons')

lemma ex_sup_quits: "\<not> quits (ex_sup 0)" "\<not> quits (ex_sup 1)" "\<not> quits (ex_sup 2)" "\<not> quits (ex_sup 3)" "\<not> quits (ex_sup 4)"
  by code_simp+

lemma ex_sup_length: "length (sp_nodes (ex_sup 0)) = 2" "length (sp_nodes (ex_sup 1)) = 2" "length (sp_nodes (ex_sup 2)) = 2"
  "length (sp_nodes (ex_sup 3)) = 2" "length (sp_nodes (ex_sup 4)) = 2" "sp_ending (ex_sup 2) = None" "sp_ending (ex_sup 4) = None"
  "sp_ending (ex_sup 5) \<noteq> None"
  "ns_of_ms (nm_start_delay (nd_manifest (sp_nodes (ex_sup 0) ! 0))) = 0" "ns_of_ms (nm_start_delay (nd_manifest (sp_nodes (ex_sup 2) ! 1))) = 0"
  by code_simp+

lemmas ex_sup_facts = ex_sup_length [unfolded One_nat_def] ex_sup_quits [unfolded One_nat_def]

lemma ex_sup_start:
  assumes "k < length (sp_nodes s)" "\<not> quits s" "ns_of_ms (nm_start_delay (nd_manifest (sp_nodes s ! k))) = 0"
  shows "sup_step (AtNode k, s) (InLoop k (Some 0), Supervisor_StartNode k child 0 s)"
  using sup_step.start [OF assms(1,2), of 0 child] assms(3) by simp

lemma ex_sup_round:
  assumes "\<not> quits s" "length is = length (sp_nodes s)" "sp_ending (Supervise is s) \<noteq> None \<or> d = Some 0"
  shows "sup_step (InLoop k d, s) (after_loop k d, Supervise is s)"
  using sup_step.round [OF assms(1,2) refl refl, where d = d and now = 0 and k = k] assms(3) by auto

lemma ex_sup_stops: "StopAll ex_stop_input (ex_sup 5) = Some (ex_sup 5)"
  by code_simp

lemma ex_sup_run: "sup_step\<^sup>*\<^sup>* (AtNode 0, Supervisor_init 10000 30000 ex_manifest) (Finished (Run_result (ex_sup 5)), ex_sup 5)"
proof -
  have "(AtNode 0, Supervisor_init 10000 30000 ex_manifest) = (AtNode 0, ex_sup 0)" by (simp add: ex_sup_def)
  also have "sup_step\<^sup>*\<^sup>* \<dots> (InLoop 0 (Some 0), ex_sup 1)"
    unfolding ex_sup_Suc(1) by (rule r_into_rtranclp, rule ex_sup_start) (simp_all add: ex_sup_facts)
  also have "sup_step\<^sup>*\<^sup>* \<dots> (AtNode 1, ex_sup 2)"
    using ex_sup_round [OF ex_sup_quits(2), of "[ex_input None, ex_input None]" "Some 0" 0]
    by (simp add: ex_sup_facts ex_sup_Suc(2) after_loop_def r_into_rtranclp)
  also have "sup_step\<^sup>*\<^sup>* \<dots> (InLoop 1 (Some 0), ex_sup 3)"
    unfolding ex_sup_Suc(3) by (rule r_into_rtranclp, rule ex_sup_start) (simp_all add: ex_sup_facts)
  also have "sup_step\<^sup>*\<^sup>* \<dots> (AtNode 2, ex_sup 4)"
    using ex_sup_round [OF ex_sup_quits(4), of "[ex_input (Some 1), ex_input None]" "Some 0" 1]
    by (simp add: ex_sup_facts ex_sup_Suc(4) after_loop_def r_into_rtranclp numeral_2_eq_2)
  also have "sup_step\<^sup>*\<^sup>* \<dots> (InLoop 2 None, ex_sup 4)"
    by (rule r_into_rtranclp, rule sup_step.started) (simp add: ex_sup_facts)
  also have "sup_step\<^sup>*\<^sup>* \<dots> (AtStop, ex_sup 5)"
    using ex_sup_round [OF ex_sup_quits(5), of "[ex_input None, ex_input (Some 0)]" None 2]
    by (simp add: ex_sup_facts ex_sup_Suc(5) [symmetric] after_loop_def r_into_rtranclp)
  also have "sup_step\<^sup>*\<^sup>* \<dots> (Finished (Run_result (ex_sup 5)), ex_sup 5)"
    by (rule r_into_rtranclp, rule sup_step.stop [OF ex_sup_stops])
  finally show ?thesis .
qed

lemma ex_sup_outcome: "sx_exit_code (Run_result (ex_sup 5)) = 0" "\<exists>n \<in> set (sp_nodes (ex_sup 5)). nd_failed n"
  "count_events EvExited (ex_sup 5) = 2" "count_events EvStopping (ex_sup 5) = 0" "length (sm_nodes ex_manifest) = 2"
  by code_simp+

lemma ex_manifest_delays: "\<forall>n \<in> set (sm_nodes ex_manifest). 0 \<le> nm_restart_delay n"
  by code_simp

theorem supervisor_restart_policy_witness:
  "map nd_manifest (sp_nodes (ex_sup 5)) = sm_nodes ex_manifest \<and> list_all (\<lambda>n. nd_restarts n \<le> 5) (sp_nodes (ex_sup 5))"
proof -
  note t = supervisor_restart_policy [OF ex_manifest_delays ex_sup_run]
  have "\<forall>n \<in> set (sm_nodes ex_manifest). nm_max_restarts n = 5" by code_simp
  with t have "\<forall>n \<in> set (sp_nodes (ex_sup 5)). nm_max_restarts (nd_manifest n) = 5" by (metis imageI list.set_map)
  with t show ?thesis by (simp add: list_all_iff)
qed


text \<open>
  C32. The exit code can hide a failure. There is a run in which every node ends by itself, none is stopped by the
  supervisor and one has failed, and yet the exit code is 0: the node that ends last is required and ends
  with success, which decides the result before the nodes are looked at together.
\<close>

theorem supervisor_failure_hidden:
  "\<exists>m r s. sup_step\<^sup>*\<^sup>* (AtNode 0, Supervisor_init 10000 30000 m) (Finished r, s)
     \<and> count_events EvExited s = length (sm_nodes m) \<and> count_events EvStopping s = 0
     \<and> (\<exists>n \<in> set (sp_nodes s). nd_failed n) \<and> sx_exit_code r = 0"
proof (intro exI conjI)
  show "sup_step\<^sup>*\<^sup>* (AtNode 0, Supervisor_init 10000 30000 ex_manifest) (Finished (Run_result (ex_sup 5)), ex_sup 5)"
    by (rule ex_sup_run)
  show "count_events EvExited (ex_sup 5) = length (sm_nodes ex_manifest)" using ex_sup_outcome(3,5) by simp
qed (rule ex_sup_outcome)+

end
