(* ===== verification/Shm_Transport.thy ===== *)
theory Shm_Transport
  imports Configuration Shm_Participants
begin

text \<open>
  The transport over shared-memory segments: \<open>include/puppet_master/transport/shm/shm_transport.h\<close> and
  \<open>src/transport/shm/shm_transport.cpp\<close>. The first part is its options: their validation, the geometry they give a topic, and
  how they are read from a project. The second part is the dispatcher thread that turns the notifications of writers in
  any process into wake-ups of the readers of this process, as steps over their shared state.
\<close>

section \<open>Options\<close>

record topic_options =
  to_slot_payload_size :: u64
  to_slot_count :: u64

record shm_options =
  op_domain_id :: u32
  op_default_topic :: topic_options
  op_topics :: "(string, topic_options) omap"
  op_topic_prefixes :: "(string, topic_options) omap"
  op_wait_poll_interval :: nanoseconds

definition geometry_of :: "topic_options \<Rightarrow> segment_geometry" where
  "geometry_of t = \<lparr>sg_payload_size = to_slot_payload_size t, sg_slot_count = to_slot_count t\<rparr>"

definition TopicOptions_Validate :: "topic_options \<Rightarrow> status" where
  "TopicOptions_Validate t =
     (if to_slot_payload_size t = 0 then Status_InvalidArgument ''shm slot_payload_size must be greater than zero''
      else if to_slot_count t = 0 then Status_InvalidArgument ''shm slot_count must be greater than zero''
      else if SegmentSize (geometry_of t) = 0 \<or> 2 ^ 32 - 1 < to_slot_count t
      then Status_InvalidArgument ''shm topic geometry is too large''
      else Status_Ok)"

definition check_entry :: "string \<Rightarrow> string \<times> topic_options \<Rightarrow> status" where
  "check_entry what e =
     (let st = TopicOptions_Validate (snd e) in
      if \<not> status_ok st then Status_InvalidArgument (st_message st @ '' ('' @ what @ fst e @ '')'') else Status_Ok)"

definition Options_Validate :: "shm_options \<Rightarrow> status" where
  "Options_Validate op =
     and_then (TopicOptions_Validate (op_default_topic op))
     (and_then (validate_each (check_entry ''topic '') (op_topics op))
     (and_then (validate_each (check_entry ''topics under '') (op_topic_prefixes op))
     (if op_wait_poll_interval op \<le> 0
      then Status_InvalidArgument ''shm wait_poll_interval must be greater than zero'' else Status_Ok)))"

text \<open>The loop over the prefixes keeps the best options and the length of their prefix.\<close>

definition better_prefix :: "string \<Rightarrow> string \<times> topic_options \<Rightarrow> topic_options \<times> nat \<Rightarrow> topic_options \<times> nat" where
  "better_prefix topic e best =
     (if snd best < length (fst e) \<and> take (length (fst e)) topic = fst e then (snd e, length (fst e)) else best)"

definition ForTopic :: "shm_options \<Rightarrow> string \<Rightarrow> topic_options" where
  "ForTopic op topic =
     (case omap_find (op_topics op) topic of
        Some found \<Rightarrow> found
      | None \<Rightarrow> fst (fold (better_prefix topic) (op_topic_prefixes op) (op_default_topic op, 0)))"

section \<open>Options of a project\<close>

record settings_entry =
  en_label :: string
  en_topics :: "string list"
  en_parameters :: parameter_map
  en_prefix :: string

definition topic_settings :: "topic_config \<Rightarrow> settings_entry list" where
  "topic_settings t =
     (if tc_transport t = kIpc \<and> tc_transport_parameters t \<noteq> []
      then [\<lparr>en_label = ''topic '' @ tc_name t, en_topics = [tc_name t], en_parameters = tc_transport_parameters t, en_prefix = []\<rparr>]
      else [])"

definition service_settings :: "service_config \<Rightarrow> settings_entry list" where
  "service_settings v =
     (if vc_transport v = kIpc \<and> vc_transport_parameters v \<noteq> []
      then [\<lparr>en_label = ''service '' @ vc_name v,
             en_topics = [vc_name v @ ''/request'', vc_name v @ ''/reply'', vc_name v @ ''/presence''],
             en_parameters = vc_transport_parameters v, en_prefix = vc_name v @ ''/reply/''\<rparr>]
      else [])"

definition settings_of :: "project_config \<Rightarrow> settings_entry list" where
  "settings_of p = concat (map topic_settings (pj_topics p)) @ concat (map service_settings (pj_services p))"

definition invalid_settings :: "settings_entry \<Rightarrow> status \<Rightarrow> status" where
  "invalid_settings e st = Status_InvalidArgument (''shm settings of '' @ en_label e @ '': '' @ st_message st)"

definition known_parameters :: "string list" where
  "known_parameters = [''slot_payload_size'', ''slot_count'', ''domain_id'']"

definition check_parameters :: "settings_entry \<Rightarrow> status" where
  "check_parameters e =
     (case find (\<lambda>q. fst q \<notin> set known_parameters) (en_parameters e) of
        Some q \<Rightarrow> Status_InvalidArgument (''unknown parameter '' @ fst q @ ''; expected slot_payload_size, slot_count, or domain_id'')
      | None \<Rightarrow> Status_Ok)"

definition has_parameter :: "settings_entry \<Rightarrow> string \<Rightarrow> bool" where
  "has_parameter e key \<longleftrightarrow> omap_find (en_parameters e) key \<noteq> None"

text \<open>The domain of an entry; the flag says whether an earlier entry has set it.\<close>

definition apply_domain :: "settings_entry \<Rightarrow> bool \<times> shm_options \<Rightarrow> (bool \<times> shm_options) result" where
  "apply_domain e x = (case x of (domain_set, base) \<Rightarrow>
     (case GetParameter (ConvertParameter_unsigned 32) (en_parameters e) ''domain_id'' (unat (op_domain_id base)) of
        Inl st \<Rightarrow> FromStatus (invalid_settings e st)
      | Inr d \<Rightarrow>
          if has_parameter e ''domain_id''
          then if domain_set \<and> d \<noteq> unat (op_domain_id base)
            then FromStatus (invalid_settings e (Status_InvalidArgument (''domain_id '' @ std_to_string d @ '' differs from ''
              @ std_to_string (unat (op_domain_id base)) @ '' set on another topic; one transport has one domain'')))
            else Inr (True, base\<lparr>op_domain_id := of_nat d\<rparr>)
          else Inr (domain_set, base)))"

definition entry_geometry :: "settings_entry \<Rightarrow> shm_options \<Rightarrow> topic_options result" where
  "entry_geometry e base =
     (let g = ForTopic base (hd (en_topics e)) in
      case GetParameter (ConvertParameter_unsigned 64) (en_parameters e) ''slot_payload_size'' (unat (to_slot_payload_size g)) of
        Inl st \<Rightarrow> FromStatus (invalid_settings e st)
      | Inr size1 \<Rightarrow>
          (case GetParameter (ConvertParameter_unsigned 64) (en_parameters e) ''slot_count'' (unat (to_slot_count g)) of
             Inl st \<Rightarrow> FromStatus (invalid_settings e st)
           | Inr slots \<Rightarrow>
               let g1 = \<lparr>to_slot_payload_size = of_nat size1, to_slot_count = of_nat slots\<rparr>; st = TopicOptions_Validate g1 in
               if \<not> status_ok st then FromStatus (invalid_settings e st) else Inr g1))"

definition set_geometry :: "settings_entry \<Rightarrow> topic_options \<Rightarrow> shm_options \<Rightarrow> shm_options" where
  "set_geometry e g base =
     (let b1 = base\<lparr>op_topics := fold (\<lambda>topic. omap_assign topic g) (en_topics e) (op_topics base)\<rparr> in
      if en_prefix e \<noteq> [] then b1\<lparr>op_topic_prefixes := omap_assign (en_prefix e) g (op_topic_prefixes b1)\<rparr> else b1)"

definition apply_entry :: "settings_entry \<Rightarrow> bool \<times> shm_options \<Rightarrow> (bool \<times> shm_options) result" where
  "apply_entry e x =
     (let st = check_parameters e in
      if \<not> status_ok st then FromStatus (invalid_settings e st)
      else result_bind (apply_domain e x) (\<lambda>(domain_set, base).
        if \<not> has_parameter e ''slot_payload_size'' \<and> \<not> has_parameter e ''slot_count'' then Inr (domain_set, base)
        else result_bind (entry_geometry e base) (\<lambda>g. Inr (domain_set, set_geometry e g base))))"

fun apply_entries :: "settings_entry list \<Rightarrow> bool \<times> shm_options \<Rightarrow> (bool \<times> shm_options) result" where
  "apply_entries [] x = Inr x"
| "apply_entries (e # es) x = result_bind (apply_entry e x) (apply_entries es)"

definition OptionsFromProject :: "project_config \<Rightarrow> shm_options \<Rightarrow> shm_options result" where
  "OptionsFromProject p base =
     result_bind (apply_entries (settings_of p) (False, base)) (\<lambda>(_, op).
       let st = Options_Validate op in if \<not> status_ok st then FromStatus st else Inr op)"

section \<open>Endpoints\<close>

definition ReaderDepth :: "message_policy \<Rightarrow> u64" where
  "ReaderDepth policy = (if freshness policy = kLatest then 1 else of_nat (queue_depth policy))"

definition ShmTransport_ValidateEndpoint :: "shm_options \<Rightarrow> endpoint_config \<Rightarrow> status" where
  "ShmTransport_ValidateEndpoint op e =
     (let st = EndpointConfig_Validate e; policy = ts_message_policy (ep_topic e);
          topic_options = ForTopic op (str (ts_name (ep_topic e))) in
      if \<not> status_ok st then st
      else if ts_transport (ep_topic e) \<noteq> kIpc
      then Status_InvalidArgument ''shm transport requires topic transport kind to be ipc''
      else if freshness policy = kQueued \<and> retention policy = kKeepAll
      then Status_Unsupported ''shm transport cannot keep all messages in a fixed ring''
      else if overflow policy \<noteq> kDropOldest then Status_Unsupported ''shm transport supports only drop-oldest overflow''
      else if to_slot_count topic_options < ReaderDepth policy
      then Status_InvalidArgument (''shm queue_depth '' @ std_to_string (queue_depth policy) @ '' exceeds slot_count ''
        @ std_to_string (unat (to_slot_count topic_options)) @ '' for topic '' @ str (ts_name (ep_topic e)))
      else Status_Ok)"

text \<open>
  The topics of one transport. A topic object is alive while an endpoint holds it; \<open>open_segment\<close> is what opening (or, with its
  flag, creating) the segment and attaching to it answers, and \<open>fresh\<close> the number of a new topic object.
\<close>

record shm_topic =
  st_alive :: bool
  st_lifetime :: topic_lifetime
  st_descriptor :: message_descriptor
  st_retired :: bool
  st_closed :: bool

record shm_transport =
  sn_open :: bool
  sn_topics :: "(string, nat) omap"
  sn_objects :: "nat \<Rightarrow> shm_topic"

definition shm_gone :: "shm_topic \<Rightarrow> bool" where
  "shm_gone t \<longleftrightarrow> st_lifetime t = kReaderOwned \<and> st_retired t"

definition ShmTransport_Open :: "shm_options \<Rightarrow> shm_transport \<Rightarrow> status \<times> shm_transport" where
  "ShmTransport_Open op s =
     (let st = Options_Validate op in if \<not> status_ok st then (st, s) else (Status_Ok, s\<lparr>sn_open := True\<rparr>))"

definition ShmTransport_Close :: "shm_transport \<Rightarrow> status \<times> shm_transport" where
  "ShmTransport_Close s =
     (Status_Ok, s\<lparr>sn_open := False, sn_topics := [],
        sn_objects := (\<lambda>h. if h \<in> snd ` set (sn_topics s) \<and> st_alive (sn_objects s h)
                           then (sn_objects s h)\<lparr>st_closed := True\<rparr> else sn_objects s h)\<rparr>)"

definition open_new_topic :: "(bool \<Rightarrow> status) \<Rightarrow> nat \<Rightarrow> endpoint_config \<Rightarrow> bool \<Rightarrow> shm_transport \<Rightarrow> nat result \<times> shm_transport" where
  "open_new_topic open_segment fresh e writer s =
     (let st = open_segment (\<not> (writer \<and> ts_lifetime (ep_topic e) = kReaderOwned)) in
      if \<not> status_ok st then (FromStatus st, s)
      else (Inr fresh, s\<lparr>sn_topics := omap_emplace (str (ts_name (ep_topic e))) fresh (sn_topics s),
        sn_objects := (sn_objects s)(fresh := \<lparr>st_alive = True, st_lifetime = ts_lifetime (ep_topic e), st_descriptor = ep_message e,
          st_retired = False, st_closed = False\<rparr>)\<rparr>))"

definition GetOrOpenTopic :: "(bool \<Rightarrow> status) \<Rightarrow> nat \<Rightarrow> endpoint_config \<Rightarrow> bool \<Rightarrow> shm_transport \<Rightarrow> nat result \<times> shm_transport" where
  "GetOrOpenTopic open_segment fresh e writer s =
     (if \<not> sn_open s
      then (FromStatus (Status_FailedPrecondition (''shm transport must be open before creating ''
              @ (if writer then ''writers'' else ''readers''))), s)
      else
        let s1 = s\<lparr>sn_topics := filter (\<lambda>x. st_alive (sn_objects s (snd x))) (sn_topics s)\<rparr>; key = str (ts_name (ep_topic e)) in
        case omap_find (sn_topics s1) key of
          None \<Rightarrow> open_new_topic open_segment fresh e writer s1
        | Some h \<Rightarrow>
            let t = sn_objects s1 h in
            if st_lifetime t \<noteq> ts_lifetime (ep_topic e)
            then (FromStatus (Status_InvalidArgument (''shm topic '' @ key @ '' is '' @ TopicLifetime_ToString (st_lifetime t)
                    @ '' in this process, not '' @ TopicLifetime_ToString (ts_lifetime (ep_topic e)))), s1)
            else if st_descriptor t \<noteq> ep_message e
            then (FromStatus (Status_InvalidArgument (''shm topic '' @ key @ '' carries '' @ MessageDescriptor_ToString (st_descriptor t)
                    @ '', not '' @ MessageDescriptor_ToString (ep_message e))), s1)
            else if \<not> shm_gone t then (Inr h, s1)
            else open_new_topic open_segment fresh e writer (s1\<lparr>sn_topics := omap_erase key (sn_topics s1)\<rparr>))"

definition ShmTransport_CreateWriter :: "shm_options \<Rightarrow> (bool \<Rightarrow> status) \<Rightarrow> nat \<Rightarrow> endpoint_config \<Rightarrow> shm_transport
    \<Rightarrow> nat result \<times> shm_transport" where
  "ShmTransport_CreateWriter op open_segment fresh e s =
     (let st = ShmTransport_ValidateEndpoint op e in
      if \<not> status_ok st then (FromStatus st, s) else GetOrOpenTopic open_segment fresh e True s)"

section \<open>Segments on this host\<close>

datatype inspection_state = InspValid | InspUninitialized | InspIncompatible

record segment_inspection =
  in_state :: inspection_state
  in_problem :: string
  in_size :: u64
  in_topic :: string
  in_descriptor :: message_descriptor
  in_geometry :: segment_geometry
  in_write_sequence :: u64
  in_participants :: "process_identity list"

datatype segment_use = SegInUse | SegUnused | SegUninitialized | SegIncompatible

fun SegmentUse_ToString :: "segment_use \<Rightarrow> string" where
  "SegmentUse_ToString SegInUse = ''in_use''"
| "SegmentUse_ToString SegUnused = ''unused''"
| "SegmentUse_ToString SegUninitialized = ''uninitialized''"
| "SegmentUse_ToString SegIncompatible = ''incompatible''"

record segment_info =
  gi_object_name :: string
  gi_domain_id :: u32
  gi_state :: segment_use
  gi_problem :: string
  gi_size_bytes :: u64
  gi_topic :: string
  gi_descriptor :: message_descriptor
  gi_geometry :: topic_options
  gi_messages_written :: u64
  gi_live_pids :: "u32 list"
  gi_dead_participants :: nat

text \<open>\<open>DomainOf\<close>: the digits between the first two dots of a name that \<open>List\<close> returns.\<close>

definition DomainOf :: "string \<Rightarrow> u32" where
  "DomainOf name = of_nat (digits_value (takeWhile (\<lambda>c. c \<noteq> CHR ''.'') (tl (dropWhile (\<lambda>c. c \<noteq> CHR ''.'') name))))"

definition empty_info :: "string \<Rightarrow> segment_inspection \<Rightarrow> segment_info" where
  "empty_info name insp = \<lparr>gi_object_name = name, gi_domain_id = DomainOf name, gi_state = SegUnused, gi_problem = in_problem insp,
     gi_size_bytes = in_size insp, gi_topic = [], gi_descriptor = \<lparr>type_name = [], encoding = [], version = 0\<rparr>,
     gi_geometry = \<lparr>to_slot_payload_size = 65536, to_slot_count = 16\<rparr>, gi_messages_written = 0, gi_live_pids = [], gi_dead_participants = 0\<rparr>"

definition Describe :: "(process_identity \<Rightarrow> bool) \<Rightarrow> string \<Rightarrow> segment_inspection \<Rightarrow> segment_info" where
  "Describe os_alive name insp =
     (case in_state insp of
        InspUninitialized \<Rightarrow> (empty_info name insp)\<lparr>gi_state := SegUninitialized\<rparr>
      | InspIncompatible \<Rightarrow> (empty_info name insp)\<lparr>gi_state := SegIncompatible\<rparr>
      | InspValid \<Rightarrow>
          let live = filter (IsProcessAlive os_alive) (in_participants insp) in
          (empty_info name insp)\<lparr>gi_topic := in_topic insp, gi_descriptor := in_descriptor insp,
            gi_geometry := \<lparr>to_slot_payload_size = sg_payload_size (in_geometry insp), to_slot_count = sg_slot_count (in_geometry insp)\<rparr>,
            gi_messages_written := in_write_sequence insp, gi_live_pids := map pi_pid live,
            gi_dead_participants := length (in_participants insp) - length live,
            gi_state := (if map pi_pid live = [] then SegUnused else SegInUse)\<rparr>)"

fun describe_all :: "(process_identity \<Rightarrow> bool) \<Rightarrow> (string \<Rightarrow> segment_inspection result) \<Rightarrow> string list \<Rightarrow> segment_info list result" where
  "describe_all os_alive inspect [] = Inr []"
| "describe_all os_alive inspect (name # names) =
     (case inspect name of
        Inl st \<Rightarrow>
          if st_code st = kNotFound then describe_all os_alive inspect names
          else FromStatus (Status_Error (st_code st) (name @ '': '' @ st_message st))
      | Inr insp \<Rightarrow> result_bind (describe_all os_alive inspect names) (\<lambda>infos. Inr (Describe os_alive name insp # infos)))"

definition ListSegments :: "(process_identity \<Rightarrow> bool) \<Rightarrow> (string \<Rightarrow> segment_inspection result) \<Rightarrow> string list result \<Rightarrow> segment_info list result" where
  "ListSegments os_alive inspect names = result_bind names (describe_all os_alive inspect)"

text \<open>The names that \<open>SharedRegion::Remove\<close> is called with come along with the result.\<close>

fun remove_all :: "(string \<Rightarrow> status) \<Rightarrow> segment_info list \<Rightarrow> segment_info list result \<times> string list" where
  "remove_all remove [] = (Inr [], [])"
| "remove_all remove (g # gs) =
     (if gi_state g = SegInUse then remove_all remove gs
      else let st = remove (gi_object_name g) in
        if \<not> status_ok st then (FromStatus (Status_Error (st_code st) (gi_object_name g @ '': '' @ st_message st)), [gi_object_name g])
        else case remove_all remove gs of
          (res, called) \<Rightarrow> (result_bind res (\<lambda>removed. Inr (g # removed)), gi_object_name g # called))"

definition RemoveUnusedSegments :: "(process_identity \<Rightarrow> bool) \<Rightarrow> (string \<Rightarrow> segment_inspection result) \<Rightarrow> (string \<Rightarrow> status)
    \<Rightarrow> string list result \<Rightarrow> segment_info list result \<times> string list" where
  "RemoveUnusedSegments os_alive inspect remove names =
     (case ListSegments os_alive inspect names of
        Inl st \<Rightarrow> (FromStatus st, [])
      | Inr gs \<Rightarrow> remove_all remove gs)"

section \<open>The dispatcher\<close>

text \<open>
  A topic in one process. Writers, here and elsewhere, commit a message (the write sequence grows) and then bump the
  notification word; \<open>tp_unnotified\<close> counts those in between, \<open>tp_notified\<close> all bumps, so that the word is its value modulo
  \<open>2 ^ 32\<close>. Readers are numbered; those in \<open>tp_readers\<close> are attached. The dispatcher is at one of the points of its loop.
\<close>

record reader_state =
  rs_cursor :: nat
  rs_depth :: nat
  rs_notified_up_to :: nat
  rs_generation :: nat
  rs_callbacks :: nat
  rs_callback :: bool
  rs_closed :: bool
  rs_waiting :: "nat option"

datatype dispatch_pc =
    AtLoad
  | AtLook nat
  | AtFanout nat nat "nat list"
  | AtWait nat

record topic_state =
  tp_write_seq :: nat
  tp_unnotified :: nat
  tp_notified :: nat
  tp_last_seen :: nat
  tp_dispatcher :: dispatch_pc
  tp_readers :: "nat list"
  tp_states :: "nat \<Rightarrow> reader_state"

definition notify_word :: "nat \<Rightarrow> u32" where
  "notify_word n = of_nat n"

text \<open>What \<open>Fanout\<close> does with one reader.\<close>

definition fanout_reader :: "nat \<Rightarrow> reader_state \<Rightarrow> reader_state" where
  "fanout_reader newest r =
     (if rs_closed r \<or> newest \<le> rs_notified_up_to r then r
      else r\<lparr>rs_callbacks := rs_callbacks r + (if rs_callback r then min (newest - rs_notified_up_to r) (rs_depth r) else 0),
             rs_notified_up_to := newest, rs_generation := rs_generation r + 1\<rparr>)"

definition upd_reader :: "nat \<Rightarrow> (reader_state \<Rightarrow> reader_state) \<Rightarrow> topic_state \<Rightarrow> topic_state" where
  "upd_reader i f t = t\<lparr>tp_states := (tp_states t)(i := f (tp_states t i))\<rparr>"

definition new_reader_state :: "nat \<Rightarrow> nat \<Rightarrow> reader_state" where
  "new_reader_state newest depth = \<lparr>rs_cursor = newest + 1, rs_depth = depth, rs_notified_up_to = newest, rs_generation = 0,
     rs_callbacks = 0, rs_callback = False, rs_closed = False, rs_waiting = None\<rparr>"

text \<open>
  A blocked read looks at the segment and its generation under the reader's mutex and releases it only by waiting, so
  that is one step (\<open>block\<close>); it goes on (\<open>wake\<close>) when the generation has changed, the reader is closed or its time is over.
  A new reader takes the write sequence (\<open>newest\<close>) some time before it is attached.
\<close>

inductive dispatch_step :: "topic_state \<Rightarrow> topic_state \<Rightarrow> bool" where
  publish: "dispatch_step t (t\<lparr>tp_write_seq := tp_write_seq t + 1, tp_unnotified := tp_unnotified t + 1\<rparr>)"
| notify: "0 < tp_unnotified t \<Longrightarrow>
    dispatch_step t (t\<lparr>tp_unnotified := tp_unnotified t - 1, tp_notified := tp_notified t + 1\<rparr>)"
| load: "tp_dispatcher t = AtLoad \<Longrightarrow> dispatch_step t (t\<lparr>tp_dispatcher := AtLook (tp_notified t)\<rparr>)"
| look_new: "tp_dispatcher t = AtLook n \<Longrightarrow> tp_write_seq t \<noteq> tp_last_seen t \<Longrightarrow>
    dispatch_step t (t\<lparr>tp_last_seen := tp_write_seq t, tp_dispatcher := AtFanout n (tp_write_seq t) (tp_readers t)\<rparr>)"
| look_same: "tp_dispatcher t = AtLook n \<Longrightarrow> tp_write_seq t = tp_last_seen t \<Longrightarrow>
    dispatch_step t (t\<lparr>tp_dispatcher := AtWait n\<rparr>)"
| fanout: "tp_dispatcher t = AtFanout n newest (i # is) \<Longrightarrow>
    dispatch_step t (upd_reader i (fanout_reader newest) (t\<lparr>tp_dispatcher := AtFanout n newest is\<rparr>))"
| fanned_out: "tp_dispatcher t = AtFanout n newest [] \<Longrightarrow> dispatch_step t (t\<lparr>tp_dispatcher := AtWait n\<rparr>)"
| wait_over: "tp_dispatcher t = AtWait n \<Longrightarrow> dispatch_step t (t\<lparr>tp_dispatcher := AtLoad\<rparr>)"
| attach: "i \<notin> set (tp_readers t) \<Longrightarrow> (\<forall>n newest is. tp_dispatcher t = AtFanout n newest is \<longrightarrow> i \<notin> set is) \<Longrightarrow> newest \<le> tp_write_seq t \<Longrightarrow>
    dispatch_step t (upd_reader i (\<lambda>_. new_reader_state newest depth) (t\<lparr>tp_readers := tp_readers t @ [i]\<rparr>))"
| detach: "dispatch_step t (upd_reader i (\<lambda>r. r\<lparr>rs_closed := True, rs_callback := False\<rparr>) (t\<lparr>tp_readers := removeAll i (tp_readers t)\<rparr>))"
| set_callback: "\<not> rs_closed (tp_states t i) \<Longrightarrow> dispatch_step t (upd_reader i (\<lambda>r. r\<lparr>rs_callback := present\<rparr>) t)"
| read: "rs_waiting (tp_states t i) = None \<Longrightarrow> rs_cursor (tp_states t i) < cursor \<Longrightarrow> cursor \<le> tp_write_seq t + 1 \<Longrightarrow>
    dispatch_step t (upd_reader i (\<lambda>r. r\<lparr>rs_cursor := cursor\<rparr>) t)"
| block: "i \<in> set (tp_readers t) \<Longrightarrow> \<not> rs_closed (tp_states t i) \<Longrightarrow> rs_waiting (tp_states t i) = None \<Longrightarrow>
    tp_write_seq t < rs_cursor (tp_states t i) \<Longrightarrow>
    dispatch_step t (upd_reader i (\<lambda>r. r\<lparr>rs_waiting := Some (rs_generation r)\<rparr>) t)"
| wake: "dispatch_step t (upd_reader i (\<lambda>r. r\<lparr>rs_waiting := None\<rparr>) t)"

text \<open>The dispatcher is blocked in \<open>Notifier::Wait\<close>: the word is the one it loaded.\<close>

definition dispatcher_blocked :: "topic_state \<Rightarrow> bool" where
  "dispatcher_blocked t = (case tp_dispatcher t of AtWait n \<Rightarrow> notify_word (tp_notified t) = notify_word n | _ \<Rightarrow> False)"

definition notifications_since_load :: "topic_state \<Rightarrow> nat" where
  "notifications_since_load t = (case tp_dispatcher t of AtWait n \<Rightarrow> tp_notified t - n | _ \<Rightarrow> 0)"

definition new_topic :: "nat \<Rightarrow> nat \<Rightarrow> (nat \<Rightarrow> reader_state) \<Rightarrow> topic_state" where
  "new_topic written notified states = \<lparr>tp_write_seq = written, tp_unnotified = 0, tp_notified = notified, tp_last_seen = written,
     tp_dispatcher = AtLoad, tp_readers = [], tp_states = states\<rparr>"

section \<open>The life of a topic\<close>

text \<open>
  A topic of one process from \<open>Open\<close> to \<open>Close\<close>. The retired flag is in the segment and may also be set by another process;
  \<open>tl_removals\<close> counts the removals of the segment's name by this process, \<open>tl_wakes\<close> the calls of \<open>NotifyAll\<close>. What the segment
  answers to a publication, and whether a live process is attached to it, are arguments.
\<close>

record topic_life =
  tl_reader_owned :: bool
  tl_closed :: bool
  tl_retired :: bool
  tl_retired_by_me :: bool
  tl_readers :: "nat list"
  tl_had_reader :: bool
  tl_dispatcher :: bool
  tl_participant :: bool
  tl_removals :: nat
  tl_wakes :: nat

definition open_topic :: "bool \<Rightarrow> topic_life" where
  "open_topic reader_owned = \<lparr>tl_reader_owned = reader_owned, tl_closed = False, tl_retired = False, tl_retired_by_me = False,
     tl_readers = [], tl_had_reader = False, tl_dispatcher = False, tl_participant = True, tl_removals = 0, tl_wakes = 0\<rparr>"

definition AddReader :: "nat \<Rightarrow> topic_life \<Rightarrow> status \<times> topic_life" where
  "AddReader i t =
     (if tl_closed t then (Status_Unavailable ''shm topic is closed'', t)
      else (Status_Ok, t\<lparr>tl_readers := tl_readers t @ [i], tl_had_reader := True, tl_dispatcher := True\<rparr>))"

definition RetireOnce :: "topic_life \<Rightarrow> topic_life" where
  "RetireOnce t =
     (if tl_retired_by_me t then t
      else t\<lparr>tl_retired_by_me := True, tl_retired := True, tl_wakes := tl_wakes t + 1, tl_removals := tl_removals t + 1\<rparr>)"

definition RemoveReader :: "nat \<Rightarrow> topic_life \<Rightarrow> topic_life" where
  "RemoveReader i t =
     (let t1 = t\<lparr>tl_readers := removeAll i (tl_readers t)\<rparr> in
      if tl_readers t1 = [] \<and> tl_reader_owned t then RetireOnce t1 else t1)"

definition topic_gone :: "topic_life \<Rightarrow> bool" where
  "topic_gone t \<longleftrightarrow> tl_reader_owned t \<and> tl_retired t"

definition Committed :: "u64 result \<Rightarrow> topic_life \<Rightarrow> status \<times> topic_life" where
  "Committed seq1 t =
     (case seq1 of Inl st \<Rightarrow> (st, t) | Inr _ \<Rightarrow> (Status_Ok, t\<lparr>tl_wakes := tl_wakes t + 1\<rparr>))"

definition publish_guard :: "string \<Rightarrow> topic_life \<Rightarrow> status" where
  "publish_guard name t =
     (if tl_closed t then Status_Unavailable ''shm writer is closed''
      else if topic_gone t then Status_NotFound (''shm topic in segment '' @ name @ '' was closed by its reader'')
      else Status_Ok)"

definition TopicState_Publish :: "string \<Rightarrow> status \<Rightarrow> u64 result \<Rightarrow> topic_life \<Rightarrow> status \<times> topic_life" where
  "TopicState_Publish name payload_valid seq1 t =
     (let st = and_then (publish_guard name t) payload_valid in
      if \<not> status_ok st then (st, t) else Committed seq1 t)"

definition TopicState_PublishWith :: "string \<Rightarrow> bool \<Rightarrow> u64 result \<Rightarrow> topic_life \<Rightarrow> status \<times> topic_life" where
  "TopicState_PublishWith name has_fill seq1 t =
     (let st = and_then (publish_guard name t)
            (if \<not> has_fill then Status_InvalidArgument ''fill function must not be empty'' else Status_Ok) in
      if \<not> status_ok st then (st, t) else Committed seq1 t)"

definition TopicState_Close :: "bool \<Rightarrow> topic_life \<Rightarrow> topic_life" where
  "TopicState_Close live_participant t =
     (if tl_closed t then t
      else
        let readers = tl_readers t;
            t1 = t\<lparr>tl_closed := True, tl_readers := [], tl_dispatcher := False, tl_participant := False,
                   tl_wakes := tl_wakes t + (if tl_dispatcher t then 1 else 0)\<rparr> in
        if \<not> tl_reader_owned t then t1
        else if readers \<noteq> [] \<or> tl_had_reader t then RetireOnce t1
        else if \<not> tl_retired t \<and> \<not> live_participant then t1\<lparr>tl_removals := tl_removals t1 + 1\<rparr>
        else t1)"

inductive life_of_topic :: "topic_life \<Rightarrow> topic_life \<Rightarrow> bool" where
  add: "i \<notin> set (tl_readers t) \<Longrightarrow> AddReader i t = (st, t') \<Longrightarrow> life_of_topic t t'"
| remove: "tl_had_reader t \<Longrightarrow> life_of_topic t (RemoveReader i t)"
| publish: "TopicState_Publish name valid seq1 t = (st, t') \<Longrightarrow> life_of_topic t t'"
| publish_with: "TopicState_PublishWith name has_fill seq1 t = (st, t') \<Longrightarrow> life_of_topic t t'"
| close: "life_of_topic t (TopicState_Close live t)"
| retired_elsewhere: "life_of_topic t (t\<lparr>tl_retired := True\<rparr>)"

end
