(* ===== verification/Shm_Transport_Properties.thy ===== *)
theory Shm_Transport_Properties
  imports Shm_Transport Configuration_Valid
begin

text \<open>
  A reader never sleeps on a message: the dispatcher loses no wake-up. And the options read from a project give every
  topic of a service, the reply topics of its clients included, the geometry of that service.
\<close>

section \<open>No lost wake-up\<close>

text \<open>Of an attached, open reader: what it was told was there, and what it waits for has not been passed over.\<close>

definition reader_inv :: "topic_state \<Rightarrow> nat \<Rightarrow> bool" where
  "reader_inv t i \<longleftrightarrow> rs_notified_up_to (tp_states t i) \<le> tp_write_seq t
     \<and> (\<forall>g. rs_waiting (tp_states t i) = Some g \<longrightarrow> g \<le> rs_generation (tp_states t i))
     \<and> (rs_waiting (tp_states t i) = Some (rs_generation (tp_states t i)) \<longrightarrow>
          rs_notified_up_to (tp_states t i) < rs_cursor (tp_states t i)
          \<and> (tp_last_seen t < rs_cursor (tp_states t i) \<or> (\<exists>n is. tp_dispatcher t = AtFanout n (tp_last_seen t) is \<and> i \<in> set is)))"

definition accounted :: "topic_state \<Rightarrow> nat \<Rightarrow> bool" where
  "accounted t n \<longleftrightarrow> n \<le> tp_notified t \<and> tp_write_seq t \<le> tp_last_seen t + tp_unnotified t + (tp_notified t - n)"

definition dispatcher_inv :: "topic_state \<Rightarrow> bool" where
  "dispatcher_inv t = (case tp_dispatcher t of
       AtLoad \<Rightarrow> True
     | AtLook n \<Rightarrow> n \<le> tp_notified t
     | AtFanout n newest is \<Rightarrow> newest = tp_last_seen t \<and> accounted t n
     | AtWait n \<Rightarrow> accounted t n)"

definition topic_inv :: "topic_state \<Rightarrow> bool" where
  "topic_inv t \<longleftrightarrow> tp_last_seen t \<le> tp_write_seq t \<and> dispatcher_inv t
     \<and> (\<forall>i \<in> set (tp_readers t). \<not> rs_closed (tp_states t i) \<longrightarrow> reader_inv t i)"

text \<open>Steps that change one reader only.\<close>

lemma topic_inv_upd_reader:
  assumes "topic_inv t" "i \<in> set (tp_readers t) \<Longrightarrow> \<not> rs_closed (f (tp_states t i)) \<Longrightarrow> reader_inv (upd_reader i f t) i"
  shows "topic_inv (upd_reader i f t)"
  using assms by (auto simp: topic_inv_def upd_reader_def dispatcher_inv_def accounted_def reader_inv_def split: dispatch_pc.splits)

lemma topic_inv_step: "dispatch_step t t' \<Longrightarrow> topic_inv t \<Longrightarrow> topic_inv t'"
proof (induction rule: dispatch_step.induct)
  case (publish t)
  then show ?case by (auto simp: topic_inv_def dispatcher_inv_def accounted_def reader_inv_def split: dispatch_pc.splits)
next
  case (notify t)
  then show ?case by (auto simp: topic_inv_def dispatcher_inv_def accounted_def reader_inv_def split: dispatch_pc.splits)
next
  case (load t)
  then show ?case by (auto simp: topic_inv_def dispatcher_inv_def reader_inv_def)
next
  case (look_new t n)
  then show ?case by (auto simp: topic_inv_def dispatcher_inv_def accounted_def reader_inv_def)
next
  case (look_same t n)
  then show ?case by (auto simp: topic_inv_def dispatcher_inv_def accounted_def reader_inv_def)
next
  case (fanout t n newest i "is")
  let ?t = "upd_reader i (fanout_reader newest) (t\<lparr>tp_dispatcher := AtFanout n newest is\<rparr>)"
  have d: "newest = tp_last_seen t" "accounted t n" "tp_last_seen t \<le> tp_write_seq t"
    using fanout by (simp_all add: topic_inv_def dispatcher_inv_def)
  have same: "tp_states ?t j = tp_states t j" if "j \<noteq> i" for j using that by (simp add: upd_reader_def)
  have "reader_inv ?t j" if "j \<in> set (tp_readers t)" "\<not> rs_closed (tp_states ?t j)" for j
  proof (cases "j = i")
    case True
    then have nc: "\<not> rs_closed (tp_states t i)" using that by (simp add: upd_reader_def fanout_reader_def split: if_splits)
    with True that(1) fanout.prems have "reader_inv t i" by (simp add: topic_inv_def)
    then show ?thesis
      using True nc d by (auto simp: reader_inv_def upd_reader_def fanout_reader_def)
  next
    case False
    then have "reader_inv t j" using that fanout.prems same by (simp add: topic_inv_def)
    then show ?thesis using False fanout(1) by (simp add: reader_inv_def upd_reader_def)
  qed
  moreover have "tp_last_seen ?t \<le> tp_write_seq ?t" "tp_readers ?t = tp_readers t" "dispatcher_inv ?t"
    using d by (auto simp: dispatcher_inv_def accounted_def upd_reader_def)
  ultimately show ?case unfolding topic_inv_def by simp
next
  case (fanned_out t n newest)
  then show ?case by (auto simp: topic_inv_def dispatcher_inv_def accounted_def reader_inv_def)
next
  case (wait_over t n)
  then show ?case by (auto simp: topic_inv_def dispatcher_inv_def reader_inv_def)
next
  case (attach i t newest depth)
  then have "topic_inv (t\<lparr>tp_readers := tp_readers t\<rparr>)" "\<forall>j \<in> set (tp_readers t). j \<noteq> i" by auto
  with attach show ?case
    by (auto simp: topic_inv_def dispatcher_inv_def accounted_def reader_inv_def upd_reader_def new_reader_state_def split: dispatch_pc.splits)
next
  case (detach t i)
  then show ?case
    by (auto simp: topic_inv_def dispatcher_inv_def accounted_def reader_inv_def upd_reader_def split: dispatch_pc.splits)
next
  case (set_callback t i present)
  then show ?case
    by (intro topic_inv_upd_reader) (auto simp: topic_inv_def reader_inv_def upd_reader_def)
next
  case (read t i cursor)
  then show ?case
    by (intro topic_inv_upd_reader) (auto simp: topic_inv_def reader_inv_def upd_reader_def)
next
  case (block i t)
  then show ?case
    by (intro topic_inv_upd_reader) (auto simp: topic_inv_def reader_inv_def upd_reader_def)
next
  case (wake t i)
  then show ?case
    by (intro topic_inv_upd_reader) (auto simp: topic_inv_def reader_inv_def upd_reader_def)
qed

interpretation dispatch: transition_system "\<lambda>t. \<exists>w n states. t = new_topic w n states" dispatch_step topic_inv
proof
  show "topic_inv t" if "\<exists>w n states. t = new_topic w n states" for t
    using that by (auto simp: new_topic_def topic_inv_def dispatcher_inv_def)
qed (rule topic_inv_step)

lemma notify_word_eq:
  assumes "n \<le> m" "m - n < 2 ^ 32" "notify_word m = notify_word n"
  shows "m = n"
proof -
  have "m mod 2 ^ 32 = n mod 2 ^ 32" using assms(3) by (simp add: notify_word_def of_nat_eq_iff word_of_nat_eq_iff take_bit_eq_mod)
  then have "(m - n) mod 2 ^ 32 = 0" using assms(1) by (metis mod_eq_dvd_iff_nat mod_0_imp_dvd dvd_imp_mod_0)
  then show ?thesis using assms(1,2) by simp
qed

text \<open>
  C39. The dispatcher loses no wake-up. Whatever writers in any process, readers and the dispatcher do, whenever the
  dispatcher is blocked on the notification word, no writer is between committing a message and notifying, and
  fewer than \<open>2 ^ 32\<close> notifications have come since the word was loaded, a reader that waits has been woken (its generation
  has changed) or there is no message for it.
\<close>

theorem shm_no_lost_wakeup:
  assumes run: "dispatch_step\<^sup>*\<^sup>* (new_topic written notified states) t" and blocked: "dispatcher_blocked t"
    and quiet: "tp_unnotified t = 0" "notifications_since_load t < 2 ^ 32"
    and i: "i \<in> set (tp_readers t)" "\<not> rs_closed (tp_states t i)" "rs_waiting (tp_states t i) = Some g"
  shows "rs_generation (tp_states t i) \<noteq> g \<or> tp_write_seq t < rs_cursor (tp_states t i)"
proof (rule disjCI)
  assume "\<not> tp_write_seq t < rs_cursor (tp_states t i)"
  have inv: "topic_inv t" by (rule dispatch.inv_reachable [OF _ run]) blast
  from blocked obtain n where n: "tp_dispatcher t = AtWait n" "notify_word (tp_notified t) = notify_word n"
    by (auto simp: dispatcher_blocked_def split: dispatch_pc.splits)
  with inv have acc: "accounted t n" by (simp add: topic_inv_def dispatcher_inv_def)
  then have "tp_notified t = n"
    using notify_word_eq n quiet(2) by (simp add: accounted_def notifications_since_load_def)
  with acc quiet(1) have "tp_write_seq t \<le> tp_last_seen t" by (simp add: accounted_def)
  moreover have "reader_inv t i" using inv i by (simp add: topic_inv_def)
  ultimately show "rs_generation (tp_states t i) \<noteq> g"
    using i(3) n(1) \<open>\<not> tp_write_seq t < rs_cursor (tp_states t i)\<close> by (auto simp: reader_inv_def)
qed

text \<open>A reader blocks, a message is published, and the dispatcher announces it.\<close>

definition ex_topic :: "dispatch_pc \<Rightarrow> nat \<Rightarrow> nat \<Rightarrow> nat \<Rightarrow> nat \<Rightarrow> nat list \<Rightarrow> reader_state \<Rightarrow> topic_state" where
  "ex_topic pc written unnotified notified seen readers r = \<lparr>tp_write_seq = written, tp_unnotified = unnotified, tp_notified = notified,
     tp_last_seen = seen, tp_dispatcher = pc, tp_readers = readers, tp_states = (\<lambda>_. new_reader_state 0 1)(0 := r)\<rparr>"

definition ex_reader :: "nat option \<Rightarrow> nat \<Rightarrow> nat \<Rightarrow> reader_state" where
  "ex_reader waiting seen g = (new_reader_state 0 1)\<lparr>rs_waiting := waiting, rs_notified_up_to := seen, rs_generation := g\<rparr>"

lemma ex_dispatch_run:
  "dispatch_step\<^sup>*\<^sup>* (new_topic 0 0 (\<lambda>_. new_reader_state 0 1)) (ex_topic (AtWait 1) 1 0 1 1 [0] (ex_reader (Some 0) 1 1))"
proof -
  note defs = ex_topic_def ex_reader_def new_reader_state_def upd_reader_def fanout_reader_def new_topic_def
  have "dispatch_step (new_topic 0 0 (\<lambda>_. new_reader_state 0 1)) (ex_topic AtLoad 0 0 0 0 [0] (ex_reader None 0 0))"
    using dispatch_step.attach [of 0 "new_topic 0 0 (\<lambda>_. new_reader_state 0 1)" 0 1] by (simp add: defs)
  also have "dispatch_step\<^sup>*\<^sup>* \<dots> (ex_topic AtLoad 0 0 0 0 [0] (ex_reader (Some 0) 0 0))"
    using dispatch_step.block [of 0 "ex_topic AtLoad 0 0 0 0 [0] (ex_reader None 0 0)"] by (simp add: defs r_into_rtranclp)
  also have "dispatch_step \<dots> (ex_topic AtLoad 1 1 0 0 [0] (ex_reader (Some 0) 0 0))"
    using dispatch_step.publish [of "ex_topic AtLoad 0 0 0 0 [0] (ex_reader (Some 0) 0 0)"] by (simp add: defs)
  also have "dispatch_step \<dots> (ex_topic AtLoad 1 0 1 0 [0] (ex_reader (Some 0) 0 0))"
    using dispatch_step.notify [of "ex_topic AtLoad 1 1 0 0 [0] (ex_reader (Some 0) 0 0)"] by (simp add: defs)
  also have "dispatch_step \<dots> (ex_topic (AtLook 1) 1 0 1 0 [0] (ex_reader (Some 0) 0 0))"
    using dispatch_step.load [of "ex_topic AtLoad 1 0 1 0 [0] (ex_reader (Some 0) 0 0)"] by (simp add: defs)
  also have "dispatch_step \<dots> (ex_topic (AtFanout 1 1 [0]) 1 0 1 1 [0] (ex_reader (Some 0) 0 0))"
    using dispatch_step.look_new [of "ex_topic (AtLook 1) 1 0 1 0 [0] (ex_reader (Some 0) 0 0)"] by (simp add: defs)
  also have "dispatch_step \<dots> (ex_topic (AtFanout 1 1 []) 1 0 1 1 [0] (ex_reader (Some 0) 1 1))"
    using dispatch_step.fanout [of "ex_topic (AtFanout 1 1 [0]) 1 0 1 1 [0] (ex_reader (Some 0) 0 0)"] by (simp add: defs)
  also have "dispatch_step \<dots> (ex_topic (AtWait 1) 1 0 1 1 [0] (ex_reader (Some 0) 1 1))"
    using dispatch_step.fanned_out [of "ex_topic (AtFanout 1 1 []) 1 0 1 1 [0] (ex_reader (Some 0) 1 1)"] by (simp add: defs)
  finally show ?thesis .
qed

theorem shm_no_lost_wakeup_witness:
  "let t = ex_topic (AtWait 1) 1 0 1 1 [0] (ex_reader (Some 0) 1 1) in
     dispatcher_blocked t \<and> (rs_generation (tp_states t 0) \<noteq> 0 \<or> tp_write_seq t < rs_cursor (tp_states t 0))"
proof -
  let ?t = "ex_topic (AtWait 1) 1 0 1 1 [0] (ex_reader (Some 0) 1 1)"
  have b: "dispatcher_blocked ?t" "tp_unnotified ?t = 0" "notifications_since_load ?t < 2 ^ 32" "0 \<in> set (tp_readers ?t)"
    "\<not> rs_closed (tp_states ?t 0)" "rs_waiting (tp_states ?t 0) = Some 0"
    by (simp_all add: ex_topic_def dispatcher_blocked_def notifications_since_load_def ex_reader_def new_reader_state_def)
  from shm_no_lost_wakeup [OF ex_dispatch_run b] b(1) show ?thesis unfolding Let_def by blast
qed

section \<open>Geometry of topics\<close>

text \<open>Without an entry of its own, a topic takes the options of its longest configured prefix.\<close>

lemma better_prefix_fold:
  "(let (g, n) = fold (better_prefix topic) ps best in
     ((g, n) = best \<or> (\<exists>e \<in> set ps. g = snd e \<and> n = length (fst e) \<and> take n topic = fst e))
     \<and> snd best \<le> n \<and> (\<forall>e \<in> set ps. take (length (fst e)) topic = fst e \<longrightarrow> length (fst e) \<le> n))"
proof (induction ps arbitrary: best)
  case Nil
  then show ?case by (simp add: split_beta)
next
  case (Cons e ps)
  show ?case
  proof (cases "snd best < length (fst e) \<and> take (length (fst e)) topic = fst e")
    case True
    then have "better_prefix topic e best = (snd e, length (fst e))" by (simp add: better_prefix_def)
    with Cons.IH [of "(snd e, length (fst e))"] True show ?thesis by (auto simp: Let_def split_beta)
  next
    case False
    then have "better_prefix topic e best = best" unfolding better_prefix_def by (rule if_not_P)
    with Cons.IH [of best] False show ?thesis by (auto simp: Let_def split_beta)
  qed
qed

text \<open>What the settings of an entry say about a geometry.\<close>

definition follows_settings :: "parameter_map \<Rightarrow> topic_options \<Rightarrow> bool" where
  "follows_settings ps g \<longleftrightarrow> status_ok (TopicOptions_Validate g)
     \<and> (\<forall>x. omap_find ps ''slot_payload_size'' = Some x \<longrightarrow>
          ConvertParameter_unsigned 64 ''slot_payload_size'' x = Inr (unat (to_slot_payload_size g)))
     \<and> (\<forall>x. omap_find ps ''slot_count'' = Some x \<longrightarrow> ConvertParameter_unsigned 64 ''slot_count'' x = Inr (unat (to_slot_count g)))"

lemma unsigned_parameter_word: "ConvertParameter_unsigned 64 key x = Inr n \<Longrightarrow> unat (of_nat n :: u64) = n"
  using ConvertParameter_unsigned_range [of 64 key x n] by (simp add: unat_of_nat)

lemma entry_geometry_Inr:
  assumes "entry_geometry e base = Inr g"
  shows "follows_settings (en_parameters e) g"
proof -
  let ?size = "GetParameter (ConvertParameter_unsigned 64) (en_parameters e) ''slot_payload_size''
    (unat (to_slot_payload_size (ForTopic base (hd (en_topics e)))))"
  let ?count = "GetParameter (ConvertParameter_unsigned 64) (en_parameters e) ''slot_count''
    (unat (to_slot_count (ForTopic base (hd (en_topics e)))))"
  obtain m n where p: "?size = Inr m" "?count = Inr n" "g = \<lparr>to_slot_payload_size = of_nat m, to_slot_count = of_nat n\<rparr>"
      "status_ok (TopicOptions_Validate g)"
    using assms by (auto simp: entry_geometry_def Let_def split: sum.splits if_splits)
  have "ConvertParameter_unsigned 64 ''slot_payload_size'' x = Inr (unat (to_slot_payload_size g))"
    if "omap_find (en_parameters e) ''slot_payload_size'' = Some x" for x
    using p(1) that unsigned_parameter_word by (auto simp: GetParameter_def p(3))
  moreover have "ConvertParameter_unsigned 64 ''slot_count'' x = Inr (unat (to_slot_count g))"
    if "omap_find (en_parameters e) ''slot_count'' = Some x" for x
    using p(2) that unsigned_parameter_word by (auto simp: GetParameter_def p(3))
  ultimately show ?thesis using p(4) by (simp add: follows_settings_def)
qed

lemma apply_domain_same: "apply_domain e (ds, b) = Inr (ds', b') \<Longrightarrow> op_topics b' = op_topics b \<and> op_topic_prefixes b' = op_topic_prefixes b"
  by (auto simp: apply_domain_def split: sum.splits if_splits)

lemma apply_entry_cases:
  assumes "apply_entry e (ds, b) = Inr (ds', b')"
  shows "if has_parameter e ''slot_payload_size'' \<or> has_parameter e ''slot_count''
    then \<exists>g b1. follows_settings (en_parameters e) g \<and> op_topics b1 = op_topics b \<and> op_topic_prefixes b1 = op_topic_prefixes b
      \<and> b' = set_geometry e g b1
    else op_topics b' = op_topics b \<and> op_topic_prefixes b' = op_topic_prefixes b"
proof -
  define sized where "sized \<longleftrightarrow> has_parameter e ''slot_payload_size'' \<or> has_parameter e ''slot_count''"
  have chk: "status_ok (check_parameters e)"
    using assms by (cases "status_ok (check_parameters e)") (simp_all add: apply_entry_def Let_def)
  have red: "apply_entry e (ds, b) = result_bind (apply_domain e (ds, b)) (\<lambda>(ds1, b1).
      if \<not> sized then Inr (ds1, b1) else result_bind (entry_geometry e b1) (\<lambda>g. Inr (ds1, set_geometry e g b1)))"
    unfolding apply_entry_def Let_def sized_def de_Morgan_disj using chk by simp
  obtain ds1 b1 where d: "apply_domain e (ds, b) = Inr (ds1, b1)"
    using assms red by (cases "apply_domain e (ds, b)") auto
  note same = apply_domain_same [OF d]
  show ?thesis
  proof (cases sized)
    case True
    then obtain g where g: "entry_geometry e b1 = Inr g" "b' = set_geometry e g b1"
      using assms red d by (cases "entry_geometry e b1") auto
    show ?thesis unfolding sized_def [symmetric] using True g(2) same entry_geometry_Inr [OF g(1)] by auto
  next
    case False
    then have "b' = b1" using assms red d by simp
    with same False show ?thesis unfolding sized_def [symmetric] by simp
  qed
qed

lemma omap_fold_assign:
  "omap_ok m \<Longrightarrow> omap_ok (fold (\<lambda>k. omap_assign k v) ks m)
     \<and> omap_find (fold (\<lambda>k. omap_assign k v) ks m) k' = (if k' \<in> set ks then Some v else omap_find m k')"
  by (induction ks arbitrary: m) (auto simp: omap_ok_assign omap_find_assign)

definition options_ok :: "shm_options \<Rightarrow> bool" where
  "options_ok b \<longleftrightarrow> omap_ok (op_topics b) \<and> omap_ok (op_topic_prefixes b)"

lemma set_geometry_finds:
  assumes "options_ok b"
  shows "options_ok (set_geometry e g b)"
    "omap_find (op_topics (set_geometry e g b)) t = (if t \<in> set (en_topics e) then Some g else omap_find (op_topics b) t)"
    "omap_find (op_topic_prefixes (set_geometry e g b)) q
       = (if q = en_prefix e \<and> q \<noteq> [] then Some g else omap_find (op_topic_prefixes b) q)"
  using assms omap_fold_assign [of "op_topics b" g "en_topics e"]
  by (auto simp: options_ok_def set_geometry_def Let_def omap_ok_assign omap_find_assign)

text \<open>Later entries leave alone what they do not name.\<close>

lemma apply_entries_keeps:
  assumes "apply_entries es (ds, b) = Inr (ds', b')" "options_ok b"
  shows "options_ok b' \<and> (\<forall>t. (\<forall>e \<in> set es. t \<notin> set (en_topics e)) \<longrightarrow> omap_find (op_topics b') t = omap_find (op_topics b) t)
    \<and> (\<forall>q. (\<forall>e \<in> set es. q \<noteq> en_prefix e) \<longrightarrow> omap_find (op_topic_prefixes b') q = omap_find (op_topic_prefixes b) q)"
  using assms
proof (induction es arbitrary: ds b)
  case Nil
  then show ?case by simp
next
  case (Cons e es)
  obtain ds1 b1 where one: "apply_entry e (ds, b) = Inr (ds1, b1)" and rest: "apply_entries es (ds1, b1) = Inr (ds', b')"
    using Cons.prems(1) by (cases "apply_entry e (ds, b)") auto
  have step: "options_ok b1 \<and> (\<forall>t. t \<notin> set (en_topics e) \<longrightarrow> omap_find (op_topics b1) t = omap_find (op_topics b) t)
      \<and> (\<forall>q. q \<noteq> en_prefix e \<longrightarrow> omap_find (op_topic_prefixes b1) q = omap_find (op_topic_prefixes b) q)"
  proof (cases "has_parameter e ''slot_payload_size'' \<or> has_parameter e ''slot_count''")
    case True
    with apply_entry_cases [OF one] obtain g b0 where b0: "op_topics b0 = op_topics b" "op_topic_prefixes b0 = op_topic_prefixes b"
      "b1 = set_geometry e g b0" by auto
    then have "options_ok b0" using Cons.prems(2) by (simp add: options_ok_def)
    from set_geometry_finds [OF this, of e g] show ?thesis by (simp add: b0)
  next
    case False
    with apply_entry_cases [OF one] Cons.prems(2) show ?thesis by (simp add: options_ok_def)
  qed
  from Cons.IH [OF rest conjunct1 [OF step]] step show ?case by simp
qed

lemma apply_entries_append:
  "apply_entries (xs @ ys) x = result_bind (apply_entries xs x) (apply_entries ys)"
  by (induction xs arbitrary: x) (auto split: sum.splits simp: result_bind_def)

text \<open>Every prefix belongs to the reply topics of some service.\<close>

definition reply_prefixes :: "shm_options \<Rightarrow> bool" where
  "reply_prefixes b \<longleftrightarrow> (\<forall>q \<in> dom (omap_find (op_topic_prefixes b)). \<exists>s. q = s @ ''/reply/'')"

lemma apply_entries_prefixes:
  assumes "apply_entries es (ds, b) = Inr (ds', b')" "options_ok b" "reply_prefixes b"
    "\<forall>e \<in> set es. en_prefix e = [] \<or> (\<exists>s. en_prefix e = s @ ''/reply/'')"
  shows "reply_prefixes b'"
  using assms
proof (induction es arbitrary: ds b)
  case Nil
  then show ?case by simp
next
  case (Cons e es)
  obtain ds1 b1 where one: "apply_entry e (ds, b) = Inr (ds1, b1)" and rest: "apply_entries es (ds1, b1) = Inr (ds', b')"
    using Cons.prems(1) by (cases "apply_entry e (ds, b)") auto
  have "apply_entries [e] (ds, b) = Inr (ds1, b1)" using one by simp
  then have ok: "options_ok b1" using apply_entries_keeps [OF _ Cons.prems(2)] by blast
  have "reply_prefixes b1"
  proof (cases "has_parameter e ''slot_payload_size'' \<or> has_parameter e ''slot_count''")
    case True
    with apply_entry_cases [OF one] obtain g b0 where b0: "op_topics b0 = op_topics b" "op_topic_prefixes b0 = op_topic_prefixes b"
      "b1 = set_geometry e g b0" by auto
    then have "options_ok b0" using Cons.prems(2) by (simp add: options_ok_def)
    from set_geometry_finds(3) [OF this, of e g] show ?thesis
      using Cons.prems(3,4) by (auto simp: reply_prefixes_def b0 dom_def split: if_splits)
  next
    case False
    with apply_entry_cases [OF one] Cons.prems(3) show ?thesis by (simp add: reply_prefixes_def)
  qed
  with Cons.IH [OF rest ok] Cons.prems(4) show ?case by simp
qed

lemma settings_prefix: "e \<in> set (settings_of p) \<Longrightarrow> en_prefix e = [] \<or> (\<exists>s. en_prefix e = s @ ''/reply/'')"
  by (auto simp: settings_of_def topic_settings_def service_settings_def split: if_splits)

text \<open>A prefix that ends in a slash and fits a name is not longer than the last slash allows.\<close>

lemma slash_prefix:
  assumes "take (length (x @ ''/'')) (y @ ''/'' @ c) = x @ ''/''" "CHR ''/'' \<notin> set c"
  shows "length (x @ ''/'') \<le> length (y @ ''/'')"
proof (rule ccontr)
  assume long: "\<not> length (x @ ''/'') \<le> length (y @ ''/'')"
  let ?n = "length x"
  have len: "length (x @ ''/'') \<le> length (y @ ''/'' @ c)"
    using assms(1) by (metis length_take min.cobounded1)
  have "(y @ ''/'' @ c) ! ?n = (x @ ''/'') ! ?n" using assms(1) by (metis length_append_singleton lessI nth_take)
  then have "(y @ ''/'' @ c) ! ?n = CHR ''/''" by (simp add: nth_append)
  moreover have "(y @ ''/'' @ c) ! ?n = c ! (?n - length (y @ ''/''))" using long by (simp add: nth_append)
  moreover have "?n - length (y @ ''/'') < length c" using long len by simp
  ultimately show False using assms(2) by (metis nth_mem)
qed

lemma ForTopic_reply:
  assumes ok: "options_ok op" "reply_prefixes op" and g: "omap_find (op_topic_prefixes op) (s @ ''/reply/'') = Some g"
    and none: "omap_find (op_topics op) (s @ ''/reply/'' @ c) = None" and c: "CHR ''/'' \<notin> set c"
  shows "ForTopic op (s @ ''/reply/'' @ c) = g"
proof -
  define t where "t = s @ ''/reply/'' @ c"
  let ?p = "s @ ''/reply/''"
  obtain h n where r: "fold (better_prefix t) (op_topic_prefixes op) (op_default_topic op, 0) = (h, n)"
    by (cases "fold (better_prefix t) (op_topic_prefixes op) (op_default_topic op, 0)")
  have best: "(h, n) = (op_default_topic op, 0) \<or> (\<exists>e \<in> set (op_topic_prefixes op). h = snd e \<and> n = length (fst e) \<and> take n t = fst e)"
    "\<forall>e \<in> set (op_topic_prefixes op). take (length (fst e)) t = fst e \<longrightarrow> length (fst e) \<le> n"
    using better_prefix_fold [of t "op_topic_prefixes op" "(op_default_topic op, 0)"] by (simp_all add: r)
  have "take (length ?p) t = ?p" by (simp add: t_def)
  then have n: "length ?p \<le> n" using best(2) omap_find_in [OF g] by (metis fst_conv)
  then obtain e where e: "e \<in> set (op_topic_prefixes op)" "h = snd e" "n = length (fst e)" "take n t = fst e" using best(1) by auto
  have find: "omap_find (op_topic_prefixes op) (fst e) = Some (snd e)"
    using omap_in_find ok(1) e(1) by (metis options_ok_def prod.collapse)
  then obtain s' where s': "fst e = s' @ ''/reply/''" using ok(2) by (auto simp: reply_prefixes_def dom_def)
  have "length ((s' @ ''/reply'') @ ''/'') \<le> length ((s @ ''/reply'') @ ''/'')"
    by (rule slash_prefix [OF _ c]) (use e(3,4) s' in \<open>simp add: t_def\<close>)
  with n e(3) s' have "n = length ?p" by simp
  with e(4) have "fst e = ?p" by (simp add: t_def)
  with find g have "h = g" using e(2) by simp
  with none r show ?thesis unfolding t_def [symmetric] by (simp add: ForTopic_def)
qed

text \<open>The entry of a service, and what comes after it.\<close>

lemma service_entry_split:
  assumes "v \<in> set (pj_services p)" "vc_transport v = kIpc" "vc_transport_parameters v \<noteq> []" "distinct (map vc_id (pj_services p))"
  shows "\<exists>xs e ys. settings_of p = xs @ e # ys \<and> service_settings v = [e]
    \<and> (\<forall>e' \<in> set ys. \<exists>w \<in> set (pj_services p). vc_id w \<noteq> vc_id v \<and> service_settings w = [e'])"
proof -
  obtain vs1 vs2 where vs: "pj_services p = vs1 @ v # vs2" using assms(1) by (meson split_list)
  obtain e where e: "service_settings v = [e]" using assms(2,3) by (simp add: service_settings_def)
  have later: "\<exists>w \<in> set (pj_services p). vc_id w \<noteq> vc_id v \<and> service_settings w = [e']"
    if e': "e' \<in> set (concat (map service_settings vs2))" for e'
  proof -
    from e' obtain w where w: "w \<in> set vs2" "e' \<in> set (service_settings w)" by auto
    then have "service_settings w = [e']" by (auto simp: service_settings_def split: if_splits)
    moreover have "vc_id w \<noteq> vc_id v" using assms(4) w(1) by (auto simp: vs) (metis imageI)
    ultimately show ?thesis using w(1) vs by auto
  qed
  show ?thesis
    by (rule exI [of _ "concat (map topic_settings (pj_topics p)) @ concat (map service_settings vs1)"], rule exI [of _ e],
        rule exI [of _ "concat (map service_settings vs2)"]) (use e later in \<open>simp add: settings_of_def vs\<close>)
qed

lemma service_entry:
  "service_settings v = [e] \<Longrightarrow> set (en_topics e) = wire_topics v \<and> en_prefix e = vc_name v @ ''/reply/'' \<and> en_parameters e = vc_transport_parameters v"
  by (auto simp: service_settings_def wire_topics_def split: if_splits)

lemma sized_entry: "has_parameter e ''slot_payload_size'' \<or> has_parameter e ''slot_count'' \<Longrightarrow> en_parameters e \<noteq> []"
  by (auto simp: has_parameter_def)

lemma OptionsFromProject_service:
  assumes services: "status_ok (ValidateServices p)" and base: "options_ok base" "op_topic_prefixes base = []"
    and op: "OptionsFromProject p base = Inr op" and v: "v \<in> set (pj_services p)" and e: "service_settings v = [e]"
    and sized: "has_parameter e ''slot_payload_size'' \<or> has_parameter e ''slot_count''"
  shows "options_ok op \<and> reply_prefixes op \<and> (\<exists>g. follows_settings (vc_transport_parameters v) g
    \<and> (\<forall>t \<in> wire_topics v. omap_find (op_topics op) t = Some g) \<and> omap_find (op_topic_prefixes op) (vc_name v @ ''/reply/'') = Some g)"
proof -
  note sv = ValidateServices_ok [OF services] and ent = service_entry [OF e]
  have ipc: "vc_transport v = kIpc" "vc_transport_parameters v \<noteq> []"
    using e by (simp_all add: service_settings_def split: if_splits)
  from service_entry_split [OF v ipc sv(1)] e obtain xs ys where split: "settings_of p = xs @ e # ys"
      and ys: "\<forall>e' \<in> set ys. \<exists>w \<in> set (pj_services p). vc_id w \<noteq> vc_id v \<and> service_settings w = [e']" by auto
  obtain ds where all: "apply_entries (settings_of p) (False, base) = Inr (ds, op)"
    using op by (auto simp: OptionsFromProject_def Let_def split: if_splits)
  then obtain ds1 b1 where b1: "apply_entries xs (False, base) = Inr (ds1, b1)" "apply_entries (e # ys) (ds1, b1) = Inr (ds, op)"
    unfolding split apply_entries_append by auto
  then obtain ds2 b2 where b2: "apply_entry e (ds1, b1) = Inr (ds2, b2)" "apply_entries ys (ds2, b2) = Inr (ds, op)" by auto
  have ok1: "options_ok b1" using apply_entries_keeps [OF b1(1) base(1)] by blast
  from apply_entry_cases [OF b2(1)] sized obtain g b0 where g: "follows_settings (en_parameters e) g" "op_topics b0 = op_topics b1"
      "op_topic_prefixes b0 = op_topic_prefixes b1" "b2 = set_geometry e g b0" by auto
  have ok0: "options_ok b0" using ok1 g(2,3) by (simp add: options_ok_def)
  note finds = set_geometry_finds [OF ok0, of e g, folded g(4)]
  note later = apply_entries_keeps [OF b2(2) finds(1)]
  have topics: "t \<notin> set (en_topics e')" "en_prefix e' \<noteq> en_prefix e" if "e' \<in> set ys" "t \<in> wire_topics v" for e' t
  proof -
    from ys that(1) obtain w where w: "w \<in> set (pj_services p)" "vc_id w \<noteq> vc_id v" "service_settings w = [e']" by blast
    note we = service_entry [OF w(3)]
    have dis: "wire_topics v \<inter> wire_topics w = {}" using sv(4) v w(1,2) by metis
    then show "t \<notin> set (en_topics e')" using we that(2) by blast
    from dis have "vc_name w \<noteq> vc_name v" by (auto simp: wire_topics_def)
    then show "en_prefix e' \<noteq> en_prefix e" using we ent by simp
  qed
  have "omap_find (op_topics op) t = Some g" if "t \<in> wire_topics v" for t
    using later topics [OF _ that] finds(2) [of t] ent that by auto
  moreover have "omap_find (op_topic_prefixes op) (en_prefix e) = Some g"
  proof -
    have "vc_name v @ ''/request'' \<in> wire_topics v" by (simp add: wire_topics_def)
    then have "\<forall>e' \<in> set ys. en_prefix e \<noteq> en_prefix e'" using topics(2) by metis
    then have "omap_find (op_topic_prefixes op) (en_prefix e) = omap_find (op_topic_prefixes b2) (en_prefix e)" using later by blast
    then show ?thesis using finds(3) [of "en_prefix e"] ent by simp
  qed
  moreover have "reply_prefixes op"
    by (rule apply_entries_prefixes [OF all base(1)]) (use base(2) settings_prefix in \<open>auto simp: reply_prefixes_def\<close>)
  ultimately show ?thesis using later g(1) ent by auto
qed

text \<open>
  C40. The topics of a service share its geometry. If a valid project gives a shared-memory service settings for the size
  or number of slots and the options are read from the project, then there is one valid geometry that has the
  configured values and that \<open>ForTopic\<close> returns for the request, reply and presence topics of the service and for the
  reply topic of every client (a name without a slash below the reply topic that is not configured itself).
\<close>

theorem shm_service_geometry:
  assumes "ProjectConfig_Validate p = Some st" "status_ok st" and base: "options_ok base" "op_topic_prefixes base = []"
    and op: "OptionsFromProject p base = Inr op" and v: "v \<in> set (pj_services p)" "vc_transport v = kIpc"
    and sized: "omap_find (vc_transport_parameters v) ''slot_payload_size'' \<noteq> None \<or> omap_find (vc_transport_parameters v) ''slot_count'' \<noteq> None"
  shows "\<exists>g. follows_settings (vc_transport_parameters v) g
    \<and> (\<forall>suffix \<in> {''/request'', ''/reply'', ''/presence''}. ForTopic op (vc_name v @ suffix) = g)
    \<and> (\<forall>client. CHR ''/'' \<notin> set client \<and> omap_find (op_topics op) (vc_name v @ ''/reply/'' @ client) = None \<longrightarrow>
         ForTopic op (vc_name v @ ''/reply/'' @ client) = g)"
proof -
  have "valid_project p" using assms(1,2) by (simp add: valid_project_def)
  note services = valid_project_parts(4) [OF this]
  have "vc_transport_parameters v \<noteq> []" using sized by auto
  then obtain e where e: "service_settings v = [e]" using v(2) by (simp add: service_settings_def)
  have "has_parameter e ''slot_payload_size'' \<or> has_parameter e ''slot_count''"
    using sized service_entry [OF e] by (simp add: has_parameter_def)
  from OptionsFromProject_service [OF services base op v(1) e this] obtain g where g: "options_ok op" "reply_prefixes op"
    "follows_settings (vc_transport_parameters v) g" "\<forall>t \<in> wire_topics v. omap_find (op_topics op) t = Some g"
    "omap_find (op_topic_prefixes op) (vc_name v @ ''/reply/'') = Some g" by blast
  have "ForTopic op t = g" if "t \<in> wire_topics v" for t using g(4) that by (simp add: ForTopic_def)
  then have "\<forall>suffix \<in> {''/request'', ''/reply'', ''/presence''}. ForTopic op (vc_name v @ suffix) = g" by (simp add: wire_topics_def)
  with g(3) ForTopic_reply [OF g(1,2,5)] show ?thesis by blast
qed

subsection \<open>An example\<close>

definition ex_shm_service :: service_config where
  "ex_shm_service = \<lparr>vc_id = ''s'', vc_name = ''/s'', vc_transport = kIpc, vc_request_type = ''Q'', vc_reply_type = ''R'',
     vc_encoding = ''raw'', vc_request_version = 1, vc_reply_version = 1, vc_queue_depth = 4, vc_heartbeat_interval = 100,
     vc_transport_parameters = [(''slot_count'', ''8'')]\<rparr>"

definition ex_shm_project :: project_config where
  "ex_shm_project = \<lparr>
     pj_runtime_options = \<lparr>ro_default_transport_name = NamedValue ''m'', ro_register_inmemory_transport = True,
       ro_open_registered_transports = True\<rparr>,
     pj_scheduler_options = \<lparr>so_worker_count = 1, so_priority_aging_interval = 0\<rparr>,
     pj_topics = [], pj_components = [], pj_services = [ex_shm_service]\<rparr>"

definition ex_shm_options :: shm_options where
  "ex_shm_options = \<lparr>op_domain_id = 0, op_default_topic = \<lparr>to_slot_payload_size = 65536, to_slot_count = 16\<rparr>, op_topics = [],
     op_topic_prefixes = [], op_wait_poll_interval = 50000000\<rparr>"

declare kahn.simps [code]

lemma ex_shm_valid: "ProjectConfig_Validate ex_shm_project = Some Status_Ok"
  by code_simp

lemma ex_shm_count: "ConvertParameter_unsigned 64 ''slot_count'' ''8'' = Inr 8"
proof -
  have "std_to_string 8 = ''8''" by code_simp
  with ConvertParameter_unsigned_to_string [of 64 8 "''slot_count''"] show ?thesis by simp
qed

lemma ex_shm_geometry: "status_ok (TopicOptions_Validate \<lparr>to_slot_payload_size = 65536, to_slot_count = 8\<rparr>)"
  "status_ok (TopicOptions_Validate \<lparr>to_slot_payload_size = 65536, to_slot_count = 16\<rparr>)"
  by code_simp+

lemma ex_shm_settings: "settings_of ex_shm_project = [\<lparr>en_label = ''service /s'', en_topics = [''/s/request'', ''/s/reply'', ''/s/presence''],
    en_parameters = [(''slot_count'', ''8'')], en_prefix = ''/s/reply/''\<rparr>]"
  by code_simp

lemma ex_shm_read: "result_ok (OptionsFromProject ex_shm_project ex_shm_options)"
  unfolding OptionsFromProject_def ex_shm_settings
  by (simp add: apply_entry_def check_parameters_def known_parameters_def apply_domain_def GetParameter_def has_parameter_def
      omap_find_def entry_geometry_def ForTopic_def ex_shm_options_def ex_shm_count ex_shm_geometry set_geometry_def
      Options_Validate_def check_entry_def Let_def)

theorem shm_service_geometry_witness:
  "\<exists>op. OptionsFromProject ex_shm_project ex_shm_options = Inr op \<and> to_slot_count (ForTopic op ''/s/request'') = 8"
proof -
  obtain op where op: "OptionsFromProject ex_shm_project ex_shm_options = Inr op"
    using ex_shm_read by (cases "OptionsFromProject ex_shm_project ex_shm_options") auto
  have facts: "options_ok ex_shm_options" "op_topic_prefixes ex_shm_options = []" "ex_shm_service \<in> set (pj_services ex_shm_project)"
      "vc_transport ex_shm_service = kIpc"
      "omap_find (vc_transport_parameters ex_shm_service) ''slot_payload_size'' \<noteq> None
       \<or> omap_find (vc_transport_parameters ex_shm_service) ''slot_count'' \<noteq> None"
    by (simp_all add: options_ok_def ex_shm_options_def ex_shm_project_def ex_shm_service_def omap_find_def)
  from shm_service_geometry [OF ex_shm_valid status_ok_simps(1) facts(1,2) op facts(3,4,5)] obtain g where
      g: "follows_settings (vc_transport_parameters ex_shm_service) g" "ForTopic op (vc_name ex_shm_service @ ''/request'') = g"
    by blast
  have "omap_find (vc_transport_parameters ex_shm_service) ''slot_count'' = Some ''8''" by code_simp
  then have "ConvertParameter_unsigned 64 ''slot_count'' ''8'' = Inr (unat (to_slot_count g))"
    using g(1) unfolding follows_settings_def by blast
  then have "unat (to_slot_count g) = 8" by (simp add: ex_shm_count)
  then have "to_slot_count g = 8" by (simp add: unsigned_word_eqI)
  with op g(2) show ?thesis by (simp add: ex_shm_service_def)
qed

section \<open>Topics and segments\<close>

text \<open>
  An endpoint gets a topic of its own kind: alive, not retired, with its lifetime and message type, and registered under
  its name; a writer of a reader-owned topic never creates the segment.
\<close>

lemma open_new_topic_Inr:
  assumes "open_new_topic open_segment fresh e writer s = (Inr h, s')" "omap_ok (sn_topics s)"
    "omap_find (sn_topics s) (str (ts_name (ep_topic e))) = None"
  shows "h = fresh \<and> omap_find (sn_topics s') (str (ts_name (ep_topic e))) = Some h
    \<and> sn_objects s' h = \<lparr>st_alive = True, st_lifetime = ts_lifetime (ep_topic e), st_descriptor = ep_message e, st_retired = False, st_closed = False\<rparr>
    \<and> status_ok (open_segment (\<not> (writer \<and> ts_lifetime (ep_topic e) = kReaderOwned)))"
  using assms by (auto simp: open_new_topic_def Let_def omap_find_emplace split: if_splits)

lemma endpoint_topic_matches:
  assumes "GetOrOpenTopic open_segment fresh e writer s = (Inr h, s')" "omap_ok (sn_topics s)"
  shows "sn_open s \<and> omap_find (sn_topics s') (str (ts_name (ep_topic e))) = Some h \<and> st_alive (sn_objects s' h)
    \<and> st_lifetime (sn_objects s' h) = ts_lifetime (ep_topic e) \<and> st_descriptor (sn_objects s' h) = ep_message e
    \<and> \<not> shm_gone (sn_objects s' h)"
proof -
  let ?key = "str (ts_name (ep_topic e))"
  define s1 where "s1 = s\<lparr>sn_topics := filter (\<lambda>x. st_alive (sn_objects s (snd x))) (sn_topics s)\<rparr>"
  have ok: "omap_ok (sn_topics s1)" using assms(2) by (simp add: s1_def omap_ok_filter)
  have op: "sn_open s" using assms(1) by (cases "sn_open s") (simp_all add: GetOrOpenTopic_def)
  show ?thesis
  proof (cases "omap_find (sn_topics s1) ?key")
    case None
    then have "open_new_topic open_segment fresh e writer s1 = (Inr h, s')"
      using assms(1) op by (simp add: GetOrOpenTopic_def Let_def s1_def)
    from open_new_topic_Inr [OF this ok None] op show ?thesis by (auto simp: shm_gone_def)
  next
    case (Some k)
    have alive: "st_alive (sn_objects s1 k)" using omap_find_in [OF Some] by (simp add: s1_def)
    have kind: "st_lifetime (sn_objects s1 k) = ts_lifetime (ep_topic e)" "st_descriptor (sn_objects s1 k) = ep_message e"
      and res: "(if \<not> shm_gone (sn_objects s1 k) then (Inr k, s1)
        else open_new_topic open_segment fresh e writer (s1\<lparr>sn_topics := omap_erase ?key (sn_topics s1)\<rparr>)) = (Inr h, s')"
      using assms(1) op Some by (auto simp: GetOrOpenTopic_def Let_def s1_def [symmetric] split: if_splits)
    show ?thesis
    proof (cases "shm_gone (sn_objects s1 k)")
      case True
      let ?s = "s1\<lparr>sn_topics := omap_erase ?key (sn_topics s1)\<rparr>"
      have "omap_ok (sn_topics ?s)" "omap_find (sn_topics ?s) ?key = None" using ok by (simp_all add: omap_ok_erase omap_find_erase)
      from open_new_topic_Inr [OF _ this] res True op show ?thesis by (auto simp: shm_gone_def)
    next
      case False
      then show ?thesis using res kind alive Some op by auto
    qed
  qed
qed

text \<open>Of the valid segments, only those that no live process is attached to are removed.\<close>

lemma remove_all_unused: "remove_all remove gs = (res, called) \<Longrightarrow> n \<in> set called \<Longrightarrow> \<exists>g \<in> set gs. gi_object_name g = n \<and> gi_state g \<noteq> SegInUse"
  by (induction gs arbitrary: res called) (fastforce simp: Let_def split: if_splits prod.splits)+

lemma describe_all_Inr:
  "describe_all os_alive inspect names = Inr gs \<Longrightarrow> g \<in> set gs \<Longrightarrow> \<exists>n \<in> set names. \<exists>insp. inspect n = Inr insp \<and> g = Describe os_alive n insp"
  by (induction names arbitrary: gs) (fastforce split: sum.splits if_splits)+

lemma Describe_in_use:
  "in_state insp = InspValid \<Longrightarrow> gi_state (Describe os_alive n insp) \<noteq> SegInUse \<longleftrightarrow> (\<forall>p \<in> set (in_participants insp). \<not> IsProcessAlive os_alive p)"
  by (auto simp: Describe_def Let_def filter_empty_conv)

lemma segments_in_use_are_kept:
  assumes "RemoveUnusedSegments os_alive inspect remove names = (res, called)" "n \<in> set called"
    "inspect n = Inr insp" "in_state insp = InspValid"
  shows "\<forall>p \<in> set (in_participants insp). \<not> IsProcessAlive os_alive p"
proof -
  obtain gs where gs: "ListSegments os_alive inspect names = Inr gs" "remove_all remove gs = (res, called)"
    using assms(1,2) by (auto simp: RemoveUnusedSegments_def split: sum.splits)
  from remove_all_unused [OF gs(2) assms(2)] obtain g where g: "g \<in> set gs" "gi_object_name g = n" "gi_state g \<noteq> SegInUse" by blast
  from gs(1) obtain ns where "describe_all os_alive inspect ns = Inr gs" by (auto simp: ListSegments_def)
  from describe_all_Inr [OF this g(1)] obtain m insp' where m: "inspect m = Inr insp'" "g = Describe os_alive m insp'" by blast
  have "gi_object_name (Describe os_alive m insp') = m"
    by (cases "in_state insp'") (simp_all add: Describe_def empty_info_def Let_def)
  with m g(2) have "m = n" by simp
  with m assms(3,4) g(3) Describe_in_use [of insp os_alive n] show ?thesis by simp
qed

section \<open>The end of a topic\<close>

text \<open>
  A process removes the name of a segment at most once and never that of a shared topic; a reader-owned topic that has lost its
  readers in this process is retired and has lost its name, and no writer of it succeeds from then on.
\<close>

definition life_ok :: "topic_life \<Rightarrow> bool" where
  "life_ok t \<longleftrightarrow> (tl_readers t \<noteq> [] \<longrightarrow> tl_had_reader t)
     \<and> (tl_retired_by_me t \<longrightarrow> tl_retired t \<and> tl_had_reader t \<and> tl_reader_owned t \<and> tl_removals t = 1)
     \<and> (\<not> tl_retired_by_me t \<and> (tl_had_reader t \<or> \<not> tl_closed t \<or> \<not> tl_reader_owned t) \<longrightarrow> tl_removals t = 0)
     \<and> tl_removals t \<le> 1
     \<and> (tl_closed t \<longrightarrow> tl_readers t = [] \<and> \<not> tl_dispatcher t \<and> \<not> tl_participant t)
     \<and> (tl_reader_owned t \<and> tl_had_reader t \<and> tl_readers t = [] \<longrightarrow> tl_retired_by_me t)"

lemma Committed_same: "Committed seq1 t = (st, t') \<Longrightarrow> t' = t \<or> t' = t\<lparr>tl_wakes := tl_wakes t + 1\<rparr>"
  by (auto simp: Committed_def split: sum.splits)

lemma publish_same:
  "TopicState_Publish name valid seq1 t = (st, t') \<Longrightarrow> t' = t \<or> t' = t\<lparr>tl_wakes := tl_wakes t + 1\<rparr>"
  "TopicState_PublishWith name has_fill seq1 t = (st, t') \<Longrightarrow> t' = t \<or> t' = t\<lparr>tl_wakes := tl_wakes t + 1\<rparr>"
  by (auto simp: TopicState_Publish_def TopicState_PublishWith_def Let_def dest: Committed_same split: if_splits)

lemma life_ok_wakes: "life_ok (t\<lparr>tl_wakes := w\<rparr>) \<longleftrightarrow> life_ok t"
  unfolding life_ok_def by simp

lemma life_okI:
  assumes "tl_readers t \<noteq> [] \<Longrightarrow> tl_had_reader t"
    "tl_retired_by_me t \<Longrightarrow> tl_retired t \<and> tl_had_reader t \<and> tl_reader_owned t \<and> tl_removals t = 1"
    "\<not> tl_retired_by_me t \<Longrightarrow> tl_had_reader t \<or> \<not> tl_closed t \<or> \<not> tl_reader_owned t \<Longrightarrow> tl_removals t = 0"
    "tl_removals t \<le> 1"
    "tl_closed t \<Longrightarrow> tl_readers t = [] \<and> \<not> tl_dispatcher t \<and> \<not> tl_participant t"
    "tl_reader_owned t \<Longrightarrow> tl_had_reader t \<Longrightarrow> tl_readers t = [] \<Longrightarrow> tl_retired_by_me t"
  shows "life_ok t"
  unfolding life_ok_def using assms by (intro conjI impI) simp_all

lemma life_okD:
  assumes "life_ok t"
  shows "tl_readers t \<noteq> [] \<Longrightarrow> tl_had_reader t"
    "tl_retired_by_me t \<Longrightarrow> tl_retired t \<and> tl_had_reader t \<and> tl_reader_owned t \<and> tl_removals t = 1"
    "\<not> tl_retired_by_me t \<Longrightarrow> tl_had_reader t \<or> \<not> tl_closed t \<or> \<not> tl_reader_owned t \<Longrightarrow> tl_removals t = 0"
    "tl_removals t \<le> 1"
    "tl_closed t \<Longrightarrow> tl_readers t = [] \<and> \<not> tl_dispatcher t \<and> \<not> tl_participant t"
    "tl_reader_owned t \<Longrightarrow> tl_had_reader t \<Longrightarrow> tl_readers t = [] \<Longrightarrow> tl_retired_by_me t"
  using assms unfolding life_ok_def by blast+

lemma AddReader_ok:
  assumes ok: "life_ok t"
  shows "life_ok (snd (AddReader i t))"
proof (cases "tl_closed t")
  case True
  with ok show ?thesis by (simp add: AddReader_def)
next
  case False
  have "life_ok (t\<lparr>tl_readers := tl_readers t @ [i], tl_had_reader := True, tl_dispatcher := True\<rparr>)"
    by (rule life_okI) (use False life_okD(2,3,4) [OF ok] in simp_all)
  with False show ?thesis by (simp add: AddReader_def)
qed

lemma RetireOnce_ok:
  assumes "tl_reader_owned t" "tl_had_reader t" "tl_retired_by_me t \<longrightarrow> tl_retired t \<and> tl_removals t = 1"
    "\<not> tl_retired_by_me t \<longrightarrow> tl_removals t = 0"
    "tl_closed t \<longrightarrow> tl_readers t = [] \<and> \<not> tl_dispatcher t \<and> \<not> tl_participant t"
  shows "life_ok (RetireOnce t)"
  using assms by (cases "tl_retired_by_me t") (simp_all add: RetireOnce_def life_ok_def)

lemma RemoveReader_ok:
  assumes ok: "life_ok t" and had: "tl_had_reader t"
  shows "life_ok (RemoveReader i t)"
proof (cases "removeAll i (tl_readers t) = [] \<and> tl_reader_owned t")
  case True
  have "life_ok (RetireOnce (t\<lparr>tl_readers := []\<rparr>))"
    by (rule RetireOnce_ok) (use True had life_okD(2,3,5) [OF ok] in simp_all)
  with True show ?thesis by (simp add: RemoveReader_def Let_def)
next
  case False
  have "life_ok (t\<lparr>tl_readers := removeAll i (tl_readers t)\<rparr>)"
    by (rule life_okI) (use False had life_okD(2,3,4,5) [OF ok] in simp_all)
  with False show ?thesis by (auto simp: RemoveReader_def Let_def)
qed

lemma Close_ok:
  assumes ok: "life_ok t"
  shows "life_ok (TopicState_Close live t)"
proof -
  have had: "tl_had_reader t" if "tl_readers t \<noteq> []" using that ok by (rule life_okD(1) [rotated])
  consider (closed) "tl_closed t" | (shared) "\<not> tl_closed t" "\<not> tl_reader_owned t"
    | (writers) "\<not> tl_closed t" "tl_reader_owned t" "tl_readers t = []" "\<not> tl_had_reader t"
    | (readers) "\<not> tl_closed t" "tl_reader_owned t" "tl_had_reader t"
    using had by blast
  then show ?thesis
  proof cases
    case closed
    with ok show ?thesis by (simp add: TopicState_Close_def)
  next
    case shared
    then have "\<not> tl_retired_by_me t" "tl_removals t = 0" using ok by (blast dest: life_okD)+
    with shared show ?thesis by (simp add: TopicState_Close_def Let_def life_ok_def)
  next
    case writers
    then have "\<not> tl_retired_by_me t" "tl_removals t = 0" using ok by (blast dest: life_okD)+
    with writers show ?thesis by (simp add: TopicState_Close_def Let_def life_ok_def)
  next
    case readers
    then have "tl_retired_by_me t \<longrightarrow> tl_retired t \<and> tl_removals t = 1" "\<not> tl_retired_by_me t \<longrightarrow> tl_removals t = 0"
      using ok by (blast dest: life_okD)+
    with readers show ?thesis by (simp add: TopicState_Close_def Let_def RetireOnce_ok)
  qed
qed

lemma life_ok_step: "life_ok t \<Longrightarrow> life_of_topic t t' \<Longrightarrow> life_ok t'"
proof (rotate_tac, induction rule: life_of_topic.induct)
  case (add i t st t')
  then show ?case using AddReader_ok [of t i] by simp
next
  case (remove t i)
  then show ?case by (simp add: RemoveReader_ok)
next
  case (publish name valid seq1 t st t')
  then show ?case using publish_same(1) [OF publish(1)] by (elim disjE) (simp_all add: life_ok_wakes)
next
  case (publish_with name has_fill seq1 t st t')
  then show ?case using publish_same(2) [OF publish_with(1)] by (elim disjE) (simp_all add: life_ok_wakes)
next
  case (close t live)
  then show ?case by (simp add: Close_ok)
next
  case (retired_elsewhere t)
  show ?case by (rule life_okI) (use life_okD [OF retired_elsewhere] in simp_all)
qed

interpretation life: transition_system "\<lambda>t. \<exists>b. t = open_topic b" life_of_topic life_ok
proof
  show "life_ok t" if "\<exists>b. t = open_topic b" for t
    using that by (elim exE) (simp add: open_topic_def life_ok_def)
qed (rule life_ok_step)

lemma name_removed_once:
  assumes "life_of_topic\<^sup>*\<^sup>* (open_topic b) t"
  shows "tl_removals t \<le> 1" "\<not> tl_reader_owned t \<Longrightarrow> tl_removals t = 0"
proof -
  have ok: "life_ok t" using life.inv_reachable assms by blast
  then show "tl_removals t \<le> 1" unfolding life_ok_def by blast
  show "\<not> tl_reader_owned t \<Longrightarrow> tl_removals t = 0" using ok unfolding life_ok_def by blast
qed

lemma readers_gone:
  assumes "life_of_topic\<^sup>*\<^sup>* (open_topic b) t" "tl_reader_owned t" "tl_had_reader t" "tl_readers t = []"
  shows "tl_retired t" "tl_removals t = 1"
proof -
  have ok: "life_ok t" using life.inv_reachable assms(1) by blast
  show "tl_retired t" "tl_removals t = 1" using ok assms(2-) by (blast dest: life_okD)+
qed

lemma writers_fail_after_last_reader:
  assumes "life_of_topic\<^sup>*\<^sup>* (open_topic b) t" "tl_reader_owned t" "tl_had_reader t" "tl_readers t = []"
  shows "\<not> status_ok (fst (TopicState_Publish name valid seq1 t)) \<and> snd (TopicState_Publish name valid seq1 t) = t"
    "\<not> status_ok (fst (TopicState_PublishWith name has_fill seq1 t)) \<and> snd (TopicState_PublishWith name has_fill seq1 t) = t"
proof -
  have bad: "\<not> status_ok (publish_guard name t)"
    using readers_gone(1) [OF assms] assms(2) by (simp add: publish_guard_def topic_gone_def)
  show "\<not> status_ok (fst (TopicState_Publish name valid seq1 t)) \<and> snd (TopicState_Publish name valid seq1 t) = t"
    using bad by (simp add: TopicState_Publish_def and_then_def)
  show "\<not> status_ok (fst (TopicState_PublishWith name has_fill seq1 t)) \<and> snd (TopicState_PublishWith name has_fill seq1 t) = t"
    using bad by (simp add: TopicState_PublishWith_def and_then_def)
qed

end
