(* ===== verification/Spec2Isabelle.thy ===== *)
theory Spec2Isabelle
  imports Inmemory_Properties Portable_Codec Service_Server Scheduler_Runs Recording_Properties
    Shm_Properties Shm_Participants Configuration_Properties Application_Setup
    Supervisor_Properties Shm_Transport_Properties
begin

text \<open>
  \<^bold>\<open>PuppetMaster.\<close> A C++ library for component-based robotics processes. Components declare the topics they
  read and write, the services they call and serve and the triggers that make them run; a runtime context
  creates their endpoints on pluggable transports, a scheduler executes them on worker threads, services put
  request and reply on top of topics, codecs turn typed messages into bytes, and recordings keep topic data in
  files. This development models those parts and proves what makes each of them correct.

  \<^bold>\<open>Parts and theories.\<close>

  \<^item> \<open>PM_Prelude\<close>: machine types, \<open>std::map\<close> as ordered association lists (locale \<open>ordered_map\<close>), little-endian
    fields (locales \<open>field_codec\<close>, \<open>exact_reader\<close>) and transition systems (locale \<open>transition_system\<close>).
  \<^item> \<open>Core_Types\<close>: \<open>include/puppet_master/core\<close> (\<open>Status\<close>, \<open>Result\<close>, names, policies, topic, trigger and service
    specifications) and the value types of \<open>transport/message.h\<close> and \<open>transport/transport.h\<close>. \<open>Result<T>\<close> is
    \<^typ>\<open>status + 'a\<close>.
  \<^item> \<open>Message_Source\<close>, \<open>Inmemory_Transport\<close>, \<open>Inmemory_Runs\<close>, \<open>Inmemory_Order\<close>, \<open>Inmemory_Properties\<close>:
    \<open>src/transport/inmemory/inmemory_transport.cpp\<close>. The transport's objects live in one state (channels,
    mailboxes, endpoints by number); \<open>im_step\<close> interleaves publications that are in flight to different mailboxes
    with every other operation. Mailboxes keep their bound and their order, are lossless where their policy
    says so, a publication reaches every reader, reader-owned topics end with their reader, closing the
    transport ends every topic; two concurrent publications may be delivered out of order.
  \<^item> \<open>Portable_Codec\<close>: \<open>include/puppet_master/transport/portable_codec.h\<close>, sizer, writer, reader and codec over
    the field types it supports; the encoding is the wire format, decoding inverts it and accepts nothing else,
    except that a vector of empty elements does not read back.
  \<^item> \<open>Service_Protocol\<close>, \<open>Service_Client\<close>, \<open>Service_Server\<close>: \<open>include/puppet_master/service/service.h\<close> and
    \<open>src/service/service.cpp\<close>: the wire header, the endpoints of a service, the client's calls, threads and
    close as a step relation, the server's pass over its requests, and a call from request to reply.
  \<^item> \<open>Component_Model\<close>: \<open>runtime/component.h\<close>, \<open>parameters.h\<close>, the registries; validation of specifications, exact
    conversion of integer parameters.
  \<^item> \<open>Runtime_Context\<close>: \<open>src/runtime/context.cpp\<close>: the transport table, the component lifecycle, the creation of
    endpoints, the queue-depth metric.
  \<^item> \<open>Scheduler_Triggers\<close>, \<open>Scheduler\<close>, \<open>Scheduler_Runs\<close>: \<open>src/scheduler/scheduler.cpp\<close>: which components are
    accepted, the task-trigger graph and its cycle check, the choice of the next event with aging, and the
    worker threads, callbacks, start and stop as the step relation \<open>sched_step\<close> over their critical sections.
  \<^item> \<open>Recording_Format\<close>, \<open>Recording_Properties\<close>: \<open>src/transport/recording.cpp\<close>: writer and reader of recordings; what was
    written reads back, also from a file that was cut off.
  \<^item> \<open>Shm_Segment\<close>, \<open>Shm_Layout\<close>, \<open>Shm_Seqlock\<close>, \<open>Shm_Properties\<close>, \<open>Shm_Participants\<close>:
    \<open>src/transport/shm/segment.cpp\<close>: the layout of a shared-memory segment, creating and attaching to it, the seqlock
    ring under any interleaving of a writer, its death and readers at the granularity of single accesses, and the
    participant table. The layout stays inside the segment, a reader returns only committed payloads and finds those that
    were not overwritten; releasing a participant slot can race with a new owner.

  \<^item> \<open>Configuration\<close>, \<open>Configuration_Valid\<close>, \<open>Configuration_Properties\<close>: \<open>include/puppet_master/configuration/configuration.h\<close>
    and \<open>src/configuration/configuration.cpp\<close>: the configuration of a project, its validation, the translation into
    specifications, registration and the creation of the scheduler. A valid project is registered and
    scheduled (unless a component has two triggers on one service), registration is all or nothing, and the topics of
    services never collide with each other or with the project's topics.
  \<^item> \<open>Application\<close>, \<open>Application_Properties\<close>, \<open>Application_Setup\<close>: \<open>src/configuration/application.cpp\<close>: the check of a system of
    several processes, and one process from \<open>Create\<close> to the end of \<open>Run\<close>. The check accepts exactly the systems in
    which every used topic and service has one provider and one contract; an application starts all of
    its components or none and leaves none running.
  \<^item> \<open>Supervisor\<close>, \<open>Supervisor_Properties\<close>: \<open>src/configuration/supervisor.cpp\<close> and the parts of \<open>system_manifest.cpp\<close> that do not read
    files: the restart policy, the rounds of supervision and the stop of a system of processes, as the step relation
    \<open>sup_step\<close> over everything processes, clock and stop requests may do. Restarts keep their limit and delay, no process is
    left behind, and the exit code can miss a failure.
  \<^item> \<open>Shm_Transport\<close>, \<open>Shm_Transport_Properties\<close>: \<open>src/transport/shm/shm_transport.cpp\<close>: options and how they are read from a project,
    endpoint checks, the topic table, the dispatcher thread as the step relation \<open>dispatch_step\<close>, and the tools that list and remove
    segments. The dispatcher loses no wake-up; all topics of a service get the geometry of its settings. The life of a topic from
    opening to closing is the step relation \<open>life_of_topic\<close>: the name of a segment is removed at most once, that of a
    shared topic never, and writers of a reader-owned topic fail once its last reader is gone.

  \<^bold>\<open>Conventions.\<close> A class with a mutex is a record, and each critical section one function on it; where
  the order of critical sections of several threads matters they are the steps of a relation, and invariants
  hold in all reachable states by the locale \<open>transition_system\<close>. Errors are values. Counters that wrap keep
  their width (\<^typ>\<open>64 word\<close>, \<^typ>\<open>32 word\<close>); durations and time points are integers with the range of
  \<open>std::int64_t\<close> stated where it matters. What comes from outside (clock readings, random ids, the outcome of
  a callback, user code, a transport behind the abstract interface, the room on a device) is an argument.

  \<^bold>\<open>Termination and bounds.\<close> No fuel is used. Loops over data are structural; reading records of a file comes with a
  measure; the cycle check \<open>kahn\<close> is a partial function into an option, proved to return on every input. Loops that
  wait for another thread are steps of a relation, so that waiting is not a computation; the liveness properties
  say when a wait ends. Theorems that count messages assume fewer than \<open>2 ^ 64\<close> (or the width at hand) of them.

  \<^bold>\<open>Plan.\<close> Next: the life of a shared-memory topic joined with the model of its segment, and the threads of the service server.

  \<^bold>\<open>Not modelled.\<close> The platform layer (\<open>src/transport/shm/platform_*.cpp\<close>) and the supervisor's process classes are
  system calls; the Fast DDS transport, the JSON loader and the decoding of manifests wrap third-party libraries
  that are not in the repository; the typed endpoints are templates that compose modelled parts; logging, observability exporters, the compatibility facade
  and the tools are output and glue. Of the scheduler, the observer records and the executor call itself are left
  out, of the runtime context the observed reader and writer wrappers, of the services the server's two threads,
  of the segment \<open>Inspect\<close> and \<open>ReadNewest\<close>, of its transport the read loop and reading the newest message, and that participants are exclusive apart from the race above, of the
  application the signal handlers and the printed summary. The memory model is sequentially consistent at the
  granularity of critical sections.
\<close>

end
